(* ===== verification/C_Prelude.thy ===== *)
theory C_Prelude
  imports Main "HOL-Library.Monad_Syntax" "HOL-Library.Signed_Division" "HOL-Library.Word"
begin

text \<open>
  Shared vocabulary of the development.

  A C function that may abort or run into undefined behaviour returns an \<open>option\<close>:
  \<open>None\<close> means that an \<open>assert\<close> failed, a NULL or freed pointer was read, an array was
  accessed outside its bounds, or an integer was divided by zero. Return codes, NULL results and
  out parameters are ordinary values inside \<open>Some\<close>. The \<open>do\<close> notation of
  \<open>Monad_Syntax\<close> sequences such functions.

  The theory holds the primitives that every component shares (assertions, array reads and
  writes, the C remainder, loops over an array), the lemma collections of the development and the
  generic facts on lists, options and words that the component proofs rest on.
\<close>

unbundle bit_operations_syntax

named_theorems c_defs \<open>definitions of the C primitives\<close>
named_theorems frame \<open>fields an operation leaves alone\<close>

type_synonym u8 = "8 word"
type_synonym u32 = "32 word"
type_synonym u64 = "64 word"
type_synonym ptr = "nat option" \<comment> \<open>NULL is \<open>None\<close>\<close>

section \<open>Primitives\<close>

definition c_assert :: "bool \<Rightarrow> unit option" where
  "c_assert b = (if b then Some () else None)"

definition mem_read :: "'a list \<Rightarrow> int \<Rightarrow> 'a option" where
  "mem_read xs i = (if 0 \<le> i \<and> i < int (length xs) then Some (xs ! nat i) else None)"

definition mem_write :: "'a list \<Rightarrow> int \<Rightarrow> 'a \<Rightarrow> 'a list option" where
  "mem_write xs i x = (if 0 \<le> i \<and> i < int (length xs) then Some (xs[nat i := x]) else None)"

text \<open>C's remainder: it truncates towards zero and is undefined for a zero divisor.\<close>

definition c_rem :: "int \<Rightarrow> int \<Rightarrow> int option" where
  "c_rem a b = (if b = 0 then None else Some (a smod b))"

text \<open>A \<open>for\<close> loop over the elements of an array, threading the state.\<close>

fun for_each :: "('a \<Rightarrow> 's \<Rightarrow> 's option) \<Rightarrow> 'a list \<Rightarrow> 's \<Rightarrow> 's option" where
  "for_each f [] s = Some s"
| "for_each f (x # xs) s = do { s \<leftarrow> f x s; for_each f xs s }"

section \<open>Facts on the primitives\<close>

lemma c_assert_Some [simp]: "c_assert b = Some u \<longleftrightarrow> b"
  by (simp add: c_assert_def)

lemma c_assert_None [simp]: "c_assert b = None \<longleftrightarrow> \<not> b"
  by (simp add: c_assert_def)

lemma c_assert_True [simp]: "c_assert True = Some ()"
  by (simp add: c_assert_def)

lemma c_assert_False [simp]: "c_assert False = None"
  by (simp add: c_assert_def)

lemma c_assert_bind: "(do { c_assert b; m }) = (if b then m else None)"
  by (simp add: c_assert_def)

text \<open>Taking a successful sequence of operations apart, one step at a time.\<close>

lemma bind_SomeE:
  assumes "Option.bind m f = Some y"
  obtains x where "m = Some x" "f x = Some y"
  using assms by (cases m) auto

lemma mem_read_Some:
  "mem_read xs i = Some x \<longleftrightarrow> 0 \<le> i \<and> i < int (length xs) \<and> x = xs ! nat i"
  by (auto simp: mem_read_def)

lemma mem_read_int [simp]: "i < length xs \<Longrightarrow> mem_read xs (int i) = Some (xs ! i)"
  by (simp add: mem_read_def)

lemma mem_read_ok: "0 \<le> i \<Longrightarrow> i < int (length xs) \<Longrightarrow> mem_read xs i = Some (xs ! nat i)"
  by (simp add: mem_read_def)

lemma mem_write_Some:
  "mem_write xs i x = Some ys \<longleftrightarrow> 0 \<le> i \<and> i < int (length xs) \<and> ys = xs[nat i := x]"
  by (auto simp: mem_write_def)

lemma mem_write_ok:
  "0 \<le> i \<Longrightarrow> i < int (length xs) \<Longrightarrow> mem_write xs i x = Some (xs[nat i := x])"
  by (simp add: mem_write_def)

lemma mem_write_read_same: "mem_write xs i x = Some ys \<Longrightarrow> mem_read ys i = Some x"
  by (auto simp: mem_write_Some mem_read_def)

lemma mem_write_read_other:
  "mem_write xs i x = Some ys \<Longrightarrow> i \<noteq> j \<Longrightarrow> mem_read ys j = mem_read xs j"
  by (auto simp: mem_write_Some mem_read_def nat_eq_iff2)

lemma smod_nonneg_less: "0 \<le> a \<Longrightarrow> a < b \<Longrightarrow> a smod b = (a :: int)"
  by (cases "a = 0") (simp_all add: signed_modulo_int_def)

lemma smod_pos_mod: "0 \<le> a \<Longrightarrow> 0 < b \<Longrightarrow> a smod b = a mod (b :: int)"
  by (cases "a = 0") (simp_all add: signed_modulo_int_def)

lemma sdiv_pos_div: "0 \<le> a \<Longrightarrow> 0 < b \<Longrightarrow> a sdiv b = a div (b :: int)"
  by (cases "a = 0") (simp_all add: signed_divide_int_def)

lemma for_each_append:
  "for_each f (xs @ ys) s = do { s \<leftarrow> for_each f xs s; for_each f ys s }"
  by (induction xs arbitrary: s) (auto split: Option.bind_splits)

text \<open>A loop keeps what its body keeps, and it runs to its end where its body does.\<close>

lemma for_each_inv:
  assumes "for_each f xs s = Some s'" and "P s"
    and "\<And>x t t'. x \<in> set xs \<Longrightarrow> P t \<Longrightarrow> f x t = Some t' \<Longrightarrow> P t'"
  shows "P s'"
  using assms
proof (induction xs arbitrary: s)
  case Nil
  then show ?case by simp
next
  case (Cons x xs)
  from Cons.prems(1) obtain t where t: "f x s = Some t" "for_each f xs t = Some s'"
    by (auto simp: bind_eq_Some_conv)
  have "P t" using Cons.prems(2,3) t(1) by auto
  with t(2) show ?case
    by (rule Cons.IH) (meson Cons.prems(3) list.set_intros(2))
qed

lemma for_each_total:
  assumes "P s" and "\<And>x t. x \<in> set xs \<Longrightarrow> P t \<Longrightarrow> \<exists>t'. f x t = Some t' \<and> P t'"
  shows "\<exists>s'. for_each f xs s = Some s' \<and> P s'"
  using assms
proof (induction xs arbitrary: s)
  case Nil
  then show ?case by simp
next
  case (Cons x xs)
  from Cons.prems obtain t where t: "f x s = Some t" "P t" by fastforce
  with Cons.IH [of t] Cons.prems(2) show ?case by auto
qed

section \<open>Facts on lists and sets\<close>

text \<open>How many elements satisfy a predicate, when one is replaced.\<close>

lemma length_filter_update:
  "i < length xs \<Longrightarrow>
     length (filter P (xs[i := y])) + of_bool (P (xs ! i)) = length (filter P xs) + of_bool (P y)"
proof (induction xs arbitrary: i)
  case (Cons x xs)
  then show ?case by (cases i) auto
qed simp

lemma list_all_update [simp]: "list_all P xs \<Longrightarrow> P y \<Longrightarrow> list_all P (xs[i := y])"
  by (auto simp: list_all_iff dest!: set_update_subset_insert [THEN subsetD])

lemma take_nth_append: "i < n \<Longrightarrow> n \<le> length xs \<Longrightarrow> (take n xs @ ys) ! i = xs ! i"
  by (simp add: nth_append)

lemma map_nth_upt: "n \<le> length xs \<Longrightarrow> map (\<lambda>k. xs ! k) [0..<n] = take n xs"
  by (rule nth_equalityI) auto

lemma take_Suc_update: "k < length xs \<Longrightarrow> take (Suc k) (xs[k := x]) = take k xs @ [x]"
  by (simp add: take_Suc_conv_app_nth)

lemma length_filter_card: "distinct xs \<Longrightarrow> length (filter P xs) = card {x \<in> set xs. P x}"
  by (metis distinct_card distinct_filter set_filter)

text \<open>Two majorities of a finite set meet.\<close>

lemma majorities_meet:
  assumes "finite U" and "A \<subseteq> U" and "B \<subseteq> U"
    and "card U div 2 < card A" and "card U div 2 < card B"
  shows "\<exists>x. x \<in> A \<and> x \<in> B"
proof (rule ccontr)
  assume "\<not> (\<exists>x. x \<in> A \<and> x \<in> B)"
  then have "A \<inter> B = {}" by auto
  then have "card (A \<union> B) = card A + card B"
    using assms(1-3) by (meson card_Un_disjoint finite_subset)
  moreover have "card (A \<union> B) \<le> card U"
    using assms(1-3) by (simp add: card_mono)
  ultimately show False using assms(4,5) by linarith
qed

end
