(* ===== verification/Raft_Types.thy ===== *)
theory Raft_Types
  imports C_Prelude
begin

text \<open>
  Data types of the Raft library (\<open>module/raft/include/raft.h\<close>): the enumerations, log
  entries, the six messages and the callback table, and the events by which the model records what
  the library hands to its callbacks.

  Signed \<open>int\<close> fields are HOL integers (the library never relies on wrap-around, which is
  undefined for \<open>int\<close>); \<open>unsigned int\<close> fields are 32-bit words, and every comparison or
  assignment between the two kinds is written with the conversion C performs
  (\<open>word_of_int\<close> for int to unsigned, \<open>sint\<close> for unsigned to int).
\<close>

section \<open>Enumerations\<close>

datatype raft_state_e =
    RAFT_STATE_NONE
  | RAFT_STATE_FOLLOWER
  | RAFT_STATE_CANDIDATE
  | RAFT_STATE_LEADER

datatype raft_logtype_e =
    RAFT_LOGTYPE_NORMAL
  | RAFT_LOGTYPE_ADD_NONVOTING_NODE
  | RAFT_LOGTYPE_ADD_NODE
  | RAFT_LOGTYPE_REMOVE_NODE
  | RAFT_LOGTYPE_NUM

text \<open>The \<open>type\<close> field of an entry is a plain \<open>int\<close>; the enumerators have these values.\<close>

primrec logtype_code :: "raft_logtype_e \<Rightarrow> int" where
  "logtype_code RAFT_LOGTYPE_NORMAL = 0"
| "logtype_code RAFT_LOGTYPE_ADD_NONVOTING_NODE = 1"
| "logtype_code RAFT_LOGTYPE_ADD_NODE = 2"
| "logtype_code RAFT_LOGTYPE_REMOVE_NODE = 3"
| "logtype_code RAFT_LOGTYPE_NUM = 4"

section \<open>Entries and messages\<close>

record raft_entry_data =
  data_buf :: ptr
  data_len :: u32

record raft_entry =
  ety_term :: u32
  ety_id :: u32
  ety_type :: int
  ety_data :: raft_entry_data

record msg_entry_response =
  mer_id :: u32
  mer_term :: int
  mer_idx :: int

record msg_requestvote =
  rv_term :: int
  rv_candidate_id :: int
  rv_last_log_idx :: int
  rv_last_log_term :: int

record msg_requestvote_response =
  rvr_term :: int
  rvr_vote_granted :: int

record msg_appendentries =
  ae_term :: int
  ae_prev_log_idx :: int
  ae_prev_log_term :: int
  ae_leader_commit :: int
  ae_n_entries :: int
  ae_entries :: "raft_entry list" \<comment> \<open>the array the pointer addresses\<close>

record msg_appendentries_response =
  aer_term :: int
  aer_success :: int
  aer_current_idx :: int
  aer_first_idx :: int

text \<open>What \<open>calloc\<close> leaves in an array slot.\<close>

definition zero_entry :: raft_entry where
  "zero_entry = \<lparr>ety_term = 0, ety_id = 0, ety_type = 0,
     ety_data = \<lparr>data_buf = None, data_len = 0\<rparr>\<rparr>"

definition raft_entry_is_voting_cfg_change :: "raft_entry \<Rightarrow> bool" where
  "raft_entry_is_voting_cfg_change ety =
     (logtype_code RAFT_LOGTYPE_ADD_NODE = ety_type ety \<or>
      logtype_code RAFT_LOGTYPE_REMOVE_NODE = ety_type ety)"

definition raft_entry_is_cfg_change :: "raft_entry \<Rightarrow> bool" where
  "raft_entry_is_cfg_change ety =
     (logtype_code RAFT_LOGTYPE_ADD_NODE = ety_type ety \<or>
      logtype_code RAFT_LOGTYPE_ADD_NONVOTING_NODE = ety_type ety \<or>
      logtype_code RAFT_LOGTYPE_REMOVE_NODE = ety_type ety)"

section \<open>Callbacks\<close>

text \<open>
  The callbacks are code of the application. Their return values are never read, so of a callback
  the model keeps whether it is set and records each call as an event. \<open>log_offer\<close> is called
  with a pointer to the entry before the entry is copied into the log and may rewrite it (its
  documentation allows it to change the entry's data), so it is a function on entries and index.
  Callbacks do not call back into the library.
\<close>

record raft_cbs =
  cb_send_requestvote :: bool
  cb_send_appendentries :: bool
  cb_applylog :: bool
  cb_persist_vote :: bool
  cb_persist_term :: bool
  cb_log_offer :: "(raft_entry \<Rightarrow> int \<Rightarrow> raft_entry) option"
  cb_log_poll :: bool
  cb_log_pop :: bool
  cb_node_has_sufficient_logs :: bool

definition no_cbs :: raft_cbs where
  "no_cbs = \<lparr>cb_send_requestvote = False, cb_send_appendentries = False, cb_applylog = False,
     cb_persist_vote = False, cb_persist_term = False, cb_log_offer = None, cb_log_poll = False,
     cb_log_pop = False, cb_node_has_sufficient_logs = False\<rparr>"

datatype raft_event =
    EvSendRequestvote nat msg_requestvote
  | EvSendAppendentries nat msg_appendentries
  | EvApplylog raft_entry
  | EvPersistVote int
  | EvPersistTerm int
  | EvLogOffer raft_entry int
  | EvLogPoll raft_entry int
  | EvLogPop raft_entry int
  | EvNodeHasSufficientLogs nat

text \<open>The documented contract of \<open>log_offer\<close>: it keeps everything but the data.\<close>

definition offer_keeps_meta :: "raft_cbs \<Rightarrow> bool" where
  "offer_keeps_meta c = (case cb_log_offer c of None \<Rightarrow> True
     | Some f \<Rightarrow> (\<forall>e i. ety_term (f e i) = ety_term e \<and> ety_id (f e i) = ety_id e \<and>
                      ety_type (f e i) = ety_type e))"

lemma no_cbs_offer_keeps_meta [simp]: "offer_keeps_meta no_cbs"
  by (simp add: offer_keeps_meta_def no_cbs_def)

end
