(* ===== verification/Raft_Log.thy ===== *)
theory Raft_Log
  imports Raft_Types
begin

text \<open>
  The replicated log (\<open>module/raft/src/raft_log.c\<close>): a heap array used as a ring, with
  \<open>front\<close>, \<open>back\<close>, \<open>count\<close> and a base index. Operations return, beside their C result,
  the new log and the callback events they cause.

  \<open>log_list\<close> reads the ring as a list; the locale \<open>replicated_log\<close> states what the
  Raft server relies on (append, lookup by 1-based index, truncation), and the interpretation
  \<open>rl\<close> discharges it for the code on logs that were never polled, which are the ones the
  server has.
\<close>

section \<open>Model\<close>

record raft_log =
  lsize :: int
  lcount :: int
  lfront :: int
  lback :: int
  lbase :: int
  lentries :: "raft_entry list"
  lcb :: "raft_cbs option"

definition INITIAL_CAPACITY :: int where
  "INITIAL_CAPACITY = 10"

fun ensure_copy ::
    "raft_entry list \<Rightarrow> int \<Rightarrow> nat \<Rightarrow> int \<Rightarrow> int \<Rightarrow> raft_entry list \<Rightarrow> raft_entry list option" where
  "ensure_copy ents sz 0 i j temp = Some temp"
| "ensure_copy ents sz (Suc n) i j temp =
     (let j = (if j = sz then 0 else j) in
      do { e \<leftarrow> mem_read ents j;
           temp \<leftarrow> mem_write temp i e;
           ensure_copy ents sz n (i + 1) (j + 1) temp })"

definition ensurecapacity :: "raft_log \<Rightarrow> raft_log option" where
  "ensurecapacity me =
     (if lcount me < lsize me then Some me
      else do {
        temp \<leftarrow> ensure_copy (lentries me) (lsize me) (nat (lcount me)) 0 (lfront me)
                  (replicate (nat (lsize me * 2)) zero_entry);
        Some (me\<lparr>lsize := lsize me * 2, lentries := temp, lfront := 0, lback := lcount me\<rparr>) })"

definition log_new :: raft_log where
  "log_new = \<lparr>lsize = INITIAL_CAPACITY, lcount = 0, lfront = 0, lback = 0, lbase = 0,
     lentries = replicate (nat INITIAL_CAPACITY) zero_entry, lcb = None\<rparr>"

definition log_set_callbacks :: "raft_log \<Rightarrow> raft_cbs \<Rightarrow> raft_log" where
  "log_set_callbacks me funcs = me\<lparr>lcb := Some funcs\<rparr>"

definition log_offer_of :: "raft_log \<Rightarrow> (raft_entry \<Rightarrow> int \<Rightarrow> raft_entry) option" where
  "log_offer_of me = (case lcb me of None \<Rightarrow> None | Some c \<Rightarrow> cb_log_offer c)"

definition log_append_entry :: "raft_log \<Rightarrow> raft_entry \<Rightarrow> (int \<times> raft_log \<times> raft_event list) option" where
  "log_append_entry me c =
     (if ety_id c = 0 then Some (-1, me, [])
      else do {
        me \<leftarrow> ensurecapacity me;
        let (c, ev) = (case log_offer_of me of None \<Rightarrow> (c, [])
                       | Some f \<Rightarrow> (f c (lback me), [EvLogOffer c (lback me)]));
        ents \<leftarrow> mem_write (lentries me) (lback me) c;
        Some (0, me\<lparr>lentries := ents, lcount := lcount me + 1, lback := lback me + 1\<rparr>, ev) })"

definition log_get_from_idx :: "raft_log \<Rightarrow> int \<Rightarrow> (raft_entry list \<times> int) option option" where
  "log_get_from_idx me idx = do {
     c_assert (0 \<le> idx - 1);
     if lbase me + lcount me < idx \<or> idx < lbase me then Some None
     else do {
       i \<leftarrow> c_rem (lfront me + (idx - 1) - lbase me) (lsize me);
       mem_read (lentries me) i;
       let n = (if i < lback me then lback me - i else lsize me - i);
       Some (Some (take (nat n) (drop (nat i) (lentries me)), n)) } }"

definition log_get_at_idx :: "raft_log \<Rightarrow> int \<Rightarrow> raft_entry option option" where
  "log_get_at_idx me idx = do {
     c_assert (0 \<le> idx - 1);
     if lbase me + lcount me < idx \<or> idx < lbase me then Some None
     else do {
       i \<leftarrow> c_rem (lfront me + (idx - 1) - lbase me) (lsize me);
       e \<leftarrow> mem_read (lentries me) i;
       Some (Some e) } }"

definition log_count :: "raft_log \<Rightarrow> int" where
  "log_count me = lcount me"

fun delete_loop :: "nat \<Rightarrow> raft_log \<Rightarrow> (raft_log \<times> raft_event list) option" where
  "delete_loop 0 me = Some (me, [])"
| "delete_loop (Suc n) me = do {
     ev \<leftarrow> (if (case lcb me of None \<Rightarrow> False | Some c \<Rightarrow> cb_log_pop c)
            then do { e \<leftarrow> mem_read (lentries me) (lback me - 1); Some [EvLogPop e (lback me)] }
            else Some []);
     (me, evs) \<leftarrow> delete_loop n (me\<lparr>lback := lback me - 1, lcount := lcount me - 1\<rparr>);
     Some (me, ev @ evs) }"

definition log_delete :: "raft_log \<Rightarrow> int \<Rightarrow> (raft_log \<times> raft_event list) option" where
  "log_delete me idx = delete_loop (nat (log_count me - (idx - 1 - lbase me))) me"

definition log_poll :: "raft_log \<Rightarrow> (raft_entry option \<times> raft_log \<times> raft_event list) option" where
  "log_poll me =
     (if log_count me = 0 then Some (None, me, [])
      else do {
        elem \<leftarrow> mem_read (lentries me) (lfront me);
        let ev = (if (case lcb me of None \<Rightarrow> False | Some c \<Rightarrow> cb_log_poll c)
                  then [EvLogPoll elem (lfront me)] else []);
        Some (Some elem, me\<lparr>lfront := lfront me + 1, lcount := lcount me - 1,
                            lbase := lbase me + 1\<rparr>, ev) })"

definition log_peektail :: "raft_log \<Rightarrow> raft_entry option option" where
  "log_peektail me =
     (if log_count me = 0 then Some None
      else do {
        e \<leftarrow> mem_read (lentries me) (if lback me = 0 then lsize me - 1 else lback me - 1);
        Some (Some e) })"

definition log_empty :: "raft_log \<Rightarrow> raft_log" where
  "log_empty me = me\<lparr>lfront := 0, lback := 0, lcount := 0\<rparr>"

definition log_get_current_idx :: "raft_log \<Rightarrow> int" where
  "log_get_current_idx me = log_count me + lbase me"

lemmas log_defs = log_append_entry_def log_get_from_idx_def log_get_at_idx_def log_count_def
  log_delete_def log_poll_def log_peektail_def log_empty_def log_get_current_idx_def

section \<open>Representation\<close>

definition log_wf :: "raft_log \<Rightarrow> bool" where
  "log_wf l \<longleftrightarrow> 0 < lsize l \<and> length (lentries l) = nat (lsize l) \<and> 0 \<le> lcount l \<and> 0 \<le> lfront l \<and>
     lback l = lfront l + lcount l \<and> lback l \<le> lsize l \<and> 0 \<le> lbase l"

definition log_list :: "raft_log \<Rightarrow> raft_entry list" where
  "log_list l = take (nat (lcount l)) (drop (nat (lfront l)) (lentries l))"

text \<open>A log whose oldest entry was never polled: the only kind the Raft server has.\<close>

definition log_unpolled :: "raft_log \<Rightarrow> bool" where
  "log_unpolled l \<longleftrightarrow> log_wf l \<and> lfront l = 0 \<and> lbase l = 0"

text \<open>What \<open>log_offer\<close> makes of an appended entry.\<close>

definition log_stored :: "raft_log \<Rightarrow> raft_entry \<Rightarrow> raft_entry" where
  "log_stored l c = (case log_offer_of l of None \<Rightarrow> c | Some f \<Rightarrow> f c (lback l))"

lemma log_wf_new [simp]: "log_wf log_new"
  by (simp add: log_wf_def log_new_def INITIAL_CAPACITY_def)

lemma log_unpolled_new [simp]: "log_unpolled log_new"
  by (simp add: log_unpolled_def) (simp add: log_new_def)

lemma log_list_new [simp]: "log_list log_new = []"
  by (simp add: log_list_def log_new_def)

lemma log_list_length: "log_wf l \<Longrightarrow> length (log_list l) = nat (lcount l)"
  by (auto simp: log_wf_def log_list_def)

lemma log_current_idx_unpolled:
  "log_unpolled l \<Longrightarrow> log_get_current_idx l = int (length (log_list l))"
  by (auto simp: log_unpolled_def log_list_length log_get_current_idx_def log_count_def log_wf_def)

lemma log_list_nth:
  "log_wf l \<Longrightarrow> i < length (log_list l) \<Longrightarrow> log_list l ! i = lentries l ! (nat (lfront l) + i)"
  by (auto simp: log_list_length log_list_def log_wf_def)

section \<open>Behaviour of the operations\<close>

lemma ensure_copy_straight:
  assumes "k + n \<le> length ents" and "length ents \<le> length temp"
  shows "ensure_copy ents (int (length ents)) n (int k) (int k) temp =
           Some (take k temp @ take n (drop k ents) @ drop (k + n) temp)"
  using assms
proof (induction n arbitrary: k temp)
  case 0
  then show ?case by simp
next
  case (Suc n)
  let ?temp = "temp[k := ents ! k]"
  have k: "k < length ents" "k < length temp" using Suc.prems by auto
  have tk: "take (Suc k) ?temp = take k temp @ [ents ! k]"
    using k by (simp add: take_Suc_conv_app_nth)
  have "ensure_copy ents (int (length ents)) n (int (Suc k)) (int (Suc k)) ?temp =
          Some (take (Suc k) ?temp @ take n (drop (Suc k) ents) @ drop (Suc k + n) ?temp)"
    by (rule Suc.IH) (use Suc.prems in auto)
  then show ?case
    using k tk Cons_nth_drop_Suc [OF k(1)]
    by (simp add: mem_read_ok mem_write_ok add.commute) (metis append_Cons take_Suc_Cons)
qed

text \<open>Growing the array keeps the content and makes room for one more entry.\<close>

lemma ensurecapacity_ok:
  assumes "log_wf l" and "lfront l = 0 \<or> lback l < lsize l"
  shows "\<exists>l'. ensurecapacity l = Some l' \<and> log_wf l' \<and> log_list l' = log_list l \<and>
           lback l' < lsize l' \<and> lcount l' = lcount l \<and> lbase l' = lbase l \<and> lcb l' = lcb l \<and>
           (lfront l = 0 \<longrightarrow> lfront l' = 0 \<and> lback l' = lback l)"
proof (cases "lcount l < lsize l")
  case True
  then show ?thesis using assms by (auto simp: ensurecapacity_def log_wf_def)
next
  case False
  with assms have l: "lfront l = 0" "lcount l = lsize l" "lback l = lsize l"
    by (auto simp: log_wf_def)
  define n where "n = length (lentries l)"
  have n: "lsize l = int n" "0 < n" using assms by (auto simp: log_wf_def n_def)
  have "ensure_copy (lentries l) (int n) n (int 0) (int 0) (replicate (nat (int n * 2)) zero_entry) =
          Some (take 0 (replicate (nat (int n * 2)) zero_entry) @ take n (drop 0 (lentries l)) @
                drop (0 + n) (replicate (nat (int n * 2)) zero_entry))"
    unfolding n_def by (rule ensure_copy_straight) (auto simp: nat_mult_distrib)
  then have "ensure_copy (lentries l) (int n) n 0 0 (replicate (nat (int n * 2)) zero_entry) =
          Some (lentries l @ replicate n zero_entry)"
    by (simp add: n_def nat_mult_distrib)
  with False l n assms(1) show ?thesis
    by (auto simp: ensurecapacity_def log_wf_def log_list_def n_def nat_mult_distrib)
qed

lemma log_append_ok:
  assumes "log_wf l" and "lfront l = 0 \<or> lback l < lsize l" and "ety_id c \<noteq> 0"
  shows "\<exists>l' c' ev. log_append_entry l c = Some (0, l', ev) \<and> log_wf l' \<and>
           log_list l' = log_list l @ [c'] \<and> lbase l' = lbase l \<and> lcb l' = lcb l \<and>
           (lfront l = 0 \<longrightarrow> lfront l' = 0 \<and> c' = log_stored l c)"
proof -
  from ensurecapacity_ok [OF assms(1,2)] obtain m where
    m: "ensurecapacity l = Some m" "log_wf m" "log_list m = log_list l" "lback m < lsize m"
       "lcount m = lcount l" "lbase m = lbase l" "lcb m = lcb l"
       "lfront l = 0 \<longrightarrow> lfront m = 0 \<and> lback m = lback l"
    by blast
  have b: "0 \<le> lback m" "nat (lback m) < length (lentries m)"
    using m(2,4) by (auto simp: log_wf_def)
  have lst: "log_list (m\<lparr>lentries := (lentries m)[nat (lback m) := x], lcount := lcount m + 1,
               lback := lback m + 1\<rparr>) = log_list m @ [x]" for x
  proof -
    have "nat (lback m) = nat (lfront m) + nat (lcount m)" "nat (lcount m + 1) = Suc (nat (lcount m))"
      using m(2) by (auto simp: log_wf_def nat_add_distrib)
    moreover from this have "nat (lcount m) < length (drop (nat (lfront m)) (lentries m))"
      using b by (simp add: less_diff_conv add.commute)
    ultimately show ?thesis using b
      by (simp add: log_list_def drop_update_swap take_Suc_update)
  qed
  show ?thesis using m b assms(3) lst
    by (auto simp: log_append_entry_def mem_write_ok log_offer_of_def log_stored_def log_wf_def
          Let_def split: option.splits)
qed

lemma log_append_zero_id: "ety_id c = 0 \<Longrightarrow> log_append_entry l c = Some (-1, l, [])"
  by (simp add: log_append_entry_def)

lemma log_get_at_idx_ok:
  assumes "log_wf l" and "lbase l < idx"
  shows "log_get_at_idx l idx =
           Some (if idx \<le> lbase l + lcount l then Some (log_list l ! nat (idx - lbase l - 1)) else None)"
proof (cases "idx \<le> lbase l + lcount l")
  case True
  let ?i = "lfront l + (idx - 1) - lbase l"
  have i: "0 \<le> ?i" "?i < lsize l" using True assms by (auto simp: log_wf_def)
  then have "?i smod lsize l = ?i" by (rule smod_nonneg_less)
  moreover have "log_list l ! nat (idx - lbase l - 1) = lentries l ! nat ?i"
    using True assms by (subst log_list_nth) (auto simp: log_wf_def log_list_length
        nat_add_distrib [symmetric] algebra_simps)
  ultimately show ?thesis using True i assms
    by (auto simp: log_get_at_idx_def c_rem_def mem_read_def log_wf_def)
next
  case False
  then show ?thesis using assms by (auto simp: log_get_at_idx_def log_wf_def)
qed

lemma log_get_from_idx_ok:
  assumes "log_wf l" and "lbase l < idx"
  shows "log_get_from_idx l idx =
           Some (if idx \<le> lbase l + lcount l
                 then Some (drop (nat (idx - lbase l - 1)) (log_list l), lbase l + lcount l - idx + 1)
                 else None)"
proof (cases "idx \<le> lbase l + lcount l")
  case True
  let ?i = "lfront l + (idx - 1) - lbase l"
  have i: "0 \<le> ?i" "?i < lback l" "lback l \<le> lsize l" using True assms by (auto simp: log_wf_def)
  then have "?i smod lsize l = ?i" by (intro smod_nonneg_less) auto
  moreover have "take (nat (lback l - ?i)) (drop (nat ?i) (lentries l)) =
                 drop (nat (idx - lbase l - 1)) (log_list l)"
  proof -
    have "nat ?i = nat (lfront l) + nat (idx - lbase l - 1)"
      "nat (lback l - ?i) = nat (lcount l) - nat (idx - lbase l - 1)"
      using True assms by (auto simp: log_wf_def)
    then show ?thesis by (simp add: log_list_def drop_take drop_drop add.commute)
  qed
  ultimately show ?thesis using True i assms
    by (auto simp: log_get_from_idx_def c_rem_def mem_read_def log_wf_def Let_def)
next
  case False
  then show ?thesis using assms by (auto simp: log_get_from_idx_def log_wf_def)
qed

lemma delete_loop_ok:
  assumes "log_wf l" and "int n \<le> lcount l"
  shows "\<exists>ev. delete_loop n l =
           Some (l\<lparr>lback := lback l - int n, lcount := lcount l - int n\<rparr>, ev)"
  using assms
proof (induction n arbitrary: l)
  case 0
  then show ?case by simp
next
  case (Suc n)
  let ?l = "l\<lparr>lback := lback l - 1, lcount := lcount l - 1\<rparr>"
  have "log_wf ?l" "int n \<le> lcount ?l" using Suc.prems by (auto simp: log_wf_def)
  from Suc.IH [OF this] obtain ev where
    "delete_loop n ?l = Some (?l\<lparr>lback := lback ?l - int n, lcount := lcount ?l - int n\<rparr>, ev)"
    by blast
  moreover have "0 \<le> lback l - 1" "lback l - 1 < int (length (lentries l))"
    using Suc.prems by (auto simp: log_wf_def)
  ultimately show ?case by (auto simp: mem_read_ok algebra_simps split: option.splits)
qed

lemma log_delete_ok:
  assumes "log_wf l" and "lbase l < idx"
  shows "\<exists>l' ev. log_delete l idx = Some (l', ev) \<and> log_wf l' \<and>
           log_list l' = take (nat (idx - lbase l - 1)) (log_list l) \<and>
           lbase l' = lbase l \<and> lfront l' = lfront l \<and> lcb l' = lcb l"
proof -
  define n where "n = nat (lcount l - (idx - 1 - lbase l))"
  have n: "int n \<le> lcount l" using assms by (auto simp: n_def log_wf_def)
  from delete_loop_ok [OF assms(1) this] obtain ev where
    d: "delete_loop n l = Some (l\<lparr>lback := lback l - int n, lcount := lcount l - int n\<rparr>, ev)"
    by blast
  have "nat (lcount l - int n) = min (nat (lcount l)) (nat (idx - lbase l - 1))"
    using assms by (auto simp: n_def log_wf_def)
  then have "log_list (l\<lparr>lback := lback l - int n, lcount := lcount l - int n\<rparr>) =
          take (nat (idx - lbase l - 1)) (log_list l)"
    by (simp add: log_list_def min.commute)
  with d n assms show ?thesis
    by (auto simp: log_delete_def log_count_def n_def [symmetric] log_wf_def)
qed

lemma log_poll_ok:
  assumes "log_wf l"
  shows "\<exists>l' ev. log_poll l =
             Some (if log_list l = [] then None else Some (hd (log_list l)), l', ev) \<and>
           log_wf l' \<and> log_list l' = tl (log_list l) \<and>
           lbase l' + lcount l' = lbase l + lcount l"
proof (cases "lcount l = 0")
  case True
  then show ?thesis using assms by (auto simp: log_poll_def log_count_def log_list_def)
next
  case False
  then have f: "0 < lcount l" "0 \<le> lfront l" "nat (lfront l) < length (lentries l)"
    using assms by (auto simp: log_wf_def)
  have "log_list l = lentries l ! nat (lfront l) #
          take (nat (lcount l - 1)) (drop (Suc (nat (lfront l))) (lentries l))"
    using f by (simp add: log_list_def Cons_nth_drop_Suc [symmetric] take_Cons')
      (simp add: nat_diff_distrib)
  moreover have "Suc (nat (lfront l)) = nat (lfront l + 1)" using f by simp
  ultimately show ?thesis using f assms
    by (auto simp: log_poll_def log_count_def mem_read_ok log_list_def log_wf_def)
qed

lemma log_peektail_ok:
  assumes "log_wf l"
  shows "log_peektail l = Some (if log_list l = [] then None else Some (last (log_list l)))"
proof (cases "lcount l = 0")
  case True
  then show ?thesis using assms by (auto simp: log_peektail_def log_count_def log_list_def)
next
  case False
  then have f: "0 < lcount l" "0 \<le> lback l - 1" "nat (lback l - 1) < length (lentries l)"
    "lback l \<noteq> 0"
    using assms by (auto simp: log_wf_def)
  have len: "length (log_list l) = nat (lcount l)" using assms by (rule log_list_length)
  then have ne: "log_list l \<noteq> []" using f by auto
  have "last (log_list l) = log_list l ! (nat (lcount l) - 1)" using ne len by (simp add: last_conv_nth)
  also have "\<dots> = lentries l ! (nat (lfront l) + (nat (lcount l) - 1))"
    by (rule log_list_nth) (use assms len f in auto)
  also have "nat (lfront l) + (nat (lcount l) - 1) = nat (lback l - 1)"
    using assms f by (auto simp: log_wf_def)
  finally show ?thesis using f ne by (simp add: log_peektail_def log_count_def mem_read_ok)
qed

section \<open>The interface the Raft server relies on\<close>

locale replicated_log =
  fixes lst :: "'l \<Rightarrow> 'e list"
    and invar :: "'l \<Rightarrow> bool"
    and cbs :: "'l \<Rightarrow> 'c"
    and storable :: "'e \<Rightarrow> bool"
    and stored :: "'l \<Rightarrow> 'e \<Rightarrow> 'e"
    and append :: "'l \<Rightarrow> 'e \<Rightarrow> (int \<times> 'l \<times> 'v list) option"
    and get :: "'l \<Rightarrow> int \<Rightarrow> 'e option option"
    and del :: "'l \<Rightarrow> int \<Rightarrow> ('l \<times> 'v list) option"
    and cur :: "'l \<Rightarrow> int"
  assumes append_ok: "invar l \<Longrightarrow> storable e \<Longrightarrow>
      \<exists>l' ev. append l e = Some (0, l', ev) \<and> invar l' \<and> lst l' = lst l @ [stored l e] \<and>
             cbs l' = cbs l"
    and append_reject: "\<not> storable e \<Longrightarrow> append l e = Some (-1, l, [])"
    and get_ok: "invar l \<Longrightarrow> 1 \<le> i \<Longrightarrow>
      get l i = Some (if i \<le> int (length (lst l)) then Some (lst l ! nat (i - 1)) else None)"
    and del_ok: "invar l \<Longrightarrow> 1 \<le> i \<Longrightarrow>
      \<exists>l' ev. del l i = Some (l', ev) \<and> invar l' \<and> lst l' = take (nat (i - 1)) (lst l) \<and>
             cbs l' = cbs l"
    and cur_ok: "invar l \<Longrightarrow> cur l = int (length (lst l))"
begin

lemma append_total: "invar l \<Longrightarrow> \<exists>r l' ev. append l e = Some (r, l', ev) \<and> invar l'"
  using append_ok append_reject by (cases "storable e") blast+

lemma append_elim:
  assumes "append l e = Some (r, l', ev)" and "invar l"
  obtains (appended) "storable e" "r = 0" "invar l'" "lst l' = lst l @ [stored l e]" "cbs l' = cbs l"
  | (rejected) "\<not> storable e" "r = -1" "l' = l" "ev = []"
  using assms append_ok [of l e] append_reject [of e l] by (cases "storable e") auto

lemma del_elim:
  assumes "del l i = Some (l', ev)" and "invar l" and "1 \<le> i"
  shows "invar l' \<and> lst l' = take (nat (i - 1)) (lst l) \<and> cbs l' = cbs l"
  using assms del_ok [of l i] by auto

lemma get_Some_iff:
  "invar l \<Longrightarrow> 1 \<le> i \<Longrightarrow>
     get l i = Some (Some e) \<longleftrightarrow> i \<le> int (length (lst l)) \<and> e = lst l ! nat (i - 1)"
  by (auto simp: get_ok)

lemma append_then_get:
  assumes "invar l" and "storable e"
  shows "\<exists>l' ev. append l e = Some (0, l', ev) \<and> invar l' \<and> cur l' = cur l + 1 \<and>
           get l' (cur l') = Some (Some (stored l e)) \<and>
           (\<forall>i. 1 \<le> i \<and> i \<le> cur l \<longrightarrow> get l' i = get l i)"
proof -
  from append_ok [OF assms] obtain l' ev where
    l': "append l e = Some (0, l', ev)" "invar l'" "lst l' = lst l @ [stored l e]" by blast
  then show ?thesis using assms
    by (auto simp: cur_ok get_ok nth_append nat_less_iff intro!: exI [of _ l'] exI [of _ ev])
qed

lemma del_then_get:
  assumes "invar l" and "1 \<le> n"
  shows "\<exists>l' ev. del l n = Some (l', ev) \<and> invar l' \<and> cur l' = min (n - 1) (cur l) \<and>
           (\<forall>i. 1 \<le> i \<longrightarrow> get l' i = (if i < n then get l i else Some None))"
proof -
  from del_ok [OF assms] obtain l' ev where
    l': "del l n = Some (l', ev)" "invar l'" "lst l' = take (nat (n - 1)) (lst l)" by blast
  have c: "cur l' = min (n - 1) (cur l)" using l' assms by (auto simp: cur_ok)
  moreover have "get l' i = (if i < n then get l i else Some None)" if "1 \<le> i" for i
    using l' that assms by (auto simp: get_ok)
  ultimately show ?thesis using l' by blast
qed

end

interpretation rl: replicated_log log_list log_unpolled lcb "\<lambda>e. ety_id e \<noteq> 0" log_stored
  log_append_entry log_get_at_idx log_delete log_get_current_idx
proof unfold_locales
  fix l and e :: raft_entry assume "log_unpolled l" "ety_id e \<noteq> 0"
  then show "\<exists>l' ev. log_append_entry l e = Some (0, l', ev) \<and> log_unpolled l' \<and>
      log_list l' = log_list l @ [log_stored l e] \<and> lcb l' = lcb l"
    using log_append_ok [of l e] by (auto simp: log_unpolled_def)
next
  fix l and e :: raft_entry assume "\<not> ety_id e \<noteq> 0"
  then show "log_append_entry l e = Some (-1, l, [])" by (simp add: log_append_zero_id)
next
  fix l :: raft_log and i :: int assume "log_unpolled l" "1 \<le> i"
  then show "log_get_at_idx l i =
      Some (if i \<le> int (length (log_list l)) then Some (log_list l ! nat (i - 1)) else None)"
    using log_get_at_idx_ok [of l i] by (auto simp: log_unpolled_def log_list_length log_wf_def)
next
  fix l :: raft_log and i :: int assume "log_unpolled l" "1 \<le> i"
  then show "\<exists>l' ev. log_delete l i = Some (l', ev) \<and> log_unpolled l' \<and>
      log_list l' = take (nat (i - 1)) (log_list l) \<and> lcb l' = lcb l"
    using log_delete_ok [of l i] by (auto simp: log_unpolled_def)
next
  fix l assume "log_unpolled l"
  then show "log_get_current_idx l = int (length (log_list l))" by (rule log_current_idx_unpolled)
qed

section \<open>Properties\<close>

text \<open>C10: Appending an entry with a non-zero id to a log that was never polled succeeds, however
  full the array is: the log grows by one, the new last entry is the appended one as
  \<open>log_offer\<close> left it, and every earlier index still yields the same entry.\<close>

theorem log_append_lookup:
  assumes "log_unpolled l" and "ety_id c \<noteq> 0"
  shows "\<exists>l' ev. log_append_entry l c = Some (0, l', ev) \<and> log_unpolled l' \<and>
           log_get_current_idx l' = log_get_current_idx l + 1 \<and>
           log_get_at_idx l' (log_get_current_idx l') = Some (Some (log_stored l c)) \<and>
           (\<forall>i. 1 \<le> i \<and> i \<le> log_get_current_idx l \<longrightarrow> log_get_at_idx l' i = log_get_at_idx l i)"
  using assms by (rule rl.append_then_get)

theorem log_append_lookup_witness:
  "\<exists>l' ev. log_append_entry log_new (zero_entry\<lparr>ety_id := 7\<rparr>) = Some (0, l', ev) \<and>
     log_get_at_idx l' 1 = Some (Some (zero_entry\<lparr>ety_id := 7\<rparr>))"
proof -
  have "log_stored log_new e = e" for e
    by (simp add: log_stored_def log_offer_of_def log_new_def)
  then show ?thesis
    using log_append_lookup [of log_new "zero_entry\<lparr>ety_id := 7\<rparr>"]
    by (auto simp: log_current_idx_unpolled)
qed

text \<open>Deleting from index \<open>n\<close> on removes exactly the entries \<open>n\<close>, \<open>n+1\<close>, ... and
  leaves the entries before \<open>n\<close> untouched; deleting past the end is a no-op.\<close>

theorem log_delete_lookup:
  assumes "log_unpolled l" and "1 \<le> n"
  shows "\<exists>l' ev. log_delete l n = Some (l', ev) \<and> log_unpolled l' \<and>
           log_get_current_idx l' = min (n - 1) (log_get_current_idx l) \<and>
           (\<forall>i. 1 \<le> i \<longrightarrow> log_get_at_idx l' i = (if i < n then log_get_at_idx l i else Some None))"
  using assms by (rule rl.del_then_get)

theorem log_delete_lookup_witness:
  "\<exists>l' ev. log_delete log_new 1 = Some (l', ev) \<and> log_get_at_idx l' 1 = Some None"
  using log_delete_lookup [of log_new 1] by fastforce

text \<open>Polling is first in, first out: it returns the oldest entry (NULL on an empty log), drops
  just that entry, and does not change the index of the newest one.\<close>

theorem log_poll_fifo:
  assumes "log_wf l"
  shows "\<exists>l' ev. log_poll l =
             Some (if log_list l = [] then None else Some (hd (log_list l)), l', ev) \<and>
           log_wf l' \<and> log_list l' = tl (log_list l) \<and>
           log_get_current_idx l' = log_get_current_idx l"
  using log_poll_ok [OF assms] by (auto simp: log_get_current_idx_def log_count_def add.commute)

theorem log_poll_fifo_witness: "\<exists>l' ev. log_poll log_new = Some (None, l', ev) \<and> log_wf l'"
  using log_poll_fifo [of log_new] by auto

section \<open>Polled logs\<close>

text \<open>Appending \<open>n\<close> times the same entry.\<close>

fun append_n :: "nat \<Rightarrow> raft_entry \<Rightarrow> raft_log \<Rightarrow> raft_log option" where
  "append_n 0 c l = Some l"
| "append_n (Suc n) c l = do { (r, l, ev) \<leftarrow> log_append_entry l c; append_n n c l }"

text \<open>C37: The array index \<open>back\<close> never wraps. On a well-formed log, with any number of entries polled and
  appended, the append of an entry with a non-zero id writes past the end of the array exactly when an
  entry was polled and \<open>back\<close> has reached the end, although the array then has free slots: the code
  grows it only when as many entries are held as it has slots.\<close>

theorem append_after_poll_overflows:
  assumes "log_wf l" and "ety_id c \<noteq> 0"
  shows "(log_append_entry l c = None \<longleftrightarrow> 0 < lfront l \<and> lback l = lsize l) \<and>
    (log_append_entry l c = None \<longrightarrow> lcount l < lsize l)"
proof -
  have free: "lcount l < lsize l" if "0 < lfront l \<and> lback l = lsize l" using that assms(1) by (simp add: log_wf_def)
  have "log_append_entry l c = None" if full: "0 < lfront l \<and> lback l = lsize l"
  proof -
    have "mem_write (lentries l) (lback l) x = None" for x using full assms(1) by (simp add: mem_write_def log_wf_def)
    then show ?thesis
      using free [OF full] assms(2)
      by (auto simp: log_append_entry_def ensurecapacity_def Let_def split: option.splits prod.splits Option.bind_splits)
  qed
  moreover have "0 < lfront l \<and> lback l = lsize l" if "log_append_entry l c = None"
  proof -
    have "\<not> (lfront l = 0 \<or> lback l < lsize l)" using log_append_ok [OF assms(1) _ assms(2)] that by auto
    then show ?thesis using assms(1) by (auto simp: log_wf_def)
  qed
  ultimately show ?thesis using free by blast
qed

text \<open>A new log after ten appends and one poll.\<close>

definition polled_log :: "raft_log option" where
  "polled_log = do {
     l \<leftarrow> append_n 10 (zero_entry\<lparr>ety_id := 1\<rparr>) log_new;
     (e, l, ev) \<leftarrow> log_poll l;
     Some l }"

theorem append_after_poll_overflows_witness:
  "\<exists>l. polled_log = Some l \<and> lcount l = 9 \<and> lsize l = 10 \<and> log_append_entry l (zero_entry\<lparr>ety_id := 1\<rparr>) = None"
proof -
  have "case polled_log of None \<Rightarrow> False | Some l \<Rightarrow> lcount l = 9 \<and> lsize l = 10 \<and> lfront l = 1 \<and> lback l = 10 \<and>
      lbase l = 1 \<and> length (lentries l) = 10" by code_simp
  then obtain l where l: "polled_log = Some l" "lcount l = 9" "lsize l = 10" "lfront l = 1" "lback l = 10" "lbase l = 1"
    "length (lentries l) = 10" by (auto split: option.splits)
  then have "log_wf l" by (simp add: log_wf_def)
  from append_after_poll_overflows [OF this, of "zero_entry\<lparr>ety_id := 1\<rparr>"] l show ?thesis
    by (intro exI [of _ l]) simp
qed

text \<open>The lower bound check of the lookup is off by one: once the first entry was polled, looking
  up its index still returns the polled entry instead of NULL.\<close>

theorem get_returns_polled_entry:
  "do { (r, l, ev) \<leftarrow> log_append_entry log_new (zero_entry\<lparr>ety_id := 1\<rparr>);
        (e, l, ev) \<leftarrow> log_poll l;
        Some (lcount l, log_get_at_idx l 1) } =
   Some (0, Some (Some (zero_entry\<lparr>ety_id := 1\<rparr>)))"
  by code_simp

end
