(* ===== verification/Raft_Node.thy ===== *)
theory Raft_Node
  imports C_Prelude
begin

text \<open>
  A peer of the Raft server (\<open>module/raft/src/raft_node.c\<close>): its next and match index and
  its flag word. The flag macros are expanded as the preprocessor does: \<open>RAFT_NODE_VOTING\<close> is
  the unparenthesised text \<open>1 << 1\<close>, so \<open>~RAFT_NODE_VOTING\<close> is \<open>(~1) << 1\<close>.
  The locale \<open>flag_bits\<close> states what a user of one flag relies on; it is interpreted for the
  vote flag and for the voting-member flag.
\<close>

section \<open>Model\<close>

record raft_node =
  udata :: ptr
  next_idx :: int
  match_idx :: int
  flags :: u32
  node_id :: int

definition raft_node_new :: "ptr \<Rightarrow> int \<Rightarrow> raft_node" where
  "raft_node_new ud nid = \<lparr>udata = ud, next_idx = 1, match_idx = 0, flags = push_bit 1 1, node_id = nid\<rparr>"

definition raft_node_get_next_idx :: "raft_node \<Rightarrow> int" where
  "raft_node_get_next_idx me = next_idx me"

definition raft_node_set_next_idx :: "raft_node \<Rightarrow> int \<Rightarrow> raft_node" where
  "raft_node_set_next_idx me nextIdx = me\<lparr>next_idx := (if nextIdx < 1 then 1 else nextIdx)\<rparr>"

definition raft_node_get_match_idx :: "raft_node \<Rightarrow> int" where
  "raft_node_get_match_idx me = match_idx me"

definition raft_node_set_match_idx :: "raft_node \<Rightarrow> int \<Rightarrow> raft_node" where
  "raft_node_set_match_idx me matchIdx = me\<lparr>match_idx := matchIdx\<rparr>"

definition raft_node_get_udata :: "raft_node \<Rightarrow> ptr" where
  "raft_node_get_udata me = udata me"

definition raft_node_set_udata :: "raft_node \<Rightarrow> ptr \<Rightarrow> raft_node" where
  "raft_node_set_udata me ud = me\<lparr>udata := ud\<rparr>"

definition raft_node_vote_for_me :: "raft_node \<Rightarrow> int \<Rightarrow> raft_node" where
  "raft_node_vote_for_me me vote =
     (if vote \<noteq> 0 then me\<lparr>flags := flags me OR 1\<rparr> else me\<lparr>flags := flags me AND NOT 1\<rparr>)"

definition raft_node_has_vote_for_me :: "raft_node \<Rightarrow> bool" where
  "raft_node_has_vote_for_me me = (flags me AND 1 \<noteq> 0)"

definition raft_node_set_voting :: "raft_node \<Rightarrow> int \<Rightarrow> raft_node" where
  "raft_node_set_voting me voting =
     (if voting \<noteq> 0 then me\<lparr>flags := flags me OR push_bit 1 1\<rparr>
      else me\<lparr>flags := flags me AND push_bit 1 (NOT 1)\<rparr>)"

definition raft_node_is_voting :: "raft_node \<Rightarrow> bool" where
  "raft_node_is_voting me = (flags me AND push_bit 1 1 \<noteq> 0)"

definition raft_node_set_has_sufficient_logs :: "raft_node \<Rightarrow> raft_node" where
  "raft_node_set_has_sufficient_logs me = me\<lparr>flags := flags me OR push_bit 2 1\<rparr>"

definition raft_node_has_sufficient_logs :: "raft_node \<Rightarrow> bool" where
  "raft_node_has_sufficient_logs me = (flags me AND push_bit 2 1 \<noteq> 0)"

definition raft_node_get_id :: "raft_node \<Rightarrow> int" where
  "raft_node_get_id me = node_id me"

lemmas node_defs = raft_node_new_def raft_node_get_next_idx_def raft_node_set_next_idx_def
  raft_node_get_match_idx_def raft_node_set_match_idx_def raft_node_get_udata_def
  raft_node_set_udata_def raft_node_vote_for_me_def raft_node_has_vote_for_me_def
  raft_node_set_voting_def raft_node_is_voting_def raft_node_set_has_sufficient_logs_def
  raft_node_has_sufficient_logs_def raft_node_get_id_def

section \<open>Flags as bits\<close>

lemma has_vote_bit: "raft_node_has_vote_for_me nd = bit (flags nd) 0"
  using bit_iff_and_push_bit_not_eq_0 [of "flags nd" 0] by (simp add: node_defs)

lemma is_voting_bit: "raft_node_is_voting nd = bit (flags nd) 1"
  by (simp add: node_defs bit_iff_and_push_bit_not_eq_0)

lemma sufficient_bit: "raft_node_has_sufficient_logs nd = bit (flags nd) 2"
  by (simp add: node_defs bit_iff_and_push_bit_not_eq_0)

lemma flags_vote_for_me:
  "flags (raft_node_vote_for_me nd v) = (if v \<noteq> 0 then set_bit 0 (flags nd) else unset_bit 0 (flags nd))"
  by (simp add: node_defs set_bit_eq_or unset_bit_eq_and_not)

lemma bit_voting_mask: "bit (push_bit 1 (NOT 1) :: u32) n \<longleftrightarrow> 1 < n \<and> n < 32"
proof -
  have "bit (push_bit 1 (NOT 1) :: u32) n \<longleftrightarrow> n < 32 \<and> 1 \<le> n \<and> bit (NOT 1 :: u32) (n - 1)"
    by (simp only: bit_push_bit_iff possible_bit_word len_of_numeral_defs) auto
  also have "\<dots> \<longleftrightarrow> 1 < n \<and> n < 32"
    by (auto simp only: bit_not_iff bit_1_iff possible_bit_word) auto
  finally show ?thesis .
qed

lemma flags_set_voting:
  "flags (raft_node_set_voting nd v) =
     (if v \<noteq> 0 then set_bit 1 (flags nd) else unset_bit 0 (unset_bit 1 (flags nd)))"
proof (cases "v = 0")
  case True
  have "flags nd AND push_bit 1 (NOT 1) = unset_bit 0 (unset_bit 1 (flags nd))"
    by (rule bit_word_eqI) (simp only: bit_and_iff bit_voting_mask bit_unset_bit_iff, auto)
  with True show ?thesis by (simp only: raft_node_set_voting_def) simp
next
  case False
  then show ?thesis by (simp add: raft_node_set_voting_def set_bit_eq_or)
qed

lemma flags_set_sufficient:
  "flags (raft_node_set_has_sufficient_logs nd) = set_bit 2 (flags nd)"
  by (simp add: node_defs set_bit_eq_or)

lemmas flag_simps = has_vote_bit is_voting_bit sufficient_bit flags_vote_for_me flags_set_voting
  flags_set_sufficient

section \<open>The contract of one flag\<close>

locale flag_bits =
  fixes setf :: "raft_node \<Rightarrow> int \<Rightarrow> raft_node"
    and getf :: "raft_node \<Rightarrow> bool"
  assumes get_set: "getf (setf nd v) = (v \<noteq> 0)"
    and set_keeps: "udata (setf nd v) = udata nd" "next_idx (setf nd v) = next_idx nd"
      "match_idx (setf nd v) = match_idx nd" "node_id (setf nd v) = node_id nd"
    and set_on_same: "getf nd \<Longrightarrow> v \<noteq> 0 \<Longrightarrow> setf nd v = nd"
begin

lemma set_on_idem: "v \<noteq> 0 \<Longrightarrow> setf (setf nd v) v = setf nd v"
  by (simp add: set_on_same get_set)

lemma last_set_wins: "getf (setf (setf nd v) w) = (w \<noteq> 0)"
  by (rule get_set)

end

interpretation votef: flag_bits raft_node_vote_for_me raft_node_has_vote_for_me
proof unfold_locales
  fix nd v
  show "raft_node_has_vote_for_me (raft_node_vote_for_me nd v) = (v \<noteq> 0)"
    by (simp add: flag_simps bit_simps)
  show "raft_node_has_vote_for_me nd \<Longrightarrow> v \<noteq> 0 \<Longrightarrow> raft_node_vote_for_me nd v = nd"
    by (cases nd) (auto simp: flag_simps raft_node_vote_for_me_def bit_simps intro!: bit_word_eqI)
qed (simp_all add: raft_node_vote_for_me_def)

interpretation memberf: flag_bits raft_node_set_voting raft_node_is_voting
proof unfold_locales
  fix nd v
  show "raft_node_is_voting (raft_node_set_voting nd v) = (v \<noteq> 0)"
    by (simp add: flag_simps bit_simps)
  show "raft_node_is_voting nd \<Longrightarrow> v \<noteq> 0 \<Longrightarrow> raft_node_set_voting nd v = nd"
    by (cases nd) (auto simp: flag_simps raft_node_set_voting_def bit_simps intro!: bit_word_eqI)
qed (simp_all add: raft_node_set_voting_def)

section \<open>Frame facts\<close>

lemma vote_for_me_voting [simp]:
  "raft_node_is_voting (raft_node_vote_for_me nd v) = raft_node_is_voting nd"
  by (simp add: flag_simps bit_simps)

lemma set_idx_flags [simp]:
  "flags (raft_node_set_next_idx nd i) = flags nd"
  "flags (raft_node_set_match_idx nd i) = flags nd"
  by (simp_all add: node_defs)

lemma set_idx_bits [simp]:
  "raft_node_is_voting (raft_node_set_next_idx nd i) = raft_node_is_voting nd"
  "raft_node_is_voting (raft_node_set_match_idx nd i) = raft_node_is_voting nd"
  "raft_node_has_vote_for_me (raft_node_set_next_idx nd i) = raft_node_has_vote_for_me nd"
  "raft_node_has_vote_for_me (raft_node_set_match_idx nd i) = raft_node_has_vote_for_me nd"
  by (simp_all add: flag_simps)

lemma set_sufficient_bits [simp]:
  "raft_node_is_voting (raft_node_set_has_sufficient_logs nd) = raft_node_is_voting nd"
  "raft_node_has_vote_for_me (raft_node_set_has_sufficient_logs nd) = raft_node_has_vote_for_me nd"
  by (simp_all add: flag_simps bit_simps)

lemma node_new_bits [simp]:
  "raft_node_is_voting (raft_node_new ud i)" "\<not> raft_node_has_vote_for_me (raft_node_new ud i)"
  by (simp_all add: flag_simps raft_node_new_def bit_simps)

lemma node_ids [simp]:
  "node_id (raft_node_new ud i) = i"
  "node_id (raft_node_set_next_idx nd j) = node_id nd"
  "node_id (raft_node_set_match_idx nd j) = node_id nd"
  "node_id (raft_node_vote_for_me nd v) = node_id nd"
  "node_id (raft_node_set_voting nd v) = node_id nd"
  "node_id (raft_node_set_has_sufficient_logs nd) = node_id nd"
  by (simp_all add: node_defs)

lemma node_next_idx [simp]:
  "next_idx (raft_node_new ud i) = 1"
  "next_idx (raft_node_set_next_idx nd j) = max 1 j"
  "next_idx (raft_node_set_match_idx nd j) = next_idx nd"
  "next_idx (raft_node_vote_for_me nd v) = next_idx nd"
  "next_idx (raft_node_set_voting nd v) = next_idx nd"
  "next_idx (raft_node_set_has_sufficient_logs nd) = next_idx nd"
  by (simp_all add: node_defs)

lemma node_match_idx [simp]:
  "match_idx (raft_node_new ud i) = 0"
  "match_idx (raft_node_set_next_idx nd j) = match_idx nd"
  "match_idx (raft_node_set_match_idx nd j) = j"
  "match_idx (raft_node_vote_for_me nd v) = match_idx nd"
  "match_idx (raft_node_set_voting nd v) = match_idx nd"
  "match_idx (raft_node_set_has_sufficient_logs nd) = match_idx nd"
  by (simp_all add: node_defs)

section \<open>Properties\<close>

text \<open>Each flag of a node reads back what was last written to it, and counting a vote never
  changes whether the node is a voting member.\<close>

theorem node_flags_read_back:
  "raft_node_has_vote_for_me (raft_node_vote_for_me nd v) = (v \<noteq> 0) \<and>
   raft_node_is_voting (raft_node_vote_for_me nd v) = raft_node_is_voting nd \<and>
   raft_node_is_voting (raft_node_set_voting nd w) = (w \<noteq> 0) \<and>
   raft_node_has_sufficient_logs (raft_node_set_has_sufficient_logs nd) \<and>
   1 \<le> raft_node_get_next_idx (raft_node_set_next_idx nd i)"
  by (simp add: votef.get_set memberf.get_set)
     (simp add: flag_simps bit_simps raft_node_get_next_idx_def)

text \<open>Because \<open>RAFT_NODE_VOTING\<close> has no parentheses, turning a node into a non-voting one also
  clears the vote it gave; the sufficient-logs flag survives.\<close>

theorem set_voting_clears_vote:
  "\<not> raft_node_has_vote_for_me (raft_node_set_voting nd 0) \<and>
   raft_node_has_sufficient_logs (raft_node_set_voting nd 0) = raft_node_has_sufficient_logs nd"
  by (simp add: flag_simps bit_simps)

end
