(* ===== verification/Raft_Server.thy ===== *)
theory Raft_Server
  imports Raft_Log Raft_Node
begin

text \<open>
  The Raft server (\<open>module/raft/src/raft_server.c\<close> and
  \<open>module/raft/src/raft_server_properties.c\<close>): its state and every operation, in the order
  of the sources where the definitions allow it.

  Peers are heap objects that several pointers alias (the \<open>nodes\<close> array, \<open>node\<close>,
  \<open>current_leader\<close>, the arguments of handlers), so they live in \<open>heap\<close>, a list indexed
  by address in which a freed object is \<open>None\<close>. The \<open>nodes\<close> array and its length
  \<open>num_nodes\<close> are one list. \<open>trace\<close> is the sequence of callback calls. Debug output is
  left out; allocation in \<open>raft_new\<close> may fail, every other allocation succeeds. The number
  \<open>rand()\<close> returned is an argument of the operations that call it.
\<close>

section \<open>State\<close>

record raft_server =
  current_term :: int
  voted_for :: int
  srv_log :: raft_log
  commit_idx :: int
  last_applied_idx :: int
  srv_state :: raft_state_e
  timeout_elapsed :: int
  nodes :: "nat list"
  election_timeout :: int
  request_timeout :: int
  current_leader :: ptr
  cb :: raft_cbs
  node :: ptr
  voting_cfg_change_log_idx :: int
  heap :: "raft_node option list"
  trace :: "raft_event list"

definition num_nodes :: "raft_server \<Rightarrow> int" where
  "num_nodes s = int (length (nodes s))"

text \<open>Access through node pointers: NULL and freed objects have no value.\<close>

definition node_at :: "raft_server \<Rightarrow> nat \<Rightarrow> raft_node option" where
  "node_at s a = (if a < length (heap s) then heap s ! a else None)"

definition node_of :: "raft_server \<Rightarrow> ptr \<Rightarrow> raft_node option" where
  "node_of s p = (case p of None \<Rightarrow> None | Some a \<Rightarrow> node_at s a)"

definition node_set :: "raft_server \<Rightarrow> nat \<Rightarrow> raft_node \<Rightarrow> raft_server" where
  "node_set s a nd = s\<lparr>heap := (heap s)[a := Some nd]\<rparr>"

definition node_upd :: "(raft_node \<Rightarrow> raft_node) \<Rightarrow> nat \<Rightarrow> raft_server \<Rightarrow> raft_server option" where
  "node_upd f a s = do { nd \<leftarrow> node_at s a; Some (node_set s a (f nd)) }"

definition emit :: "raft_event list \<Rightarrow> raft_server \<Rightarrow> raft_server" where
  "emit evs s = s\<lparr>trace := trace s @ evs\<rparr>"

section \<open>Properties of the server (raft\_server\_properties.c)\<close>

definition raft_set_election_timeout :: "raft_server \<Rightarrow> int \<Rightarrow> raft_server" where
  "raft_set_election_timeout s millisec = s\<lparr>election_timeout := millisec\<rparr>"

definition raft_set_request_timeout :: "raft_server \<Rightarrow> int \<Rightarrow> raft_server" where
  "raft_set_request_timeout s millisec = s\<lparr>request_timeout := millisec\<rparr>"

definition raft_get_nodeid :: "raft_server \<Rightarrow> int option" where
  "raft_get_nodeid s = do { nd \<leftarrow> node_of s (node s); Some (raft_node_get_id nd) }"

definition raft_get_election_timeout :: "raft_server \<Rightarrow> int" where
  "raft_get_election_timeout s = election_timeout s"

definition raft_get_request_timeout :: "raft_server \<Rightarrow> int" where
  "raft_get_request_timeout s = request_timeout s"

definition raft_get_num_nodes :: "raft_server \<Rightarrow> int" where
  "raft_get_num_nodes s = num_nodes s"

definition raft_get_timeout_elapsed :: "raft_server \<Rightarrow> int" where
  "raft_get_timeout_elapsed s = timeout_elapsed s"

definition raft_get_log_count :: "raft_server \<Rightarrow> int" where
  "raft_get_log_count s = log_count (srv_log s)"

definition raft_get_voted_for :: "raft_server \<Rightarrow> int" where
  "raft_get_voted_for s = voted_for s"

definition raft_set_current_term :: "raft_server \<Rightarrow> int \<Rightarrow> raft_server" where
  "raft_set_current_term s t =
     (if current_term s < t
      then emit (if cb_persist_term (cb s) then [EvPersistTerm t] else [])
             (s\<lparr>current_term := t, voted_for := -1\<rparr>)
      else s)"

definition raft_get_current_term :: "raft_server \<Rightarrow> int" where
  "raft_get_current_term s = current_term s"

definition raft_get_current_idx :: "raft_server \<Rightarrow> int" where
  "raft_get_current_idx s = log_get_current_idx (srv_log s)"

definition raft_set_commit_idx :: "raft_server \<Rightarrow> int \<Rightarrow> raft_server option" where
  "raft_set_commit_idx s idx = do {
     c_assert (commit_idx s \<le> idx);
     c_assert (idx \<le> raft_get_current_idx s);
     Some (s\<lparr>commit_idx := idx\<rparr>) }"

definition raft_set_last_applied_idx :: "raft_server \<Rightarrow> int \<Rightarrow> raft_server" where
  "raft_set_last_applied_idx s idx = s\<lparr>last_applied_idx := idx\<rparr>"

definition raft_get_last_applied_idx :: "raft_server \<Rightarrow> int" where
  "raft_get_last_applied_idx s = last_applied_idx s"

definition raft_get_commit_idx :: "raft_server \<Rightarrow> int" where
  "raft_get_commit_idx s = commit_idx s"

definition raft_set_state :: "raft_server \<Rightarrow> raft_state_e \<Rightarrow> raft_server" where
  "raft_set_state s st =
     (let s = (if st = RAFT_STATE_LEADER then s\<lparr>current_leader := node s\<rparr> else s)
      in s\<lparr>srv_state := st\<rparr>)"

definition raft_get_state :: "raft_server \<Rightarrow> raft_state_e" where
  "raft_get_state s = srv_state s"

fun find_node :: "raft_server \<Rightarrow> int \<Rightarrow> nat list \<Rightarrow> ptr option" where
  "find_node s nodeid [] = Some None"
| "find_node s nodeid (n # ns) = do {
     nd \<leftarrow> node_at s n;
     if nodeid = raft_node_get_id nd then Some (Some n) else find_node s nodeid ns }"

definition raft_get_node :: "raft_server \<Rightarrow> int \<Rightarrow> ptr option" where
  "raft_get_node s nodeid = find_node s nodeid (nodes s)"

definition raft_get_node_from_idx :: "raft_server \<Rightarrow> int \<Rightarrow> nat option" where
  "raft_get_node_from_idx s idx = mem_read (nodes s) idx"

definition raft_get_current_leader :: "raft_server \<Rightarrow> int option" where
  "raft_get_current_leader s =
     (if current_leader s \<noteq> None
      then do { nd \<leftarrow> node_of s (current_leader s); Some (raft_node_get_id nd) }
      else Some (-1))"

definition raft_get_current_leader_node :: "raft_server \<Rightarrow> ptr" where
  "raft_get_current_leader_node s = current_leader s"

definition raft_is_follower :: "raft_server \<Rightarrow> bool" where
  "raft_is_follower s = (raft_get_state s = RAFT_STATE_FOLLOWER)"

definition raft_is_leader :: "raft_server \<Rightarrow> bool" where
  "raft_is_leader s = (raft_get_state s = RAFT_STATE_LEADER)"

definition raft_is_candidate :: "raft_server \<Rightarrow> bool" where
  "raft_is_candidate s = (raft_get_state s = RAFT_STATE_CANDIDATE)"

definition raft_get_entry_from_idx :: "raft_server \<Rightarrow> int \<Rightarrow> raft_entry option option" where
  "raft_get_entry_from_idx s etyidx = log_get_at_idx (srv_log s) etyidx"

definition raft_get_last_log_term :: "raft_server \<Rightarrow> int option" where
  "raft_get_last_log_term s =
     (let current_idx = raft_get_current_idx s in
      if 0 < current_idx
      then do { ety \<leftarrow> raft_get_entry_from_idx s current_idx;
                Some (case ety of Some e \<Rightarrow> sint (ety_term e) | None \<Rightarrow> 0) }
      else Some 0)"

lemmas prop_defs = raft_get_current_term_def raft_get_current_idx_def raft_get_last_applied_idx_def
  raft_get_commit_idx_def raft_get_state_def raft_is_follower_def raft_is_leader_def
  raft_is_candidate_def raft_get_entry_from_idx_def raft_get_voted_for_def raft_get_num_nodes_def

section \<open>Construction\<close>

definition raft_new :: "bool \<Rightarrow> raft_server option" where
  "raft_new calloc_ok =
     (if \<not> calloc_ok then None
      else Some (raft_set_state
        \<lparr>current_term = 0, voted_for = -1, srv_log = log_new, commit_idx = 0, last_applied_idx = 0,
         srv_state = RAFT_STATE_NONE, timeout_elapsed = 0, nodes = [], election_timeout = 1000,
         request_timeout = 200, current_leader = None, cb = no_cbs, node = None,
         voting_cfg_change_log_idx = -1, heap = [], trace = []\<rparr> RAFT_STATE_FOLLOWER))"

definition raft_set_callbacks :: "raft_server \<Rightarrow> raft_cbs \<Rightarrow> raft_server" where
  "raft_set_callbacks s funcs =
     (let s = s\<lparr>cb := funcs\<rparr> in s\<lparr>srv_log := log_set_callbacks (srv_log s) (cb s)\<rparr>)"

section \<open>Sending\<close>

definition raft_send_requestvote :: "raft_server \<Rightarrow> ptr \<Rightarrow> (int \<times> raft_server) option" where
  "raft_send_requestvote s p = do {
     c_assert (p \<noteq> None);
     c_assert (p \<noteq> node s);
     a \<leftarrow> p;
     last_log_term \<leftarrow> raft_get_last_log_term s;
     candidate_id \<leftarrow> raft_get_nodeid s;
     let rv = \<lparr>rv_term = current_term s, rv_candidate_id = candidate_id,
               rv_last_log_idx = raft_get_current_idx s, rv_last_log_term = last_log_term\<rparr>;
     Some (0, if cb_send_requestvote (cb s) then emit [EvSendRequestvote a rv] s else s) }"

definition raft_get_entries_from_idx ::
    "raft_server \<Rightarrow> int \<Rightarrow> (raft_entry list \<times> int) option option" where
  "raft_get_entries_from_idx s idx = log_get_from_idx (srv_log s) idx"

definition raft_send_appendentries :: "raft_server \<Rightarrow> ptr \<Rightarrow> (int \<times> raft_server) option" where
  "raft_send_appendentries s p = do {
     c_assert (p \<noteq> None);
     c_assert (p \<noteq> node s);
     if \<not> cb_send_appendentries (cb s) then Some (-1, s)
     else do {
       a \<leftarrow> p;
       nd \<leftarrow> node_at s a;
       let next_idx = raft_node_get_next_idx nd;
       ents \<leftarrow> raft_get_entries_from_idx s next_idx;
       let ae = \<lparr>ae_term = current_term s, ae_prev_log_idx = 0, ae_prev_log_term = 0,
                 ae_leader_commit = raft_get_commit_idx s,
                 ae_n_entries = (case ents of None \<Rightarrow> 0 | Some (es, n) \<Rightarrow> n),
                 ae_entries = (case ents of None \<Rightarrow> [] | Some (es, n) \<Rightarrow> es)\<rparr>;
       ae \<leftarrow> (if 1 < next_idx
              then do { prev_ety \<leftarrow> raft_get_entry_from_idx s (next_idx - 1);
                        Some (ae\<lparr>ae_prev_log_idx := next_idx - 1,
                                ae_prev_log_term :=
                                  (case prev_ety of None \<Rightarrow> 0 | Some e \<Rightarrow> sint (ety_term e))\<rparr>) }
              else Some ae);
       Some (0, emit [EvSendAppendentries a ae] s) } }"

definition raft_send_appendentries_all :: "raft_server \<Rightarrow> raft_server option" where
  "raft_send_appendentries_all s =
     (let s = s\<lparr>timeout_elapsed := 0\<rparr> in
      for_each (\<lambda>n s. if node s \<noteq> Some n
                      then do { (r, s) \<leftarrow> raft_send_appendentries s (Some n); Some s }
                      else Some s)
        (nodes s) s)"

section \<open>State changes\<close>

definition raft_vote_for_nodeid :: "raft_server \<Rightarrow> int \<Rightarrow> raft_server" where
  "raft_vote_for_nodeid s nodeid =
     emit (if cb_persist_vote (cb s) then [EvPersistVote nodeid] else []) (s\<lparr>voted_for := nodeid\<rparr>)"

definition raft_vote :: "raft_server \<Rightarrow> ptr \<Rightarrow> raft_server option" where
  "raft_vote s p = do {
     i \<leftarrow> (if p \<noteq> None then do { nd \<leftarrow> node_of s p; Some (raft_node_get_id nd) } else Some (-1));
     Some (raft_vote_for_nodeid s i) }"

definition become_leader_step :: "nat \<Rightarrow> raft_server \<Rightarrow> raft_server option" where
  "become_leader_step n s =
     (if node s = Some n then Some s
      else do {
        nd \<leftarrow> node_at s n;
        if \<not> raft_node_is_voting nd then Some s
        else do {
          s \<leftarrow> node_upd (\<lambda>nd. raft_node_set_next_idx nd (raft_get_current_idx s + 1)) n s;
          s \<leftarrow> node_upd (\<lambda>nd. raft_node_set_match_idx nd 0) n s;
          (r, s) \<leftarrow> raft_send_appendentries s (Some n);
          Some s } })"

definition raft_become_leader :: "raft_server \<Rightarrow> raft_server option" where
  "raft_become_leader s =
     (let s = raft_set_state s RAFT_STATE_LEADER in for_each become_leader_step (nodes s) s)"

definition request_step :: "nat \<Rightarrow> raft_server \<Rightarrow> raft_server option" where
  "request_step n s =
     (if node s \<noteq> Some n
      then do {
        nd \<leftarrow> node_at s n;
        if raft_node_is_voting nd
        then do { (r, s) \<leftarrow> raft_send_requestvote s (Some n); Some s }
        else Some s }
      else Some s)"

definition raft_become_candidate :: "raft_server \<Rightarrow> int \<Rightarrow> raft_server option" where
  "raft_become_candidate s rnd = do {
     let s = raft_set_current_term s (raft_get_current_term s + 1);
     s \<leftarrow> for_each (node_upd (\<lambda>nd. raft_node_vote_for_me nd 0)) (nodes s) s;
     s \<leftarrow> raft_vote s (node s);
     let s = s\<lparr>current_leader := None\<rparr>;
     let s = raft_set_state s RAFT_STATE_CANDIDATE;
     t \<leftarrow> c_rem rnd (election_timeout s);
     let s = s\<lparr>timeout_elapsed := t\<rparr>;
     for_each request_step (nodes s) s }"

definition raft_election_start :: "raft_server \<Rightarrow> int \<Rightarrow> raft_server option" where
  "raft_election_start s rnd = raft_become_candidate s rnd"

definition raft_become_follower :: "raft_server \<Rightarrow> raft_server" where
  "raft_become_follower s = raft_set_state s RAFT_STATE_FOLLOWER"

section \<open>Applying and appending entries\<close>

definition raft_apply_entry :: "raft_server \<Rightarrow> (int \<times> raft_server) option" where
  "raft_apply_entry s =
     (if last_applied_idx s = commit_idx s then Some (-1, s)
      else do {
        let log_idx = last_applied_idx s + 1;
        e \<leftarrow> raft_get_entry_from_idx s log_idx;
        case e of None \<Rightarrow> Some (-1, s)
        | Some e \<Rightarrow>
            (let s = s\<lparr>last_applied_idx := last_applied_idx s + 1\<rparr>;
                 s = emit (if cb_applylog (cb s) then [EvApplylog e] else []) s;
                 s = (if log_idx = voting_cfg_change_log_idx s
                      then s\<lparr>voting_cfg_change_log_idx := -1\<rparr> else s)
             in Some (0, s)) })"

partial_function (option) raft_apply_all :: "raft_server \<Rightarrow> raft_server option" where
  "raft_apply_all s =
     (if raft_get_last_applied_idx s < raft_get_commit_idx s
      then do { (r, s) \<leftarrow> raft_apply_entry s; raft_apply_all s }
      else Some s)"

definition raft_append_entry :: "raft_server \<Rightarrow> raft_entry \<Rightarrow> (int \<times> raft_server) option" where
  "raft_append_entry s ety = do {
     let s = (if raft_entry_is_voting_cfg_change ety
              then s\<lparr>voting_cfg_change_log_idx := raft_get_current_idx s\<rparr> else s);
     (r, l, evs) \<leftarrow> log_append_entry (srv_log s) ety;
     Some (r, emit evs (s\<lparr>srv_log := l\<rparr>)) }"

text \<open>\<open>log_delete\<close> on the server's log.\<close>

definition srv_log_delete :: "raft_server \<Rightarrow> int \<Rightarrow> raft_server option" where
  "srv_log_delete s idx = do {
     (l, evs) \<leftarrow> log_delete (srv_log s) idx;
     Some (emit evs (s\<lparr>srv_log := l\<rparr>)) }"

section \<open>Time\<close>

definition raft_periodic :: "raft_server \<Rightarrow> int \<Rightarrow> int \<Rightarrow> (int \<times> raft_server) option" where
  "raft_periodic s msec_since_last_period rnd = do {
     let s = s\<lparr>timeout_elapsed := timeout_elapsed s + msec_since_last_period\<rparr>;
     s \<leftarrow> (if srv_state s = RAFT_STATE_LEADER
           then (if request_timeout s \<le> timeout_elapsed s then raft_send_appendentries_all s
                 else Some s)
           else if election_timeout s \<le> timeout_elapsed s
           then (if 1 < num_nodes s then raft_election_start s rnd else Some s)
           else Some s);
     if last_applied_idx s < commit_idx s
     then do { (r, s) \<leftarrow> raft_apply_entry s; Some (if -1 = r then -1 else 0, s) }
     else Some (0, s) }"

section \<open>Append entries\<close>

fun count_match :: "raft_server \<Rightarrow> int \<Rightarrow> nat list \<Rightarrow> int \<Rightarrow> int option" where
  "count_match s point [] votes = Some votes"
| "count_match s point (n # ns) votes =
     (if node s = Some n then count_match s point ns votes
      else do {
        nd \<leftarrow> node_at s n;
        if \<not> raft_node_is_voting nd then count_match s point ns votes
        else do {
          let mi = raft_node_get_match_idx nd;
          if 0 < mi
          then do {
            ety \<leftarrow> raft_get_entry_from_idx s mi;
            e \<leftarrow> ety;
            count_match s point ns
              (if ety_term e = word_of_int (current_term s) \<and> point \<le> mi then votes + 1 else votes) }
          else count_match s point ns votes } })"

text \<open>A failed append: step \<open>next_idx\<close> back and retry.\<close>

definition aer_retry ::
    "raft_server \<Rightarrow> nat \<Rightarrow> msg_appendentries_response \<Rightarrow> (int \<times> raft_server) option" where
  "aer_retry s a r = do {
     nd \<leftarrow> node_at s a;
     c_assert (0 \<le> raft_node_get_next_idx nd);
     let next_idx = raft_node_get_next_idx nd;
     c_assert (0 \<le> next_idx);
     s \<leftarrow> (if aer_current_idx r < next_idx - 1
           then node_upd (\<lambda>nd. raft_node_set_next_idx nd
                  (min (aer_current_idx r + 1) (raft_get_current_idx s))) a s
           else node_upd (\<lambda>nd. raft_node_set_next_idx nd (next_idx - 1)) a s);
     (_, s) \<leftarrow> raft_send_appendentries s (Some a);
     Some (0, s) }"

text \<open>The peer's new position, and the callback for a non-voting peer that has caught up.\<close>

definition aer_advance ::
    "raft_server \<Rightarrow> nat \<Rightarrow> msg_appendentries_response \<Rightarrow> raft_server option" where
  "aer_advance s a r = do {
     s \<leftarrow> node_upd (\<lambda>nd. raft_node_set_next_idx nd (aer_current_idx r + 1)) a s;
     s \<leftarrow> node_upd (\<lambda>nd. raft_node_set_match_idx nd (aer_current_idx r)) a s;
     nd \<leftarrow> node_at s a;
     if \<not> raft_node_is_voting nd \<and> -1 = voting_cfg_change_log_idx s \<and>
        raft_get_current_idx s \<le> aer_current_idx r + 1 \<and>
        cb_node_has_sufficient_logs (cb s) \<and> \<not> raft_node_has_sufficient_logs nd
     then do { s \<leftarrow> node_upd raft_node_set_has_sufficient_logs a s;
               Some (emit [EvNodeHasSufficientLogs a] s) }
     else Some s }"

text \<open>The update of the commit index.\<close>

definition aer_commit :: "raft_server \<Rightarrow> msg_appendentries_response \<Rightarrow> raft_server option" where
  "aer_commit s r = do {
     let point = aer_current_idx r;
     votes \<leftarrow> count_match s point (nodes s) 1;
     if num_nodes s sdiv 2 < votes \<and> raft_get_commit_idx s < point
     then raft_set_commit_idx s point else Some s }"

definition raft_recv_appendentries_response ::
    "raft_server \<Rightarrow> ptr \<Rightarrow> msg_appendentries_response \<Rightarrow> (int \<times> raft_server) option" where
  "raft_recv_appendentries_response s p r = do {
     stale \<leftarrow> (if aer_current_idx r \<noteq> 0
               then do { nd \<leftarrow> node_of s p; Some (aer_current_idx r \<le> raft_node_get_match_idx nd) }
               else Some False);
     if stale then Some (0, s)
     else if \<not> raft_is_leader s then Some (-1, s)
     else if current_term s < aer_term r
     then Some (0, raft_become_follower (raft_set_current_term s (aer_term r)))
     else if current_term s \<noteq> aer_term r then Some (0, s)
     else (case p of None \<Rightarrow> Some (0, s)
     | Some a \<Rightarrow>
       if 0 = aer_success r then aer_retry s a r
       else do {
         c_assert (aer_current_idx r \<le> raft_get_current_idx s);
         s \<leftarrow> aer_advance s a r;
         s \<leftarrow> aer_commit s r;
         nd \<leftarrow> node_at s a;
         more \<leftarrow> raft_get_entry_from_idx s (raft_node_get_next_idx nd);
         s \<leftarrow> (if more \<noteq> None then do { (_, s) \<leftarrow> raft_send_appendentries s p; Some s }
               else Some s);
         Some (0, s) }) }"

fun ae_scan ::
    "msg_appendentries \<Rightarrow> nat \<Rightarrow> int \<Rightarrow> int \<Rightarrow> raft_server \<Rightarrow> (int \<times> int \<times> raft_server) option" where
  "ae_scan ae 0 i cur s = Some (i, cur, s)"
| "ae_scan ae (Suc k) i cur s = do {
     ety \<leftarrow> mem_read (ae_entries ae) i;
     let ety_index = ae_prev_log_idx ae + 1 + i;
     existing_ety \<leftarrow> raft_get_entry_from_idx s ety_index;
     case existing_ety of
       None \<Rightarrow> Some (i, ety_index, s)
     | Some e \<Rightarrow>
         if ety_term e \<noteq> ety_term ety
         then do {
           c_assert (commit_idx s < ety_index);
           s \<leftarrow> srv_log_delete s ety_index;
           Some (i, ety_index, s) }
         else ae_scan ae k (i + 1) ety_index s }"

text \<open>The second loop: the Boolean tells whether every entry was appended.\<close>

fun ae_append ::
    "msg_appendentries \<Rightarrow> nat \<Rightarrow> int \<Rightarrow> int \<Rightarrow> raft_server \<Rightarrow> (bool \<times> int \<times> raft_server) option" where
  "ae_append ae 0 i cur s = Some (True, cur, s)"
| "ae_append ae (Suc k) i cur s = do {
     ety \<leftarrow> mem_read (ae_entries ae) i;
     (e, s) \<leftarrow> raft_append_entry s ety;
     if -1 = e then Some (False, cur, s)
     else ae_append ae k (i + 1) (ae_prev_log_idx ae + 1 + i) s }"

text \<open>The two failure exits of \<open>raft_recv_appendentries\<close>.\<close>

definition ae_fail :: "int \<Rightarrow> int \<Rightarrow> raft_server \<Rightarrow>
    (int \<times> msg_appendentries_response \<times> raft_server) option" where
  "ae_fail t cur s =
     Some (-1, \<lparr>aer_term = t, aer_success = 0, aer_current_idx = cur, aer_first_idx = 0\<rparr>, s)"

definition ae_fail_with_current_idx :: "int \<Rightarrow> raft_server \<Rightarrow>
    (int \<times> msg_appendentries_response \<times> raft_server) option" where
  "ae_fail_with_current_idx t s = ae_fail t (raft_get_current_idx s) s"

text \<open>Everything after the check of the previous entry.\<close>

definition ae_accept :: "raft_server \<Rightarrow> ptr \<Rightarrow> msg_appendentries \<Rightarrow> int \<Rightarrow>
    (int \<times> msg_appendentries_response \<times> raft_server) option" where
  "ae_accept s p ae t = do {
     s \<leftarrow> (if ae_n_entries ae = 0 \<and> 0 < ae_prev_log_idx ae \<and>
              ae_prev_log_idx ae + 1 < raft_get_current_idx s
           then do { c_assert (commit_idx s < ae_prev_log_idx ae + 1);
                     srv_log_delete s (ae_prev_log_idx ae + 1) }
           else Some s);
     (i, cur, s) \<leftarrow> ae_scan ae (nat (ae_n_entries ae)) 0 (ae_prev_log_idx ae) s;
     (ok, cur, s) \<leftarrow> ae_append ae (nat (ae_n_entries ae - i)) i cur s;
     if \<not> ok then ae_fail_with_current_idx t s
     else do {
       s \<leftarrow> (if raft_get_commit_idx s < ae_leader_commit ae
             then (let last_log_idx = max (raft_get_current_idx s) 1
                   in raft_set_commit_idx s (min last_log_idx (ae_leader_commit ae)))
             else Some s);
       let s = s\<lparr>current_leader := p\<rparr>;
       Some (0, \<lparr>aer_term = t, aer_success = 1, aer_current_idx = cur,
                 aer_first_idx = ae_prev_log_idx ae + 1\<rparr>, s) } }"

text \<open>The check of the previous entry.\<close>

definition ae_check_prev :: "raft_server \<Rightarrow> ptr \<Rightarrow> msg_appendentries \<Rightarrow> int \<Rightarrow>
    (int \<times> msg_appendentries_response \<times> raft_server) option" where
  "ae_check_prev s p ae t =
     (if 0 < ae_prev_log_idx ae
      then do {
        e \<leftarrow> raft_get_entry_from_idx s (ae_prev_log_idx ae);
        case e of
          None \<Rightarrow> ae_fail_with_current_idx t s
        | Some e \<Rightarrow>
            if raft_get_current_idx s < ae_prev_log_idx ae then ae_fail_with_current_idx t s
            else if ety_term e \<noteq> word_of_int (ae_prev_log_term ae)
            then do {
              c_assert (commit_idx s < ae_prev_log_idx ae);
              s \<leftarrow> srv_log_delete s (ae_prev_log_idx ae);
              ae_fail t (ae_prev_log_idx ae - 1) s }
            else ae_accept s p ae t }
      else ae_accept s p ae t)"

definition raft_recv_appendentries :: "raft_server \<Rightarrow> ptr \<Rightarrow> msg_appendentries \<Rightarrow>
    (int \<times> msg_appendentries_response \<times> raft_server) option" where
  "raft_recv_appendentries s p ae =
     (let s = s\<lparr>timeout_elapsed := 0\<rparr>;
          t = current_term s in
      if raft_is_candidate s \<and> current_term s = ae_term ae
      then ae_check_prev (raft_become_follower (s\<lparr>voted_for := -1\<rparr>)) p ae t
      else if current_term s < ae_term ae
      then ae_check_prev (raft_become_follower (raft_set_current_term s (ae_term ae))) p ae (ae_term ae)
      else if ae_term ae < current_term s then ae_fail_with_current_idx t s
      else ae_check_prev s p ae t)"

section \<open>Votes\<close>

definition raft_already_voted :: "raft_server \<Rightarrow> bool" where
  "raft_already_voted s = (-1 \<noteq> voted_for s)"

definition should_grant_vote :: "raft_server \<Rightarrow> msg_requestvote \<Rightarrow> bool option" where
  "should_grant_vote s vr =
     (if rv_term vr < raft_get_current_term s then Some False
      else if raft_already_voted s then Some False
      else (let current_idx = raft_get_current_idx s in
        if 0 = current_idx then Some True
        else do {
          ety \<leftarrow> raft_get_entry_from_idx s current_idx;
          e \<leftarrow> ety;
          if ety_term e < word_of_int (rv_last_log_term vr) then Some True
          else if word_of_int (rv_last_log_term vr) = ety_term e \<and> current_idx \<le> rv_last_log_idx vr
          then Some True
          else Some False }))"

definition raft_recv_requestvote :: "raft_server \<Rightarrow> ptr \<Rightarrow> msg_requestvote \<Rightarrow>
    (int \<times> msg_requestvote_response \<times> raft_server) option" where
  "raft_recv_requestvote s p vr = do {
     let s = (if raft_get_current_term s < rv_term vr
              then raft_become_follower (raft_set_current_term s (rv_term vr)) else s);
     grant \<leftarrow> should_grant_vote s vr;
     if grant
     then do {
       c_assert (\<not> (raft_is_leader s \<or> raft_is_candidate s));
       let s = raft_vote_for_nodeid s (rv_candidate_id vr);
       let s = s\<lparr>current_leader := None, timeout_elapsed := 0\<rparr>;
       Some (0, \<lparr>rvr_term = raft_get_current_term s, rvr_vote_granted = 1\<rparr>, s) }
     else Some (0, \<lparr>rvr_term = raft_get_current_term s, rvr_vote_granted = 0\<rparr>, s) }"

definition raft_votes_is_majority :: "int \<Rightarrow> int \<Rightarrow> bool" where
  "raft_votes_is_majority n nvotes =
     (if n < nvotes then False else (let half = n sdiv 2 in half + 1 \<le> nvotes))"

fun count_votes :: "raft_server \<Rightarrow> nat list \<Rightarrow> int \<Rightarrow> int option" where
  "count_votes s [] votes = Some votes"
| "count_votes s (n # ns) votes =
     (if node s \<noteq> Some n
      then do {
        nd \<leftarrow> node_at s n;
        count_votes s ns
          (if raft_node_is_voting nd \<and> raft_node_has_vote_for_me nd then votes + 1 else votes) }
      else count_votes s ns votes)"

definition raft_get_nvotes_for_me :: "raft_server \<Rightarrow> int option" where
  "raft_get_nvotes_for_me s = do {
     votes \<leftarrow> count_votes s (nodes s) 0;
     i \<leftarrow> raft_get_nodeid s;
     Some (if voted_for s = i then votes + 1 else votes) }"

definition raft_recv_requestvote_response ::
    "raft_server \<Rightarrow> ptr \<Rightarrow> msg_requestvote_response \<Rightarrow> (int \<times> raft_server) option" where
  "raft_recv_requestvote_response s p r =
     (if \<not> raft_is_candidate s then Some (0, s)
      else if raft_get_current_term s < rvr_term r
      then Some (0, raft_become_follower (raft_set_current_term s (rvr_term r)))
      else if raft_get_current_term s \<noteq> rvr_term r then Some (0, s)
      else if 1 = rvr_vote_granted r
      then do {
        s \<leftarrow> (case p of None \<Rightarrow> Some s | Some a \<Rightarrow> node_upd (\<lambda>nd. raft_node_vote_for_me nd 1) a s);
        votes \<leftarrow> raft_get_nvotes_for_me s;
        s \<leftarrow> (if raft_votes_is_majority (num_nodes s) votes then raft_become_leader s else Some s);
        Some (0, s) }
      else Some (0, s))"

section \<open>Client entries\<close>

definition recv_entry_step :: "nat \<Rightarrow> raft_server \<Rightarrow> raft_server option" where
  "recv_entry_step n s =
     (if node s = Some n then Some s
      else do {
        nd \<leftarrow> node_at s n;
        if \<not> raft_node_is_voting nd then Some s
        else if raft_node_get_next_idx nd = raft_get_current_idx s
        then do { (r, s) \<leftarrow> raft_send_appendentries s (Some n); Some s }
        else Some s })"

text \<open>The response is written on success only.\<close>

definition raft_recv_entry :: "raft_server \<Rightarrow> raft_entry \<Rightarrow>
    (int \<times> msg_entry_response option \<times> raft_server) option" where
  "raft_recv_entry s e =
     (if raft_entry_is_voting_cfg_change e \<and> -1 \<noteq> voting_cfg_change_log_idx s
      then Some (-1, None, s)
      else if \<not> raft_is_leader s then Some (-1, None, s)
      else do {
        let ety = \<lparr>ety_term = word_of_int (current_term s), ety_id = ety_id e,
                   ety_type = ety_type e, ety_data = ety_data e\<rparr>;
        (_, s) \<leftarrow> raft_append_entry s ety;
        s \<leftarrow> for_each recv_entry_step (nodes s) s;
        let s = (if 1 = num_nodes s then s\<lparr>commit_idx := raft_get_current_idx s\<rparr> else s);
        let r = \<lparr>mer_id = ety_id e, mer_term = current_term s, mer_idx = raft_get_current_idx s\<rparr>;
        let s = (if raft_entry_is_voting_cfg_change e
                 then s\<lparr>voting_cfg_change_log_idx := raft_get_current_idx s\<rparr> else s);
        Some (0, Some r, s) })"

definition raft_msg_entry_response_committed :: "raft_server \<Rightarrow> msg_entry_response \<Rightarrow> int option" where
  "raft_msg_entry_response_committed s r = do {
     ety \<leftarrow> raft_get_entry_from_idx s (mer_idx r);
     case ety of None \<Rightarrow> Some 0
     | Some e \<Rightarrow>
         if word_of_int (mer_term r) \<noteq> ety_term e then Some (-1)
         else Some (if mer_idx r \<le> raft_get_commit_idx s then 1 else 0) }"

section \<open>Membership\<close>

definition raft_add_node :: "raft_server \<Rightarrow> ptr \<Rightarrow> int \<Rightarrow> bool \<Rightarrow> (ptr \<times> raft_server) option" where
  "raft_add_node s ud nid is_self = do {
     p \<leftarrow> raft_get_node s nid;
     case p of
       Some a \<Rightarrow> do { s \<leftarrow> node_upd (\<lambda>nd. raft_node_set_voting nd 1) a s; Some (Some a, s) }
     | None \<Rightarrow>
         (let a = length (heap s);
              s = s\<lparr>heap := heap s @ [Some (raft_node_new ud nid)], nodes := nodes s @ [a]\<rparr>;
              s = (if is_self then s\<lparr>node := Some a\<rparr> else s)
          in Some (Some a, s)) }"

definition raft_add_non_voting_node ::
    "raft_server \<Rightarrow> ptr \<Rightarrow> int \<Rightarrow> bool \<Rightarrow> (ptr \<times> raft_server) option" where
  "raft_add_non_voting_node s ud nid is_self = do {
     (p, s) \<leftarrow> raft_add_node s ud nid is_self;
     a \<leftarrow> p;
     s \<leftarrow> node_upd (\<lambda>nd. raft_node_set_voting nd 0) a s;
     Some (p, s) }"

text \<open>
  The new array has room for one node less: copying every node but the removed one overruns it
  when the pointer is not in the array. (A pointer is in the array once: \<open>raft_add_node\<close>
  allocates it.) The object is freed; other pointers to it stay.
\<close>

definition raft_remove_node :: "raft_server \<Rightarrow> nat \<Rightarrow> raft_server option" where
  "raft_remove_node s a = do {
     let new_array = filter (\<lambda>n. n \<noteq> a) (nodes s);
     c_assert (length new_array + 1 = length (nodes s));
     node_at s a;
     Some (s\<lparr>nodes := new_array, heap := (heap s)[a := None]\<rparr>) }"

section \<open>Calls\<close>

text \<open>The calls by which an application drives a server, and their effect on its state.\<close>

datatype raft_call =
    Periodic int int
  | RecvRequestvote ptr msg_requestvote
  | RecvRequestvoteResponse ptr msg_requestvote_response
  | RecvAppendentries ptr msg_appendentries
  | RecvAppendentriesResponse ptr msg_appendentries_response
  | RecvEntry raft_entry
  | ApplyEntry

fun raft_exec :: "raft_call \<Rightarrow> raft_server \<Rightarrow> raft_server option" where
  "raft_exec (Periodic ms rnd) s = map_option snd (raft_periodic s ms rnd)"
| "raft_exec (RecvRequestvote p vr) s = map_option (snd \<circ> snd) (raft_recv_requestvote s p vr)"
| "raft_exec (RecvRequestvoteResponse p r) s = map_option snd (raft_recv_requestvote_response s p r)"
| "raft_exec (RecvAppendentries p ae) s = map_option (snd \<circ> snd) (raft_recv_appendentries s p ae)"
| "raft_exec (RecvAppendentriesResponse p r) s =
     map_option snd (raft_recv_appendentries_response s p r)"
| "raft_exec (RecvEntry e) s = map_option (snd \<circ> snd) (raft_recv_entry s e)"
| "raft_exec ApplyEntry s = map_option snd (raft_apply_entry s)"

end
