(* ===== verification/Raft_Election.thy ===== *)
theory Raft_Election
  imports Raft_Server
begin

text \<open>
  The election protocol of one server, seen abstractly. \<open>elect\<close> keeps of a server what
  elections depend on: the term, the vote, the role, and for every peer its id, whether it is a
  voting member and whether its vote was counted. \<open>elect_step\<close> is the specification: the five
  moves a correct server may make. The lemmas show that every handler of the implementation makes
  only such moves (a functional refinement through \<open>elect_of\<close>), and say which one.
\<close>

section \<open>Specification\<close>

record elect =
  e_term :: int
  e_vote :: int
  e_role :: raft_state_e
  e_self :: ptr
  e_nodes :: "nat list"
  e_peer :: "nat \<Rightarrow> (int \<times> bool \<times> bool) option"

definition peer_view :: "raft_node \<Rightarrow> int \<times> bool \<times> bool" where
  "peer_view nd = (node_id nd, raft_node_is_voting nd, raft_node_has_vote_for_me nd)"

definition elect_of :: "raft_server \<Rightarrow> elect" where
  "elect_of s = \<lparr>e_term = current_term s, e_vote = voted_for s, e_role = srv_state s,
     e_self = node s, e_nodes = nodes s, e_peer = (\<lambda>a. map_option peer_view (node_at s a))\<rparr>"

definition counted :: "elect \<Rightarrow> nat \<Rightarrow> bool" where
  "counted e a = (e_self e \<noteq> Some a \<and> (\<exists>i. e_peer e a = Some (i, True, True)))"

definition own_id :: "elect \<Rightarrow> int option" where
  "own_id e = do { a \<leftarrow> e_self e; (i, v, w) \<leftarrow> e_peer e a; Some i }"

definition tally :: "elect \<Rightarrow> nat" where
  "tally e = length (filter (counted e) (e_nodes e)) + (if own_id e = Some (e_vote e) then 1 else 0)"

text \<open>The moves.\<close>

definition new_term :: "int \<Rightarrow> elect \<Rightarrow> elect" where
  "new_term t e = e\<lparr>e_term := t, e_vote := -1, e_role := RAFT_STATE_FOLLOWER\<rparr>"

definition stand :: "elect \<Rightarrow> elect" where
  "stand e = e\<lparr>e_term := e_term e + 1,
     e_vote := (case own_id e of None \<Rightarrow> -1 | Some i \<Rightarrow> i), e_role := RAFT_STATE_CANDIDATE,
     e_peer := (\<lambda>a. if a \<in> set (e_nodes e)
                    then map_option (\<lambda>(i, v, w). (i, v, False)) (e_peer e a) else e_peer e a)\<rparr>"

definition step_down :: "elect \<Rightarrow> elect" where
  "step_down e = e\<lparr>e_vote := -1, e_role := RAFT_STATE_FOLLOWER\<rparr>"

definition give_vote :: "int \<Rightarrow> elect \<Rightarrow> elect" where
  "give_vote c e = e\<lparr>e_vote := c\<rparr>"

definition take_vote :: "ptr \<Rightarrow> elect \<Rightarrow> elect" where
  "take_vote p e = (case p of None \<Rightarrow> e
     | Some a \<Rightarrow> e\<lparr>e_peer := (e_peer e)(a := map_option (\<lambda>(i, v, w). (i, v, True)) (e_peer e a))\<rparr>)"

definition win :: "elect \<Rightarrow> elect" where
  "win e = e\<lparr>e_role := RAFT_STATE_LEADER\<rparr>"

inductive elect_step :: "elect \<Rightarrow> elect \<Rightarrow> bool" where
  new_term: "e_term e < t \<Longrightarrow> elect_step e (new_term t e)"
| stand: "e_role e \<noteq> RAFT_STATE_LEADER \<Longrightarrow> elect_step e (stand e)"
| step_down: "e_role e = RAFT_STATE_CANDIDATE \<Longrightarrow> elect_step e (step_down e)"
| give_vote: "e_vote e = -1 \<Longrightarrow> e_role e \<notin> {RAFT_STATE_CANDIDATE, RAFT_STATE_LEADER} \<Longrightarrow>
    elect_step e (give_vote c e)"
| take_vote: "e_role e = RAFT_STATE_CANDIDATE \<Longrightarrow> elect_step e (take_vote p e)"
| win: "e_role e = RAFT_STATE_CANDIDATE \<Longrightarrow> length (e_nodes e) div 2 < tally e \<Longrightarrow>
    elect_step e (win e)"

lemmas move_defs = new_term_def stand_def step_down_def give_vote_def take_vote_def win_def

section \<open>Operations that elections do not see\<close>

lemma node_at_frame [simp]:
  "node_at (s\<lparr>timeout_elapsed := x\<rparr>) a = node_at s a"
  "node_at (s\<lparr>current_leader := p\<rparr>) a = node_at s a"
  "node_at (s\<lparr>srv_log := l\<rparr>) a = node_at s a"
  "node_at (s\<lparr>commit_idx := x\<rparr>) a = node_at s a"
  "node_at (s\<lparr>last_applied_idx := x\<rparr>) a = node_at s a"
  "node_at (s\<lparr>voting_cfg_change_log_idx := x\<rparr>) a = node_at s a"
  "node_at (s\<lparr>trace := tr\<rparr>) a = node_at s a"
  "node_at (s\<lparr>cb := c\<rparr>) a = node_at s a"
  "node_at (s\<lparr>current_term := x\<rparr>) a = node_at s a"
  "node_at (s\<lparr>voted_for := x\<rparr>) a = node_at s a"
  "node_at (s\<lparr>srv_state := st\<rparr>) a = node_at s a"
  "node_at (emit evs s) a = node_at s a"
  by (auto simp: node_at_def emit_def)

lemma elect_of_simps [frame]:
  "elect_of (s\<lparr>timeout_elapsed := x\<rparr>) = elect_of s"
  "elect_of (s\<lparr>current_leader := p\<rparr>) = elect_of s"
  "elect_of (s\<lparr>srv_log := l\<rparr>) = elect_of s"
  "elect_of (s\<lparr>commit_idx := x\<rparr>) = elect_of s"
  "elect_of (s\<lparr>last_applied_idx := x\<rparr>) = elect_of s"
  "elect_of (s\<lparr>voting_cfg_change_log_idx := x\<rparr>) = elect_of s"
  "elect_of (s\<lparr>trace := tr\<rparr>) = elect_of s"
  "elect_of (s\<lparr>cb := c\<rparr>) = elect_of s"
  "elect_of (emit evs s) = elect_of s"
  by (simp_all add: elect_of_def) (simp add: emit_def)

lemma elect_of_if [frame]: "elect_of (if b then s else s') = (if b then elect_of s else elect_of s')"
  by simp

lemma elect_of_sel [simp]:
  "e_term (elect_of s) = current_term s" "e_vote (elect_of s) = voted_for s"
  "e_role (elect_of s) = srv_state s" "e_self (elect_of s) = node s"
  "e_nodes (elect_of s) = nodes s"
  by (simp_all add: elect_of_def)

lemma elect_of_peer: "e_peer (elect_of s) a = map_option peer_view (node_at s a)"
  by (simp add: elect_of_def)

lemma node_at_set:
  "node_at (node_set s a nd) b = (if b = a \<and> a < length (heap s) then Some nd else node_at s b)"
  by (auto simp: node_at_def node_set_def)

lemma node_upd_SomeE:
  assumes "node_upd f a s = Some s'"
  obtains nd where "node_at s a = Some nd" "a < length (heap s)" "s' = node_set s a (f nd)"
  using assms by (auto simp: node_upd_def node_at_def bind_eq_Some_conv split: if_splits)

lemma elect_of_node_set:
  "a < length (heap s) \<Longrightarrow>
   elect_of (node_set s a nd) = (elect_of s)\<lparr>e_peer := (e_peer (elect_of s))(a := Some (peer_view nd))\<rparr>"
  by (auto simp: elect_of_def node_at_set fun_eq_iff) (simp_all add: node_set_def)

lemma node_upd_view:
  assumes "node_upd f a s = Some s'" and "\<And>nd. peer_view (f nd) = peer_view nd"
  shows "elect_of s' = elect_of s"
  using assms(1)
proof (rule node_upd_SomeE)
  fix nd assume nd: "node_at s a = Some nd" "a < length (heap s)" "s' = node_set s a (f nd)"
  then have "(e_peer (elect_of s))(a := Some (peer_view (f nd))) = e_peer (elect_of s)"
    by (auto simp: assms(2) elect_of_peer)
  then show ?thesis using nd by (simp add: elect_of_node_set)
qed

lemma peer_view_idx [simp]:
  "peer_view (raft_node_set_next_idx nd i) = peer_view nd"
  "peer_view (raft_node_set_match_idx nd i) = peer_view nd"
  "peer_view (raft_node_set_has_sufficient_logs nd) = peer_view nd"
  by (simp_all add: peer_view_def)

lemma send_requestvote_view:
  "raft_send_requestvote s p = Some (r, s') \<Longrightarrow> elect_of s' = elect_of s"
  by (auto simp: raft_send_requestvote_def bind_eq_Some_conv Let_def frame split: if_splits)

lemma send_appendentries_view:
  "raft_send_appendentries s p = Some (r, s') \<Longrightarrow> elect_of s' = elect_of s"
  by (auto simp: raft_send_appendentries_def bind_eq_Some_conv Let_def frame split: if_splits)

lemma apply_entry_view: "raft_apply_entry s = Some (r, s') \<Longrightarrow> elect_of s' = elect_of s"
  by (auto simp: raft_apply_entry_def Let_def frame elim!: bind_SomeE
      split: if_split_asm option.split_asm)

lemma append_entry_view: "raft_append_entry s e = Some (r, s') \<Longrightarrow> elect_of s' = elect_of s"
  by (auto simp: raft_append_entry_def bind_eq_Some_conv Let_def frame split: if_splits)

lemma srv_log_delete_view: "srv_log_delete s i = Some s' \<Longrightarrow> elect_of s' = elect_of s"
  by (auto simp: srv_log_delete_def bind_eq_Some_conv frame)

lemma set_commit_idx_view: "raft_set_commit_idx s i = Some s' \<Longrightarrow> elect_of s' = elect_of s"
  by (auto simp: raft_set_commit_idx_def bind_eq_Some_conv frame)

lemma ae_scan_view: "ae_scan ae k i cur s = Some (j, c, s') \<Longrightarrow> elect_of s' = elect_of s"
  by (induction ae k i cur s rule: ae_scan.induct)
     (auto simp: bind_eq_Some_conv Let_def split: option.splits if_splits dest: srv_log_delete_view)

lemma ae_append_view: "ae_append ae k i cur s = Some (ok, c, s') \<Longrightarrow> elect_of s' = elect_of s"
  by (induction ae k i cur s rule: ae_append.induct)
     (auto simp: bind_eq_Some_conv split: if_splits dest: append_entry_view)

lemma ae_accept_view:
  assumes "ae_accept s p ae t = Some (rc, r, s')"
  shows "elect_of s' = elect_of s"
  using assms
  by (auto simp: ae_accept_def ae_fail_with_current_idx_def ae_fail_def Let_def frame
      elim!: bind_SomeE split: if_split_asm
      dest!: set_commit_idx_view ae_scan_view ae_append_view srv_log_delete_view)

lemma send_appendentries_all_view:
  assumes "raft_send_appendentries_all s = Some s'"
  shows "elect_of s' = elect_of s"
proof -
  let ?s = "s\<lparr>timeout_elapsed := 0\<rparr>"
  have "elect_of s' = elect_of ?s"
    by (rule for_each_inv [OF assms [unfolded raft_send_appendentries_all_def Let_def]])
       (auto simp: bind_eq_Some_conv send_appendentries_view split: if_splits)
  then show ?thesis by (simp add: frame)
qed

lemma request_step_view: "request_step n s = Some s' \<Longrightarrow> elect_of s' = elect_of s"
  by (auto simp: request_step_def bind_eq_Some_conv send_requestvote_view split: if_splits)

lemma recv_entry_step_view: "recv_entry_step n s = Some s' \<Longrightarrow> elect_of s' = elect_of s"
  by (auto simp: recv_entry_step_def bind_eq_Some_conv send_appendentries_view split: if_splits)

lemma become_leader_step_view: "become_leader_step n s = Some s' \<Longrightarrow> elect_of s' = elect_of s"
  by (auto simp: become_leader_step_def bind_eq_Some_conv split: if_splits
      dest!: send_appendentries_view node_upd_view)

lemmas view_simps = send_requestvote_view send_appendentries_view apply_entry_view
  append_entry_view srv_log_delete_view set_commit_idx_view ae_accept_view
  send_appendentries_all_view request_step_view recv_entry_step_view become_leader_step_view

section \<open>Changes of term, vote and role\<close>

lemma set_state_view: "elect_of (raft_set_state s st) = (elect_of s)\<lparr>e_role := st\<rparr>"
  by (simp add: raft_set_state_def elect_of_def Let_def)

lemma set_current_term_view:
  "elect_of (raft_set_current_term s t) =
     (if current_term s < t then (elect_of s)\<lparr>e_term := t, e_vote := -1\<rparr> else elect_of s)"
  by (simp add: raft_set_current_term_def frame) (simp add: elect_of_def)

lemma follow_view:
  "current_term s < t \<Longrightarrow>
   elect_of (raft_become_follower (raft_set_current_term s t)) = new_term t (elect_of s)"
  by (simp add: raft_become_follower_def set_state_view set_current_term_view new_term_def)

lemma set_vote_view [frame]: "elect_of (s\<lparr>voted_for := i\<rparr>) = give_vote i (elect_of s)"
  by (simp add: give_vote_def elect_of_def)

lemma vote_for_nodeid_view:
  "elect_of (raft_vote_for_nodeid s i) = give_vote i (elect_of s)"
  by (simp add: raft_vote_for_nodeid_def frame)

lemma become_leader_view:
  assumes "raft_become_leader s = Some s'"
  shows "elect_of s' = win (elect_of s)"
proof -
  have "elect_of s' = elect_of (raft_set_state s RAFT_STATE_LEADER)"
    by (rule for_each_inv [OF assms [unfolded raft_become_leader_def Let_def]])
       (auto simp: become_leader_step_view)
  then show ?thesis by (simp add: set_state_view win_def)
qed

lemma clear_votes_view:
  assumes "for_each (node_upd (\<lambda>nd. raft_node_vote_for_me nd 0)) ns s = Some s'"
  shows "elect_of s' = (elect_of s)\<lparr>e_peer := (\<lambda>a. if a \<in> set ns
           then map_option (\<lambda>(i, v, w). (i, v, False)) (e_peer (elect_of s) a)
           else e_peer (elect_of s) a)\<rparr>"
  using assms
proof (induction ns arbitrary: s)
  case Nil
  then show ?case by (simp add: elect_of_def)
next
  case (Cons n ns)
  then obtain t where t: "node_upd (\<lambda>nd. raft_node_vote_for_me nd 0) n s = Some t"
    "for_each (node_upd (\<lambda>nd. raft_node_vote_for_me nd 0)) ns t = Some s'"
    by (auto simp: bind_eq_Some_conv)
  from t(1) obtain nd where nd: "node_at s n = Some nd" "n < length (heap s)"
    "t = node_set s n (raft_node_vote_for_me nd 0)" by (rule node_upd_SomeE)
  have "peer_view (raft_node_vote_for_me nd 0) = (\<lambda>(i, v, w). (i, v, False)) (peer_view nd)"
    by (simp add: peer_view_def votef.get_set)
  with Cons.IH [OF t(2)] nd show ?case
    by (cases "peer_view nd") (auto simp: elect_of_node_set elect_of_peer fun_eq_iff intro!: elect.equality)
qed

lemma own_id_view: "own_id (elect_of s) = raft_get_nodeid s"
  by (auto simp: own_id_def elect_of_peer raft_get_nodeid_def node_of_def peer_view_def raft_node_get_id_def
      bind_eq_None_conv split: option.splits Option.bind_splits)

lemma own_id_alt: "own_id e = do { a \<leftarrow> e_self e; map_option fst (e_peer e a) }"
  by (cases "e_self e") (auto simp: own_id_def split: Option.bind_splits)

lemma become_candidate_view:
  assumes "raft_become_candidate s rnd = Some s'"
  shows "elect_of s' = stand (elect_of s)"
proof -
  define s1 where "s1 = raft_set_current_term s (raft_get_current_term s + 1)"
  from assms obtain s2 s3 t where
    s2: "for_each (node_upd (\<lambda>nd. raft_node_vote_for_me nd 0)) (nodes s1) s1 = Some s2" and
    s3: "raft_vote s2 (node s2) = Some s3" and
    fin: "for_each request_step (nodes s3)
            ((raft_set_state (s3\<lparr>current_leader := None\<rparr>) RAFT_STATE_CANDIDATE)\<lparr>timeout_elapsed := t\<rparr>)
          = Some s'"
    unfolding raft_become_candidate_def Let_def s1_def [symmetric]
    by (auto elim!: bind_SomeE simp: raft_set_state_def)
  have v1: "elect_of s1 = (elect_of s)\<lparr>e_term := current_term s + 1, e_vote := -1\<rparr>"
    by (simp add: s1_def set_current_term_view raft_get_current_term_def)
  have n1: "nodes s1 = nodes s" using arg_cong [OF v1, of e_nodes] by simp
  note v2 = clear_votes_view [OF s2]
  have own: "own_id (elect_of s2) = own_id (elect_of s)"
    by (cases "node s") (simp_all add: own_id_alt v2 v1 option.map_comp comp_def case_prod_beta)
  have v3: "elect_of s3 = give_vote (case own_id (elect_of s2) of None \<Rightarrow> -1 | Some i \<Rightarrow> i) (elect_of s2)"
    using s3 by (auto simp: raft_vote_def own_id_view raft_get_nodeid_def vote_for_nodeid_view
        node_of_def split: if_splits option.splits Option.bind_splits)
  have "elect_of s' = elect_of ((raft_set_state (s3\<lparr>current_leader := None\<rparr>) RAFT_STATE_CANDIDATE)
          \<lparr>timeout_elapsed := t\<rparr>)"
    by (rule for_each_inv [OF fin]) (auto simp: request_step_view)
  then show ?thesis
    by (simp add: frame set_state_view v3 [unfolded own] v2 v1 n1 stand_def give_vote_def cong: if_cong)
qed

section \<open>The handlers\<close>

lemma periodic_view:
  assumes "raft_periodic s ms rnd = Some (rc, s')"
  shows "elect_of s' = elect_of s \<or> srv_state s \<noteq> RAFT_STATE_LEADER \<and> elect_of s' = stand (elect_of s)"
  using assms
  by (auto simp: raft_periodic_def raft_election_start_def Let_def frame elim!: bind_SomeE
      split: if_split_asm
      dest!: apply_entry_view send_appendentries_all_view become_candidate_view)

lemma ae_check_prev_view: "ae_check_prev s p ae t = Some (rc, r, s') \<Longrightarrow> elect_of s' = elect_of s"
  by (auto simp: ae_check_prev_def ae_fail_with_current_idx_def ae_fail_def elim!: bind_SomeE
      split: if_split_asm option.split_asm dest!: srv_log_delete_view ae_accept_view)

lemma recv_appendentries_view:
  assumes "raft_recv_appendentries s p ae = Some (rc, r, s')"
  shows "elect_of s' = elect_of s \<or>
         current_term s < ae_term ae \<and> elect_of s' = new_term (ae_term ae) (elect_of s) \<or>
         srv_state s = RAFT_STATE_CANDIDATE \<and> current_term s = ae_term ae \<and>
           elect_of s' = step_down (elect_of s)"
  using assms
  by (auto simp: raft_recv_appendentries_def Let_def ae_fail_with_current_idx_def ae_fail_def frame
      follow_view raft_become_follower_def set_state_view step_down_def give_vote_def new_term_def
      set_current_term_view raft_is_candidate_def raft_get_state_def
      split: if_split_asm dest!: ae_check_prev_view)

lemma aer_retry_view: "aer_retry s a r = Some (rc, s') \<Longrightarrow> elect_of s' = elect_of s"
  by (auto simp: aer_retry_def Let_def elim!: bind_SomeE split: if_split_asm
      dest!: send_appendentries_view node_upd_view)

lemma aer_advance_view: "aer_advance s a r = Some s' \<Longrightarrow> elect_of s' = elect_of s"
  by (auto simp: aer_advance_def frame elim!: bind_SomeE split: if_split_asm dest!: node_upd_view)

lemma aer_commit_view: "aer_commit s r = Some s' \<Longrightarrow> elect_of s' = elect_of s"
  by (auto simp: aer_commit_def Let_def elim!: bind_SomeE split: if_split_asm dest!: set_commit_idx_view)

lemma recv_appendentries_response_view:
  assumes "raft_recv_appendentries_response s p r = Some (rc, s')"
  shows "elect_of s' = elect_of s \<or>
         current_term s < aer_term r \<and> elect_of s' = new_term (aer_term r) (elect_of s)"
  using assms
  by (auto simp: raft_recv_appendentries_response_def Let_def frame follow_view elim!: bind_SomeE
      split: if_split_asm option.split_asm
      dest!: send_appendentries_view aer_retry_view aer_advance_view aer_commit_view)

lemma recv_entry_view:
  assumes "raft_recv_entry s e = Some (rc, r, s')"
  shows "elect_of s' = elect_of s"
proof (cases "rc = 0 \<and> r \<noteq> None")
  case True
  from assms True obtain s1 s2 r1 where
    "raft_append_entry s \<lparr>ety_term = word_of_int (current_term s), ety_id = ety_id e,
                   ety_type = ety_type e, ety_data = ety_data e\<rparr> = Some (r1, s1)"
    and 2: "for_each recv_entry_step (nodes s1) s1 = Some s2" and 3: "elect_of s' = elect_of s2"
    by (auto simp: raft_recv_entry_def Let_def frame elim!: bind_SomeE split: if_split_asm)
  moreover have "elect_of s2 = elect_of s1"
    by (rule for_each_inv [OF 2]) (auto simp: recv_entry_step_view)
  ultimately show ?thesis by (simp add: append_entry_view)
next
  case False
  with assms show ?thesis
    by (auto simp: raft_recv_entry_def Let_def elim!: bind_SomeE split: if_split_asm)
qed

lemma recv_requestvote_view:
  assumes "raft_recv_requestvote s p vr = Some (rc, r, s')"
  defines "e1 \<equiv> (if current_term s < rv_term vr then new_term (rv_term vr) (elect_of s) else elect_of s)"
  shows "rvr_term r = e_term e1 \<and> rc = 0 \<and>
         (rvr_vote_granted r = 0 \<and> elect_of s' = e1 \<or>
          rvr_vote_granted r = 1 \<and> elect_of s' = give_vote (rv_candidate_id vr) e1 \<and>
            e_vote e1 = -1 \<and> e_term e1 = rv_term vr \<and>
            e_role e1 \<notin> {RAFT_STATE_CANDIDATE, RAFT_STATE_LEADER})"
proof -
  define s1 where "s1 = (if raft_get_current_term s < rv_term vr
    then raft_become_follower (raft_set_current_term s (rv_term vr)) else s)"
  have e1: "elect_of s1 = e1" by (simp add: s1_def e1_def follow_view raft_get_current_term_def)
  have "rv_term vr \<le> current_term s1" using arg_cong [OF e1, of e_term] by (simp add: e1_def new_term_def)
  then show ?thesis
    using assms(1) unfolding e1 [symmetric] raft_recv_requestvote_def Let_def s1_def [symmetric]
    by (auto simp: frame vote_for_nodeid_view prop_defs should_grant_vote_def raft_already_voted_def
        raft_vote_for_nodeid_def emit_def Let_def elim!: bind_SomeE split: if_split_asm)
qed

lemma count_votes_view:
  "count_votes s ns v = Some n \<Longrightarrow> n = v + int (length (filter (counted (elect_of s)) ns))"
  by (induction s ns v rule: count_votes.induct)
     (auto simp: counted_def elect_of_peer peer_view_def elim!: bind_SomeE split: if_split_asm)

lemma nvotes_view: "raft_get_nvotes_for_me s = Some n \<Longrightarrow> n = int (tally (elect_of s))"
  by (auto simp: raft_get_nvotes_for_me_def tally_def own_id_view elim!: bind_SomeE
      dest!: count_votes_view)

lemma majority_iff:
  "raft_votes_is_majority (int n) (int v) \<longleftrightarrow> v \<le> n \<and> n div 2 < v"
  by (auto simp: raft_votes_is_majority_def sdiv_pos_div Let_def)

lemma take_vote_view:
  assumes "node_upd (\<lambda>nd. raft_node_vote_for_me nd 1) a s = Some s'"
  shows "elect_of s' = take_vote (Some a) (elect_of s)"
  using assms
  by (rule node_upd_SomeE)
     (auto simp: elect_of_node_set elect_of_peer take_vote_def peer_view_def votef.get_set)

lemma recv_requestvote_response_view:
  assumes "raft_recv_requestvote_response s p r = Some (rc, s')"
  defines "e1 \<equiv> take_vote p (elect_of s)"
  shows "elect_of s' = elect_of s \<or>
         srv_state s = RAFT_STATE_CANDIDATE \<and> current_term s < rvr_term r \<and>
           elect_of s' = new_term (rvr_term r) (elect_of s) \<or>
         srv_state s = RAFT_STATE_CANDIDATE \<and> current_term s = rvr_term r \<and> rvr_vote_granted r = 1 \<and>
           (elect_of s' = e1 \<or> length (e_nodes e1) div 2 < tally e1 \<and> elect_of s' = win e1)"
proof (cases "raft_is_candidate s \<and> raft_get_current_term s = rvr_term r \<and> 1 = rvr_vote_granted r")
  case False
  with assms(1) show ?thesis
    by (auto simp: raft_recv_requestvote_response_def prop_defs follow_view split: if_split_asm)
next
  case True
  from assms(1) True obtain s1 v where
    1: "(case p of None \<Rightarrow> Some s | Some a \<Rightarrow> node_upd (\<lambda>nd. raft_node_vote_for_me nd 1) a s) = Some s1"
    and 2: "raft_get_nvotes_for_me s1 = Some v"
    and 3: "(if raft_votes_is_majority (num_nodes s1) v then raft_become_leader s1 else Some s1) = Some s'"
    by (auto simp: raft_recv_requestvote_response_def elim!: bind_SomeE split: if_split_asm)
  have e1: "elect_of s1 = e1"
    using 1 by (cases p) (auto simp: e1_def take_vote_view, simp add: take_vote_def)
  have nodes: "nodes s1 = e_nodes e1" by (simp flip: e1)
  have "elect_of s' = e1 \<or> length (e_nodes e1) div 2 < tally e1 \<and> elect_of s' = win e1"
  proof (cases "raft_votes_is_majority (num_nodes s1) v")
    case True
    with 3 have "elect_of s' = win e1" by (simp add: become_leader_view flip: e1)
    then show ?thesis using True nvotes_view [OF 2] by (simp add: num_nodes_def majority_iff e1 nodes)
  next
    case False
    with 3 e1 show ?thesis by simp
  qed
  with True show ?thesis by (simp add: prop_defs)
qed

section \<open>Refinement\<close>

lemma elect_moves:
  assumes "elect_step\<^sup>*\<^sup>* e f"
  shows "e_term f < t \<Longrightarrow> elect_step\<^sup>*\<^sup>* e (new_term t f)"
    and "e_role f \<noteq> RAFT_STATE_LEADER \<Longrightarrow> elect_step\<^sup>*\<^sup>* e (stand f)"
    and "e_role f = RAFT_STATE_CANDIDATE \<Longrightarrow> elect_step\<^sup>*\<^sup>* e (step_down f)"
    and "e_vote f = -1 \<Longrightarrow> e_role f \<notin> {RAFT_STATE_CANDIDATE, RAFT_STATE_LEADER} \<Longrightarrow>
         elect_step\<^sup>*\<^sup>* e (give_vote c f)"
    and "e_role f = RAFT_STATE_CANDIDATE \<Longrightarrow> elect_step\<^sup>*\<^sup>* e (take_vote p f)"
    and "e_role f = RAFT_STATE_CANDIDATE \<Longrightarrow> length (e_nodes f) div 2 < tally f \<Longrightarrow>
         elect_step\<^sup>*\<^sup>* e (win f)"
  using assms by (meson elect_step.intros rtranclp.rtrancl_into_rtrancl)+

lemma take_vote_role [simp]: "e_role (take_vote p e) = e_role e" "e_nodes (take_vote p e) = e_nodes e"
  by (simp_all add: take_vote_def split: option.split)

lemma recv_requestvote_refines:
  assumes "raft_recv_requestvote s p vr = Some (rc, r, s')"
  shows "elect_step\<^sup>*\<^sup>* (elect_of s) (elect_of s')"
  using recv_requestvote_view [OF assms]
  by (auto split: if_split_asm intro!: elect_moves(1,4))

lemma recv_requestvote_response_refines:
  assumes "raft_recv_requestvote_response s p r = Some (rc, s')"
  shows "elect_step\<^sup>*\<^sup>* (elect_of s) (elect_of s')"
  using recv_requestvote_response_view [OF assms]
  by (elim disjE conjE) (auto intro!: elect_moves(1,5,6))

lemma exec_refines:
  assumes "raft_exec c s = Some s'"
  shows "elect_step\<^sup>*\<^sup>* (elect_of s) (elect_of s')"
proof (cases c)
  case (Periodic ms rnd)
  with assms obtain rc where "raft_periodic s ms rnd = Some (rc, s')" by auto
  from periodic_view [OF this] show ?thesis by (auto intro!: elect_moves(2))
next
  case (RecvAppendentries p ae)
  with assms obtain rc r where "raft_recv_appendentries s p ae = Some (rc, r, s')" by auto
  from recv_appendentries_view [OF this] show ?thesis by (auto intro!: elect_moves(1,3))
next
  case (RecvAppendentriesResponse p r)
  with assms obtain rc where "raft_recv_appendentries_response s p r = Some (rc, s')" by auto
  from recv_appendentries_response_view [OF this] show ?thesis by (auto intro!: elect_moves(1))
qed (use assms in \<open>auto simp: recv_requestvote_refines recv_requestvote_response_refines
       dest!: recv_entry_view apply_entry_view\<close>)

lemma elect_steps_term:
  "elect_step\<^sup>*\<^sup>* e f \<Longrightarrow> e_term e \<le> e_term f \<and> e_nodes f = e_nodes e \<and> e_self f = e_self e"
  by (induction rule: rtranclp_induct)
     (auto elim!: elect_step.cases simp: move_defs split: option.splits)

text \<open>Within a term the vote of a server is dropped only when a candidate steps down, after which
  it is never a candidate in that term again.\<close>

lemma elect_steps_vote:
  assumes "elect_step\<^sup>*\<^sup>* e f" and "e_term f = e_term e"
    and "e_vote e \<noteq> -1" and "e_role e \<noteq> RAFT_STATE_CANDIDATE"
  shows "e_vote f = e_vote e \<and> e_role f = e_role e"
  using assms
proof (induction rule: rtranclp_induct)
  case base
  then show ?case by simp
next
  case (step f g)
  have "e_term e \<le> e_term f" "e_term f \<le> e_term g"
    using step.hyps elect_steps_term by blast+
  with step show ?case
    by (auto elim!: elect_step.cases simp: move_defs split: option.splits)
qed

section \<open>Properties\<close>

text \<open>C2: The server implements the election protocol: seen through \<open>elect_of\<close>, every call
  (timer, the four messages, client entries, applying) makes only moves of the specification. In
  particular a vote is given only by a server that is neither candidate nor leader and has no vote in
  its term, a new candidate starts counting from zero, and leadership is assumed only by a candidate
  whose tally exceeds half of the nodes.\<close>

theorem server_refines_election:
  assumes "raft_exec c s = Some s'"
  shows "elect_step\<^sup>*\<^sup>* (elect_of s) (elect_of s')"
  using assms by (rule exec_refines)

text \<open>A server of its own, with one peer, in a cluster of two.\<close>

definition duo :: raft_server where
  "duo = \<lparr>current_term = 0, voted_for = -1, srv_log = log_new, commit_idx = 0, last_applied_idx = 0,
     srv_state = RAFT_STATE_FOLLOWER, timeout_elapsed = 0, nodes = [0, 1], election_timeout = 1000,
     request_timeout = 200, current_leader = None, cb = no_cbs, node = Some 0,
     voting_cfg_change_log_idx = -1,
     heap = [Some (raft_node_new None 1), Some (raft_node_new None 2)], trace = []\<rparr>"

theorem server_refines_election_witness:
  "\<exists>s'. raft_exec (Periodic 1000 7) duo = Some s' \<and> current_term s' = 1 \<and> voted_for s' = 1 \<and>
        srv_state s' = RAFT_STATE_CANDIDATE \<and> elect_step\<^sup>*\<^sup>* (elect_of duo) (elect_of s')"
proof -
  have run: "map_option (\<lambda>s. (current_term s, voted_for s, srv_state s)) (raft_exec (Periodic 1000 7) duo) =
        Some (1, 1, RAFT_STATE_CANDIDATE)" by code_simp
  then obtain s' where s': "raft_exec (Periodic 1000 7) duo = Some s'"
    "current_term s' = 1" "voted_for s' = 1" "srv_state s' = RAFT_STATE_CANDIDATE"
    unfolding map_option_eq_Some by blast
  with server_refines_election [OF s'(1)] show ?thesis by blast
qed

text \<open>C9: No call lowers the term; and as long as the term stays the same, a server that has voted and is
  not a candidate keeps its vote and its role, however many calls it serves.\<close>

theorem term_monotone_vote_stable:
  assumes "raft_exec c s = Some s'"
  shows "current_term s \<le> current_term s' \<and>
         (current_term s' = current_term s \<and> voted_for s \<noteq> -1 \<and> srv_state s \<noteq> RAFT_STATE_CANDIDATE \<longrightarrow>
            voted_for s' = voted_for s \<and> srv_state s' = srv_state s)"
  using elect_steps_term [OF exec_refines [OF assms]] elect_steps_vote [OF exec_refines [OF assms]]
  by simp

theorem term_monotone_vote_stable_witness:
  "\<exists>s'. raft_exec (RecvRequestvote (Some 1) \<lparr>rv_term = 3, rv_candidate_id = 9, rv_last_log_idx = 0,
            rv_last_log_term = 0\<rparr>) (duo\<lparr>current_term := 3, voted_for := 2\<rparr>) = Some s' \<and> voted_for s' = 2"
proof -
  let ?c = "RecvRequestvote (Some 1) \<lparr>rv_term = 3, rv_candidate_id = 9, rv_last_log_idx = 0,
            rv_last_log_term = 0\<rparr>" and ?s = "duo\<lparr>current_term := 3, voted_for := 2\<rparr>"
  have run: "map_option (\<lambda>s. current_term s) (raft_exec ?c ?s) = Some 3" by code_simp
  then obtain s' where s': "raft_exec ?c ?s = Some s'" "current_term s' = 3"
    unfolding map_option_eq_Some by blast
  have "voted_for s' = 2" using s'(2) term_monotone_vote_stable [OF s'(1)] by (simp add: duo_def)
  with s' show ?thesis by blast
qed

end
