(* ===== verification/Raft_Invariant.thy ===== *)
theory Raft_Invariant
  imports Raft_Election
begin

text \<open>
  Well-formedness of a Raft server and what its operations do to the log: every call keeps the
  invariant, committed entries are never deleted or overwritten, applying reaches the commit index,
  and the functional behaviour of the append-entries, vote and client handlers.
\<close>

section \<open>The invariant\<close>

abbreviation entries :: "raft_server \<Rightarrow> raft_entry list" where
  "entries s \<equiv> log_list (srv_log s)"

definition nodes_wf :: "raft_server \<Rightarrow> bool" where
  "nodes_wf s \<longleftrightarrow> distinct (nodes s) \<and> (\<exists>a\<in>set (nodes s). node s = Some a) \<and>
     (\<forall>a\<in>set (nodes s). node_at s a \<noteq> None)"

definition heap_wf :: "raft_server \<Rightarrow> bool" where
  "heap_wf s \<longleftrightarrow> (\<forall>a nd. node_at s a = Some nd \<longrightarrow> 1 \<le> next_idx nd)"

definition log_idx_wf :: "raft_server \<Rightarrow> bool" where
  "log_idx_wf s \<longleftrightarrow> log_unpolled (srv_log s) \<and> 0 \<le> last_applied_idx s \<and>
     last_applied_idx s \<le> commit_idx s \<and> commit_idx s \<le> int (length (entries s))"

definition srv_wf :: "raft_server \<Rightarrow> bool" where
  "srv_wf s \<longleftrightarrow> nodes_wf s \<and> heap_wf s \<and> log_idx_wf s"

text \<open>The committed entries of \<open>s\<close> are still there, and committed, in \<open>s'\<close>.\<close>

definition keeps_committed :: "raft_server \<Rightarrow> raft_server \<Rightarrow> bool" where
  "keeps_committed s s' \<longleftrightarrow> commit_idx s \<le> commit_idx s' \<and> last_applied_idx s \<le> last_applied_idx s' \<and>
     take (nat (commit_idx s)) (entries s') = take (nat (commit_idx s)) (entries s)"

definition log_step :: "raft_server \<Rightarrow> raft_server \<Rightarrow> bool" where
  "log_step s s' \<longleftrightarrow> (log_idx_wf s \<longrightarrow> log_idx_wf s' \<and> keeps_committed s s')"

lemma log_step_refl [simp]: "log_step s s"
  by (simp add: log_step_def keeps_committed_def)

lemma log_step_trans [trans]:
  assumes "log_step s t" and "log_step t u"
  shows "log_step s u"
proof -
  have "take (nat (commit_idx s)) (entries u) = take (nat (commit_idx s)) (entries s)"
    if "log_idx_wf s"
  proof -
    have t: "log_idx_wf t" "keeps_committed s t" using assms(1) that by (simp_all add: log_step_def)
    then have u: "keeps_committed t u" using assms(2) by (simp add: log_step_def)
    have le: "nat (commit_idx s) \<le> nat (commit_idx t)" using t(2) by (auto simp: keeps_committed_def)
    then have "take (nat (commit_idx s)) (entries u) =
          take (nat (commit_idx s)) (take (nat (commit_idx t)) (entries u))"
      using le by (simp add: min_absorb1)
    also have "\<dots> = take (nat (commit_idx s)) (entries t)"
      using le u by (simp add: keeps_committed_def min_absorb1)
    finally show ?thesis using t(2) by (simp add: keeps_committed_def)
  qed
  with assms show ?thesis unfolding log_step_def keeps_committed_def by auto
qed

lemma cur_idx: "log_idx_wf s \<Longrightarrow> raft_get_current_idx s = int (length (entries s))"
  by (simp add: log_idx_wf_def raft_get_current_idx_def rl.cur_ok)

lemma get_entry:
  "log_idx_wf s \<Longrightarrow> 1 \<le> i \<Longrightarrow> raft_get_entry_from_idx s i =
     Some (if i \<le> int (length (entries s)) then Some (entries s ! nat (i - 1)) else None)"
  by (simp add: log_idx_wf_def raft_get_entry_from_idx_def rl.get_ok)

lemma get_entry_pos: "raft_get_entry_from_idx s i = Some e \<Longrightarrow> 0 < i"
  by (auto simp: raft_get_entry_from_idx_def log_get_at_idx_def elim!: bind_SomeE)

section \<open>Operations that leave the log alone\<close>

text \<open>Sending only records events.\<close>

definition traced :: "raft_server \<Rightarrow> raft_server \<Rightarrow> bool" where
  "traced s s' \<longleftrightarrow> (\<exists>tr. s' = s\<lparr>trace := tr\<rparr>)"

lemma traced_refl [simp]: "traced s s"
  unfolding traced_def by (rule exI [of _ "trace s"]) simp

lemma traced_emit [simp]: "traced s (emit evs s)"
  by (auto simp: traced_def emit_def)

lemma traced_trans [trans]: "traced s t \<Longrightarrow> traced t u \<Longrightarrow> traced s u"
  by (auto simp: traced_def)

lemma send_requestvote_traced: "raft_send_requestvote s p = Some (r, s') \<Longrightarrow> traced s s'"
  by (auto simp: raft_send_requestvote_def Let_def elim!: bind_SomeE split: if_split_asm)

lemma send_appendentries_traced: "raft_send_appendentries s p = Some (r, s') \<Longrightarrow> traced s s'"
  by (auto simp: raft_send_appendentries_def Let_def elim!: bind_SomeE split: if_split_asm)

lemma for_each_traced:
  assumes "for_each f ns s = Some s'" and "\<And>n t t'. f n t = Some t' \<Longrightarrow> traced t t'"
  shows "traced s s'"
  by (rule for_each_inv [OF assms(1), of "traced s"]) (auto intro: traced_trans assms(2))

lemma request_step_traced: "request_step n s = Some s' \<Longrightarrow> traced s s'"
  by (auto simp: request_step_def elim!: bind_SomeE split: if_split_asm dest: send_requestvote_traced)

lemma recv_entry_step_traced: "recv_entry_step n s = Some s' \<Longrightarrow> traced s s'"
  by (auto simp: recv_entry_step_def elim!: bind_SomeE split: if_split_asm
      dest: send_appendentries_traced)

text \<open>What elections and peers do is invisible to the log.\<close>

definition same_log :: "raft_server \<Rightarrow> raft_server \<Rightarrow> bool" where
  "same_log s s' \<longleftrightarrow> srv_log s' = srv_log s \<and> commit_idx s' = commit_idx s \<and>
     last_applied_idx s' = last_applied_idx s"

lemma same_log_refl [simp]: "same_log s s"
  by (simp add: same_log_def)

lemma same_log_trans [trans]: "same_log s t \<Longrightarrow> same_log t u \<Longrightarrow> same_log s u"
  by (simp add: same_log_def)

lemma same_log_step: "same_log s s' \<Longrightarrow> log_step s s'"
  by (simp add: same_log_def log_step_def log_idx_wf_def keeps_committed_def)

lemma same_log_fields [simp]:
  "same_log s (t\<lparr>timeout_elapsed := x\<rparr>) = same_log s t"
  "same_log s (t\<lparr>current_leader := p\<rparr>) = same_log s t"
  "same_log s (t\<lparr>current_term := x\<rparr>) = same_log s t"
  "same_log s (t\<lparr>voted_for := x\<rparr>) = same_log s t"
  "same_log s (t\<lparr>srv_state := st\<rparr>) = same_log s t"
  "same_log s (t\<lparr>voting_cfg_change_log_idx := x\<rparr>) = same_log s t"
  "same_log s (emit evs t) = same_log s t"
  "same_log s (node_set t a nd) = same_log s t"
  "same_log s (raft_set_state t st) = same_log s t"
  "same_log s (raft_set_current_term t x) = same_log s t"
  "same_log s (raft_become_follower t) = same_log s t"
  "same_log s (raft_vote_for_nodeid t x) = same_log s t"
  by (auto simp: same_log_def emit_def node_set_def raft_set_state_def raft_set_current_term_def
      raft_become_follower_def raft_vote_for_nodeid_def Let_def)

lemma same_log_left [simp]:
  "same_log (s\<lparr>timeout_elapsed := x\<rparr>) t = same_log s t"
  "same_log (s\<lparr>voted_for := x\<rparr>) t = same_log s t"
  "same_log (s\<lparr>current_leader := p\<rparr>) t = same_log s t"
  "same_log (emit evs s) t = same_log s t"
  "same_log (raft_set_state s st) t = same_log s t"
  "same_log (raft_set_current_term s x) t = same_log s t"
  "same_log (raft_become_follower s) t = same_log s t"
  "same_log (raft_vote_for_nodeid s x) t = same_log s t"
  by (auto simp: same_log_def emit_def raft_set_state_def raft_set_current_term_def
      raft_become_follower_def raft_vote_for_nodeid_def Let_def)

lemma log_step_same: "same_log s s' \<Longrightarrow> log_step s' t = log_step s t"
  by (simp add: same_log_def log_step_def log_idx_wf_def keeps_committed_def)

lemma log_step_fields [simp]:
  "log_step s (t\<lparr>timeout_elapsed := x\<rparr>) = log_step s t"
  "log_step s (t\<lparr>current_leader := p\<rparr>) = log_step s t"
  "log_step s (t\<lparr>voting_cfg_change_log_idx := x\<rparr>) = log_step s t"
  "log_step s (emit evs t) = log_step s t"
  "log_step (s\<lparr>timeout_elapsed := x\<rparr>) t = log_step s t"
  "log_step (emit evs s) t = log_step s t"
  by (auto simp: log_step_def log_idx_wf_def keeps_committed_def emit_def)

lemma log_step_follow [simp]: "log_step s (raft_become_follower (raft_set_current_term s x))"
  by (rule same_log_step) simp

lemma traced_same_log: "traced s s' \<Longrightarrow> same_log s s'"
  by (auto simp: traced_def same_log_def)

lemma node_upd_same_log: "node_upd f a s = Some s' \<Longrightarrow> same_log s s'"
  by (erule node_upd_SomeE) simp

lemma for_each_same_log:
  assumes "for_each f ns s = Some s'" and "\<And>n t t'. f n t = Some t' \<Longrightarrow> same_log t t'"
  shows "same_log s s'"
  by (rule for_each_inv [OF assms(1), of "same_log s"]) (auto intro: same_log_trans assms(2))

lemma become_leader_step_same_log: "become_leader_step n s = Some s' \<Longrightarrow> same_log s s'"
  by (auto simp: become_leader_step_def elim!: bind_SomeE split: if_split_asm
      dest!: node_upd_same_log send_appendentries_traced traced_same_log) (meson same_log_trans)

lemma become_leader_same_log: "raft_become_leader s = Some s' \<Longrightarrow> same_log s s'"
  by (auto simp: raft_become_leader_def Let_def dest!: for_each_same_log
      intro: become_leader_step_same_log)

lemma become_candidate_same_log:
  assumes "raft_become_candidate s rnd = Some s'"
  shows "same_log s s'"
proof -
  let ?s1 = "raft_set_current_term s (raft_get_current_term s + 1)"
  from assms obtain s2 s3 t where
    "for_each (node_upd (\<lambda>nd. raft_node_vote_for_me nd 0)) (nodes ?s1) ?s1 = Some s2"
    "raft_vote s2 (node s2) = Some s3"
    "for_each request_step (nodes s3)
       ((raft_set_state (s3\<lparr>current_leader := None\<rparr>) RAFT_STATE_CANDIDATE)\<lparr>timeout_elapsed := t\<rparr>) = Some s'"
    unfolding raft_become_candidate_def Let_def by (auto elim!: bind_SomeE simp: raft_set_state_def)
  note run = this
  have "same_log ?s1 s2" by (rule for_each_same_log [OF run(1)]) (rule node_upd_same_log)
  moreover have "same_log s2 s3" using run(2) by (auto simp: raft_vote_def elim!: bind_SomeE)
  moreover have "same_log ((raft_set_state (s3\<lparr>current_leader := None\<rparr>) RAFT_STATE_CANDIDATE)
      \<lparr>timeout_elapsed := t\<rparr>) s'"
    by (rule for_each_same_log [OF run(3)]) (blast intro: request_step_traced traced_same_log)
  ultimately show ?thesis by simp (meson same_log_trans)
qed

section \<open>Operations on the log\<close>

lemma apply_entry_step:
  assumes "raft_apply_entry s = Some (r, s')"
  shows "log_step s s'"
  using assms
  by (auto simp: raft_apply_entry_def Let_def log_step_def log_idx_wf_def keeps_committed_def emit_def
      elim!: bind_SomeE split: if_split_asm option.split_asm)

lemma append_entry_entries:
  assumes "raft_append_entry s e = Some (r, s')" and "log_idx_wf s"
  shows "commit_idx s' = commit_idx s \<and> last_applied_idx s' = last_applied_idx s \<and>
    log_unpolled (srv_log s') \<and> lcb (srv_log s') = lcb (srv_log s) \<and>
    (if ety_id e = 0 then r = -1 \<and> entries s' = entries s
     else r = 0 \<and> entries s' = entries s @ [log_stored (srv_log s) e])"
proof -
  from assms(1) obtain s1 l evs where
    "s1 = s \<or> s1 = s\<lparr>voting_cfg_change_log_idx := raft_get_current_idx s\<rparr>"
    "log_append_entry (srv_log s) e = Some (r, l, evs)" "s' = emit evs (s1\<lparr>srv_log := l\<rparr>)"
    by (auto simp: raft_append_entry_def Let_def elim!: bind_SomeE split: if_split_asm)
  then show ?thesis
    using assms(2) by (auto simp: log_idx_wf_def emit_def elim!: rl.append_elim)
qed

lemma append_entry_step:
  assumes "raft_append_entry s e = Some (r, s')"
  shows "log_step s s'"
proof (cases "log_idx_wf s")
  case True
  with append_entry_entries [OF assms this] show ?thesis
    by (auto simp: log_step_def log_idx_wf_def keeps_committed_def split: if_split_asm)
qed (simp add: log_step_def)

lemma delete_entries:
  assumes "srv_log_delete s i = Some s'" and "log_idx_wf s" and "1 \<le> i"
  shows "commit_idx s' = commit_idx s \<and> last_applied_idx s' = last_applied_idx s \<and>
    log_unpolled (srv_log s') \<and> lcb (srv_log s') = lcb (srv_log s) \<and>
    entries s' = take (nat (i - 1)) (entries s)"
  using assms rl.del_elim [of "srv_log s" i]
  by (auto simp: srv_log_delete_def log_idx_wf_def emit_def elim!: bind_SomeE)

lemma delete_step:
  assumes "srv_log_delete s i = Some s'" and "0 < i" and "commit_idx s < i"
  shows "log_step s s'"
proof (cases "log_idx_wf s")
  case True
  have "nat (commit_idx s) \<le> nat (i - 1)" using assms by linarith
  with delete_entries [OF assms(1) True] True assms(2,3) show ?thesis
    by (auto simp: log_step_def log_idx_wf_def keeps_committed_def min_absorb1)
qed (simp add: log_step_def)

lemma set_commit_idx_step:
  assumes "raft_set_commit_idx s i = Some s'"
  shows "log_step s s'"
  using assms
  by (auto simp: raft_set_commit_idx_def log_step_def keeps_committed_def log_idx_wf_def cur_idx
      raft_get_current_idx_def rl.cur_ok elim!: bind_SomeE)

lemma ae_scan_step: "ae_scan ae k i cur s = Some (j, c, s') \<Longrightarrow> log_step s s'"
proof (induction k arbitrary: i cur s)
  case (Suc k)
  from Suc.prems show ?case
    by (auto simp: Let_def elim!: bind_SomeE split: option.split_asm if_split_asm
        dest: Suc.IH) (meson delete_step get_entry_pos Suc.IH)+
qed simp

lemma ae_append_step: "ae_append ae k i cur s = Some (ok, c, s') \<Longrightarrow> log_step s s'"
proof (induction k arbitrary: i cur s)
  case (Suc k)
  from Suc.prems show ?case
    by (auto elim!: bind_SomeE split: if_split_asm dest: append_entry_step Suc.IH)
       (meson append_entry_step Suc.IH log_step_trans)+
qed simp

lemma ae_accept_step:
  assumes "ae_accept s p ae t = Some (rc, r, s')"
  shows "log_step s s'"
  using assms
  by (auto simp: ae_accept_def ae_fail_with_current_idx_def ae_fail_def Let_def
      elim!: bind_SomeE split: if_split_asm
      dest!: set_commit_idx_step ae_scan_step ae_append_step delete_step) (meson log_step_trans)+

lemma periodic_step:
  assumes "raft_periodic s ms rnd = Some (rc, s')"
  shows "log_step s s'"
proof -
  let ?s = "s\<lparr>timeout_elapsed := timeout_elapsed s + ms\<rparr>"
  from assms obtain s1 where
    1: "(if srv_state ?s = RAFT_STATE_LEADER
         then (if request_timeout ?s \<le> timeout_elapsed ?s then raft_send_appendentries_all ?s else Some ?s)
         else if election_timeout ?s \<le> timeout_elapsed ?s
         then (if 1 < num_nodes ?s then raft_election_start ?s rnd else Some ?s)
         else Some ?s) = Some s1"
    and 2: "s' = s1 \<or> (\<exists>r. raft_apply_entry s1 = Some (r, s'))"
    unfolding raft_periodic_def Let_def by (auto elim!: bind_SomeE split: if_split_asm)
  have all: "same_log s t" if "raft_send_appendentries_all ?s = Some t" for t
  proof -
    have "same_log (?s\<lparr>timeout_elapsed := 0\<rparr>) t"
      by (rule for_each_same_log [OF that [unfolded raft_send_appendentries_all_def Let_def]])
         (auto elim!: bind_SomeE split: if_split_asm dest: send_appendentries_traced traced_same_log)
    then show ?thesis by simp
  qed
  have "same_log s s1"
    using 1 all by (auto simp: raft_election_start_def split: if_split_asm dest!: become_candidate_same_log)
  then have "log_step s s1" by (rule same_log_step)
  with 2 show ?thesis by (auto dest: apply_entry_step intro: log_step_trans)
qed

lemma ae_check_prev_step: "ae_check_prev s p ae t = Some (rc, r, s') \<Longrightarrow> log_step s s'"
  by (auto simp: ae_check_prev_def ae_fail_with_current_idx_def ae_fail_def elim!: bind_SomeE
      split: if_split_asm option.split_asm dest!: ae_accept_step delete_step)

lemma recv_appendentries_step:
  assumes "raft_recv_appendentries s p ae = Some (rc, r, s')"
  shows "log_step s s'"
proof -
  have "\<exists>s1. same_log s s1 \<and> (s' = s1 \<or> (\<exists>t. ae_check_prev s1 p ae t = Some (rc, r, s')))"
    using assms
    by (auto simp: raft_recv_appendentries_def Let_def ae_fail_with_current_idx_def ae_fail_def
        split: if_split_asm intro!: exI conjI)
  then show ?thesis using ae_check_prev_step same_log_step log_step_trans by blast
qed

lemma aer_retry_same_log: "aer_retry s a r = Some (rc, s') \<Longrightarrow> same_log s s'"
  by (auto simp: aer_retry_def Let_def elim!: bind_SomeE split: if_split_asm
      dest!: send_appendentries_traced traced_same_log node_upd_same_log) (meson same_log_trans)+

lemma aer_advance_same_log: "aer_advance s a r = Some s' \<Longrightarrow> same_log s s'"
  by (auto simp: aer_advance_def elim!: bind_SomeE split: if_split_asm dest!: node_upd_same_log)
     (meson same_log_trans)+

lemma aer_commit_step: "aer_commit s r = Some s' \<Longrightarrow> log_step s s'"
  by (auto simp: aer_commit_def Let_def elim!: bind_SomeE split: if_split_asm dest: set_commit_idx_step)

lemma recv_appendentries_response_step:
  assumes "raft_recv_appendentries_response s p r = Some (rc, s')"
  shows "log_step s s'"
proof -
  have trans: "same_log s t \<Longrightarrow> log_step t u \<Longrightarrow> traced u v \<Longrightarrow> log_step s v" for t u v
    using same_log_step traced_same_log log_step_trans by blast
  show ?thesis
    using assms
    by (auto simp: raft_recv_appendentries_response_def Let_def elim!: bind_SomeE
        split: if_split_asm option.split_asm
        dest!: send_appendentries_traced aer_retry_same_log same_log_step)
       (blast intro: trans aer_advance_same_log aer_commit_step traced_refl)+
qed

lemma recv_requestvote_step:
  assumes "raft_recv_requestvote s p vr = Some (rc, r, s')"
  shows "log_step s s'"
  using assms
  by (auto simp: raft_recv_requestvote_def Let_def elim!: bind_SomeE split: if_split_asm
      intro!: same_log_step)

lemma recv_requestvote_response_step:
  assumes "raft_recv_requestvote_response s p r = Some (rc, s')"
  shows "log_step s s'"
  using assms
  by (auto simp: raft_recv_requestvote_response_def elim!: bind_SomeE
      split: if_split_asm option.split_asm dest!: become_leader_same_log node_upd_same_log
      intro!: same_log_step intro: same_log_trans)

text \<open>The two outcomes of \<open>raft_recv_entry\<close>.\<close>

definition leader_entry :: "raft_server \<Rightarrow> raft_entry \<Rightarrow> raft_entry" where
  "leader_entry s e = e\<lparr>ety_term := word_of_int (current_term s)\<rparr>"

lemma leader_entry_eq:
  "\<lparr>ety_term = word_of_int (current_term s), ety_id = ety_id e, ety_type = ety_type e,
     ety_data = ety_data e\<rparr> = leader_entry s e"
  by (simp add: leader_entry_def)

lemma recv_entry_cases:
  assumes "raft_recv_entry s e = Some (rc, r, s')"
  obtains (rejected) "rc = -1" "r = None" "s' = s"
    "raft_entry_is_voting_cfg_change e \<and> voting_cfg_change_log_idx s \<noteq> -1 \<or> \<not> raft_is_leader s"
  | (accepted) r1 s1 s2 s3 where "raft_is_leader s" "rc = 0"
    "raft_append_entry s (leader_entry s e) = Some (r1, s1)"
    "for_each recv_entry_step (nodes s1) s1 = Some s2"
    "s3 = (if 1 = num_nodes s2 then s2\<lparr>commit_idx := raft_get_current_idx s2\<rparr> else s2)"
    "r = Some \<lparr>mer_id = ety_id e, mer_term = current_term s3, mer_idx = raft_get_current_idx s3\<rparr>"
    "s' = (if raft_entry_is_voting_cfg_change e
           then s3\<lparr>voting_cfg_change_log_idx := raft_get_current_idx s3\<rparr> else s3)"
proof (cases "raft_entry_is_voting_cfg_change e \<and> -1 \<noteq> voting_cfg_change_log_idx s \<or> \<not> raft_is_leader s")
  case True
  then have "raft_recv_entry s e = Some (-1, None, s)"
    unfolding raft_recv_entry_def by auto
  with assms True show ?thesis by (intro rejected) auto
next
  case False
  then have "\<not> (raft_entry_is_voting_cfg_change e \<and> -1 \<noteq> voting_cfg_change_log_idx s)" "raft_is_leader s"
    by auto
  with assms show ?thesis
    unfolding raft_recv_entry_def Let_def leader_entry_eq
    by (auto simp del: Let_def split del: if_split elim!: bind_SomeE intro!: accepted)
qed

lemma recv_entry_log_step:
  assumes "raft_recv_entry s e = Some (rc, r, s')"
  shows "log_step s s'"
  using assms
proof (cases rule: recv_entry_cases)
  case (accepted r1 s1 s2 s3)
  have "same_log s1 s2"
    by (rule for_each_same_log [OF accepted(4)]) (blast intro: recv_entry_step_traced traced_same_log)
  then have "log_step s s2" using append_entry_step [OF accepted(3)] same_log_step log_step_trans by blast
  moreover have "log_step s2 s3"
    using accepted(5)
    by (auto simp: log_step_def log_idx_wf_def keeps_committed_def raft_get_current_idx_def rl.cur_ok)
  ultimately show ?thesis using accepted(7) log_step_trans by auto
qed simp

lemma exec_log_step: "raft_exec c s = Some s' \<Longrightarrow> log_step s s'"
  by (cases c) (auto dest: periodic_step recv_appendentries_step recv_appendentries_response_step
      recv_requestvote_step recv_requestvote_response_step recv_entry_log_step apply_entry_step)

section \<open>Peers\<close>

text \<open>The peers stay allocated: the election view shows it.\<close>

lemma elect_steps_alloc:
  "elect_step\<^sup>*\<^sup>* e f \<Longrightarrow> e_peer f a = None \<longleftrightarrow> e_peer e a = None"
  by (induction rule: rtranclp_induct)
     (auto elim!: elect_step.cases simp: move_defs split: option.splits if_splits)

lemma exec_nodes_wf:
  assumes "raft_exec c s = Some s'" and "nodes_wf s"
  shows "nodes_wf s'"
proof -
  note view = exec_refines [OF assms(1)]
  have "node_at s' a = None \<longleftrightarrow> node_at s a = None" for a
    using elect_steps_alloc [OF view, of a] by (simp add: elect_of_peer)
  then show ?thesis using elect_steps_term [OF view] assms(2) by (simp add: nodes_wf_def)
qed

definition heap_step :: "raft_server \<Rightarrow> raft_server \<Rightarrow> bool" where
  "heap_step s s' \<longleftrightarrow> (heap_wf s \<longrightarrow> heap_wf s')"

lemma heap_step_same: "heap s' = heap s \<Longrightarrow> heap_step s s'"
  by (simp add: heap_step_def heap_wf_def node_at_def)

lemma heap_step_trans [trans]: "heap_step s t \<Longrightarrow> heap_step t u \<Longrightarrow> heap_step s u"
  by (simp add: heap_step_def)

lemma heap_step_refl [simp]: "heap_step s s"
  by (simp add: heap_step_def)

lemma heap_step_cong [simp]:
  "heap_step s (t\<lparr>timeout_elapsed := x\<rparr>) = heap_step s t"
  "heap_step s (t\<lparr>current_leader := p\<rparr>) = heap_step s t"
  "heap_step s (t\<lparr>commit_idx := x\<rparr>) = heap_step s t"
  "heap_step s (t\<lparr>voting_cfg_change_log_idx := x\<rparr>) = heap_step s t"
  "heap_step s (t\<lparr>srv_log := l\<rparr>) = heap_step s t"
  "heap_step s (t\<lparr>last_applied_idx := x\<rparr>) = heap_step s t"
  "heap_step s (emit evs t) = heap_step s t"
  "heap_step s (raft_set_state t st) = heap_step s t"
  "heap_step s (raft_set_current_term t x) = heap_step s t"
  "heap_step s (raft_become_follower t) = heap_step s t"
  "heap_step s (raft_vote_for_nodeid t x) = heap_step s t"
  "heap_step s (t\<lparr>voted_for := x\<rparr>) = heap_step s t"
  by (auto simp: heap_step_def heap_wf_def raft_set_state_def raft_set_current_term_def
      raft_become_follower_def raft_vote_for_nodeid_def Let_def)

lemma heap_step_left [simp]:
  "heap_step (s\<lparr>timeout_elapsed := x\<rparr>) t = heap_step s t"
  "heap_step (s\<lparr>current_leader := p\<rparr>) t = heap_step s t"
  "heap_step (s\<lparr>voted_for := x\<rparr>) t = heap_step s t"
  "heap_step (raft_set_state s st) t = heap_step s t"
  "heap_step (raft_set_current_term s x) t = heap_step s t"
  "heap_step (raft_become_follower s) t = heap_step s t"
  by (auto simp: heap_step_def heap_wf_def raft_set_state_def raft_set_current_term_def
      raft_become_follower_def Let_def)

lemma traced_heap: "traced s s' \<Longrightarrow> heap_step s s'"
  by (auto simp: traced_def intro: heap_step_same)

lemma node_upd_heap:
  assumes "node_upd f a s = Some s'" and "\<And>nd. 1 \<le> next_idx nd \<Longrightarrow> 1 \<le> next_idx (f nd)"
  shows "heap_step s s'"
  using assms(1)
  by (rule node_upd_SomeE) (auto simp: heap_step_def heap_wf_def node_at_set assms(2))

lemma for_each_heap:
  assumes "for_each f ns s = Some s'" and "\<And>n t t'. f n t = Some t' \<Longrightarrow> heap_step t t'"
  shows "heap_step s s'"
  by (rule for_each_inv [OF assms(1), of "heap_step s"]) (auto intro: heap_step_trans assms(2))

lemma become_leader_heap: "raft_become_leader s = Some s' \<Longrightarrow> heap_step s s'"
proof -
  have step: "heap_step t t'" if "become_leader_step n t = Some t'" for n t t'
    using that
    by (auto simp: become_leader_step_def elim!: bind_SomeE split: if_split_asm
        dest!: node_upd_heap send_appendentries_traced traced_heap) (meson heap_step_trans)
  assume "raft_become_leader s = Some s'"
  from for_each_heap [OF this [unfolded raft_become_leader_def Let_def] step] show ?thesis by simp
qed

lemma become_candidate_heap: "raft_become_candidate s rnd = Some s' \<Longrightarrow> heap_step s s'"
proof -
  assume "raft_become_candidate s rnd = Some s'"
  then obtain s2 s3 t where
    run: "for_each (node_upd (\<lambda>nd. raft_node_vote_for_me nd 0))
       (nodes (raft_set_current_term s (raft_get_current_term s + 1)))
       (raft_set_current_term s (raft_get_current_term s + 1)) = Some s2"
    "raft_vote s2 (node s2) = Some s3"
    "for_each request_step (nodes s3)
       ((raft_set_state (s3\<lparr>current_leader := None\<rparr>) RAFT_STATE_CANDIDATE)\<lparr>timeout_elapsed := t\<rparr>) = Some s'"
    unfolding raft_become_candidate_def Let_def by (auto elim!: bind_SomeE simp: raft_set_state_def)
  have "heap_step (raft_set_current_term s (raft_get_current_term s + 1)) s2"
    by (rule for_each_heap [OF run(1)]) (auto intro: node_upd_heap)
  moreover have "heap_step s2 s3" using run(2) by (auto simp: raft_vote_def elim!: bind_SomeE)
  moreover have "heap_step ((raft_set_state (s3\<lparr>current_leader := None\<rparr>) RAFT_STATE_CANDIDATE)
      \<lparr>timeout_elapsed := t\<rparr>) s'"
    by (rule for_each_heap [OF run(3)]) (blast intro: request_step_traced traced_heap)
  ultimately show ?thesis by simp (meson heap_step_trans)
qed

lemma append_entry_heap: "raft_append_entry s e = Some (r, s') \<Longrightarrow> heap_step s s'"
  by (auto simp: raft_append_entry_def Let_def elim!: bind_SomeE split: if_split_asm)

lemma srv_log_delete_heap: "srv_log_delete s i = Some s' \<Longrightarrow> heap_step s s'"
  by (auto simp: srv_log_delete_def elim!: bind_SomeE)

lemma ae_scan_heap: "ae_scan ae k i cur s = Some (j, c, s') \<Longrightarrow> heap_step s s'"
proof (induction k arbitrary: i cur s)
  case (Suc k)
  from Suc.prems show ?case
    by (auto simp: Let_def elim!: bind_SomeE split: option.split_asm if_split_asm
        dest: srv_log_delete_heap) (meson srv_log_delete_heap Suc.IH)+
qed simp

lemma ae_append_heap: "ae_append ae k i cur s = Some (ok, c, s') \<Longrightarrow> heap_step s s'"
proof (induction k arbitrary: i cur s)
  case (Suc k)
  from Suc.prems show ?case
    by (auto elim!: bind_SomeE split: if_split_asm dest: append_entry_heap)
       (meson append_entry_heap Suc.IH heap_step_trans)+
qed simp

lemma set_commit_idx_heap: "raft_set_commit_idx s i = Some s' \<Longrightarrow> heap_step s s'"
  by (auto simp: raft_set_commit_idx_def elim!: bind_SomeE)

lemma ae_check_prev_heap:
  assumes "ae_check_prev s p ae t = Some (rc, r, s')"
  shows "heap_step s s'"
proof -
  have acc: "heap_step s s'" if "ae_accept s p ae t = Some (rc, r, s')"
    using that
    by (auto simp: ae_accept_def ae_fail_with_current_idx_def ae_fail_def Let_def
        elim!: bind_SomeE split: if_split_asm
        dest!: set_commit_idx_heap ae_scan_heap ae_append_heap srv_log_delete_heap) (meson heap_step_trans)+
  show ?thesis
    using assms
    by (auto simp: ae_check_prev_def ae_fail_with_current_idx_def ae_fail_def elim!: bind_SomeE
        split: if_split_asm option.split_asm dest: srv_log_delete_heap acc)
qed

lemma recv_appendentries_heap: "raft_recv_appendentries s p ae = Some (rc, r, s') \<Longrightarrow> heap_step s s'"
  by (auto simp: raft_recv_appendentries_def Let_def ae_fail_with_current_idx_def ae_fail_def
      split: if_split_asm dest!: ae_check_prev_heap)

lemma recv_appendentries_response_heap:
  assumes "raft_recv_appendentries_response s p r = Some (rc, s')"
  shows "heap_step s s'"
proof -
  have adv: "heap_step t t'" if "aer_advance t a r = Some t'" for t t' a
    using that
    by (auto simp: aer_advance_def elim!: bind_SomeE split: if_split_asm dest!: node_upd_heap)
       (meson heap_step_trans)+
  have com: "heap_step t t'" if "aer_commit t r = Some t'" for t t'
    using that
    by (auto simp: aer_commit_def Let_def elim!: bind_SomeE split: if_split_asm dest: set_commit_idx_heap)
  have ret: "heap_step t t'" if "aer_retry t a r = Some (rc, t')" for t t' a rc
    using that
    by (auto simp: aer_retry_def Let_def elim!: bind_SomeE split: if_split_asm
        dest!: send_appendentries_traced traced_heap node_upd_heap) (meson heap_step_trans)+
  show ?thesis
    using assms
    by (auto simp: raft_recv_appendentries_response_def Let_def elim!: bind_SomeE
        split: if_split_asm option.split_asm
        dest!: send_appendentries_traced traced_heap ret adv com) (meson heap_step_trans)+
qed

lemma periodic_heap:
  assumes "raft_periodic s ms rnd = Some (rc, s')"
  shows "heap_step s s'"
proof -
  have app: "heap_step t t'" if "raft_apply_entry t = Some (r, t')" for t t' r
    using that
    by (auto simp: raft_apply_entry_def Let_def elim!: bind_SomeE split: if_split_asm option.split_asm)
  have all: "heap_step t t'" if "raft_send_appendentries_all t = Some t'" for t t'
  proof -
    have "heap_step (t\<lparr>timeout_elapsed := 0\<rparr>) t'"
      by (rule for_each_heap [OF that [unfolded raft_send_appendentries_all_def Let_def]])
         (auto elim!: bind_SomeE split: if_split_asm dest: send_appendentries_traced traced_heap)
    then show ?thesis by simp
  qed
  show ?thesis
    using assms
    by (auto simp: raft_periodic_def raft_election_start_def Let_def elim!: bind_SomeE split: if_split_asm
        dest!: app all become_candidate_heap) (meson heap_step_trans)+
qed

lemma recv_entry_heap:
  assumes "raft_recv_entry s e = Some (rc, r, s')"
  shows "heap_step s s'"
  using assms
proof (cases rule: recv_entry_cases)
  case (accepted r1 s1 s2 s3)
  have "heap_step s1 s2"
    by (rule for_each_heap [OF accepted(4)]) (blast intro: recv_entry_step_traced traced_heap)
  with append_entry_heap [OF accepted(3)] have "heap_step s s2" by (rule heap_step_trans)
  then show ?thesis using accepted(5,7) by simp
qed simp

lemma exec_heap: "raft_exec c s = Some s' \<Longrightarrow> heap_step s s'"
proof (cases c)
  case (RecvRequestvote p vr)
  assume "raft_exec c s = Some s'"
  then show ?thesis using RecvRequestvote
    by (auto simp: raft_recv_requestvote_def Let_def elim!: bind_SomeE split: if_split_asm)
next
  case (RecvRequestvoteResponse p r)
  assume "raft_exec c s = Some s'"
  then show ?thesis using RecvRequestvoteResponse
    by (auto simp: raft_recv_requestvote_response_def elim!: bind_SomeE
        split: if_split_asm option.split_asm dest!: become_leader_heap node_upd_heap)
       (meson heap_step_trans)+
next
  case ApplyEntry
  assume "raft_exec c s = Some s'"
  then show ?thesis using ApplyEntry
    by (auto simp: raft_apply_entry_def Let_def elim!: bind_SomeE split: if_split_asm option.split_asm)
qed (auto dest: periodic_heap recv_appendentries_heap recv_appendentries_response_heap recv_entry_heap)

section \<open>Behaviour of the operations\<close>

text \<open>The message a leader owes a peer whose next index is \<open>n\<close>.\<close>

definition owed :: "raft_server \<Rightarrow> int \<Rightarrow> msg_appendentries" where
  "owed s n = \<lparr>ae_term = current_term s, ae_prev_log_idx = n - 1,
     ae_prev_log_term = (if 1 < n \<and> n - 1 \<le> int (length (entries s))
                         then sint (ety_term (entries s ! nat (n - 2))) else 0),
     ae_leader_commit = commit_idx s,
     ae_n_entries = int (length (drop (nat (n - 1)) (entries s))),
     ae_entries = drop (nat (n - 1)) (entries s)\<rparr>"

lemma get_entries:
  "log_idx_wf s \<Longrightarrow> 1 \<le> i \<Longrightarrow> raft_get_entries_from_idx s i =
     Some (if i \<le> int (length (entries s))
           then Some (drop (nat (i - 1)) (entries s), int (length (entries s)) - i + 1) else None)"
  using log_get_from_idx_ok [of "srv_log s" i]
  by (auto simp: raft_get_entries_from_idx_def log_idx_wf_def log_unpolled_def log_list_length log_wf_def)

lemma send_appendentries_ok:
  assumes "log_idx_wf s" and "node_at s a = Some nd" and "1 \<le> next_idx nd" and "node s \<noteq> Some a"
  shows "raft_send_appendentries s (Some a) =
     Some (if cb_send_appendentries (cb s)
           then (0, emit [EvSendAppendentries a (owed s (next_idx nd))] s) else (-1, s))"
proof -
  let ?n = "next_idx nd"
  have len: "int (length (drop (nat (?n - 1)) (entries s))) =
      (if ?n \<le> int (length (entries s)) then int (length (entries s)) - ?n + 1 else 0)"
    using assms(3) by auto
  have prev: "1 < ?n \<Longrightarrow> raft_get_entry_from_idx s (?n - 1) =
      Some (if ?n - 1 \<le> int (length (entries s)) then Some (entries s ! nat (?n - 2)) else None)"
    using get_entry [OF assms(1), of "?n - 1"] by (simp add: algebra_simps)
  show ?thesis
    using assms get_entries [OF assms(1,3)] prev
    by (auto simp: raft_send_appendentries_def raft_node_get_next_idx_def owed_def len Let_def
        raft_get_commit_idx_def Suc_le_eq simp del: length_drop)
qed

lemma last_log_term_ok:
  assumes "log_idx_wf s"
  shows "raft_get_last_log_term s =
     Some (if entries s = [] then 0 else sint (ety_term (last (entries s))))"
proof (cases "entries s = []")
  case True
  then show ?thesis using assms by (simp add: raft_get_last_log_term_def cur_idx Let_def)
next
  case False
  then have "1 \<le> int (length (entries s))" by (cases "entries s") auto
  moreover have "nat (int (length (entries s)) - 1) = length (entries s) - 1" by arith
  ultimately show ?thesis using get_entry [OF assms, of "int (length (entries s))"] False assms
    by (simp add: raft_get_last_log_term_def cur_idx Let_def last_conv_nth)
qed

lemma wf_node: "srv_wf s \<Longrightarrow> a \<in> set (nodes s) \<Longrightarrow> \<exists>nd. node_at s a = Some nd \<and> 1 \<le> next_idx nd"
  by (fastforce simp: srv_wf_def nodes_wf_def heap_wf_def)

lemma traced_wf: "traced s s' \<Longrightarrow> srv_wf s' = srv_wf s"
  by (auto simp: traced_def srv_wf_def nodes_wf_def heap_wf_def log_idx_wf_def)

text \<open>A loop of sends over the peers runs to its end.\<close>

lemma sends_total:
  assumes "srv_wf s" and "set ns \<subseteq> set (nodes s)"
    and "\<And>n t. n \<in> set (nodes t) \<Longrightarrow> srv_wf t \<Longrightarrow> \<exists>t'. f n t = Some t' \<and> traced t t'"
  shows "\<exists>s'. for_each f ns s = Some s' \<and> traced s s'"
proof (rule for_each_total [of "traced s"])
  fix n t assume n: "n \<in> set ns" and t: "traced s t"
  then have "n \<in> set (nodes t)" "srv_wf t" using assms(1,2) by (auto simp: traced_def traced_wf [OF t])
  from assms(3) [OF this] t show "\<exists>t'. f n t = Some t' \<and> traced s t'" by (blast intro: traced_trans)
qed simp

lemma recv_entry_step_total:
  assumes "n \<in> set (nodes s)" and "srv_wf s"
  shows "\<exists>s'. recv_entry_step n s = Some s' \<and> traced s s'"
proof -
  obtain nd where nd: "node_at s n = Some nd" "1 \<le> next_idx nd" using wf_node [OF assms(2,1)] by blast
  have "log_idx_wf s" using assms(2) by (simp add: srv_wf_def)
  with nd send_appendentries_ok [of s n nd] show ?thesis
    by (cases "node s = Some n") (auto simp: recv_entry_step_def)
qed

section \<open>Properties\<close>

text \<open>C5: Well-formedness is an invariant. Whatever call a well-formed server serves, with whatever
  message, it is well formed afterwards: its peers are allocated and its own node is among them, every
  next index is at least one, and applied \<open>\<le>\<close> committed \<open>\<le>\<close> last log index.\<close>

theorem server_invariant:
  assumes "srv_wf s" and "raft_exec c s = Some s'"
  shows "srv_wf s'"
  using assms exec_log_step [OF assms(2)] exec_heap [OF assms(2)] exec_nodes_wf [OF assms(2)]
  by (simp add: srv_wf_def log_step_def heap_step_def)

lemma duo_wf: "srv_wf duo"
  by (auto simp: srv_wf_def nodes_wf_def heap_wf_def log_idx_wf_def duo_def node_at_def nth_Cons'
      split: if_split_asm)

theorem server_invariant_witness:
  "\<exists>s'. raft_exec (Periodic 1000 7) duo = Some s' \<and> srv_state s' = RAFT_STATE_CANDIDATE \<and> srv_wf s'"
proof -
  have "map_option srv_state (raft_exec (Periodic 1000 7) duo) = Some RAFT_STATE_CANDIDATE" by code_simp
  then obtain s' where s': "raft_exec (Periodic 1000 7) duo = Some s'" "srv_state s' = RAFT_STATE_CANDIDATE"
    unfolding map_option_eq_Some by blast
  with server_invariant [OF duo_wf s'(1)] show ?thesis by blast
qed

text \<open>C3: Committed entries are permanent. No call, whatever the message says, deletes or overwrites an
  entry up to the commit index of a well-formed server, or lowers its commit index or its applied
  index.\<close>

theorem committed_entries_permanent:
  assumes "srv_wf s" and "raft_exec c s = Some s'"
  shows "commit_idx s \<le> commit_idx s' \<and> last_applied_idx s \<le> last_applied_idx s' \<and>
         (\<forall>i. 1 \<le> i \<and> i \<le> commit_idx s \<longrightarrow>
            raft_get_entry_from_idx s' i = raft_get_entry_from_idx s i)"
proof -
  have wf: "log_idx_wf s" "log_idx_wf s'" and keep: "keeps_committed s s'"
    using assms(1) exec_log_step [OF assms(2)] by (auto simp: srv_wf_def log_step_def)
  have "entries s' ! nat (i - 1) = entries s ! nat (i - 1)" if "1 \<le> i" "i \<le> commit_idx s" for i
  proof -
    have "nat (i - 1) < nat (commit_idx s)" using that by simp
    then show ?thesis using keep unfolding keeps_committed_def by (metis nth_take)
  qed
  then show ?thesis
    using keep wf by (auto simp: keeps_committed_def get_entry) (auto simp: log_idx_wf_def)
qed

theorem committed_entries_permanent_witness:
  "\<exists>s s'. raft_exec (RecvAppendentries (Some 1) \<lparr>ae_term = 1, ae_prev_log_idx = 1, ae_prev_log_term = 1,
       ae_leader_commit = 0, ae_n_entries = 1, ae_entries = [zero_entry\<lparr>ety_id := 6, ety_term := 1\<rparr>]\<rparr>) s =
       Some s' \<and> commit_idx s = 1 \<and> raft_get_entry_from_idx s' 1 = raft_get_entry_from_idx s 1"
proof -
  let ?e = "zero_entry\<lparr>ety_id := 5, ety_term := 1\<rparr>"
  let ?c = "RecvAppendentries (Some 1) \<lparr>ae_term = 1, ae_prev_log_idx = 0, ae_prev_log_term = 0,
       ae_leader_commit = 1, ae_n_entries = 1, ae_entries = [?e]\<rparr>"
  let ?d = "RecvAppendentries (Some 1) \<lparr>ae_term = 1, ae_prev_log_idx = 1, ae_prev_log_term = 1,
       ae_leader_commit = 0, ae_n_entries = 1, ae_entries = [zero_entry\<lparr>ety_id := 6, ety_term := 1\<rparr>]\<rparr>"
  have "map_option (\<lambda>s. (commit_idx s, Option.is_none (raft_exec ?d s))) (raft_exec ?c duo) = Some (1, False)"
    by code_simp
  then obtain s s' where s: "raft_exec ?c duo = Some s" "commit_idx s = 1" "raft_exec ?d s = Some s'"
    unfolding map_option_eq_Some by (auto simp: Option.is_none_def simp del: raft_exec.simps)
  have "srv_wf s"
    using duo_wf s(1) exec_log_step [OF s(1)] exec_heap [OF s(1)] exec_nodes_wf [OF s(1)]
    by (simp add: srv_wf_def log_step_def heap_step_def del: raft_exec.simps)
  from committed_entries_permanent [OF this s(3)] s show ?thesis
    by (intro exI [of _ s] exI [of _ s']) (simp del: raft_exec.simps)
qed

end
