(* ===== verification/Raft_Handlers.thy ===== *)
theory Raft_Handlers
  imports Raft_Invariant
begin

text \<open>
  What the handlers of a well-formed server compute: appending the entries of a leader's message,
  answering a vote request, taking a client's entry, committing on acknowledgements, applying the
  committed entries. Each is stated with the result it returns (so that the handler is shown not to
  abort), not only under the assumption that it returns.
\<close>

section \<open>Applying\<close>

lemma apply_entry_ok:
  assumes "log_idx_wf s" and "last_applied_idx s < commit_idx s"
  shows "\<exists>s'. raft_apply_entry s = Some (0, s') \<and> srv_log s' = srv_log s \<and> cb s' = cb s \<and>
    commit_idx s' = commit_idx s \<and> last_applied_idx s' = last_applied_idx s + 1 \<and>
    trace s' = trace s @ (if cb_applylog (cb s)
      then [EvApplylog (entries s ! nat (last_applied_idx s))] else [])"
proof -
  have "raft_get_entry_from_idx s (last_applied_idx s + 1) = Some (Some (entries s ! nat (last_applied_idx s)))"
    using assms get_entry [of s "last_applied_idx s + 1"] by (auto simp: log_idx_wf_def)
  then show ?thesis using assms(2) by (auto simp: raft_apply_entry_def Let_def emit_def)
qed

lemma apply_all_ok:
  assumes "log_idx_wf s"
  shows "\<exists>s'. raft_apply_all s = Some s' \<and> srv_log s' = srv_log s \<and> commit_idx s' = commit_idx s \<and>
    last_applied_idx s' = commit_idx s \<and>
    trace s' = trace s @ (if cb_applylog (cb s)
      then map EvApplylog (drop (nat (last_applied_idx s)) (take (nat (commit_idx s)) (entries s))) else [])"
  using assms
proof (induction "nat (commit_idx s - last_applied_idx s)" arbitrary: s)
  case 0
  then have "last_applied_idx s = commit_idx s" by (auto simp: log_idx_wf_def)
  then show ?case by (subst raft_apply_all.simps) (simp add: prop_defs)
next
  case (Suc n)
  let ?a = "nat (last_applied_idx s)" and ?c = "nat (commit_idx s)"
  have lt: "last_applied_idx s < commit_idx s" using Suc.hyps(2) by linarith
  from apply_entry_ok [OF Suc.prems lt] obtain t where
    t: "raft_apply_entry s = Some (0, t)" "srv_log t = srv_log s" "cb t = cb s"
      "commit_idx t = commit_idx s" "last_applied_idx t = last_applied_idx s + 1"
      "trace t = trace s @ (if cb_applylog (cb s) then [EvApplylog (entries s ! ?a)] else [])"
    by blast
  have "log_idx_wf t" "n = nat (commit_idx t - last_applied_idx t)"
    using Suc.hyps(2) Suc.prems t lt by (auto simp: log_idx_wf_def)
  from Suc.hyps(1) [OF this(2,1)] obtain u where
    u: "raft_apply_all t = Some u" "srv_log u = srv_log t" "commit_idx u = commit_idx t"
      "last_applied_idx u = commit_idx t"
      "trace u = trace t @ (if cb_applylog (cb t)
        then map EvApplylog (drop (nat (last_applied_idx t)) (take (nat (commit_idx t)) (entries t))) else [])"
    by blast
  have "?a < length (take ?c (entries s))" "nat (last_applied_idx t) = Suc ?a"
    using lt Suc.prems t(5) by (auto simp: log_idx_wf_def)
  then have "drop ?a (take ?c (entries s)) = entries s ! ?a # drop (nat (last_applied_idx t)) (take ?c (entries s))"
    using Cons_nth_drop_Suc [of ?a "take ?c (entries s)"] by simp
  moreover have "raft_apply_all s = Some u"
    using t(1) u(1) lt by (subst raft_apply_all.simps) (simp add: prop_defs)
  ultimately show ?case using t u by simp
qed

section \<open>Appending a leader's entries\<close>

text \<open>
  The reference: entries that agree in term with the message are kept, and from the first one that
  differs or is missing on the message's entries take over.
\<close>

fun overwrite :: "raft_entry list \<Rightarrow> raft_entry list \<Rightarrow> raft_entry list" where
  "overwrite ys [] = ys"
| "overwrite [] (e # es) = e # es"
| "overwrite (y # ys) (e # es) = (if ety_term y = ety_term e then y # overwrite ys es else e # es)"

definition no_conflict :: "raft_server \<Rightarrow> msg_appendentries \<Rightarrow> bool" where
  "no_conflict s ae \<longleftrightarrow> (\<forall>k<length (ae_entries ae). ae_prev_log_idx ae + int k < commit_idx s \<longrightarrow>
     ety_term (entries s ! nat (ae_prev_log_idx ae + int k)) = ety_term (ae_entries ae ! k))"

lemma ae_scan_ok:
  assumes "log_idx_wf s" and "no_conflict s ae" and "ae_prev_log_idx ae = int p"
    and "i + k = length (ae_entries ae)" and "p + i \<le> length (entries s)"
  shows "\<exists>j c' s'. ae_scan ae k (int i) c s = Some (int j, c', s') \<and> j \<le> length (ae_entries ae) \<and>
    log_idx_wf s' \<and> lcb (srv_log s') = lcb (srv_log s) \<and>
    commit_idx s' = commit_idx s \<and> last_applied_idx s' = last_applied_idx s \<and>
    (j = length (ae_entries ae) \<longrightarrow> c' = (if k = 0 then c else int (p + j))) \<and>
    entries s' @ drop j (ae_entries ae) =
      take (p + i) (entries s) @ overwrite (drop (p + i) (entries s)) (drop i (ae_entries ae))"
  using assms(4,5)
proof (induction k arbitrary: i c)
  case 0
  then show ?case using assms(1) by (intro exI [of _ i] exI [of _ c] exI [of _ s]) simp
next
  case (Suc k)
  let ?es = "ae_entries ae" and ?xs = "entries s"
  have i: "i < length ?es" using Suc.prems by simp
  have e: "mem_read ?es (int i) = Some (?es ! i)" using i by simp
  have des: "drop i ?es = ?es ! i # drop (Suc i) ?es" using i by (simp add: Cons_nth_drop_Suc)
  have idx: "ae_prev_log_idx ae + 1 + int i = int (p + i + 1)" using assms(3) by simp
  show ?case
  proof (cases "p + i < length ?xs")
    case False
    then have "raft_get_entry_from_idx s (int (p + i + 1)) = Some None"
      using get_entry [OF assms(1), of "int (p + i + 1)"] by simp
    then show ?thesis
      using e idx i False Suc.prems assms(1) des
      by (intro exI [of _ i] exI [of _ "int (p + i + 1)"] exI [of _ s]) (simp add: algebra_simps)
  next
    case True
    then have g: "raft_get_entry_from_idx s (int (p + i + 1)) = Some (Some (?xs ! (p + i)))"
      using get_entry [OF assms(1), of "int (p + i + 1)"] by (simp add: nat_int_add)
    have dxs: "drop (p + i) ?xs = ?xs ! (p + i) # drop (p + Suc i) ?xs"
      using True by (simp add: Cons_nth_drop_Suc)
    have txs: "take (p + Suc i) ?xs = take (p + i) ?xs @ [?xs ! (p + i)]"
      using True by (simp add: take_Suc_conv_app_nth)
    show ?thesis
    proof (cases "ety_term (?xs ! (p + i)) = ety_term (?es ! i)")
      case eq: True
      have "Suc i + k = length ?es" "p + Suc i \<le> length ?xs" using Suc.prems True by simp_all
      from Suc.IH [OF this, of "int (p + i + 1)"] obtain j c' s' where
        *: "ae_scan ae k (int (Suc i)) (int (p + i + 1)) s = Some (int j, c', s')" "j \<le> length ?es"
        "log_idx_wf s'" "lcb (srv_log s') = lcb (srv_log s)" "commit_idx s' = commit_idx s"
        "last_applied_idx s' = last_applied_idx s"
        "j = length ?es \<longrightarrow> c' = (if k = 0 then int (p + i + 1) else int (p + j))"
        "entries s' @ drop j ?es = take (p + Suc i) ?xs @ overwrite (drop (p + Suc i) ?xs) (drop (Suc i) ?es)"
        by blast
      have "ae_scan ae (Suc k) (int i) c s = Some (int j, c', s')"
        using e g idx eq *(1) by (simp add: Let_def ac_simps)
      moreover have "j = length ?es \<longrightarrow> c' = int (p + j)" using *(7) Suc.prems(1) by auto
      moreover have "entries s' @ drop j ?es = take (p + i) ?xs @ overwrite (drop (p + i) ?xs) (drop i ?es)"
        using *(8) eq dxs txs des by simp
      ultimately show ?thesis
        using * by (intro exI [of _ j] exI [of _ c'] exI [of _ s']) (simp del: ae_scan.simps)
    next
      case ne: False
      have "commit_idx s < int (p + i + 1)"
        using ne assms(2,3) i unfolding no_conflict_def
        by (metis add.commute linorder_not_less nat_int of_nat_add zle_add1_eq_le of_nat_1)
      moreover from rl.del_ok [of "srv_log s" "int (p + i + 1)"] obtain s' where
        s': "srv_log_delete s (int (p + i + 1)) = Some s'"
        using assms(1) by (auto simp: srv_log_delete_def log_idx_wf_def)
      ultimately have d: "ae_scan ae (Suc k) (int i) c s = Some (int i, int (p + i + 1), s')"
        using e g idx ne by (simp add: Let_def ac_simps)
      have "log_idx_wf s'" using delete_step [OF s'] \<open>commit_idx s < _\<close> assms(1) by (simp add: log_step_def)
      moreover have "entries s' @ drop i ?es = take (p + i) ?xs @ overwrite (drop (p + i) ?xs) (drop i ?es)"
        using delete_entries [OF s' assms(1)] ne dxs des by (simp add: nat_int_add)
      ultimately show ?thesis using d delete_entries [OF s' assms(1)] i
        by (intro exI [of _ i] exI [of _ "int (p + i + 1)"] exI [of _ s']) simp
    qed
  qed
qed

text \<open>Without a \<open>log_offer\<close> callback an entry is stored as it is.\<close>

lemma stored_id: "log_offer_of l = None \<Longrightarrow> log_stored l e = e"
  by (simp add: log_stored_def)

lemma append_entry_ok:
  assumes "log_idx_wf s"
  shows "\<exists>r s'. raft_append_entry s e = Some (r, s')"
  using assms rl.append_total [of "srv_log s" e]
  by (auto simp: raft_append_entry_def log_idx_wf_def Let_def)

lemma ae_append_ok:
  assumes "\<forall>e\<in>set (ae_entries ae). ety_id e \<noteq> 0" and "ae_prev_log_idx ae = int p"
    and "log_idx_wf s" and "log_offer_of (srv_log s) = None" and "i + k = length (ae_entries ae)"
  shows "\<exists>s'. ae_append ae k (int i) c s = Some (True, if k = 0 then c else int (p + i + k), s') \<and>
    log_idx_wf s' \<and> commit_idx s' = commit_idx s \<and> last_applied_idx s' = last_applied_idx s \<and>
    entries s' = entries s @ drop i (ae_entries ae)"
  using assms(3-)
proof (induction k arbitrary: i c s)
  case 0
  then show ?case by simp
next
  case (Suc k)
  let ?es = "ae_entries ae"
  have i: "i < length ?es" and id: "ety_id (?es ! i) \<noteq> 0" using Suc.prems(3) assms(1) by auto
  obtain r t where t: "raft_append_entry s (?es ! i) = Some (r, t)"
    using append_entry_ok [OF Suc.prems(1)] by blast
  note ent = append_entry_entries [OF t Suc.prems(1)]
  have wf: "log_idx_wf t" using append_entry_step [OF t] Suc.prems(1) by (simp add: log_step_def)
  have "log_offer_of (srv_log t) = None" using ent Suc.prems(2) by (simp add: log_offer_of_def)
  from Suc.IH [OF wf this, of "Suc i" "int (p + i + 1)"] Suc.prems(3) obtain s' where
    *: "ae_append ae k (int (Suc i)) (int (p + i + 1)) t =
          Some (True, if k = 0 then int (p + i + 1) else int (p + Suc i + k), s')"
    "log_idx_wf s'" "commit_idx s' = commit_idx t" "last_applied_idx s' = last_applied_idx t"
    "entries s' = entries t @ drop (Suc i) ?es" by auto
  have "ae_append ae (Suc k) (int i) c s = Some (True, int (p + i + Suc k), s')"
    using t ent id i *(1) assms(2) by (auto simp: ac_simps)
  moreover have "entries s' = entries s @ drop i ?es"
    using *(5) ent id i stored_id [OF Suc.prems(2)] by (simp add: Cons_nth_drop_Suc)
  ultimately show ?case using * ent by simp
qed

lemma overwrite_length: "length es \<le> length (overwrite ys es)"
  by (induction ys es rule: overwrite.induct) auto

lemma set_commit_ok:
  "commit_idx s \<le> i \<Longrightarrow> i \<le> raft_get_current_idx s \<Longrightarrow>
   raft_set_commit_idx s i = Some (s\<lparr>commit_idx := i\<rparr>)"
  by (simp add: raft_set_commit_idx_def)

text \<open>The last step of accepting a message: the commit index follows the leader's, up to the last entry.\<close>

lemma ae_commit_ok:
  assumes "log_idx_wf s" and "1 \<le> length (entries s)"
  shows "\<exists>s'. (if raft_get_commit_idx s < c
      then (let last_log_idx = max (raft_get_current_idx s) 1 in raft_set_commit_idx s (min last_log_idx c))
      else Some s) = Some s' \<and> entries s' = entries s \<and>
    commit_idx s' = max (commit_idx s) (min c (int (length (entries s))))"
proof (cases "commit_idx s < c")
  case True
  have m: "max (raft_get_current_idx s) 1 = int (length (entries s))" using cur_idx [OF assms(1)] assms(2) by simp
  have com: "commit_idx s \<le> int (length (entries s))" using assms(1) by (simp add: log_idx_wf_def)
  have "raft_set_commit_idx s (min (int (length (entries s))) c) =
      Some (s\<lparr>commit_idx := min (int (length (entries s))) c\<rparr>)"
    by (rule set_commit_ok) (use True com cur_idx [OF assms(1)] in auto)
  then show ?thesis unfolding m Let_def using True com by (auto simp: raft_get_commit_idx_def)
qed (use assms(1) in \<open>auto simp: raft_get_commit_idx_def log_idx_wf_def\<close>)

lemma ae_accept_ok:
  assumes wf: "log_idx_wf s" and "no_conflict s ae" and "ae_entries ae \<noteq> []"
    and n: "ae_n_entries ae = int (length (ae_entries ae))" and "\<forall>e\<in>set (ae_entries ae). ety_id e \<noteq> 0"
    and "log_offer_of (srv_log s) = None" and p: "ae_prev_log_idx ae = int p" "p \<le> length (entries s)"
  defines "new \<equiv> take p (entries s) @ overwrite (drop p (entries s)) (ae_entries ae)"
  shows "\<exists>s'. ae_accept s pt ae t = Some (0, \<lparr>aer_term = t, aer_success = 1,
      aer_current_idx = int (p + length (ae_entries ae)), aer_first_idx = int (p + 1)\<rparr>, s') \<and>
    entries s' = new \<and> current_leader s' = pt \<and>
    commit_idx s' = max (commit_idx s) (min (ae_leader_commit ae) (int (length new)))"
proof -
  let ?es = "ae_entries ae"
  from ae_scan_ok [OF wf assms(2) p(1), of 0 "length ?es" "int p"] p(2) obtain j c' s1 where
    s1: "ae_scan ae (length ?es) (int 0) (int p) s = Some (int j, c', s1)" "j \<le> length ?es" "log_idx_wf s1"
    "lcb (srv_log s1) = lcb (srv_log s)" "commit_idx s1 = commit_idx s"
    "last_applied_idx s1 = last_applied_idx s"
    "j = length ?es \<longrightarrow> c' = int (p + j)" "entries s1 @ drop j ?es = new"
    using assms(3) by (auto simp: new_def)
  have "log_offer_of (srv_log s1) = None" using s1(4) assms(6) by (simp add: log_offer_of_def)
  from ae_append_ok [OF assms(5) p(1) s1(3) this, of j "length ?es - j" c'] s1(2) obtain s2 where
    s2: "ae_append ae (length ?es - j) (int j) c' s1 =
      Some (True, if length ?es - j = 0 then c' else int (p + j + (length ?es - j)), s2)"
    "log_idx_wf s2" "commit_idx s2 = commit_idx s" "entries s2 = new"
    using s1(5,8) by auto
  have cur: "(if length ?es - j = 0 then c' else int (p + j + (length ?es - j))) = int (p + length ?es)"
    using s1(2,7) by auto
  have new: "1 \<le> length new"
    using overwrite_length [of ?es "drop p (entries s)"] assms(3) by (cases ?es) (auto simp: new_def)
  from ae_commit_ok [OF s2(2), of "ae_leader_commit ae"] obtain s3 where s3: "(if raft_get_commit_idx s2 < ae_leader_commit ae
      then (let last_log_idx = max (raft_get_current_idx s2) 1
            in raft_set_commit_idx s2 (min last_log_idx (ae_leader_commit ae)))
      else Some s2) = Some s3" "entries s3 = new"
    "commit_idx s3 = max (commit_idx s) (min (ae_leader_commit ae) (int (length new)))"
    using s2(3,4) new by auto
  have nn: "nat (ae_n_entries ae - int j) = length ?es - j" "nat (ae_n_entries ae) = length ?es"
    using n by simp_all
  have "ae_n_entries ae \<noteq> 0" using n assms(3) by simp
  then have "ae_accept s pt ae t = Some (0, \<lparr>aer_term = t, aer_success = 1,
      aer_current_idx = int (p + length ?es), aer_first_idx = int (p + 1)\<rparr>, s3\<lparr>current_leader := pt\<rparr>)"
    using s1(1) s2(1) [unfolded cur] s3(1) unfolding ae_accept_def nn p(1)
    by (simp add: nn add.commute split del: if_split)
  then show ?thesis using s3 by simp
qed

lemma overwrite_nth:
  "i < length es \<Longrightarrow> ety_term (overwrite ys es ! i) = ety_term (es ! i)"
proof (induction ys es arbitrary: i rule: overwrite.induct)
  case (3 y ys e es)
  then show ?case by (cases i) auto
qed auto

section \<open>Votes\<close>

text \<open>The candidate's log is at least as up to date as the server's.\<close>

definition up_to_date :: "raft_server \<Rightarrow> msg_requestvote \<Rightarrow> bool" where
  "up_to_date s vr \<longleftrightarrow> entries s = [] \<or> ety_term (last (entries s)) < word_of_int (rv_last_log_term vr) \<or>
     ety_term (last (entries s)) = word_of_int (rv_last_log_term vr) \<and>
       int (length (entries s)) \<le> rv_last_log_idx vr"

lemma should_grant_ok:
  assumes "log_idx_wf s"
  shows "should_grant_vote s vr =
    Some (current_term s \<le> rv_term vr \<and> voted_for s = -1 \<and> up_to_date s vr)"
proof (cases "entries s = []")
  case True
  then show ?thesis using assms
    by (auto simp: should_grant_vote_def prop_defs raft_already_voted_def up_to_date_def
        cur_idx [unfolded raft_get_current_idx_def])
next
  case False
  then have "1 \<le> int (length (entries s))" by (cases "entries s") auto
  moreover have "nat (int (length (entries s)) - 1) = length (entries s) - 1" by arith
  ultimately have "raft_get_entry_from_idx s (int (length (entries s))) = Some (Some (last (entries s)))"
    using get_entry [OF assms, of "int (length (entries s))"] False by (simp add: last_conv_nth)
  then show ?thesis using assms False
    by (auto simp: should_grant_vote_def raft_get_current_term_def raft_already_voted_def up_to_date_def
        cur_idx Let_def)
qed

definition grants_vote :: "raft_server \<Rightarrow> msg_requestvote \<Rightarrow> bool" where
  "grants_vote s vr \<longleftrightarrow> (current_term s < rv_term vr \<or> current_term s = rv_term vr \<and> voted_for s = -1) \<and>
     up_to_date s vr"

text \<open>The assertion that a leader or candidate never grants a vote.\<close>

definition vote_asserts :: "raft_server \<Rightarrow> msg_requestvote \<Rightarrow> bool" where
  "vote_asserts s vr \<longleftrightarrow> grants_vote s vr \<and> rv_term vr = current_term s \<and>
     srv_state s \<in> {RAFT_STATE_CANDIDATE, RAFT_STATE_LEADER}"

lemma recv_requestvote_run:
  assumes "log_idx_wf s"
  shows "if vote_asserts s vr then raft_recv_requestvote s p vr = None
    else \<exists>s'. raft_recv_requestvote s p vr =
      Some (0, \<lparr>rvr_term = max (current_term s) (rv_term vr),
                rvr_vote_granted = (if grants_vote s vr then 1 else 0)\<rparr>, s') \<and>
    current_term s' = max (current_term s) (rv_term vr) \<and>
    (grants_vote s vr \<longrightarrow> voted_for s' = rv_candidate_id vr \<and> current_leader s' = None \<and> timeout_elapsed s' = 0) \<and>
    (\<not> grants_vote s vr \<longrightarrow> voted_for s' = (if current_term s < rv_term vr then -1 else voted_for s))"
proof -
  define s1 where "s1 = (if raft_get_current_term s < rv_term vr
    then raft_become_follower (raft_set_current_term s (rv_term vr)) else s)"
  have s1: "current_term s1 = max (current_term s) (rv_term vr)" "srv_log s1 = srv_log s"
    "voted_for s1 = (if current_term s < rv_term vr then -1 else voted_for s)"
    "srv_state s1 = (if current_term s < rv_term vr then RAFT_STATE_FOLLOWER else srv_state s)"
    "commit_idx s1 = commit_idx s" "last_applied_idx s1 = last_applied_idx s"
    by (auto simp: s1_def raft_become_follower_def raft_set_state_def raft_set_current_term_def
        raft_get_current_term_def emit_def)
  have wf: "log_idx_wf s1" using assms(1) s1 by (simp add: log_idx_wf_def)
  have g: "should_grant_vote s1 vr = Some (grants_vote s vr)"
    unfolding should_grant_ok [OF wf] using s1 by (auto simp: grants_vote_def up_to_date_def)
  have a: "raft_is_leader s1 \<or> raft_is_candidate s1 \<longleftrightarrow> \<not> current_term s < rv_term vr \<and>
      srv_state s \<in> {RAFT_STATE_CANDIDATE, RAFT_STATE_LEADER}"
    using s1(4) by (auto simp: prop_defs)
  show ?thesis
  proof (cases "grants_vote s vr")
    case False
    then show ?thesis
      using s1(1,3) g unfolding raft_recv_requestvote_def Let_def s1_def [symmetric]
      by (simp add: vote_asserts_def raft_get_current_term_def)
  next
    case True
    then have t: "\<not> current_term s < rv_term vr \<longleftrightarrow> rv_term vr = current_term s" by (auto simp: grants_vote_def)
    show ?thesis
    proof (cases "vote_asserts s vr")
      case True
      then have "raft_is_leader s1 \<or> raft_is_candidate s1" using a t by (simp add: vote_asserts_def)
      then show ?thesis using True g \<open>grants_vote s vr\<close>
        unfolding raft_recv_requestvote_def Let_def s1_def [symmetric] by simp
    next
      case False
      then have "\<not> (raft_is_leader s1 \<or> raft_is_candidate s1)" using a t \<open>grants_vote s vr\<close> by (simp add: vote_asserts_def)
      then show ?thesis using False g \<open>grants_vote s vr\<close> s1(1)
        unfolding raft_recv_requestvote_def Let_def s1_def [symmetric]
        by (simp add: raft_vote_for_nodeid_def emit_def raft_get_current_term_def)
    qed
  qed
qed

section \<open>Client entries\<close>

lemma recv_entry_ok:
  assumes "srv_wf s" and "raft_is_leader s" and "ety_id e \<noteq> 0"
    and "\<not> raft_entry_is_voting_cfg_change e \<or> voting_cfg_change_log_idx s = -1"
  shows "\<exists>s'. raft_recv_entry s e = Some (0, Some \<lparr>mer_id = ety_id e, mer_term = current_term s,
        mer_idx = int (length (entries s)) + 1\<rparr>, s') \<and>
    entries s' = entries s @ [log_stored (srv_log s) (leader_entry s e)] \<and>
    commit_idx s' = (if length (nodes s) = 1 then int (length (entries s)) + 1 else commit_idx s)"
proof -
  have lw: "log_idx_wf s" using assms(1) by (simp add: srv_wf_def)
  obtain r1 s1 where s1: "raft_append_entry s (leader_entry s e) = Some (r1, s1)"
    using append_entry_ok [OF lw] by blast
  have ent: "entries s1 = entries s @ [log_stored (srv_log s) (leader_entry s e)]"
    "commit_idx s1 = commit_idx s"
    using append_entry_entries [OF s1 lw] assms(3) by (simp_all add: leader_entry_def)
  have lw1: "log_idx_wf s1" using append_entry_step [OF s1] lw by (simp add: log_step_def)
  have same: "nodes s1 = nodes s" "node s1 = node s" "heap s1 = heap s" "current_term s1 = current_term s"
    using s1 by (auto simp: raft_append_entry_def Let_def emit_def elim!: bind_SomeE split: if_split_asm)
  have "node_at s1 = node_at s" using same by (simp add: node_at_def fun_eq_iff)
  then have "srv_wf s1" using assms(1) lw1 same by (simp add: srv_wf_def nodes_wf_def heap_wf_def)
  from sends_total [of s1 "nodes s1" recv_entry_step, OF this order_refl] obtain s2 where
    s2: "for_each recv_entry_step (nodes s1) s1 = Some s2" "traced s1 s2"
    using recv_entry_step_total by blast
  have f: "entries s2 = entries s1" "raft_get_current_idx s2 = int (length (entries s1))"
    "num_nodes s2 = int (length (nodes s))" "current_term s2 = current_term s" "commit_idx s2 = commit_idx s"
    using s2(2) lw1 same ent by (auto simp: traced_def num_nodes_def raft_get_current_idx_def
        cur_idx [unfolded raft_get_current_idx_def])
  define s3 where "s3 = (if 1 = num_nodes s2 then s2\<lparr>commit_idx := raft_get_current_idx s2\<rparr> else s2)"
  have g: "raft_get_current_idx s3 = raft_get_current_idx s2" "current_term s3 = current_term s"
    "entries s3 = entries s1"
    by (simp_all add: s3_def f raft_get_current_idx_def)
  have c: "\<not> (raft_entry_is_voting_cfg_change e \<and> -1 \<noteq> voting_cfg_change_log_idx s)" using assms(4) by auto
  have "raft_recv_entry s e = Some (0, Some \<lparr>mer_id = ety_id e, mer_term = current_term s3,
        mer_idx = raft_get_current_idx s3\<rparr>, if raft_entry_is_voting_cfg_change e
        then s3\<lparr>voting_cfg_change_log_idx := raft_get_current_idx s3\<rparr> else s3)"
    using assms(2) s1 s2(1)
    unfolding raft_recv_entry_def Let_def leader_entry_eq s3_def if_not_P [OF c]
    by (simp split del: if_split)
  then show ?thesis using f g ent by (auto simp: s3_def)
qed

section \<open>Committing\<close>

text \<open>The peers whose acknowledgements count towards committing \<open>point\<close>.\<close>

definition acked :: "raft_server \<Rightarrow> int \<Rightarrow> nat \<Rightarrow> bool" where
  "acked s point a \<longleftrightarrow> node s \<noteq> Some a \<and> (\<exists>nd e. node_at s a = Some nd \<and> raft_node_is_voting nd \<and>
     0 < match_idx nd \<and> point \<le> match_idx nd \<and>
     raft_get_entry_from_idx s (match_idx nd) = Some (Some e) \<and> ety_term e = word_of_int (current_term s))"

lemma count_match_acked:
  "count_match s point ns v = Some n \<Longrightarrow> n = v + int (length (filter (acked s point) ns))"
proof (induction ns arbitrary: v)
  case (Cons a ns)
  show ?case
  proof (cases "node s = Some a")
    case True
    then show ?thesis using Cons by (simp add: acked_def)
  next
    case False
    with Cons.prems obtain nd where nd: "node_at s a = Some nd" by (auto elim!: bind_SomeE)
    show ?thesis
    proof (cases "raft_node_is_voting nd \<and> 0 < match_idx nd")
      case True
      with False Cons.prems nd obtain e where
        e: "raft_get_entry_from_idx s (match_idx nd) = Some (Some e)"
        "count_match s point ns (if ety_term e = word_of_int (current_term s) \<and> point \<le> match_idx nd
           then v + 1 else v) = Some n"
        by (auto simp: raft_node_get_match_idx_def Let_def elim!: bind_SomeE split: if_split_asm)
      have "acked s point a \<longleftrightarrow> ety_term e = word_of_int (current_term s) \<and> point \<le> match_idx nd"
        using False nd True e(1) by (auto simp: acked_def)
      with Cons.IH [OF e(2)] show ?thesis by simp
    next
      case no: False
      then have "count_match s point ns v = Some n" "\<not> acked s point a"
        using False Cons.prems nd by (auto simp: raft_node_get_match_idx_def acked_def split: if_split_asm)
      with Cons.IH show ?thesis by simp
    qed
  qed
qed simp

lemma aer_commit_rule:
  assumes "aer_commit s r = Some s'"
  shows "s' = s \<or> s' = s\<lparr>commit_idx := aer_current_idx r\<rparr> \<and> commit_idx s < aer_current_idx r \<and>
    length (nodes s) div 2 < Suc (length (filter (acked s (aer_current_idx r)) (nodes s)))"
proof -
  from assms obtain v where v: "count_match s (aer_current_idx r) (nodes s) 1 = Some v"
    "(if num_nodes s sdiv 2 < v \<and> raft_get_commit_idx s < aer_current_idx r
      then raft_set_commit_idx s (aer_current_idx r) else Some s) = Some s'"
    by (auto simp: aer_commit_def Let_def elim!: bind_SomeE)
  have "num_nodes s sdiv 2 = int (length (nodes s) div 2)"
    by (simp add: num_nodes_def sdiv_pos_div zdiv_int)
  with v count_match_acked [OF v(1)] show ?thesis
    by (auto simp: raft_set_commit_idx_def raft_get_commit_idx_def elim!: bind_SomeE split: if_split_asm)
qed

lemma acked_traced: "acked (s\<lparr>commit_idx := x, trace := tr\<rparr>) = acked s"
  by (simp add: acked_def fun_eq_iff raft_get_entry_from_idx_def)

section \<open>Properties\<close>

text \<open>C4: A leader's append-entries message with at least one entry is applied as the protocol demands. When its
  term is not old, its previous entry matches, it does not contradict committed entries and none of its
  entries has the id 0 (which the log refuses), a well-formed server that has no \<open>log_offer\<close> callback (which
  could change the entries it stores) answers success with the index of the message's last entry, keeps
  every entry that agrees with the message, replaces its log from the first disagreement on by the
  message's entries, and moves its commit index to the minimum of the leader's commit index and its last
  entry. A message without entries is treated differently: see \<open>heartbeat_truncates\<close>.\<close>

theorem appendentries_applied:
  assumes "srv_wf s" and "current_term s \<le> ae_term ae" and "no_conflict s ae" and "ae_entries ae \<noteq> []"
    and "ae_n_entries ae = int (length (ae_entries ae))" and "\<forall>e\<in>set (ae_entries ae). ety_id e \<noteq> 0"
    and "log_offer_of (srv_log s) = None"
    and "ae_prev_log_idx ae = int p" and "p \<le> length (entries s)"
    and "p = 0 \<or> ety_term (entries s ! (p - 1)) = word_of_int (ae_prev_log_term ae)"
  shows "\<exists>s'. raft_recv_appendentries s pt ae =
      Some (0, \<lparr>aer_term = ae_term ae, aer_success = 1,
                aer_current_idx = int (p + length (ae_entries ae)), aer_first_idx = int (p + 1)\<rparr>, s') \<and>
    entries s' = take p (entries s) @ overwrite (drop p (entries s)) (ae_entries ae) \<and>
    (\<forall>i<length (ae_entries ae). ety_term (entries s' ! (p + i)) = ety_term (ae_entries ae ! i)) \<and>
    commit_idx s' = max (commit_idx s) (min (ae_leader_commit ae) (int (length (entries s')))) \<and>
    current_leader s' = pt"
proof -
  let ?s = "s\<lparr>timeout_elapsed := 0\<rparr>"
  define s1 where "s1 = (if raft_is_candidate ?s \<and> current_term ?s = ae_term ae
    then raft_become_follower (?s\<lparr>voted_for := -1\<rparr>)
    else if current_term ?s < ae_term ae
    then raft_become_follower (raft_set_current_term ?s (ae_term ae)) else ?s)"
  have s1: "srv_log s1 = srv_log s" "commit_idx s1 = commit_idx s" "last_applied_idx s1 = last_applied_idx s"
    by (auto simp: s1_def raft_become_follower_def raft_set_state_def raft_set_current_term_def emit_def)
  have wf: "log_idx_wf s1" using assms(1) s1 by (simp add: srv_wf_def log_idx_wf_def)
  have "no_conflict s1 ae" using assms(3) s1 by (simp add: no_conflict_def)
  from ae_accept_ok [OF wf this assms(4-6), of p pt "ae_term ae"] s1 assms(7-9) obtain s' where
    acc: "ae_accept s1 pt ae (ae_term ae) = Some (0, \<lparr>aer_term = ae_term ae, aer_success = 1,
        aer_current_idx = int (p + length (ae_entries ae)), aer_first_idx = int (p + 1)\<rparr>, s')"
      "entries s' = take p (entries s) @ overwrite (drop p (entries s)) (ae_entries ae)"
      "current_leader s' = pt"
      "commit_idx s' = max (commit_idx s) (min (ae_leader_commit ae) (int (length (entries s'))))"
    by auto
  have "raft_recv_appendentries s pt ae = ae_check_prev s1 pt ae (ae_term ae)"
    using assms(2) by (auto simp: raft_recv_appendentries_def Let_def s1_def)
  moreover have "ae_check_prev s1 pt ae (ae_term ae) = ae_accept s1 pt ae (ae_term ae)"
  proof (cases "p = 0")
    case False
    then have "raft_get_entry_from_idx s1 (int p) = Some (Some (entries s ! (p - 1)))"
      using get_entry [OF wf, of "int p"] assms(9) s1 by (simp add: nat_diff_distrib')
    then show ?thesis
      using False assms(8-10) s1 cur_idx [OF wf] by (simp add: ae_check_prev_def)
  qed (simp add: ae_check_prev_def assms(8))
  moreover have "ety_term (entries s' ! (p + i)) = ety_term (ae_entries ae ! i)"
    if "i < length (ae_entries ae)" for i
    using that assms(9) overwrite_nth [OF that] by (simp add: acc(2) nth_append)
  ultimately show ?thesis using acc by auto
qed

theorem appendentries_applied_witness:
  "\<exists>s'. raft_recv_appendentries duo (Some 1) \<lparr>ae_term = 2, ae_prev_log_idx = 0, ae_prev_log_term = 0,
        ae_leader_commit = 9, ae_n_entries = 1, ae_entries = [zero_entry\<lparr>ety_id := 5, ety_term := 2\<rparr>]\<rparr> =
      Some (0, \<lparr>aer_term = 2, aer_success = 1, aer_current_idx = 1, aer_first_idx = 1\<rparr>, s') \<and>
    entries s' = [zero_entry\<lparr>ety_id := 5, ety_term := 2\<rparr>] \<and> commit_idx s' = 1"
proof -
  let ?ae = "\<lparr>ae_term = 2, ae_prev_log_idx = 0, ae_prev_log_term = 0, ae_leader_commit = 9,
    ae_n_entries = 1, ae_entries = [zero_entry\<lparr>ety_id := 5, ety_term := 2\<rparr>]\<rparr>"
  have duo: "entries duo = []" "current_term duo = 0" "commit_idx duo = 0"
    "log_offer_of (srv_log duo) = None"
    by (simp_all add: duo_def log_offer_of_def) (simp add: log_new_def)
  then have "no_conflict duo ?ae" by (simp add: no_conflict_def)
  from appendentries_applied [OF duo_wf _ this, of 0 "Some 1"] duo show ?thesis by auto
qed

text \<open>C8: What a well-formed server does with any vote request. It aborts exactly when it is a candidate or leader
  of the request's term that has voted for nobody (not itself either, which the comment in the code
  rules out) and would grant the vote. Otherwise the term of the answer is the larger of the two, and
  the vote is granted exactly when the request's term is newer, or the same and no vote was given in it,
  and the candidate's log is at least as up to date as the server's. So a repeated request of the
  candidate that got the vote is refused, which a TODO in the code says should not be.\<close>

theorem requestvote_answer:
  assumes "srv_wf s"
  shows "if vote_asserts s vr then raft_recv_requestvote s p vr = None
    else \<exists>s'. raft_recv_requestvote s p vr =
      Some (0, \<lparr>rvr_term = max (current_term s) (rv_term vr),
                rvr_vote_granted = (if grants_vote s vr then 1 else 0)\<rparr>, s') \<and>
    current_term s' = max (current_term s) (rv_term vr) \<and>
    (grants_vote s vr \<longrightarrow> voted_for s' = rv_candidate_id vr \<and> current_leader s' = None \<and> timeout_elapsed s' = 0) \<and>
    (\<not> grants_vote s vr \<longrightarrow> voted_for s' = (if current_term s < rv_term vr then -1 else voted_for s))"
  using assms by (intro recv_requestvote_run) (simp add: srv_wf_def)

theorem requestvote_answer_witness:
  "\<exists>s'. raft_recv_requestvote duo (Some 1) \<lparr>rv_term = 4, rv_candidate_id = 2, rv_last_log_idx = 0,
      rv_last_log_term = 0\<rparr> = Some (0, \<lparr>rvr_term = 4, rvr_vote_granted = 1\<rparr>, s') \<and> voted_for s' = 2"
  using requestvote_answer [OF duo_wf, of "\<lparr>rv_term = 4, rv_candidate_id = 2, rv_last_log_idx = 0,
      rv_last_log_term = 0\<rparr>" "Some 1"]
  by (auto simp: grants_vote_def up_to_date_def duo_def vote_asserts_def)

text \<open>C7: Applying terminates and applies every committed entry once and in order: \<open>raft_apply_all\<close>
  returns, the applied index reaches the commit index, and the application's callback has seen exactly the
  committed entries that were not applied before, in log order.\<close>

theorem apply_all_applies_committed:
  assumes "srv_wf s"
  shows "\<exists>s'. raft_apply_all s = Some s' \<and> last_applied_idx s' = commit_idx s \<and>
    entries s' = entries s \<and>
    trace s' = trace s @ (if cb_applylog (cb s)
      then map EvApplylog (drop (nat (last_applied_idx s)) (take (nat (commit_idx s)) (entries s))) else [])"
  using apply_all_ok [of s] assms by (auto simp: srv_wf_def)

theorem apply_all_applies_committed_witness:
  "\<exists>s'. raft_apply_all duo = Some s' \<and> last_applied_idx s' = 0"
  using apply_all_applies_committed [OF duo_wf] by (auto simp: duo_def)

text \<open>A leader takes a client's entry: it appends the entry with its own term, answers with the index
  where the entry now is, and commits it at once exactly when it is the only node.\<close>

theorem leader_takes_entry:
  assumes "srv_wf s" and "raft_is_leader s" and "ety_id e \<noteq> 0"
    and "\<not> raft_entry_is_voting_cfg_change e \<or> voting_cfg_change_log_idx s = -1"
  shows "\<exists>s'. raft_recv_entry s e = Some (0, Some \<lparr>mer_id = ety_id e, mer_term = current_term s,
        mer_idx = int (length (entries s)) + 1\<rparr>, s') \<and>
    entries s' = entries s @ [log_stored (srv_log s) (e\<lparr>ety_term := word_of_int (current_term s)\<rparr>)] \<and>
    commit_idx s' = (if length (nodes s) = 1 then int (length (entries s)) + 1 else commit_idx s)"
  using recv_entry_ok [OF assms] by (simp add: leader_entry_def)

lemma duo_leader_wf: "srv_wf (duo\<lparr>srv_state := RAFT_STATE_LEADER\<rparr>)"
  using duo_wf by (simp add: srv_wf_def nodes_wf_def heap_wf_def log_idx_wf_def)

theorem leader_takes_entry_witness:
  "\<exists>s'. raft_recv_entry (duo\<lparr>srv_state := RAFT_STATE_LEADER\<rparr>) (zero_entry\<lparr>ety_id := 5\<rparr>) =
      Some (0, Some \<lparr>mer_id = 5, mer_term = 0, mer_idx = 1\<rparr>, s') \<and> length (entries s') = 1"
proof -
  have "\<not> raft_entry_is_voting_cfg_change (zero_entry\<lparr>ety_id := 5\<rparr>)"
    by (simp add: raft_entry_is_voting_cfg_change_def zero_entry_def)
  with leader_takes_entry [OF duo_leader_wf, of "zero_entry\<lparr>ety_id := 5\<rparr>"] show ?thesis
    by (auto simp: duo_def prop_defs)
qed

text \<open>C6: The leader commits only what a majority holds: if handling an acknowledgement moves the commit
  index, the handler was run by a leader in the answer's term, the new commit index is the acknowledged
  index, larger than before, and more than half of the nodes (the leader itself and voting peers) have
  acknowledged an index not below it whose entry is of the leader's current term.\<close>

theorem commit_needs_majority:
  assumes "raft_recv_appendentries_response s p r = Some (rc, s')" and "commit_idx s' \<noteq> commit_idx s"
  shows "raft_is_leader s \<and> current_term s = aer_term r \<and> aer_success r \<noteq> 0 \<and>
    commit_idx s' = aer_current_idx r \<and> commit_idx s < aer_current_idx r \<and>
    length (nodes s') div 2 < Suc (length (filter (acked s' (aer_current_idx r)) (nodes s')))"
proof -
  have same: "commit_idx t = commit_idx s" if "same_log s t" for t using that by (simp add: same_log_def)
  have tr: "commit_idx u = commit_idx t" if "traced t u" for t u using that by (auto simp: traced_def)
  from assms obtain a s1 s2 where
    *: "raft_is_leader s" "current_term s = aer_term r" "aer_success r \<noteq> 0"
      "aer_advance s a r = Some s1" "aer_commit s1 r = Some s2" "traced s2 s'"
    by (auto simp: raft_recv_appendentries_response_def elim!: bind_SomeE
        split: if_split_asm option.split_asm
        dest!: send_appendentries_traced aer_retry_same_log same)
       (auto simp: raft_become_follower_def raft_set_state_def raft_set_current_term_def emit_def Let_def
          intro: traced_refl)
  have "commit_idx s2 \<noteq> commit_idx s1" "commit_idx s1 = commit_idx s"
    using assms(2) tr [OF *(6)] same [OF aer_advance_same_log [OF *(4)]] by auto
  with aer_commit_rule [OF *(5)] have c: "s2 = s1\<lparr>commit_idx := aer_current_idx r\<rparr>"
    "commit_idx s < aer_current_idx r"
    "length (nodes s1) div 2 < Suc (length (filter (acked s1 (aer_current_idx r)) (nodes s1)))" by auto
  from *(6) c(1) obtain tr' where "s' = s1\<lparr>commit_idx := aer_current_idx r, trace := tr'\<rparr>"
    by (auto simp: traced_def)
  with c * show ?thesis by (simp add: acked_traced)
qed

theorem commit_needs_majority_witness:
  "\<exists>s s'. raft_recv_appendentries_response s (Some 1) \<lparr>aer_term = 0, aer_success = 1, aer_current_idx = 1,
       aer_first_idx = 1\<rparr> = Some (0, s') \<and> commit_idx s = 0 \<and> commit_idx s' = 1 \<and>
     length (nodes s') div 2 < Suc (length (filter (acked s' 1) (nodes s')))"
proof -
  let ?r = "\<lparr>aer_term = 0, aer_success = 1, aer_current_idx = 1, aer_first_idx = 1\<rparr>"
  let ?s = "the (raft_exec (RecvEntry (zero_entry\<lparr>ety_id := 5\<rparr>)) (duo\<lparr>srv_state := RAFT_STATE_LEADER\<rparr>))"
  have run: "commit_idx ?s = 0" "map_option (\<lambda>(rc, s'). (rc, commit_idx s'))
      (raft_recv_appendentries_response ?s (Some 1) ?r) = Some (0, 1)" by code_simp+
  then obtain s' where s': "raft_recv_appendentries_response ?s (Some 1) ?r = Some (0, s')" "commit_idx s' = 1"
    unfolding map_option_eq_Some by auto
  with commit_needs_majority [OF s'(1)] run(1) show ?thesis by (intro exI [of _ ?s] exI [of _ s']) simp
qed

section \<open>Where the handlers fall short\<close>

text \<open>An acknowledgement from a node that is no longer in the configuration crashes the server: the
  stale-response test reads the match index of the NULL node before the check that was meant to ignore it.\<close>

theorem unknown_peer_response_crashes:
  assumes "aer_current_idx r \<noteq> 0"
  shows "raft_recv_appendentries_response s None r = None"
  using assms by (simp add: raft_recv_appendentries_response_def node_of_def)

theorem unknown_peer_response_crashes_witness:
  "raft_recv_appendentries_response duo None \<lparr>aer_term = 0, aer_success = 1, aer_current_idx = 1,
     aer_first_idx = 1\<rparr> = None"
  by (rule unknown_peer_response_crashes) simp

text \<open>C36: A heartbeat deletes whatever the follower holds behind the index it is about. A message without
  entries whose term is not old and whose previous entry, at an index \<open>p\<close> of the follower's log, matches
  makes a well-formed server abort when it has committed more than \<open>p\<close> entries and holds more than one
  behind \<open>p\<close>. Otherwise it answers success, and when it holds more than one entry behind \<open>p\<close> it deletes
  them all, although they contradict nothing, were perhaps stored and acknowledged after the message
  was sent, and count for the leader's majority. (A single entry behind \<open>p\<close> is kept.)\<close>

theorem heartbeat_truncates:
  assumes "srv_wf s" and "current_term s \<le> ae_term ae" and "ae_n_entries ae = 0"
    and "ae_prev_log_idx ae = int p" and "0 < p" and "p \<le> length (entries s)"
    and "ety_term (entries s ! (p - 1)) = word_of_int (ae_prev_log_term ae)"
  shows "if p + 1 < length (entries s) \<and> int p < commit_idx s then raft_recv_appendentries s pt ae = None
    else \<exists>s'. raft_recv_appendentries s pt ae =
        Some (0, \<lparr>aer_term = ae_term ae, aer_success = 1, aer_current_idx = int p, aer_first_idx = int (p + 1)\<rparr>, s') \<and>
      entries s' = (if p + 1 < length (entries s) then take p (entries s) else entries s) \<and>
      commit_idx s' = max (commit_idx s) (min (ae_leader_commit ae) (int (length (entries s'))))"
proof -
  let ?s = "s\<lparr>timeout_elapsed := 0\<rparr>"
  define s1 where "s1 = (if raft_is_candidate ?s \<and> current_term ?s = ae_term ae
    then raft_become_follower (?s\<lparr>voted_for := -1\<rparr>)
    else if current_term ?s < ae_term ae
    then raft_become_follower (raft_set_current_term ?s (ae_term ae)) else ?s)"
  have s1: "srv_log s1 = srv_log s" "commit_idx s1 = commit_idx s" "last_applied_idx s1 = last_applied_idx s"
    by (auto simp: s1_def raft_become_follower_def raft_set_state_def raft_set_current_term_def emit_def)
  have wf: "log_idx_wf s1" using assms(1) s1 by (simp add: srv_wf_def log_idx_wf_def)
  have "raft_recv_appendentries s pt ae = ae_check_prev s1 pt ae (ae_term ae)"
    using assms(2) by (auto simp: raft_recv_appendentries_def Let_def s1_def)
  also have "raft_get_entry_from_idx s1 (int p) = Some (Some (entries s ! (p - 1)))"
    using get_entry [OF wf, of "int p"] assms(5,6) s1 by (simp add: nat_diff_distrib')
  then have "ae_check_prev s1 pt ae (ae_term ae) = ae_accept s1 pt ae (ae_term ae)"
    using assms(4-7) s1 cur_idx [OF wf] by (simp add: ae_check_prev_def)
  finally have run: "raft_recv_appendentries s pt ae = ae_accept s1 pt ae (ae_term ae)" .
  have cur: "raft_get_current_idx s1 = int (length (entries s))" using cur_idx [OF wf] s1 by simp
  show ?thesis
  proof (cases "p + 1 < length (entries s) \<and> int p < commit_idx s")
    case True
    then have "ae_accept s1 pt ae (ae_term ae) = None" using assms(3-5) cur s1 by (simp add: ae_accept_def)
    then show ?thesis using True run by simp
  next
    case False
    obtain s2 where s2: "(if p + 1 < length (entries s) then do {
          c_assert (commit_idx s1 < int p + 1); srv_log_delete s1 (int p + 1) } else Some s1) = Some s2"
      "log_idx_wf s2" "entries s2 = (if p + 1 < length (entries s) then take p (entries s) else entries s)"
      "commit_idx s2 = commit_idx s"
    proof (cases "p + 1 < length (entries s)")
      case True
      then have c: "commit_idx s1 < int p + 1" using False s1 by simp
      from rl.del_ok [of "srv_log s1" "int p + 1"] obtain s2 where s2: "srv_log_delete s1 (int p + 1) = Some s2"
        using wf by (auto simp: srv_log_delete_def log_idx_wf_def)
      moreover have "log_idx_wf s2" using delete_step [OF s2] c wf by (simp add: log_step_def)
      moreover have "entries s2 = take p (entries s)" "commit_idx s2 = commit_idx s"
        using delete_entries [OF s2 wf] s1 by (simp_all add: nat_int_add)
      ultimately show thesis using that [of s2] c True by simp
    qed (use that [of s1] wf s1 in simp)
    have len: "1 \<le> length (entries s2)" using s2(3) assms(5,6) by auto
    from ae_commit_ok [OF s2(2) len, of "ae_leader_commit ae"] obtain s3 where s3: "(if raft_get_commit_idx s2 < ae_leader_commit ae
        then (let last_log_idx = max (raft_get_current_idx s2) 1
              in raft_set_commit_idx s2 (min last_log_idx (ae_leader_commit ae)))
        else Some s2) = Some s3" "entries s3 = entries s2"
      "commit_idx s3 = max (commit_idx s) (min (ae_leader_commit ae) (int (length (entries s2))))"
      using s2(4) by auto
    have "int p + 1 < int (length (entries s)) \<longleftrightarrow> p + 1 < length (entries s)" by linarith
    then have "ae_accept s1 pt ae (ae_term ae) = Some (0, \<lparr>aer_term = ae_term ae, aer_success = 1,
        aer_current_idx = int p, aer_first_idx = int (p + 1)\<rparr>, s3\<lparr>current_leader := pt\<rparr>)"
      unfolding ae_accept_def assms(4) cur using s2(1) s3(1) assms(3,5) by (simp add: add.commute split del: if_split)
    then show ?thesis unfolding if_not_P [OF False] run using s3(2,3) s2(3) by simp
  qed
qed

text \<open>A follower that has stored and acknowledged three entries.\<close>

definition follower3 :: raft_server where
  "follower3 = (let e = zero_entry\<lparr>ety_id := 5, ety_term := 1\<rparr> in duo\<lparr>current_term := 1,
     srv_log := log_new\<lparr>lcount := 3, lback := 3, lentries := replicate 3 e @ replicate 7 zero_entry\<rparr>\<rparr>)"

theorem heartbeat_truncates_witness:
  "\<exists>s'. raft_recv_appendentries follower3 (Some 1) \<lparr>ae_term = 1, ae_prev_log_idx = 1, ae_prev_log_term = 1,
      ae_leader_commit = 0, ae_n_entries = 0, ae_entries = []\<rparr> =
    Some (0, \<lparr>aer_term = 1, aer_success = 1, aer_current_idx = 1, aer_first_idx = 2\<rparr>, s') \<and>
    length (entries follower3) = 3 \<and> length (entries s') = 1"
proof -
  have l: "log_unpolled (srv_log follower3)" "entries follower3 = replicate 3 (zero_entry\<lparr>ety_id := 5, ety_term := 1\<rparr>)"
    by (simp_all add: follower3_def log_unpolled_def log_wf_def log_list_def log_new_def INITIAL_CAPACITY_def numeral_3_eq_3 Let_def)
  have d: "current_term follower3 = 1" "commit_idx follower3 = 0" "last_applied_idx follower3 = 0"
    "nodes follower3 = nodes duo" "heap follower3 = heap duo" "node follower3 = node duo"
    by (simp_all add: follower3_def Let_def) (simp_all add: duo_def)
  have "node_at follower3 = node_at duo" by (simp add: node_at_def fun_eq_iff d)
  then have "srv_wf follower3"
    using duo_wf l d by (simp add: srv_wf_def nodes_wf_def heap_wf_def log_idx_wf_def)
  from heartbeat_truncates [OF this, of "\<lparr>ae_term = 1, ae_prev_log_idx = 1, ae_prev_log_term = 1,
      ae_leader_commit = 0, ae_n_entries = 0, ae_entries = []\<rparr>" 1 "Some 1"] l d show ?thesis by auto
qed

text \<open>On an empty log a heartbeat with a positive leader commit index aborts the server: the commit index
  is set to at least one although there is no entry.\<close>

theorem empty_log_commit_aborts:
  "Option.is_none (raft_recv_appendentries duo (Some 1) \<lparr>ae_term = 1, ae_prev_log_idx = 0,
     ae_prev_log_term = 0, ae_leader_commit = 1, ae_n_entries = 0, ae_entries = []\<rparr>)"
  by code_simp

text \<open>A client entry with id zero is refused by the log, and the leader reports success all the same, with
  the index of the previous entry.\<close>

theorem zero_id_entry_reported_accepted:
  assumes "srv_wf s" and "raft_recv_entry s e = Some (0, Some r, s')" and "ety_id e = 0"
  shows "entries s' = entries s \<and> mer_idx r = int (length (entries s))"
  using assms(2)
proof (cases rule: recv_entry_cases)
  case (accepted r1 s1 s2 s3)
  have lw: "log_idx_wf s" using assms(1) by (simp add: srv_wf_def)
  have s1: "entries s1 = entries s" "log_idx_wf s1"
    using append_entry_entries [OF accepted(3) lw] append_entry_step [OF accepted(3)] lw assms(3)
    by (simp_all add: leader_entry_def log_step_def)
  have "traced s1 s2" by (rule for_each_traced [OF accepted(4)]) (rule recv_entry_step_traced)
  then have "srv_log s2 = srv_log s1" by (auto simp: traced_def)
  then have "srv_log s3 = srv_log s1" using accepted(5) by simp
  then show ?thesis using accepted(6,7) s1 cur_idx [OF s1(2)] by (simp add: raft_get_current_idx_def)
qed simp

theorem zero_id_entry_reported_accepted_witness:
  "\<exists>s'. raft_recv_entry (duo\<lparr>srv_state := RAFT_STATE_LEADER\<rparr>) zero_entry =
      Some (0, Some \<lparr>mer_id = 0, mer_term = 0, mer_idx = 0\<rparr>, s') \<and> entries s' = []"
proof -
  let ?s = "duo\<lparr>srv_state := RAFT_STATE_LEADER\<rparr>"
  have "map_option (\<lambda>(rc, r, s'). (rc, r)) (raft_recv_entry ?s zero_entry) =
      Some (0, Some \<lparr>mer_id = 0, mer_term = 0, mer_idx = 0\<rparr>)" by code_simp
  then obtain s' where s': "raft_recv_entry ?s zero_entry =
      Some (0, Some \<lparr>mer_id = 0, mer_term = 0, mer_idx = 0\<rparr>, s')"
    unfolding map_option_eq_Some by auto
  from zero_id_entry_reported_accepted [OF duo_leader_wf s'] show ?thesis
    using s' by (simp add: zero_entry_def duo_def)
qed

section \<open>Membership\<close>

text \<open>A node that was added is found under its id, with the voting rights it was given, and adding it
  does not disturb the lookup of any other id.\<close>

theorem added_node_found:
  assumes "nodes_wf s" and "raft_get_node s nid = Some None"
  shows "\<exists>a s'. raft_add_node s ud nid False = Some (Some a, s') \<and> raft_get_node s' nid = Some (Some a) \<and>
    map_option raft_node_is_voting (node_at s' a) = Some True \<and> num_nodes s' = num_nodes s + 1 \<and>
    (\<forall>j. j \<noteq> nid \<longrightarrow> raft_get_node s' j = raft_get_node s j)"
proof -
  let ?a = "length (heap s)"
  let ?s = "s\<lparr>heap := heap s @ [Some (raft_node_new ud nid)], nodes := nodes s @ [?a]\<rparr>"
  have old: "node_at ?s b = node_at s b" if "b \<in> set (nodes s)" for b
    using that assms(1) by (auto simp: nodes_wf_def node_at_def nth_append split: if_split_asm)
  have new: "node_at ?s ?a = Some (raft_node_new ud nid)" by (simp add: node_at_def)
  have find: "find_node ?s j (ns @ [?a]) =
      (case find_node s j ns of Some None \<Rightarrow> Some (if j = nid then Some ?a else None) | r \<Rightarrow> r)"
    if "set ns \<subseteq> set (nodes s)" for j ns
    using that by (induction ns) (auto simp: new old raft_node_get_id_def split: option.splits Option.bind_splits)
  have total: "find_node s j ns \<noteq> None" if "set ns \<subseteq> set (nodes s)" for j ns
    using that assms(1) by (induction ns) (auto simp: nodes_wf_def split: Option.bind_splits)
  have "raft_add_node s ud nid False = Some (Some ?a, ?s)"
    using assms(2) by (simp add: raft_add_node_def Let_def)
  moreover have "raft_get_node ?s j = raft_get_node s j" if "j \<noteq> nid" for j
    using find [of "nodes s" j] total [of "nodes s" j] that
    by (auto simp: raft_get_node_def split: option.splits)
  moreover have "raft_get_node ?s nid = Some (Some ?a)"
    using find [of "nodes s" nid] assms(2) by (simp add: raft_get_node_def)
  ultimately show ?thesis using new by (intro exI [of _ ?a] exI [of _ ?s]) (simp add: num_nodes_def)
qed

theorem added_node_found_witness:
  "\<exists>a s'. raft_add_node duo None 7 False = Some (Some a, s') \<and> raft_get_node s' 7 = Some (Some a)"
proof -
  have "raft_get_node duo 7 = Some None" by code_simp
  with added_node_found [of duo 7 None] duo_wf show ?thesis by (auto simp: srv_wf_def)
qed

text \<open>Removing the node of the current leader leaves a dangling pointer: asking for the leader afterwards
  reads freed memory.\<close>

theorem removed_leader_dangles:
  assumes "current_leader s = Some a" and "raft_remove_node s a = Some s'"
  shows "raft_get_current_leader s' = None"
  using assms
  by (auto simp: raft_remove_node_def raft_get_current_leader_def node_of_def node_at_def Let_def
      elim!: bind_SomeE split: if_split_asm)

theorem removed_leader_dangles_witness:
  "\<exists>s'. raft_remove_node (duo\<lparr>current_leader := Some 1\<rparr>) 1 = Some s' \<and> raft_get_current_leader s' = None"
proof -
  have "raft_remove_node (duo\<lparr>current_leader := Some 1\<rparr>) 1 \<noteq> None"
    by (simp add: raft_remove_node_def duo_def node_at_def)
  then obtain s' where "raft_remove_node (duo\<lparr>current_leader := Some 1\<rparr>) 1 = Some s'" by blast
  with removed_leader_dangles [of "duo\<lparr>current_leader := Some 1\<rparr>" 1 s'] show ?thesis by simp
qed

end
