(* ===== verification/Raft_Cluster.thy ===== *)
theory Raft_Cluster
  imports Raft_Election
begin

text \<open>
  A cluster of Raft servers with a fixed set of members, and its central safety property: a term
  has at most one leader.

  The cluster is modelled twice. \<open>esys\<close> is the abstract system: the election views of the
  members, the votes ever granted and the elections ever won; its invariant is proved by rule
  induction over the moves. \<open>cluster\<close> runs the implementation's handlers; a simulation maps
  each of its steps to abstract ones. The network may lose, duplicate, delay and reorder: a vote
  reply once sent may be delivered any number of times, and vote requests and append-entries
  messages may have any content at all (only the candidate's id of a request has to be its
  sender's). A server that fails an assertion makes no further step.
\<close>

section \<open>The abstract system\<close>

record esys =
  views :: "int \<Rightarrow> elect"
  grants :: "(int \<times> int \<times> int) set" \<comment> \<open>voter, candidate, term\<close>
  wins :: "(int \<times> int) set" \<comment> \<open>leader, term\<close>

definition esys_move :: "int \<Rightarrow> elect \<Rightarrow> esys \<Rightarrow> esys" where
  "esys_move i e S = S\<lparr>views := (views S)(i := e)\<rparr>"

inductive esys_step :: "int list \<Rightarrow> esys \<Rightarrow> esys \<Rightarrow> bool" for ms where
  new_term: "i \<in> set ms \<Longrightarrow> e_term (views S i) < t \<Longrightarrow>
    esys_step ms S (esys_move i (new_term t (views S i)) S)"
| stand: "i \<in> set ms \<Longrightarrow> e_role (views S i) \<noteq> RAFT_STATE_LEADER \<Longrightarrow>
    esys_step ms S (esys_move i (stand (views S i)) S)"
| step_down: "i \<in> set ms \<Longrightarrow> e_role (views S i) = RAFT_STATE_CANDIDATE \<Longrightarrow>
    esys_step ms S (esys_move i (step_down (views S i)) S)"
| give_vote: "i \<in> set ms \<Longrightarrow> c \<in> set ms \<Longrightarrow> e_vote (views S i) = -1 \<Longrightarrow>
    e_role (views S i) \<notin> {RAFT_STATE_CANDIDATE, RAFT_STATE_LEADER} \<Longrightarrow>
    esys_step ms S ((esys_move i (give_vote c (views S i)) S)
      \<lparr>grants := insert (i, c, e_term (views S i)) (grants S)\<rparr>)"
| take_vote: "i \<in> set ms \<Longrightarrow> e_role (views S i) = RAFT_STATE_CANDIDATE \<Longrightarrow>
    a \<in> set (e_nodes (views S i)) \<Longrightarrow> e_peer (views S i) a = Some (v, w, x) \<Longrightarrow>
    (v, i, e_term (views S i)) \<in> grants S \<Longrightarrow>
    esys_step ms S (esys_move i (take_vote (Some a) (views S i)) S)"
| win: "i \<in> set ms \<Longrightarrow> e_role (views S i) = RAFT_STATE_CANDIDATE \<Longrightarrow>
    length (e_nodes (views S i)) div 2 < tally (views S i) \<Longrightarrow>
    esys_step ms S ((esys_move i (win (views S i)) S)
      \<lparr>wins := insert (i, e_term (views S i)) (wins S)\<rparr>)"

text \<open>What a member's configuration has to satisfy; it never changes.\<close>

definition config_ok :: "int list \<Rightarrow> int \<Rightarrow> elect \<Rightarrow> bool" where
  "config_ok ms i e \<longleftrightarrow> distinct (e_nodes e) \<and>
     (\<exists>a\<in>set (e_nodes e). e_self e = Some a \<and> map_option fst (e_peer e a) = Some i) \<and>
     map (\<lambda>a. map_option fst (e_peer e a)) (e_nodes e) = map Some ms"

text \<open>A quorum that elected \<open>i\<close> in term \<open>t\<close>: the leader itself and members that granted.\<close>

definition elected_by :: "int list \<Rightarrow> (int \<times> int \<times> int) set \<Rightarrow> int \<Rightarrow> int \<Rightarrow> int set \<Rightarrow> bool" where
  "elected_by ms G i t Q \<longleftrightarrow> Q \<subseteq> set ms \<and> card (set ms) div 2 < card Q \<and>
     (\<forall>v\<in>Q. v = i \<or> (v, i, t) \<in> G)"

text \<open>
  The invariant of one member \<open>i\<close> with view \<open>e\<close>, given the votes \<open>G\<close> and the elections
  \<open>W\<close>: candidates and leaders voted for themselves; a candidate counts only votes granted to it in
  its term; a leader has won its term; a server granted at most one vote per term, none in a later
  term than its own, and one granted in the current term is its vote and it is no candidate; the
  winner of a term granted nothing in it, is still the leader while it is in that term, and was
  elected by a quorum.
\<close>

definition role_inv :: "int \<Rightarrow> elect \<Rightarrow> bool" where
  "role_inv i e \<longleftrightarrow> (e_role e \<in> {RAFT_STATE_CANDIDATE, RAFT_STATE_LEADER} \<longrightarrow> e_vote e = i)"

definition flags_inv :: "(int \<times> int \<times> int) set \<Rightarrow> int \<Rightarrow> elect \<Rightarrow> bool" where
  "flags_inv G i e \<longleftrightarrow> (e_role e = RAFT_STATE_CANDIDATE \<longrightarrow>
     (\<forall>a\<in>set (e_nodes e). \<forall>v w. e_peer e a = Some (v, w, True) \<longrightarrow> (v, i, e_term e) \<in> G))"

definition lead_inv :: "(int \<times> int) set \<Rightarrow> int \<Rightarrow> elect \<Rightarrow> bool" where
  "lead_inv W i e \<longleftrightarrow> (e_role e = RAFT_STATE_LEADER \<longrightarrow> (i, e_term e) \<in> W)"

definition grant_inv :: "int list \<Rightarrow> (int \<times> int \<times> int) set \<Rightarrow> int \<Rightarrow> elect \<Rightarrow> bool" where
  "grant_inv ms G i e \<longleftrightarrow> (\<forall>c t. (i, c, t) \<in> G \<longrightarrow> c \<in> set ms \<and> t \<le> e_term e \<and>
     (t = e_term e \<longrightarrow> e_vote e = c \<and> e_role e \<notin> {RAFT_STATE_CANDIDATE, RAFT_STATE_LEADER}))"

definition once_inv :: "(int \<times> int \<times> int) set \<Rightarrow> int \<Rightarrow> bool" where
  "once_inv G i \<longleftrightarrow> (\<forall>c c' t. (i, c, t) \<in> G \<and> (i, c', t) \<in> G \<longrightarrow> c = c')"

definition win_inv :: "int list \<Rightarrow> (int \<times> int \<times> int) set \<Rightarrow> (int \<times> int) set \<Rightarrow> int \<Rightarrow> elect \<Rightarrow> bool" where
  "win_inv ms G W i e \<longleftrightarrow> (\<forall>t. (i, t) \<in> W \<longrightarrow> t \<le> e_term e \<and>
     (t = e_term e \<longrightarrow> e_role e = RAFT_STATE_LEADER) \<and> (\<forall>c. (i, c, t) \<notin> G) \<and>
     (\<exists>Q. elected_by ms G i t Q))"

definition local_inv :: "int list \<Rightarrow> (int \<times> int \<times> int) set \<Rightarrow> (int \<times> int) set \<Rightarrow> int \<Rightarrow> elect \<Rightarrow> bool" where
  "local_inv ms G W i e \<longleftrightarrow> config_ok ms i e \<and> role_inv i e \<and> flags_inv G i e \<and> lead_inv W i e \<and>
     grant_inv ms G i e \<and> once_inv G i \<and> win_inv ms G W i e"

lemmas inv_defs = role_inv_def flags_inv_def lead_inv_def grant_inv_def once_inv_def win_inv_def

definition esys_inv :: "int list \<Rightarrow> esys \<Rightarrow> bool" where
  "esys_inv ms S \<longleftrightarrow> -1 \<notin> set ms \<and> distinct ms \<and>
     (\<forall>i\<in>set ms. local_inv ms (grants S) (wins S) i (views S i)) \<and> (\<forall>(i, t)\<in>wins S. i \<in> set ms)"

lemma elected_by_mono: "elected_by ms G i t Q \<Longrightarrow> G \<subseteq> H \<Longrightarrow> elected_by ms H i t Q"
  by (auto simp: elected_by_def)

text \<open>Moves keep the configuration.\<close>

lemma config_ok_cong:
  assumes "e_self e' = e_self e" and "e_nodes e' = e_nodes e"
    and "\<And>a. map_option fst (e_peer e' a) = map_option fst (e_peer e a)"
  shows "config_ok ms i e' = config_ok ms i e"
  using assms by (simp add: config_ok_def)

lemma config_ok_own: "config_ok ms i e \<Longrightarrow> own_id e = Some i"
  by (auto simp: config_ok_def own_id_alt)

lemma config_ok_moves [simp]:
  "config_ok ms i (new_term t e) = config_ok ms i e"
  "config_ok ms i (stand e) = config_ok ms i e"
  "config_ok ms i (step_down e) = config_ok ms i e"
  "config_ok ms i (give_vote c e) = config_ok ms i e"
  "config_ok ms i (take_vote p e) = config_ok ms i e"
  "config_ok ms i (win e) = config_ok ms i e"
  by (rule config_ok_cong; auto simp: move_defs option.map_comp comp_def case_prod_beta split: option.split)+

lemma config_ok_peer:
  assumes "config_ok ms i e" and "a \<in> set (e_nodes e)"
  obtains v w x where "e_peer e a = Some (v, w, x)" "v \<in> set ms"
proof -
  from assms have "map_option fst (e_peer e a) \<in> Some ` set ms"
    unfolding config_ok_def by (metis image_eqI image_set)
  then show ?thesis using that by (cases "e_peer e a") auto
qed

text \<open>The counted peers of a candidate, and itself, are a quorum.\<close>

lemma tally_quorum:
  assumes cfg: "config_ok ms i e" and ms: "distinct ms" "i \<in> set ms"
    and maj: "length (e_nodes e) div 2 < tally e"
    and flags: "\<And>a v w. a \<in> set (e_nodes e) \<Longrightarrow> e_peer e a = Some (v, w, True) \<Longrightarrow> (v, i, t) \<in> G"
  shows "\<exists>Q. elected_by ms G i t Q"
proof -
  define idf where "idf a = fst (the (e_peer e a))" for a
  let ?C = "filter (counted e) (e_nodes e)"
  have dn: "distinct (e_nodes e)" using cfg by (simp add: config_ok_def)
  have ids: "map idf (e_nodes e) = ms"
  proof -
    have "map idf (e_nodes e) = map the (map (\<lambda>a. map_option fst (e_peer e a)) (e_nodes e))"
      by (auto simp: idf_def elim!: config_ok_peer [OF cfg])
    also have "\<dots> = ms" using cfg by (simp only: config_ok_def map_map) simp
    finally show ?thesis .
  qed
  have len: "length (e_nodes e) = card (set ms)"
    using arg_cong [OF ids, of length] ms(1) by (simp add: distinct_card)
  have inj: "inj_on idf (set (e_nodes e))" using ids ms(1) by (metis distinct_map)
  obtain b where b: "b \<in> set (e_nodes e)" "e_self e = Some b" "idf b = i"
    using cfg by (auto simp: config_ok_def idf_def)
  let ?Q = "insert i (idf ` set ?C)"
  have "i \<notin> idf ` set ?C" using b inj by (auto simp: counted_def dest!: inj_onD)
  moreover have "card (idf ` set ?C) = length ?C"
    using dn inj by (subst card_image) (auto simp: length_filter_card intro: inj_on_subset)
  ultimately have "card ?Q = Suc (length ?C)" by simp
  then have "tally e \<le> card ?Q" by (simp add: tally_def)
  moreover have "?Q \<subseteq> set ms" using ms(2) ids by auto
  moreover have "\<forall>v\<in>?Q. v = i \<or> (v, i, t) \<in> G"
    using flags by (auto simp: counted_def idf_def)
  ultimately have "elected_by ms G i t ?Q" using maj len by (auto simp: elected_by_def)
  then show ?thesis ..
qed

section \<open>The invariant\<close>

lemma local_inv_frame:
  assumes "local_inv ms G W j e" and "G \<subseteq> H"
    and "\<And>c t. (j, c, t) \<in> H \<Longrightarrow> (j, c, t) \<in> G" and "\<And>t. (j, t) \<in> W \<longleftrightarrow> (j, t) \<in> V"
  shows "local_inv ms H V j e"
proof -
  note inv = assms(1) [unfolded local_inv_def]
  have "flags_inv H j e" using inv assms(2) unfolding flags_inv_def by blast
  moreover have "lead_inv V j e" using inv assms(4) unfolding lead_inv_def by blast
  moreover have "grant_inv ms H j e" using inv assms(3) unfolding grant_inv_def by blast
  moreover have "once_inv H j" using inv assms(3) unfolding once_inv_def by blast
  moreover have "win_inv ms H V j e"
    using inv assms(3,4) elected_by_mono [OF _ assms(2)] unfolding win_inv_def by metis
  ultimately show ?thesis using inv unfolding local_inv_def by blast
qed

text \<open>It is enough to look at the server that moves.\<close>

lemma esys_inv_move:
  assumes "esys_inv ms S" and "i \<in> set ms"
    and "local_inv ms (grants T) (wins T) i (views T i)"
    and "\<And>j. j \<noteq> i \<Longrightarrow> views T j = views S j" and "grants S \<subseteq> grants T"
    and "\<And>j c t. (j, c, t) \<in> grants T \<Longrightarrow> j = i \<or> (j, c, t) \<in> grants S"
    and "\<And>j t. j \<noteq> i \<Longrightarrow> (j, t) \<in> wins S \<longleftrightarrow> (j, t) \<in> wins T"
  shows "esys_inv ms T"
proof -
  have "local_inv ms (grants T) (wins T) j (views T j)" if "j \<in> set ms" for j
  proof (cases "j = i")
    case True
    then show ?thesis using assms(3) by simp
  next
    case False
    have "local_inv ms (grants S) (wins S) j (views S j)" using assms(1) that by (simp add: esys_inv_def)
    then have "local_inv ms (grants T) (wins T) j (views S j)"
      by (rule local_inv_frame) (use False assms(5-7) in blast)+
    then show ?thesis using assms(4) [OF False] by simp
  qed
  moreover have "k \<in> set ms" if "(k, t) \<in> wins T" for k t
    using assms(1,2) assms(7) [of k t] that by (cases "k = i") (auto simp: esys_inv_def)
  ultimately show ?thesis using assms(1) by (auto simp: esys_inv_def)
qed

lemma stand_vote: "config_ok ms i e \<Longrightarrow> e_vote (stand e) = i"
  by (simp add: stand_def config_ok_own)

lemma stand_peer: "a \<in> set (e_nodes e) \<Longrightarrow> e_peer (stand e) a \<noteq> Some (v, w, True)"
  by (auto simp: stand_def)

lemma stand_sel [simp]:
  "e_term (stand e) = e_term e + 1" "e_role (stand e) = RAFT_STATE_CANDIDATE"
  "e_nodes (stand e) = e_nodes e"
  by (simp_all add: stand_def)

lemma move_sel [simp]:
  "e_term (new_term t e) = t" "e_role (new_term t e) = RAFT_STATE_FOLLOWER"
  "e_term (step_down e) = e_term e" "e_role (step_down e) = RAFT_STATE_FOLLOWER"
  "e_term (win e) = e_term e" "e_role (win e) = RAFT_STATE_LEADER" "e_vote (win e) = e_vote e"
  by (simp_all add: move_defs)

text \<open>Entering a later term, the history of the earlier ones is all that has to be kept.\<close>

lemma local_inv_later:
  assumes "local_inv ms G W i e" and "e_term e < e_term f" and "config_ok ms i f"
    and "e_role f \<noteq> RAFT_STATE_LEADER" and "role_inv i f" and "flags_inv G i f"
  shows "local_inv ms G W i f"
proof -
  note inv = assms(1) [unfolded local_inv_def]
  have "grant_inv ms G i f" using inv assms(2) by (fastforce simp: grant_inv_def)
  moreover have "win_inv ms G W i f" using inv assms(2) by (fastforce simp: win_inv_def)
  ultimately show ?thesis using inv assms by (simp add: local_inv_def lead_inv_def)
qed

lemma local_inv_new_term:
  "local_inv ms G W i e \<Longrightarrow> e_term e < t \<Longrightarrow> local_inv ms G W i (new_term t e)"
  by (rule local_inv_later [of ms G W i e]) (auto simp: local_inv_def role_inv_def flags_inv_def)

lemma local_inv_stand: "local_inv ms G W i e \<Longrightarrow> local_inv ms G W i (stand e)"
  by (rule local_inv_later [of ms G W i e])
     (auto simp: local_inv_def role_inv_def flags_inv_def stand_vote stand_peer)

lemma local_inv_step_down:
  assumes "local_inv ms G W i e" and "e_role e = RAFT_STATE_CANDIDATE"
  shows "local_inv ms G W i (step_down e)"
proof -
  note inv = assms(1) [unfolded local_inv_def]
  have "grant_inv ms G i (step_down e)" using inv assms(2) by (fastforce simp: grant_inv_def)
  moreover have "win_inv ms G W i (step_down e)" using inv assms(2) by (auto simp: win_inv_def)
  ultimately show ?thesis using inv by (simp add: local_inv_def role_inv_def flags_inv_def lead_inv_def)
qed

lemma local_inv_give_vote:
  assumes "local_inv ms G W i e" and "c \<in> set ms" and "-1 \<notin> set ms" and "e_vote e = -1"
    and "e_role e \<notin> {RAFT_STATE_CANDIDATE, RAFT_STATE_LEADER}"
  shows "local_inv ms (insert (i, c, e_term e) G) W i (give_vote c e)"
proof -
  let ?G = "insert (i, c, e_term e) G" and ?e = "give_vote c e"
  note inv = assms(1) [unfolded local_inv_def]
  have sel: "e_term ?e = e_term e" "e_role ?e = e_role e" "e_vote ?e = c" by (simp_all add: give_vote_def)
  have fresh: "(i, d, e_term e) \<notin> G" for d
    using inv assms(2-4) unfolding grant_inv_def by metis
  have "grant_inv ms ?G i ?e" using inv assms fresh unfolding grant_inv_def sel by auto
  moreover have "once_inv ?G i" using inv fresh unfolding once_inv_def by auto
  moreover have "win_inv ms ?G W i ?e"
    using inv assms(5) elected_by_mono [of ms G _ _ _ ?G] unfolding win_inv_def sel by fastforce
  ultimately show ?thesis
    using inv assms(5) by (simp add: local_inv_def role_inv_def flags_inv_def lead_inv_def sel)
qed

lemma local_inv_take_vote:
  assumes "local_inv ms G W i e" and "e_peer e a = Some (v, w, x)" and "(v, i, e_term e) \<in> G"
  shows "local_inv ms G W i (take_vote (Some a) e)"
proof -
  let ?e = "take_vote (Some a) e"
  have "e_term ?e = e_term e" "e_role ?e = e_role e" "e_vote ?e = e_vote e" "e_nodes ?e = e_nodes e"
    "e_peer ?e = (e_peer e)(a := Some (v, w, True))"
    using assms(2) by (simp_all add: take_vote_def)
  with assms(1,3) show ?thesis unfolding local_inv_def inv_defs by auto
qed

lemma local_inv_win:
  assumes "local_inv ms G W i e" and "i \<in> set ms" and "distinct ms"
    and "e_role e = RAFT_STATE_CANDIDATE" and "length (e_nodes e) div 2 < tally e"
  shows "local_inv ms G (insert (i, e_term e) W) i (win e)"
proof -
  note inv = assms(1) [unfolded local_inv_def]
  have "\<exists>Q. elected_by ms G i (e_term e) Q"
    by (rule tally_quorum [of ms i e]) (use inv assms in \<open>auto simp: flags_inv_def\<close>)
  moreover have "(i, c, e_term e) \<notin> G" for c using inv assms(4) by (auto simp: grant_inv_def)
  ultimately have "win_inv ms G (insert (i, e_term e) W) i (win e)"
    using inv assms(4) by (auto simp: win_inv_def)
  moreover have "grant_inv ms G i (win e)" using inv assms(4) by (fastforce simp: grant_inv_def)
  ultimately show ?thesis
    using inv assms(4) by (simp add: local_inv_def role_inv_def flags_inv_def lead_inv_def)
qed

lemma esys_move_sel [simp]:
  "views (esys_move i e S) = (views S)(i := e)" "grants (esys_move i e S) = grants S"
  "wins (esys_move i e S) = wins S"
  by (simp_all add: esys_move_def)

lemma esys_inv_step:
  assumes "esys_step ms S T" and inv: "esys_inv ms S"
  shows "esys_inv ms T"
proof -
  have ms: "-1 \<notin> set ms" "distinct ms" using inv by (auto simp: esys_inv_def)
  have loc: "local_inv ms (grants S) (wins S) i (views S i)" if "i \<in> set ms" for i
    using inv that by (simp add: esys_inv_def)
  from assms(1) show ?thesis
  proof (cases rule: esys_step.cases)
    case (new_term i t)
    then show ?thesis
      by (intro esys_inv_move [OF inv, of i]) (auto simp: loc local_inv_new_term)
  next
    case (stand i)
    then show ?thesis by (intro esys_inv_move [OF inv, of i]) (auto simp: loc local_inv_stand)
  next
    case (step_down i)
    then show ?thesis by (intro esys_inv_move [OF inv, of i]) (auto simp: loc local_inv_step_down)
  next
    case (give_vote i c)
    then show ?thesis by (intro esys_inv_move [OF inv, of i]) (auto simp: loc ms local_inv_give_vote)
  next
    case (take_vote i a v w x)
    then show ?thesis
      by (intro esys_inv_move [OF inv, of i]) (auto simp: loc intro: local_inv_take_vote)
  next
    case (win i)
    then show ?thesis by (intro esys_inv_move [OF inv, of i]) (auto simp: loc ms local_inv_win)
  qed
qed

lemma esys_inv_steps: "(esys_step ms)\<^sup>*\<^sup>* S T \<Longrightarrow> esys_inv ms S \<Longrightarrow> esys_inv ms T"
  by (induction rule: rtranclp_induct) (auto intro: esys_inv_step)

text \<open>Two quorums meet in a member that granted two votes in one term, or in a winner that granted one.\<close>

lemma esys_one_winner:
  assumes inv: "esys_inv ms S" and i: "(i, t) \<in> wins S" and j: "(j, t) \<in> wins S"
  shows "i = j"
proof (rule ccontr)
  assume ne: "i \<noteq> j"
  have mem: "i \<in> set ms" "j \<in> set ms" using inv i j by (auto simp: esys_inv_def)
  have loc: "local_inv ms (grants S) (wins S) k (views S k)" if "k \<in> set ms" for k
    using inv that by (simp add: esys_inv_def)
  obtain P where P: "elected_by ms (grants S) i t P"
    using loc [OF mem(1)] i by (auto simp: local_inv_def win_inv_def)
  obtain Q where Q: "elected_by ms (grants S) j t Q"
    using loc [OF mem(2)] j by (auto simp: local_inv_def win_inv_def)
  obtain v where v: "v \<in> P" "v \<in> Q"
    using majorities_meet [of "set ms" P Q] P Q by (auto simp: elected_by_def)
  then have vm: "v \<in> set ms" using P by (auto simp: elected_by_def)
  have no: "(k, c, t) \<notin> grants S" if "(k, t) \<in> wins S" "k \<in> set ms" for k c
    using loc [OF that(2)] that(1) by (auto simp: local_inv_def win_inv_def)
  have "v = i \<or> (v, i, t) \<in> grants S" "v = j \<or> (v, j, t) \<in> grants S"
    using v P Q by (auto simp: elected_by_def)
  then have "(v, i, t) \<in> grants S" "(v, j, t) \<in> grants S"
    using no [OF i mem(1)] no [OF j mem(2)] ne by auto
  then show False using loc [OF vm] ne by (auto simp: local_inv_def once_inv_def)
qed

section \<open>The cluster of implementations\<close>

record cluster =
  srv :: "int \<Rightarrow> raft_server"
  vreplies :: "(int \<times> int \<times> msg_requestvote_response) list" \<comment> \<open>voter, candidate, reply\<close>
  leaders :: "(int \<times> int) list" \<comment> \<open>history: who was leader in which term\<close>

text \<open>
  An action is a call at one server that is not a vote message, the arrival at \<open>j\<close> of a vote
  request of \<open>i\<close>, or the delivery of a vote reply that was sent at some time.
\<close>

datatype action =
    Local int raft_call
  | Ask int int msg_requestvote
  | Tell nat

fun vote_message :: "raft_call \<Rightarrow> bool" where
  "vote_message (RecvRequestvote p vr) = True"
| "vote_message (RecvRequestvoteResponse p r) = True"
| "vote_message c = False"

definition install :: "int \<Rightarrow> raft_server \<Rightarrow> cluster \<Rightarrow> cluster" where
  "install i s C = C\<lparr>srv := (srv C)(i := s),
     leaders := (if raft_is_leader s then [(i, current_term s)] else []) @ leaders C\<rparr>"

fun cluster_step :: "int list \<Rightarrow> action \<Rightarrow> cluster \<Rightarrow> cluster option" where
  "cluster_step ms (Local i c) C =
     (if i \<in> set ms \<and> \<not> vote_message c
      then do { s \<leftarrow> raft_exec c (srv C i); Some (install i s C) } else None)"
| "cluster_step ms (Ask i j vr) C =
     (if i \<in> set ms \<and> j \<in> set ms \<and> rv_candidate_id vr = i
      then do {
        p \<leftarrow> raft_get_node (srv C j) i;
        (rc, r, s) \<leftarrow> raft_recv_requestvote (srv C j) p vr;
        Some ((install j s C)\<lparr>vreplies := vreplies C @ [(j, i, r)]\<rparr>) }
      else None)"
| "cluster_step ms (Tell n) C =
     (if n < length (vreplies C)
      then (case vreplies C ! n of (v, i, r) \<Rightarrow>
        (case raft_get_node (srv C i) v of None \<Rightarrow> None
         | Some p \<Rightarrow> (case raft_recv_requestvote_response (srv C i) p r of None \<Rightarrow> None
                      | Some (rc, s) \<Rightarrow> Some (install i s C))))
      else None)"

text \<open>How a member starts: a new server that is given its callbacks and told all the members.\<close>

fun add_members :: "int \<Rightarrow> int list \<Rightarrow> raft_server \<Rightarrow> raft_server option" where
  "add_members i [] s = Some s"
| "add_members i (m # ms) s = do { (p, s) \<leftarrow> raft_add_node s None m (m = i); add_members i ms s }"

definition boot :: "raft_cbs \<Rightarrow> int list \<Rightarrow> int \<Rightarrow> raft_server option" where
  "boot c ms i = do { s \<leftarrow> raft_new True; add_members i ms (raft_set_callbacks s c) }"

inductive reachable :: "int list \<Rightarrow> (int \<Rightarrow> raft_cbs) \<Rightarrow> cluster \<Rightarrow> bool" for ms cbs where
  start: "(\<And>i. i \<in> set ms \<Longrightarrow> boot (cbs i) ms i = Some (f i)) \<Longrightarrow>
    reachable ms cbs \<lparr>srv = f, vreplies = [], leaders = []\<rparr>"
| step: "reachable ms cbs C \<Longrightarrow> cluster_step ms act C = Some D \<Longrightarrow> reachable ms cbs D"

section \<open>Simulation\<close>

definition granted_votes :: "(int \<times> int \<times> msg_requestvote_response) list \<Rightarrow> (int \<times> int \<times> int) set" where
  "granted_votes rs = {(v, c, rvr_term r) | v c r. (v, c, r) \<in> set rs \<and> rvr_vote_granted r = 1}"

definition esys_of :: "cluster \<Rightarrow> esys" where
  "esys_of C = \<lparr>views = (\<lambda>i. elect_of (srv C i)), grants = granted_votes (vreplies C),
     wins = set (leaders C)\<rparr>"

lemma esys_of_sel [simp]:
  "views (esys_of C) i = elect_of (srv C i)" "grants (esys_of C) = granted_votes (vreplies C)"
  "wins (esys_of C) = set (leaders C)"
  by (simp_all add: esys_of_def)

lemma find_node_Some:
  "find_node s v ns = Some (Some a) \<Longrightarrow> a \<in> set ns \<and> (\<exists>nd. node_at s a = Some nd \<and> node_id nd = v)"
  by (induction ns) (auto simp: raft_node_get_id_def elim!: bind_SomeE split: if_split_asm)

text \<open>A step that leaves the views alone, or makes a server other than a leader, is a move.\<close>

lemma esys_of_install:
  assumes "srv_state s \<noteq> RAFT_STATE_LEADER \<or> (i, current_term s) \<in> set (leaders C)"
  shows "esys_of (install i s C) = esys_move i (elect_of s) (esys_of C)"
  using assms by (auto simp: esys_of_def esys_move_def install_def prop_defs fun_upd_def fun_eq_iff)

lemma esys_of_install_same:
  assumes "esys_inv ms (esys_of C)" and "i \<in> set ms" and "elect_of s = elect_of (srv C i)"
  shows "esys_of (install i s C) = esys_of C"
proof -
  have "local_inv ms (grants (esys_of C)) (wins (esys_of C)) i (elect_of s)"
    using assms by (auto simp: esys_inv_def)
  then have "srv_state s \<noteq> RAFT_STATE_LEADER \<or> (i, current_term s) \<in> set (leaders C)"
    by (auto simp: local_inv_def lead_inv_def)
  from esys_of_install [OF this] show ?thesis
    using assms(3) by (simp add: esys_move_def esys_of_def fun_upd_idem)
qed

lemma install_role:
  "elect_of s = e \<Longrightarrow> e_role e \<noteq> RAFT_STATE_LEADER \<Longrightarrow>
   esys_of (install i s C) = esys_move i e (esys_of C)"
  by (subst esys_of_install) auto

lemma local_call_view:
  assumes "raft_exec c s = Some s'" and "\<not> vote_message c"
  shows "elect_of s' = elect_of s \<or> (\<exists>t. current_term s < t \<and> elect_of s' = new_term t (elect_of s)) \<or>
    srv_state s \<noteq> RAFT_STATE_LEADER \<and> elect_of s' = stand (elect_of s) \<or>
    srv_state s = RAFT_STATE_CANDIDATE \<and> elect_of s' = step_down (elect_of s)"
  using assms
  by (cases c) (auto dest!: periodic_view recv_appendentries_view recv_appendentries_response_view
      recv_entry_view apply_entry_view)

lemma simulate_local:
  assumes "esys_inv ms (esys_of C)" and "cluster_step ms (Local i c) C = Some D"
  shows "(esys_step ms)\<^sup>*\<^sup>* (esys_of C) (esys_of D)"
proof -
  from assms(2) obtain s where s: "i \<in> set ms" "\<not> vote_message c" "raft_exec c (srv C i) = Some s"
    "D = install i s C" by (auto elim!: bind_SomeE split: if_split_asm)
  from local_call_view [OF s(3,2)] show ?thesis
  proof (elim disjE exE conjE)
    assume "elect_of s = elect_of (srv C i)"
    with assms(1) s show ?thesis by (simp add: esys_of_install_same)
  next
    fix t assume "current_term (srv C i) < t" "elect_of s = new_term t (elect_of (srv C i))"
    then show ?thesis
      using s esys_step.new_term [of i ms "esys_of C" t] by (auto simp: install_role)
  next
    assume "srv_state (srv C i) \<noteq> RAFT_STATE_LEADER" "elect_of s = stand (elect_of (srv C i))"
    then show ?thesis using s esys_step.stand [of i ms "esys_of C"] by (auto simp: install_role)
  next
    assume "srv_state (srv C i) = RAFT_STATE_CANDIDATE" "elect_of s = step_down (elect_of (srv C i))"
    then show ?thesis using s esys_step.step_down [of i ms "esys_of C"] by (auto simp: install_role)
  qed
qed

lemma granted_votes_snoc [simp]:
  "granted_votes (rs @ [(v, c, r)]) =
     (if rvr_vote_granted r = 1 then insert (v, c, rvr_term r) (granted_votes rs) else granted_votes rs)"
  by (auto simp: granted_votes_def)

lemma esys_of_reply:
  "esys_of (C\<lparr>vreplies := rs\<rparr>) = (esys_of C)\<lparr>grants := granted_votes rs\<rparr>"
  by (simp add: esys_of_def)

lemma simulate_ask:
  assumes "esys_inv ms (esys_of C)" and "cluster_step ms (Ask i j vr) C = Some D"
  shows "(esys_step ms)\<^sup>*\<^sup>* (esys_of C) (esys_of D)"
proof -
  from assms(2) obtain p rc r s where s: "i \<in> set ms" "j \<in> set ms" "rv_candidate_id vr = i"
    "raft_recv_requestvote (srv C j) p vr = Some (rc, r, s)"
    "D = (install j s C)\<lparr>vreplies := vreplies C @ [(j, i, r)]\<rparr>"
    by (auto elim!: bind_SomeE split: if_split_asm)
  define e1 where "e1 = (if current_term (srv C j) < rv_term vr
    then new_term (rv_term vr) (elect_of (srv C j)) else elect_of (srv C j))"
  note view = recv_requestvote_view [OF s(4), folded e1_def]
  let ?S = "esys_move j e1 (esys_of C)"
  have first: "(esys_step ms)\<^sup>*\<^sup>* (esys_of C) ?S"
  proof (cases "current_term (srv C j) < rv_term vr")
    case True
    then show ?thesis
      using esys_step.new_term [of j ms "esys_of C" "rv_term vr"] s(2) by (auto simp: e1_def)
  next
    case False
    then have "?S = esys_of C" by (simp add: e1_def esys_move_def esys_of_def fun_upd_idem)
    then show ?thesis by simp
  qed
  from view consider "rvr_vote_granted r = 0" "elect_of s = e1"
    | "rvr_vote_granted r = 1" "elect_of s = give_vote i e1" "e_vote e1 = -1" "rvr_term r = e_term e1"
      "e_role e1 \<notin> {RAFT_STATE_CANDIDATE, RAFT_STATE_LEADER}" using s(3) by auto
  then show ?thesis
  proof cases
    case 1
    have "esys_of (install j s C) = ?S"
    proof (cases "current_term (srv C j) < rv_term vr")
      case True
      then show ?thesis using 1 by (simp add: e1_def install_role)
    next
      case False
      then show ?thesis
        using 1 esys_of_install_same [OF assms(1) s(2), of s]
        by (simp add: e1_def esys_move_def esys_of_def fun_upd_idem)
    qed
    then have "esys_of D = ?S" using 1(1) by (simp add: s(5) esys_of_reply esys_move_def)
    with first show ?thesis by simp
  next
    case 2
    have "esys_step ms ?S ((esys_move j (give_vote i (views ?S j)) ?S)
        \<lparr>grants := insert (j, i, e_term (views ?S j)) (grants ?S)\<rparr>)"
      by (rule esys_step.give_vote) (use s 2 in auto)
    moreover have "(esys_move j (give_vote i (views ?S j)) ?S)
        \<lparr>grants := insert (j, i, e_term (views ?S j)) (grants ?S)\<rparr> = esys_of D"
      using 2 by (simp add: s(5) esys_of_reply install_role [OF 2(2)] give_vote_def esys_move_def)
    ultimately show ?thesis using first by (simp add: rtranclp.rtrancl_into_rtrancl)
  qed
qed

text \<open>The vote replies of a reachable cluster are between members.\<close>

definition replies_ok :: "int list \<Rightarrow> cluster \<Rightarrow> bool" where
  "replies_ok ms C \<longleftrightarrow> (\<forall>q\<in>set (vreplies C). fst q \<in> set ms \<and> fst (snd q) \<in> set ms)"

lemma replies_ok_step:
  assumes "cluster_step ms act C = Some D" and "replies_ok ms C"
  shows "replies_ok ms D"
  using assms
  by (cases act) (auto simp: replies_ok_def install_def case_prod_beta elim!: bind_SomeE
      split: if_split_asm option.split_asm)

lemma simulate_count:
  assumes "i \<in> set ms" and "raft_get_node (srv C i) v = Some p"
    and "srv_state (srv C i) = RAFT_STATE_CANDIDATE"
    and "(v, i, current_term (srv C i)) \<in> granted_votes (vreplies C)"
  shows "(esys_step ms)\<^sup>*\<^sup>* (esys_of C) (esys_move i (take_vote p (elect_of (srv C i))) (esys_of C))"
proof (cases p)
  case None
  then show ?thesis by (simp add: take_vote_def esys_move_def esys_of_def fun_upd_idem)
next
  case (Some a)
  with assms(2) obtain nd where "a \<in> set (nodes (srv C i))" "node_at (srv C i) a = Some nd" "node_id nd = v"
    using find_node_Some [of "srv C i" v "nodes (srv C i)" a] by (auto simp: raft_get_node_def)
  then show ?thesis
    using assms Some esys_step.take_vote [of i ms "esys_of C" a v]
    by (auto simp: elect_of_peer peer_view_def)
qed

lemma simulate_tell:
  assumes "esys_inv ms (esys_of C)" and "replies_ok ms C" and "cluster_step ms (Tell n) C = Some D"
  shows "(esys_step ms)\<^sup>*\<^sup>* (esys_of C) (esys_of D)"
proof -
  from assms(3) obtain v i r p rc s where s: "n < length (vreplies C)" "vreplies C ! n = (v, i, r)"
    "raft_get_node (srv C i) v = Some p" "raft_recv_requestvote_response (srv C i) p r = Some (rc, s)"
    "D = install i s C"
    by (auto split: if_split_asm prod.split_asm option.split_asm)
  have mem: "(v, i, r) \<in> set (vreplies C)" using s(1,2) by (metis nth_mem)
  with assms(2) have i: "i \<in> set ms" by (force simp: replies_ok_def)
  define e1 where "e1 = take_vote p (elect_of (srv C i))"
  have count: "(esys_step ms)\<^sup>*\<^sup>* (esys_of C) (esys_move i e1 (esys_of C))"
    if "srv_state (srv C i) = RAFT_STATE_CANDIDATE" "current_term (srv C i) = rvr_term r" "rvr_vote_granted r = 1"
    unfolding e1_def by (rule simulate_count [OF i s(3) that(1)]) (use mem that in \<open>auto simp: granted_votes_def\<close>)
  have role: "e_role e1 = srv_state (srv C i)" by (simp add: e1_def)
  from recv_requestvote_response_view [OF s(4), folded e1_def] show ?thesis
  proof (elim disjE conjE)
    assume "elect_of s = elect_of (srv C i)"
    then show ?thesis using assms(1) i s(5) by (simp add: esys_of_install_same)
  next
    assume "current_term (srv C i) < rvr_term r" "elect_of s = new_term (rvr_term r) (elect_of (srv C i))"
    then show ?thesis
      using i s(5) esys_step.new_term [of i ms "esys_of C" "rvr_term r"] by (auto simp: install_role)
  next
    assume *: "srv_state (srv C i) = RAFT_STATE_CANDIDATE" "current_term (srv C i) = rvr_term r"
      "rvr_vote_granted r = 1" "elect_of s = e1"
    then show ?thesis using count [OF *(1-3)] s(5) role by (simp add: install_role)
  next
    assume *: "srv_state (srv C i) = RAFT_STATE_CANDIDATE" "current_term (srv C i) = rvr_term r"
      "rvr_vote_granted r = 1" "length (e_nodes e1) div 2 < tally e1" "elect_of s = win e1"
    let ?S = "esys_move i e1 (esys_of C)"
    have "esys_step ms ?S ((esys_move i (win (views ?S i)) ?S)
        \<lparr>wins := insert (i, e_term (views ?S i)) (wins ?S)\<rparr>)"
      by (rule esys_step.win) (use i * role in auto)
    moreover have "srv_state s = RAFT_STATE_LEADER" "current_term s = e_term e1"
      using arg_cong [OF *(5), of e_role] arg_cong [OF *(5), of e_term] by auto
    then have "(esys_move i (win (views ?S i)) ?S)
        \<lparr>wins := insert (i, e_term (views ?S i)) (wins ?S)\<rparr> = esys_of D"
      by (simp add: s(5) esys_of_def esys_move_def install_def prop_defs fun_eq_iff *(5))
    ultimately show ?thesis using count [OF *(1-3)] by (simp add: rtranclp.rtrancl_into_rtrancl)
  qed
qed

lemma simulate:
  assumes "esys_inv ms (esys_of C)" and "replies_ok ms C" and "cluster_step ms act C = Some D"
  shows "(esys_step ms)\<^sup>*\<^sup>* (esys_of C) (esys_of D)"
  using assms by (cases act) (blast intro: simulate_local simulate_ask simulate_tell)+

section \<open>Start\<close>

text \<open>A server that knows the members \<open>xs\<close> and, once it is among them, itself.\<close>

definition knows :: "int \<Rightarrow> int list \<Rightarrow> raft_server \<Rightarrow> bool" where
  "knows i xs s \<longleftrightarrow> nodes s = [0..<length xs] \<and> heap s = map (\<lambda>m. Some (raft_node_new None m)) xs \<and>
     (i \<in> set xs \<longrightarrow> (\<exists>a<length xs. node s = Some a \<and> xs ! a = i)) \<and>
     srv_state s = RAFT_STATE_FOLLOWER \<and> voted_for s = -1"

lemma knows_find:
  assumes "knows i xs s" and "m \<notin> set xs"
  shows "raft_get_node s m = Some None"
proof -
  have "find_node s m ns = Some None" if "set ns \<subseteq> {..<length xs}" for ns
    using that assms
    by (induction ns) (auto simp: knows_def node_at_def raft_node_get_id_def)
  moreover have "set (nodes s) \<subseteq> {..<length xs}" using assms(1) by (auto simp: knows_def)
  ultimately show ?thesis by (simp add: raft_get_node_def)
qed

lemma knows_add:
  assumes "knows i xs s" and "m \<notin> set xs"
  shows "\<exists>s'. raft_add_node s None m (m = i) = Some (Some (length xs), s') \<and> knows i (xs @ [m]) s'"
  using assms knows_find [OF assms]
  by (auto simp: raft_add_node_def knows_def Let_def nth_append less_Suc_eq)

lemma knows_add_members:
  assumes "knows i xs s" and "distinct (xs @ ms)"
  shows "\<exists>s'. add_members i ms s = Some s' \<and> knows i (xs @ ms) s'"
  using assms
proof (induction ms arbitrary: xs s)
  case Nil
  then show ?case by simp
next
  case (Cons m ms)
  then obtain t where "raft_add_node s None m (m = i) = Some (Some (length xs), t)" "knows i (xs @ [m]) t"
    using knows_add [of i xs s m] by auto
  with Cons.IH [of "xs @ [m]" t] Cons.prems show ?case by auto
qed

lemma boot_knows: "distinct ms \<Longrightarrow> \<exists>s. boot c ms i = Some s \<and> knows i ms s"
  using knows_add_members [of i "[]" "raft_set_callbacks (the (raft_new True)) c" ms]
  by (auto simp: boot_def raft_new_def knows_def raft_set_callbacks_def raft_set_state_def Let_def
      log_set_callbacks_def)

lemma knows_config: "knows i ms s \<Longrightarrow> i \<in> set ms \<Longrightarrow> config_ok ms i (elect_of s)"
  by (auto simp: config_ok_def knows_def elect_of_peer node_at_def peer_view_def intro!: nth_equalityI)

lemma reachable_inv:
  assumes "reachable ms cbs C" and "distinct ms" and "-1 \<notin> set ms"
  shows "esys_inv ms (esys_of C) \<and> replies_ok ms C"
  using assms
proof (induction rule: reachable.induct)
  case (start f)
  have "local_inv ms {} {} i (elect_of (f i))" if i: "i \<in> set ms" for i
  proof -
    have k: "knows i ms (f i)" using boot_knows [OF start.prems(1), of "cbs i" i] start(1) [OF i] by auto
    then show ?thesis using knows_config [OF k i] by (auto simp: local_inv_def inv_defs knows_def)
  qed
  then show ?case using start.prems
    by (auto simp: esys_inv_def esys_of_def granted_votes_def replies_ok_def)
next
  case (step C act D)
  then show ?case
    using simulate [of ms C act D] esys_inv_steps [of ms "esys_of C" "esys_of D"] replies_ok_step
    by blast
qed

section \<open>Properties\<close>

text \<open>C1: Election safety. In every state that a cluster of servers running this implementation can
  reach, whatever messages are lost, duplicated, delayed or reordered and whatever the timers do, at
  most one server ever was leader in a given term; in particular two servers that are leader at the
  same time are in different terms.\<close>

theorem election_safety:
  assumes "distinct ms" and "-1 \<notin> set ms" and "reachable ms cbs C"
  shows "(\<forall>i j t. (i, t) \<in> set (leaders C) \<and> (j, t) \<in> set (leaders C) \<longrightarrow> i = j) \<and>
         (\<forall>i j. i \<in> set ms \<and> j \<in> set ms \<and> raft_is_leader (srv C i) \<and> raft_is_leader (srv C j) \<and>
            current_term (srv C i) = current_term (srv C j) \<longrightarrow> i = j)"
proof -
  have inv: "esys_inv ms (esys_of C)" using reachable_inv [OF assms(3,1,2)] by simp
  have one: "i = j" if "(i, t) \<in> set (leaders C)" "(j, t) \<in> set (leaders C)" for i j t
    using esys_one_winner [OF inv, of i t j] that by simp
  have "(i, current_term (srv C i)) \<in> set (leaders C)" if "i \<in> set ms" "raft_is_leader (srv C i)" for i
    using inv that by (auto simp: esys_inv_def local_inv_def lead_inv_def prop_defs)
  with one show ?thesis by metis
qed

text \<open>A run of three members in which 1 is elected by 2.\<close>

definition trio :: cluster where
  "trio = \<lparr>srv = (\<lambda>i. the (boot no_cbs [1, 2, 3] i)), vreplies = [], leaders = []\<rparr>"

fun cluster_run :: "int list \<Rightarrow> action list \<Rightarrow> cluster \<Rightarrow> cluster option" where
  "cluster_run ms [] C = Some C"
| "cluster_run ms (a # as) C =
     (case cluster_step ms a C of None \<Rightarrow> None | Some D \<Rightarrow> cluster_run ms as D)"

lemma cluster_run_reachable:
  "cluster_run ms as C = Some D \<Longrightarrow> reachable ms cbs C \<Longrightarrow> reachable ms cbs D"
  by (induction as arbitrary: C) (auto split: option.split_asm intro: reachable.step)

lemma trio_reachable: "reachable [1, 2, 3] (\<lambda>_. no_cbs) trio"
  unfolding trio_def
proof (rule reachable.start)
  fix i :: int assume "i \<in> set [1, 2, 3]"
  show "boot no_cbs [1, 2, 3] i = Some (the (boot no_cbs [1, 2, 3] i))"
    using boot_knows [of "[1, 2, 3]" no_cbs i] by auto
qed

lemma trio_elects:
  "\<exists>C. reachable [1, 2, 3] (\<lambda>_. no_cbs) C \<and> leaders C = [(1, 1)]"
proof -
  let ?run = "cluster_run [1, 2, 3] [Local 1 (Periodic 1000 7),
    Ask 1 2 \<lparr>rv_term = 1, rv_candidate_id = 1, rv_last_log_idx = 0, rv_last_log_term = 0\<rparr>, Tell 0] trio"
  have "map_option leaders ?run = Some [(1, 1)]" by code_simp
  then obtain C where "?run = Some C" "leaders C = [(1, 1)]" unfolding map_option_eq_Some by blast
  then show ?thesis using cluster_run_reachable trio_reachable by blast
qed

theorem election_safety_witness:
  "\<exists>C. reachable [1, 2, 3] (\<lambda>_. no_cbs) C \<and> (1, 1) \<in> set (leaders C) \<and>
       (\<forall>j. (j, 1) \<in> set (leaders C) \<longrightarrow> j = 1)"
proof -
  from trio_elects obtain C where C: "reachable [1, 2, 3] (\<lambda>_. no_cbs) C" "leaders C = [(1, 1)]" by blast
  have "distinct [1, 2, 3 :: int]" "- 1 \<notin> set [1, 2, 3 :: int]" by simp_all
  from election_safety [OF this C(1)] have "(1, 1) \<in> set (leaders C) \<and> (j, 1) \<in> set (leaders C) \<longrightarrow> 1 = j" for j
    by blast
  with C show ?thesis by (metis list.set_intros(1))
qed

end
