(* ===== verification/Ring_Buffer.thy ===== *)
theory Ring_Buffer
  imports C_Prelude
begin

text \<open>
  The ring buffer (\<open>module/stl/src/stl_ring_buffer.c\<close> and \<open>.h\<close>): fixed-size elements in a byte
  array, with head and tail as byte offsets. \<open>size_t\<close> values are naturals: the byte array was
  allocated, so its size and every offset below it are far from the word's bound, and the element
  size is truncated to 32 bits where the code stores it. A NULL argument is \<open>None\<close>; a division
  by zero and an access outside the array have no result.

  \<open>rb_list\<close> reads the buffer as the list of its elements. The locale \<open>bounded_queue\<close> is the
  contract of a first-in first-out queue that holds a limited number of elements; its
  interpretation \<open>rbq\<close> is on the code.
\<close>

section \<open>Model\<close>

record stl_ring_buffer =
  rb_capacity :: nat
  rb_head :: nat
  rb_tail :: nat
  rb_d_size :: nat
  rb_buf :: "u8 list"

definition rb_next :: "stl_ring_buffer \<Rightarrow> nat \<Rightarrow> nat option" where
  "rb_next rb off = (if rb_capacity rb * rb_d_size rb = 0 then None
     else Some ((off + rb_d_size rb) mod (rb_capacity rb * rb_d_size rb)))"

definition stl_ring_buffer_is_empty :: "stl_ring_buffer option \<Rightarrow> bool option" where
  "stl_ring_buffer_is_empty rb = do {
     rb \<leftarrow> rb;
     Some (rb_head rb = rb_tail rb) }"

definition stl_ring_buffer_is_full :: "stl_ring_buffer option \<Rightarrow> bool option" where
  "stl_ring_buffer_is_full rb = (case rb of None \<Rightarrow> Some True
     | Some rb \<Rightarrow> do { t \<leftarrow> rb_next rb (rb_tail rb); Some (\<not> t \<noteq> rb_head rb) })"

text \<open>The minimum capacity the code computes first is overwritten by the argument.\<close>

definition stl_ring_buffer_init ::
    "stl_ring_buffer option \<Rightarrow> nat \<Rightarrow> nat \<Rightarrow> bool \<Rightarrow> (int \<times> stl_ring_buffer option) option" where
  "stl_ring_buffer_init rb capacity d_size is_expand = (case rb of None \<Rightarrow> Some (-1, None)
     | Some rb \<Rightarrow> Some (0, Some (rb\<lparr>rb_capacity := capacity, rb_d_size := d_size mod 2 ^ 32,
          rb_buf := replicate (capacity * d_size) 0, rb_head := 0, rb_tail := 0\<rparr>)))"

definition stl_ring_buffer_alloc :: "nat \<Rightarrow> nat \<Rightarrow> bool \<Rightarrow> stl_ring_buffer option option" where
  "stl_ring_buffer_alloc capacity d_size is_expand = do {
     (r, rb) \<leftarrow> stl_ring_buffer_init
       (Some \<lparr>rb_capacity = 0, rb_head = 0, rb_tail = 0, rb_d_size = 0, rb_buf = []\<rparr>)
       capacity d_size is_expand;
     Some rb }"

definition stl_ring_buffer_queue ::
    "stl_ring_buffer option \<Rightarrow> u8 list option \<Rightarrow> (int \<times> stl_ring_buffer option) option" where
  "stl_ring_buffer_queue rb data = (case (rb, data) of
       (Some b, Some d) \<Rightarrow> do {
         full \<leftarrow> stl_ring_buffer_is_full rb;
         if full then Some (-1, rb)
         else do {
           c_assert (rb_d_size b \<le> length d \<and> rb_tail b + rb_d_size b \<le> length (rb_buf b));
           t \<leftarrow> rb_next b (rb_tail b);
           Some (0, Some (b\<lparr>rb_buf := take (rb_tail b) (rb_buf b) @ take (rb_d_size b) d @
                              drop (rb_tail b + rb_d_size b) (rb_buf b),
                            rb_tail := t\<rparr>)) } }
     | _ \<Rightarrow> Some (-1, rb))"

text \<open>The result is a pointer into the byte array: the offset of the element.\<close>

definition stl_ring_buffer_dequeue ::
    "stl_ring_buffer option \<Rightarrow> (nat option \<times> stl_ring_buffer option) option" where
  "stl_ring_buffer_dequeue rb = (case rb of None \<Rightarrow> Some (None, None)
     | Some b \<Rightarrow> do {
         empty \<leftarrow> stl_ring_buffer_is_empty rb;
         if empty then Some (None, rb)
         else do {
           c_assert (rb_head b < length (rb_buf b));
           h \<leftarrow> rb_next b (rb_head b);
           Some (Some (rb_head b), Some (b\<lparr>rb_head := h\<rparr>)) } })"

lemmas rb_defs = rb_next_def stl_ring_buffer_is_empty_def stl_ring_buffer_is_full_def
  stl_ring_buffer_queue_def stl_ring_buffer_dequeue_def

section \<open>Representation\<close>

text \<open>What a pointer returned by \<open>stl_ring_buffer_dequeue\<close> shows.\<close>

definition rb_at :: "stl_ring_buffer \<Rightarrow> nat \<Rightarrow> u8 list" where
  "rb_at b off = take (rb_d_size b) (drop off (rb_buf b))"

definition rb_slot :: "stl_ring_buffer \<Rightarrow> nat \<Rightarrow> u8 list" where
  "rb_slot b k = rb_at b (k * rb_d_size b)"

definition rb_count :: "stl_ring_buffer \<Rightarrow> nat" where
  "rb_count b = (rb_tail b div rb_d_size b + rb_capacity b - rb_head b div rb_d_size b) mod rb_capacity b"

definition rb_list :: "stl_ring_buffer \<Rightarrow> u8 list list" where
  "rb_list b = map (\<lambda>i. rb_slot b ((rb_head b div rb_d_size b + i) mod rb_capacity b)) [0..<rb_count b]"

definition rb_inv :: "stl_ring_buffer \<Rightarrow> bool" where
  "rb_inv b \<longleftrightarrow> 0 < rb_capacity b \<and> 0 < rb_d_size b \<and> length (rb_buf b) = rb_capacity b * rb_d_size b \<and>
     (\<exists>h<rb_capacity b. rb_head b = h * rb_d_size b) \<and> (\<exists>t<rb_capacity b. rb_tail b = t * rb_d_size b)"

lemma ring_distance:
  assumes "h < c" and "n < (c :: nat)"
  shows "((h + n) mod c + c - h) mod c = n"
proof (cases "h + n < c")
  case True
  then show ?thesis using assms by simp
next
  case False
  then have "(h + n) mod c = h + n - c" using assms by (simp add: mod_if)
  then show ?thesis using assms False by simp
qed

lemma ring_position:
  assumes "h < c" and "t < (c :: nat)"
  shows "(h + (t + c - h) mod c) mod c = t"
  using assms by (cases "h \<le> t") (auto simp: mod_if)

text \<open>A buffer in the invariant has a start slot and a number of elements.\<close>

lemma rb_invE:
  assumes "rb_inv b"
  obtains h n where "h < rb_capacity b" "n < rb_capacity b" "rb_head b = h * rb_d_size b"
    "rb_tail b = ((h + n) mod rb_capacity b) * rb_d_size b" "rb_count b = n"
    "rb_list b = map (\<lambda>i. rb_slot b ((h + i) mod rb_capacity b)) [0..<n]"
proof -
  from assms obtain h t where ht: "h < rb_capacity b" "rb_head b = h * rb_d_size b"
    "t < rb_capacity b" "rb_tail b = t * rb_d_size b" "0 < rb_d_size b"
    by (auto simp: rb_inv_def)
  let ?n = "(t + rb_capacity b - h) mod rb_capacity b"
  have "?n < rb_capacity b" using ht by simp
  moreover have "(h + ?n) mod rb_capacity b = t" using ring_position [OF ht(1,3)] .
  moreover have "rb_count b = ?n" using ht by (simp add: rb_count_def)
  ultimately show ?thesis using ht by (intro that [of h ?n]) (auto simp: rb_list_def)
qed

lemma rb_length: "rb_inv b \<Longrightarrow> length (rb_list b) = rb_count b"
  by (simp add: rb_list_def)

lemma rb_count_less: "rb_inv b \<Longrightarrow> rb_count b < rb_capacity b"
  by (simp add: rb_inv_def rb_count_def)

lemma rb_next_slot:
  "rb_inv b \<Longrightarrow> rb_next b (k * rb_d_size b) = Some (((k + 1) mod rb_capacity b) * rb_d_size b)"
  by (simp add: rb_inv_def rb_next_def mult_mod_left add.commute)

lemma rb_empty_iff:
  assumes "rb_inv b"
  shows "stl_ring_buffer_is_empty (Some b) = Some (rb_list b = [])"
proof -
  from assms obtain h n where hn: "h < rb_capacity b" "n < rb_capacity b" "rb_head b = h * rb_d_size b"
    "rb_tail b = ((h + n) mod rb_capacity b) * rb_d_size b"
    "rb_list b = map (\<lambda>i. rb_slot b ((h + i) mod rb_capacity b)) [0..<n]" by (rule rb_invE)
  have "h = (h + n) mod rb_capacity b \<longleftrightarrow> n = 0"
    using hn(1,2) ring_distance [OF hn(1,2)] by (auto simp: mod_if split: if_split_asm)
  then show ?thesis using hn assms by (auto simp: stl_ring_buffer_is_empty_def rb_inv_def)
qed

text \<open>One slot always stays free.\<close>

lemma rb_full_iff:
  assumes "rb_inv b"
  shows "stl_ring_buffer_is_full (Some b) = Some (rb_count b = rb_capacity b - 1)"
proof -
  from assms obtain h n where hn: "h < rb_capacity b" "n < rb_capacity b" "rb_head b = h * rb_d_size b"
    "rb_tail b = ((h + n) mod rb_capacity b) * rb_d_size b" "rb_count b = n" by (rule rb_invE)
  have "((h + n) mod rb_capacity b + 1) mod rb_capacity b = h \<longleftrightarrow> n = rb_capacity b - 1"
    using hn(1,2) by (auto simp: mod_if split: if_split_asm)
  then show ?thesis
    using hn assms rb_next_slot [OF assms, of "(h + n) mod rb_capacity b"]
    by (auto simp: stl_ring_buffer_is_full_def rb_inv_def)
qed

text \<open>Writing one slot changes that slot only.\<close>

definition rb_put :: "stl_ring_buffer \<Rightarrow> nat \<Rightarrow> u8 list \<Rightarrow> u8 list" where
  "rb_put b off x = take off (rb_buf b) @ x @ drop (off + rb_d_size b) (rb_buf b)"

lemma rb_put_length:
  "rb_inv b \<Longrightarrow> t < rb_capacity b \<Longrightarrow> length x = rb_d_size b \<Longrightarrow>
   length (rb_put b (t * rb_d_size b) x) = length (rb_buf b)"
proof -
  assume *: "rb_inv b" "t < rb_capacity b" "length x = rb_d_size b"
  then have "(t + 1) * rb_d_size b \<le> rb_capacity b * rb_d_size b" by (intro mult_le_mono1) simp
  then show ?thesis using * by (simp add: rb_put_def rb_inv_def)
qed

lemma rb_put_slot:
  assumes "rb_inv b" and t: "t < rb_capacity b" and "k < rb_capacity b" and x: "length x = rb_d_size b"
  shows "take (rb_d_size b) (drop (k * rb_d_size b) (rb_put b (t * rb_d_size b) x)) =
         (if k = t then x else rb_slot b k)"
proof -
  let ?d = "rb_d_size b"
  have le: "j < m \<Longrightarrow> j * ?d + ?d \<le> m * ?d" for j m
    using mult_le_mono1 [of "j + 1" m ?d] by simp
  have len: "length (rb_buf b) = rb_capacity b * ?d" using assms(1) by (simp add: rb_inv_def)
  consider "k = t" | "k < t" | "t < k" by linarith
  then show ?thesis
  proof cases
    case 1
    have "t * ?d \<le> rb_capacity b * ?d" using t by simp
    then show ?thesis using 1 len x by (simp add: rb_put_def min_absorb2)
  next
    case 2
    have td: "t * ?d \<le> rb_capacity b * ?d" and k: "k * ?d \<le> t * ?d" using t 2 by simp_all
    have "drop (k * ?d) (rb_put b (t * ?d) x) =
        drop (k * ?d) (take (t * ?d) (rb_buf b)) @ x @ drop (t * ?d + ?d) (rb_buf b)"
      using td k len by (simp add: rb_put_def min_absorb2)
    moreover have "?d \<le> length (drop (k * ?d) (take (t * ?d) (rb_buf b)))"
      using le [OF 2] le [OF t] len by simp
    ultimately show ?thesis using 2 le [OF 2]
      by (simp add: rb_slot_def rb_at_def take_drop min_def)
  next
    case 3
    have "t * ?d \<le> rb_capacity b * ?d" using t by simp
    then show ?thesis using 3 le [OF 3] le [OF t] len x
      by (simp add: rb_put_def rb_slot_def rb_at_def min_absorb2)
  qed
qed

section \<open>Behaviour\<close>

lemma rb_queue_ok:
  assumes inv: "rb_inv b" and x: "length x = rb_d_size b" and "rb_count b < rb_capacity b - 1"
  shows "\<exists>b'. stl_ring_buffer_queue (Some b) (Some x) = Some (0, Some b') \<and> rb_inv b' \<and>
    rb_list b' = rb_list b @ [x] \<and> rb_capacity b' = rb_capacity b \<and> rb_d_size b' = rb_d_size b \<and>
    rb_head b' = rb_head b \<and>
    (\<forall>k<rb_capacity b. k * rb_d_size b \<noteq> rb_tail b \<longrightarrow> rb_slot b' k = rb_slot b k)"
proof -
  from inv obtain h n where hn: "h < rb_capacity b" "n < rb_capacity b" "rb_head b = h * rb_d_size b"
    "rb_tail b = ((h + n) mod rb_capacity b) * rb_d_size b" "rb_count b = n"
    "rb_list b = map (\<lambda>i. rb_slot b ((h + i) mod rb_capacity b)) [0..<n]" by (rule rb_invE)
  let ?c = "rb_capacity b" and ?d = "rb_d_size b"
  let ?t = "(h + n) mod ?c"
  let ?b = "b\<lparr>rb_buf := rb_put b (?t * ?d) x, rb_tail := ((?t + 1) mod ?c) * ?d\<rparr>"
  have c: "0 < ?c" "0 < ?d" "length (rb_buf b) = ?c * ?d" using inv by (auto simp: rb_inv_def)
  have t: "?t < ?c" using c by simp
  have fit: "?t * ?d + ?d \<le> length (rb_buf b)" using mult_le_mono1 [of "?t + 1" ?c ?d] t c(3) by simp
  have run: "stl_ring_buffer_queue (Some b) (Some x) = Some (0, Some ?b)"
    using rb_full_iff [OF inv] rb_next_slot [OF inv, of ?t] assms(3) x fit hn
    by (simp add: stl_ring_buffer_queue_def rb_put_def)
  have inv': "rb_inv ?b"
    using inv rb_put_length [OF inv t x] c hn(1,3) by (auto simp: rb_inv_def intro!: exI [of _ "(?t + 1) mod ?c"])
  have slot: "rb_slot ?b k = (if k = ?t then x else rb_slot b k)" if "k < ?c" for k
    using rb_put_slot [OF inv t that x] by (simp add: rb_slot_def rb_at_def)
  have "(?t + 1) mod ?c = (h + (n + 1)) mod ?c" by (simp add: mod_simps)
  then have "rb_count ?b = n + 1"
    using ring_distance [of h ?c "n + 1"] hn(1,3,5) assms(3) c by (simp add: rb_count_def)
  then have "rb_list ?b = map (\<lambda>i. rb_slot ?b ((h + i) mod ?c)) [0..<n + 1]"
    using hn(3) c by (simp add: rb_list_def)
  also have "\<dots> = map (\<lambda>i. rb_slot b ((h + i) mod ?c)) [0..<n] @ [x]"
  proof -
    have "(h + i) mod ?c \<noteq> ?t" if "i < n" for i
      using ring_distance [OF hn(1), of i] ring_distance [OF hn(1,2)] that hn(2) by fastforce
    then show ?thesis using slot c by simp
  qed
  finally have "rb_list ?b = rb_list b @ [x]" using hn(6) by simp
  with run inv' slot hn(4) show ?thesis using c(2) by (intro exI [of _ ?b]) auto
qed

lemma rb_queue_full:
  assumes "rb_inv b" and "rb_count b = rb_capacity b - 1"
  shows "stl_ring_buffer_queue (Some b) (Some x) = Some (-1, Some b)"
  using rb_full_iff [OF assms(1)] assms(2) by (simp add: stl_ring_buffer_queue_def)

lemma rb_dequeue_ok:
  assumes inv: "rb_inv b" and ne: "rb_list b \<noteq> []"
  shows "\<exists>b'. stl_ring_buffer_dequeue (Some b) = Some (Some (rb_head b), Some b') \<and> rb_inv b' \<and>
    rb_at b (rb_head b) = hd (rb_list b) \<and> rb_list b' = tl (rb_list b) \<and>
    rb_capacity b' = rb_capacity b \<and> rb_d_size b' = rb_d_size b \<and> rb_buf b' = rb_buf b"
proof -
  from inv obtain h n where hn: "h < rb_capacity b" "n < rb_capacity b" "rb_head b = h * rb_d_size b"
    "rb_tail b = ((h + n) mod rb_capacity b) * rb_d_size b" "rb_count b = n"
    "rb_list b = map (\<lambda>i. rb_slot b ((h + i) mod rb_capacity b)) [0..<n]" by (rule rb_invE)
  let ?c = "rb_capacity b" and ?d = "rb_d_size b"
  let ?h = "(h + 1) mod ?c"
  let ?b = "b\<lparr>rb_head := ?h * ?d\<rparr>"
  have c: "0 < ?c" "0 < ?d" "length (rb_buf b) = ?c * ?d" using inv by (auto simp: rb_inv_def)
  have "h * ?d < ?c * ?d" using hn(1) c by simp
  then have run: "stl_ring_buffer_dequeue (Some b) = Some (Some (rb_head b), Some ?b)"
    using rb_empty_iff [OF inv] ne rb_next_slot [OF inv, of h] c hn(3)
    by (simp add: stl_ring_buffer_dequeue_def)
  have inv': "rb_inv ?b" using inv c by (auto simp: rb_inv_def intro!: exI [of _ ?h])
  have n: "0 < n" using ne hn(6) by auto
  then have hns: "[0..<n] = 0 # map Suc [0..<n - 1]"
    by (metis Suc_pred' map_Suc_upt upt_conv_Cons One_nat_def diff_Suc_1)
  have "(?h + (n - 1)) mod ?c = (h + 1 + (n - 1)) mod ?c" by (rule mod_add_left_eq)
  then have "(h + n) mod ?c = (?h + (n - 1)) mod ?c" using n by simp
  then have "rb_count ?b = n - 1"
    using ring_distance [of ?h ?c "n - 1"] hn(2,4) c by (simp add: rb_count_def)
  then have "rb_list ?b = map (\<lambda>i. rb_slot b ((?h + i) mod ?c)) [0..<n - 1]"
    using c by (simp add: rb_list_def rb_slot_def rb_at_def)
  also have "\<dots> = map (\<lambda>i. rb_slot b ((h + i) mod ?c)) (map Suc [0..<n - 1])"
    by (simp add: mod_simps)
  also have "\<dots> = tl (rb_list b)" using hn(6) hns by simp
  finally have "rb_list ?b = tl (rb_list b)" .
  moreover have "rb_at b (rb_head b) = hd (rb_list b)"
    using hn(1,3,6) hns by (simp add: rb_slot_def)
  ultimately show ?thesis using run inv' by (intro exI [of _ ?b]) simp
qed

lemma rb_dequeue_empty:
  assumes "rb_inv b" and "rb_list b = []"
  shows "stl_ring_buffer_dequeue (Some b) = Some (None, Some b)"
  using rb_empty_iff [OF assms(1)] assms(2) by (simp add: stl_ring_buffer_dequeue_def)

section \<open>The contract of a bounded queue\<close>

text \<open>Enqueueing a list of elements.\<close>

fun enq_list :: "('q \<Rightarrow> 'a \<Rightarrow> (int \<times> 'q) option) \<Rightarrow> 'a list \<Rightarrow> 'q \<Rightarrow> 'q option" where
  "enq_list enq [] q = Some q"
| "enq_list enq (x # xs) q = do { (r, q) \<leftarrow> enq q x; if r = 0 then enq_list enq xs q else None }"

text \<open>Any sequence of calls, with what each returns; and the same on a list that holds at most \<open>c\<close> elements.\<close>

datatype 'a queue_op = Enq 'a | Deq
datatype 'a queue_out = Accepted | Refused | Got "'a option"

fun queue_run :: "('q \<Rightarrow> 'a \<Rightarrow> (int \<times> 'q) option) \<Rightarrow> ('q \<Rightarrow> ('a option \<times> 'q) option) \<Rightarrow> 'a queue_op list \<Rightarrow> 'q \<Rightarrow>
    ('a queue_out list \<times> 'q) option" where
  "queue_run enq deq [] q = Some ([], q)"
| "queue_run enq deq (Enq x # ops) q = do {
     (r, q) \<leftarrow> enq q x;
     (outs, q) \<leftarrow> queue_run enq deq ops q;
     Some ((if r = 0 then Accepted else Refused) # outs, q) }"
| "queue_run enq deq (Deq # ops) q = do {
     (x, q) \<leftarrow> deq q;
     (outs, q) \<leftarrow> queue_run enq deq ops q;
     Some (Got x # outs, q) }"

fun bounded_run :: "nat \<Rightarrow> 'a queue_op list \<Rightarrow> 'a list \<Rightarrow> 'a queue_out list \<times> 'a list" where
  "bounded_run c [] xs = ([], xs)"
| "bounded_run c (Enq x # ops) xs =
     (if length xs < c then (let (outs, ys) = bounded_run c ops (xs @ [x]) in (Accepted # outs, ys))
      else (let (outs, ys) = bounded_run c ops xs in (Refused # outs, ys)))"
| "bounded_run c (Deq # ops) [] = (let (outs, ys) = bounded_run c ops [] in (Got None # outs, ys))"
| "bounded_run c (Deq # ops) (x # xs) = (let (outs, ys) = bounded_run c ops xs in (Got (Some x) # outs, ys))"

locale bounded_queue =
  fixes lst :: "'q \<Rightarrow> 'a list"
    and inv :: "'q \<Rightarrow> bool"
    and room :: "'q \<Rightarrow> nat"
    and fits :: "'q \<Rightarrow> 'a \<Rightarrow> bool"
    and enq :: "'q \<Rightarrow> 'a \<Rightarrow> (int \<times> 'q) option"
    and deq :: "'q \<Rightarrow> ('a option \<times> 'q) option"
  assumes enq_ok: "inv q \<Longrightarrow> fits q x \<Longrightarrow> length (lst q) < room q \<Longrightarrow>
      \<exists>q'. enq q x = Some (0, q') \<and> inv q' \<and> lst q' = lst q @ [x] \<and> room q' = room q \<and> fits q' = fits q"
    and enq_full: "inv q \<Longrightarrow> length (lst q) = room q \<Longrightarrow> enq q x = Some (-1, q)"
    and in_room: "inv q \<Longrightarrow> length (lst q) \<le> room q"
    and deq_ok: "inv q \<Longrightarrow> \<exists>q'. deq q = Some (if lst q = [] then None else Some (hd (lst q)), q') \<and>
      inv q' \<and> lst q' = tl (lst q) \<and> room q' = room q \<and> fits q' = fits q"
begin

lemma enq_list_ok:
  "inv q \<Longrightarrow> \<forall>x\<in>set xs. fits q x \<Longrightarrow> length (lst q) + length xs \<le> room q \<Longrightarrow>
   \<exists>q'. enq_list enq xs q = Some q' \<and> inv q' \<and> lst q' = lst q @ xs \<and> room q' = room q"
proof (induction xs arbitrary: q)
  case (Cons x xs)
  obtain q' where "enq q x = Some (0, q')" "inv q'" "lst q' = lst q @ [x]" "room q' = room q" "fits q' = fits q"
    using enq_ok [of q x] Cons.prems by auto
  with Cons.IH [of q'] Cons.prems show ?case by auto
qed simp

lemma run_ok:
  "inv q \<Longrightarrow> \<forall>x. Enq x \<in> set ops \<longrightarrow> fits q x \<Longrightarrow>
   \<exists>q'. queue_run enq deq ops q = Some (fst (bounded_run (room q) ops (lst q)), q') \<and> inv q' \<and>
     lst q' = snd (bounded_run (room q) ops (lst q))"
proof (induction ops arbitrary: q)
  case (Cons op ops)
  show ?case
  proof (cases op)
    case (Enq x)
    show ?thesis
    proof (cases "length (lst q) < room q")
      case True
      then obtain q' where "enq q x = Some (0, q')" "inv q'" "lst q' = lst q @ [x]" "room q' = room q" "fits q' = fits q"
        using enq_ok [of q x] Cons.prems Enq by auto
      with Cons.IH [of q'] Cons.prems True show ?thesis by (auto simp: Enq split: prod.split)
    next
      case False
      then have "enq q x = Some (-1, q)" using enq_full [of q x] in_room [of q] Cons.prems(1) by simp
      with Cons.IH [of q] Cons.prems False show ?thesis by (auto simp: Enq split: prod.split)
    qed
  next
    case Deq
    obtain q' where "deq q = Some (if lst q = [] then None else Some (hd (lst q)), q')" "inv q'" "lst q' = tl (lst q)"
      "room q' = room q" "fits q' = fits q" using deq_ok [of q] Cons.prems by auto
    with Cons.IH [of q'] Cons.prems show ?thesis by (cases "lst q") (auto simp: Deq split: prod.split)
  qed
qed simp

end

text \<open>The code's operations on an existing buffer; an element is read through the returned pointer.\<close>

definition rb_enq :: "stl_ring_buffer \<Rightarrow> u8 list \<Rightarrow> (int \<times> stl_ring_buffer) option" where
  "rb_enq b x = do { (r, p) \<leftarrow> stl_ring_buffer_queue (Some b) (Some x); b \<leftarrow> p; Some (r, b) }"

definition rb_deq :: "stl_ring_buffer \<Rightarrow> (u8 list option \<times> stl_ring_buffer) option" where
  "rb_deq b = do { (off, p) \<leftarrow> stl_ring_buffer_dequeue (Some b); b \<leftarrow> p; Some (map_option (rb_at b) off, b) }"

interpretation rbq: bounded_queue rb_list rb_inv "\<lambda>b. rb_capacity b - 1" "\<lambda>b x. length x = rb_d_size b"
  rb_enq rb_deq
proof unfold_locales
  fix b :: stl_ring_buffer and x :: "u8 list"
  assume b: "rb_inv b" and "length x = rb_d_size b" "length (rb_list b) < rb_capacity b - 1"
  then show "\<exists>b'. rb_enq b x = Some (0, b') \<and> rb_inv b' \<and> rb_list b' = rb_list b @ [x] \<and>
      rb_capacity b' - 1 = rb_capacity b - 1 \<and> (\<lambda>x. length x = rb_d_size b') = (\<lambda>x. length x = rb_d_size b)"
    using rb_queue_ok [OF b, of x] rb_length [OF b] by (auto simp: rb_enq_def)
next
  fix b :: stl_ring_buffer and x :: "u8 list"
  assume b: "rb_inv b" and "length (rb_list b) = rb_capacity b - 1"
  then show "rb_enq b x = Some (-1, b)"
    using rb_queue_full [OF b, of x] rb_length [OF b] by (simp add: rb_enq_def)
next
  fix b assume b: "rb_inv b"
  show "length (rb_list b) \<le> rb_capacity b - 1" using rb_length [OF b] rb_count_less [OF b] by simp
next
  fix b assume b: "rb_inv b"
  show "\<exists>b'. rb_deq b = Some (if rb_list b = [] then None else Some (hd (rb_list b)), b') \<and> rb_inv b' \<and>
      rb_list b' = tl (rb_list b) \<and> rb_capacity b' - 1 = rb_capacity b - 1 \<and>
      (\<lambda>x. length x = rb_d_size b') = (\<lambda>x. length x = rb_d_size b)"
    using rb_dequeue_ok [OF b] rb_dequeue_empty [OF b] b
    by (cases "rb_list b = []") (auto simp: rb_deq_def rb_at_def)
qed

lemma rb_alloc_ok:
  assumes "0 < c" and "0 < d" and "d < 2 ^ 32"
  shows "\<exists>b. stl_ring_buffer_alloc c d e = Some (Some b) \<and> rb_inv b \<and> rb_list b = [] \<and>
    rb_capacity b = c \<and> rb_d_size b = d"
  using assms
  by (auto simp: stl_ring_buffer_alloc_def stl_ring_buffer_init_def rb_inv_def rb_list_def rb_count_def)

text \<open>
  The slot before the head is never written: when the tail is there, the buffer is full.
\<close>

lemma rb_enq_keeps:
  assumes inv: "rb_inv b" and h: "h < rb_capacity b" "rb_head b = ((h + 1) mod rb_capacity b) * rb_d_size b"
    and x: "length x = rb_d_size b" and run: "rb_enq b x = Some (0, b')"
  shows "rb_inv b' \<and> rb_capacity b' = rb_capacity b \<and> rb_d_size b' = rb_d_size b \<and>
    rb_head b' = rb_head b \<and> rb_slot b' h = rb_slot b h"
proof -
  have nf: "rb_count b \<noteq> rb_capacity b - 1"
    using run rb_queue_full [OF inv, of x] by (auto simp: rb_enq_def)
  then have "rb_count b < rb_capacity b - 1" using rb_count_less [OF inv] by linarith
  from rb_queue_ok [OF inv x this] run have
    *: "rb_inv b' \<and> rb_capacity b' = rb_capacity b \<and> rb_d_size b' = rb_d_size b \<and> rb_head b' = rb_head b \<and>
       (\<forall>k<rb_capacity b. k * rb_d_size b \<noteq> rb_tail b \<longrightarrow> rb_slot b' k = rb_slot b k)"
    by (auto simp: rb_enq_def)
  moreover have "h * rb_d_size b \<noteq> rb_tail b"
  proof
    assume "h * rb_d_size b = rb_tail b"
    then have "stl_ring_buffer_is_full (Some b) = Some True"
      using rb_next_slot [OF inv, of h] h(2) by (simp add: stl_ring_buffer_is_full_def)
    then show False using rb_full_iff [OF inv] nf by simp
  qed
  ultimately show ?thesis using h(1) by blast
qed

lemma rb_enq_list_keeps:
  assumes "rb_inv b" and "h < rb_capacity b" and "rb_head b = ((h + 1) mod rb_capacity b) * rb_d_size b"
    and "\<forall>x\<in>set xs. length x = rb_d_size b" and "enq_list rb_enq xs b = Some b'"
  shows "rb_d_size b' = rb_d_size b \<and> rb_slot b' h = rb_slot b h"
  using assms
proof (induction xs arbitrary: b)
  case (Cons x xs)
  then obtain c where c: "rb_enq b x = Some (0, c)" "enq_list rb_enq xs c = Some b'"
    by (auto elim!: bind_SomeE split: if_split_asm)
  from rb_enq_keeps [OF Cons.prems(1-3) _ c(1)] Cons.prems(4)
  have "rb_inv c" "rb_capacity c = rb_capacity b" "rb_d_size c = rb_d_size b" "rb_head c = rb_head b"
    "rb_slot c h = rb_slot b h" by auto
  with Cons.IH [of c] c(2) Cons.prems(2-4) show ?case by simp
qed simp

section \<open>Properties\<close>

text \<open>C15: A ring buffer of capacity \<open>c\<close> is a first-in first-out queue that holds \<open>c - 1\<close> elements. Whatever the
  sequence of calls on a new buffer, in any mixture and of any length, so that both offsets wrap around
  any number of times, every call returns what it returns on a list: an enqueue is accepted exactly when
  fewer than \<open>c - 1\<close> elements are in the queue, and refused otherwise; a dequeue gives the oldest element,
  or NULL when there is none. In the end the buffer holds what the list holds. (The elements have the
  element size of the buffer.)\<close>

theorem ring_buffer_fifo:
  assumes "0 < c" and "0 < d" and "d < 2 ^ 32" and "\<forall>x. Enq x \<in> set ops \<longrightarrow> length x = d"
  shows "\<exists>b b'. stl_ring_buffer_alloc c d e = Some (Some b) \<and>
    queue_run rb_enq rb_deq ops b = Some (fst (bounded_run (c - 1) ops []), b') \<and>
    rb_list b' = snd (bounded_run (c - 1) ops [])"
proof -
  from rb_alloc_ok [OF assms(1-3)] obtain b where b: "stl_ring_buffer_alloc c d e = Some (Some b)"
    "rb_inv b" "rb_list b = []" "rb_capacity b = c" "rb_d_size b = d" by blast
  from rbq.run_ok [OF b(2), of ops] assms(4) b show ?thesis by auto
qed

theorem ring_buffer_fifo_witness:
  "\<exists>b b'. stl_ring_buffer_alloc 3 1 False = Some (Some b) \<and>
     queue_run rb_enq rb_deq [Enq [1], Enq [2], Enq [3], Deq, Enq [4], Deq, Deq, Deq] b =
       Some ([Accepted, Accepted, Refused, Got (Some [1]), Accepted, Got (Some [2]), Got (Some [4]), Got None], b') \<and>
     rb_list b' = []"
  using ring_buffer_fifo [of 3 1 "[Enq [1], Enq [2], Enq [3], Deq, Enq [4], Deq, Deq, Deq]" False] by simp

text \<open>A full ring buffer refuses: with \<open>c - 1\<close> elements in it, an enqueue returns -1 and
  changes nothing.\<close>

theorem ring_buffer_full_refuses:
  assumes "rb_inv b" and "length (rb_list b) = rb_capacity b - 1"
  shows "stl_ring_buffer_queue (Some b) (Some x) = Some (-1, Some b)"
  using rb_queue_full [OF assms(1)] rb_length [OF assms(1)] assms(2) by simp

theorem ring_buffer_full_refuses_witness:
  "stl_ring_buffer_queue (Some \<lparr>rb_capacity = 1, rb_head = 0, rb_tail = 0, rb_d_size = 2, rb_buf = [0, 0]\<rparr>)
     (Some [1, 2]) =
   Some (-1, Some \<lparr>rb_capacity = 1, rb_head = 0, rb_tail = 0, rb_d_size = 2, rb_buf = [0, 0]\<rparr>)"
  by (rule ring_buffer_full_refuses) (simp_all add: rb_inv_def rb_list_def rb_count_def)

text \<open>The pointer a dequeue returns stays valid until the next dequeue: however many elements are
  enqueued in between, it still shows the dequeued element, although its slot counts as free.\<close>

theorem dequeued_element_stable:
  assumes "rb_inv b" and "rb_list b \<noteq> []"
    and "stl_ring_buffer_dequeue (Some b) = Some (Some off, Some b')"
    and "enq_list rb_enq xs b' = Some b''" and "\<forall>x\<in>set xs. length x = rb_d_size b"
  shows "rb_at b'' off = hd (rb_list b)"
proof -
  obtain h where h: "h < rb_capacity b" "rb_head b = h * rb_d_size b" using assms(1) by (auto simp: rb_inv_def)
  from rb_dequeue_ok [OF assms(1,2)] assms(3) have b': "off = rb_head b" "rb_inv b'"
    "rb_at b off = hd (rb_list b)" "rb_capacity b' = rb_capacity b" "rb_d_size b' = rb_d_size b"
    "rb_buf b' = rb_buf b" by auto
  have "rb_head b' = ((h + 1) mod rb_capacity b) * rb_d_size b"
    using assms(2,3) rb_empty_iff [OF assms(1)] rb_next_slot [OF assms(1), of h] h
    by (auto simp: stl_ring_buffer_dequeue_def elim!: bind_SomeE)
  with rb_enq_list_keeps [of b' h xs b''] b' assms(4,5) h
  show ?thesis by (auto simp: rb_slot_def rb_at_def)
qed

theorem dequeued_element_stable_witness:
  "\<exists>b b' b''. enq_list rb_enq [[7]] b = Some b' \<and> stl_ring_buffer_dequeue (Some b') = Some (Some 0, Some b'') \<and>
     map_option (\<lambda>c. rb_at c 0) (enq_list rb_enq [[8]] b'') = Some [7]"
proof -
  let ?b = "\<lparr>rb_capacity = 2, rb_head = 0, rb_tail = 0, rb_d_size = 1, rb_buf = [0, 0]\<rparr>"
  let ?b1 = "\<lparr>rb_capacity = 2, rb_head = 0, rb_tail = 1, rb_d_size = 1, rb_buf = [7, 0]\<rparr>"
  let ?b2 = "\<lparr>rb_capacity = 2, rb_head = 1, rb_tail = 1, rb_d_size = 1, rb_buf = [7, 0]\<rparr>"
  let ?b3 = "\<lparr>rb_capacity = 2, rb_head = 1, rb_tail = 0, rb_d_size = 1, rb_buf = [7, 8]\<rparr>"
  have run: "enq_list rb_enq [[7]] ?b = Some ?b1" "stl_ring_buffer_dequeue (Some ?b1) = Some (Some 0, Some ?b2)"
    "enq_list rb_enq [[8]] ?b2 = Some ?b3" by (simp_all add: rb_enq_def rb_defs)
  have "rb_inv ?b1" "rb_list ?b1 = [[7]]" by (auto simp: rb_inv_def rb_list_def rb_count_def rb_slot_def rb_at_def)
  with dequeued_element_stable [of ?b1 0 ?b2 "[[8]]" ?b3] run have "rb_at ?b3 0 = [7]" by simp
  with run show ?thesis by (intro exI [of _ ?b] exI [of _ ?b1] exI [of _ ?b2]) simp
qed

end
