(* ===== verification/Base64.thy ===== *)
theory Base64
  imports C_Prelude
begin

text \<open>
  Base64 (\<open>module/stl/src/stl_base64.c\<close>). Characters are bytes. The encoder and the decoder
  are loops over the input with a 24-bit accumulator; the model keeps the accumulator, the position
  and the output written so far, and returns what the C function returns together with the output.
  Tables are the code's.
\<close>

section \<open>Model\<close>

definition base64_table :: "u8 list" where
  "base64_table = map of_char ''ABCDEFGHIJKLMNOPQRSTUVWXYZabcdefghijklmnopqrstuvwxyz0123456789+/''"

definition b64lookup :: "int list" where
  "b64lookup = [
     -1, -1, -1, -1, -1, -1, -1, -1, -1, -1, -1, -1, -1, -1, -1, -1,
     -1, -1, -1, -1, -1, -1, -1, -1, -1, -1, -1, -1, -1, -1, -1, -1,
     -1, -1, -1, -1, -1, -1, -1, -1, -1, -1, -1, 62, -1, -1, -1, 63,
     52, 53, 54, 55, 56, 57, 58, 59, 60, 61, -1, -1, -1, -1, -1, -1,
     -1, 0, 1, 2, 3, 4, 5, 6, 7, 8, 9, 10, 11, 12, 13, 14,
     15, 16, 17, 18, 19, 20, 21, 22, 23, 24, 25, -1, -1, -1, -1, -1,
     -1, 26, 27, 28, 29, 30, 31, 32, 33, 34, 35, 36, 37, 38, 39, 40,
     41, 42, 43, 44, 45, 46, 47, 48, 49, 50, 51, -1, -1, -1, -1, -1]"

definition enc_char :: "u32 \<Rightarrow> u8" where
  "enc_char w = base64_table ! unat (w AND 0x3f)"

definition equals_sign :: u8 where
  "equals_sign = of_char (CHR ''='')"

fun enc_loop :: "u8 list \<Rightarrow> int \<Rightarrow> u32 \<Rightarrow> u8 list \<Rightarrow> int \<times> u32 \<times> u8 list" where
  "enc_loop [] pos buf out = (pos, buf, out)"
| "enc_loop (c # s) pos buf out =
     (let buf = buf OR push_bit (nat (pos * 8)) (ucast c); pos = pos - 1 in
      if pos < 0
      then enc_loop s 2 0 (out @ [enc_char (drop_bit 18 buf), enc_char (drop_bit 12 buf),
                                  enc_char (drop_bit 6 buf), enc_char buf])
      else enc_loop s pos buf out)"

definition stl_base64_encode :: "u8 list \<Rightarrow> int \<times> u8 list" where
  "stl_base64_encode src =
     (let (pos, buf, out) = enc_loop src 2 0 [];
          out = (if pos \<noteq> 2
                 then out @ [enc_char (drop_bit 18 buf), enc_char (drop_bit 12 buf),
                             if pos = 0 then enc_char (drop_bit 6 buf) else equals_sign, equals_sign]
                 else out)
      in (int (length out), out))"

text \<open>The value of a character and the new end mark; \<open>None\<close> where the code returns -1.\<close>

definition dec_symbol :: "u8 \<Rightarrow> int \<Rightarrow> int \<Rightarrow> (int \<times> int) option" where
  "dec_symbol c pos end =
     (if c = 32 \<or> c = 9 \<or> c = 10 \<or> c = 13 then None
      else if c = equals_sign
      then (if end = 0
            then (if pos = 2 then Some (0, 1) else if pos = 3 then Some (0, 2) else None)
            else Some (0, end))
      else
        (let b = (if 0 < sint c \<and> sint c < 127 then b64lookup ! unat c else -1)
         in if b < 0 then None else Some (b, end)))"

text \<open>The bytes of a complete group.\<close>

definition dec_group :: "u32 \<Rightarrow> int \<Rightarrow> u8 list" where
  "dec_group buf end = [ucast (drop_bit 16 buf AND 255)] @
     (if end = 0 \<or> 1 < end then [ucast (drop_bit 8 buf AND 255)] else []) @
     (if end = 0 \<or> 2 < end then [ucast (buf AND 255)] else [])"

fun dec_loop :: "u8 list \<Rightarrow> u32 \<Rightarrow> int \<Rightarrow> int \<Rightarrow> u8 list \<Rightarrow> int \<times> u8 list" where
  "dec_loop [] buf pos end out = (if pos \<noteq> 0 then (-1, out) else (int (length out), out))"
| "dec_loop (c # s) buf pos end out =
     (case dec_symbol c pos end of None \<Rightarrow> (-1, out)
      | Some (b, end) \<Rightarrow>
          (let buf = push_bit 6 buf + word_of_int b; pos = pos + 1 in
           if pos = 4 then dec_loop s 0 0 end (out @ dec_group buf end)
           else dec_loop s buf pos end out))"

definition stl_base64_decode :: "u8 list \<Rightarrow> int \<times> u8 list" where
  "stl_base64_decode src = dec_loop src 0 0 0 []"

definition stl_base64_enc_len :: "int \<Rightarrow> int" where
  "stl_base64_enc_len srclen = (srclen + 2) * 4 sdiv 3"

definition stl_base64_dec_len :: "int \<Rightarrow> int" where
  "stl_base64_dec_len srclen = drop_bit 2 (srclen * 3)"

section \<open>Sextets\<close>

lemma sextet_chars:
  "list_all (\<lambda>k. let c = base64_table ! k in
     c \<noteq> 32 \<and> c \<noteq> 9 \<and> c \<noteq> 10 \<and> c \<noteq> 13 \<and> c \<noteq> equals_sign \<and> 0 < sint c \<and> sint c < 127 \<and>
     b64lookup ! unat c = int k) [0..<64]"
  by code_simp

lemma and63: "unat (w AND 63 :: u32) = unat w mod 64"
proof -
  have "w AND 63 = take_bit 6 w" by (simp add: take_bit_eq_mask mask_eq_exp_minus_1)
  then show ?thesis by (simp only: unsigned_take_bit_eq) (simp add: take_bit_eq_mod)
qed

lemma dec_enc_char:
  assumes "c = enc_char w"
  shows "c \<noteq> 32 \<and> c \<noteq> 9 \<and> c \<noteq> 10 \<and> c \<noteq> 13 \<and> c \<noteq> equals_sign \<and> 0 < sint c \<and> sint c < 127 \<and>
     b64lookup ! unat c = uint (w AND 63)"
proof -
  have "unat (w AND 63) < 64" by (simp add: and63)
  then have "unat (w AND 63) \<in> set [0..<64]" by simp
  with sextet_chars have "let c = base64_table ! unat (w AND 63) in
     c \<noteq> 32 \<and> c \<noteq> 9 \<and> c \<noteq> 10 \<and> c \<noteq> 13 \<and> c \<noteq> equals_sign \<and> 0 < sint c \<and> sint c < 127 \<and>
     b64lookup ! unat c = int (unat (w AND 63))"
    by (auto simp only: list_all_iff)
  then show ?thesis unfolding assms enc_char_def Let_def by simp
qed

text \<open>One character of the alphabet adds its six bits.\<close>

lemma dec_step:
  "dec_loop (enc_char w # s) buf 0 0 out = dec_loop s (push_bit 6 buf + (w AND 63)) 1 0 out"
  "dec_loop (enc_char w # s) buf 1 0 out = dec_loop s (push_bit 6 buf + (w AND 63)) 2 0 out"
  "dec_loop (enc_char w # s) buf 2 0 out = dec_loop s (push_bit 6 buf + (w AND 63)) 3 0 out"
  using dec_enc_char [OF refl, of w] by (simp_all add: Let_def dec_symbol_def)

lemma dec_step_last:
  "dec_loop (enc_char w # s) buf 3 0 out =
     (let buf = push_bit 6 buf + (w AND 63) in
      dec_loop s 0 0 0 (out @ [ucast (drop_bit 16 buf AND 255), ucast (drop_bit 8 buf AND 255),
                               ucast (buf AND 255)]))"
  using dec_enc_char [OF refl, of w] by (simp add: Let_def dec_symbol_def dec_group_def)

lemma sextets_join:
  fixes w :: u32
  assumes "unat w < 2 ^ 24"
  shows "push_bit 6 (push_bit 6 (push_bit 6 (drop_bit 18 w AND 63) + (drop_bit 12 w AND 63)) +
           (drop_bit 6 w AND 63)) + (w AND 63) = w"
proof -
  define n where "n = unat w"
  have s: "drop_bit k w AND 63 = of_nat (n div 2 ^ k mod 64)" for k
  proof -
    have "unat (drop_bit k w AND 63) = n div 2 ^ k mod 64"
      by (simp only: and63 unat_drop_bit_eq) (simp add: drop_bit_eq_div n_def)
    then have "(of_nat (unat (drop_bit k w AND 63)) :: u32) = of_nat (n div 2 ^ k mod 64)" by (rule arg_cong)
    then show ?thesis by simp
  qed
  have "n div 64 div 64 div 64 < 64" using assms by (simp add: n_def div_mult2_eq [symmetric] less_mult_imp_div_less)
  then have n: "((n div 2 ^ 18 mod 64 * 64 + n div 2 ^ 12 mod 64) * 64 + n div 2 ^ 6 mod 64) * 64 + n div 2 ^ 0 mod 64 = n"
    using div_mult_mod_eq [of n 64] div_mult_mod_eq [of "n div 64" 64] div_mult_mod_eq [of "n div 64 div 64" 64]
    by (simp add: div_mult2_eq [symmetric])
  have "w AND 63 = of_nat (n div 2 ^ 0 mod 64)" using s [of 0] by simp
  then have "push_bit 6 (push_bit 6 (push_bit 6 (drop_bit 18 w AND 63) + (drop_bit 12 w AND 63)) +
           (drop_bit 6 w AND 63)) + (w AND 63) =
     of_nat (((n div 2 ^ 18 mod 64 * 64 + n div 2 ^ 12 mod 64) * 64 + n div 2 ^ 6 mod 64) * 64 + n div 2 ^ 0 mod 64)"
    by (simp add: s push_bit_eq_mult)
  also have "\<dots> = w" by (simp only: n) (simp add: n_def)
  finally show ?thesis .
qed

section \<open>Groups of three bytes\<close>

definition pack :: "u8 \<Rightarrow> u8 \<Rightarrow> u8 \<Rightarrow> u32" where
  "pack a b c = push_bit 16 (ucast a) OR push_bit 8 (ucast b) OR ucast c"

definition quad :: "u8 \<Rightarrow> u8 \<Rightarrow> u8 \<Rightarrow> u8 list" where
  "quad a b c = (let w = pack a b c in
     [enc_char (drop_bit 18 w), enc_char (drop_bit 12 w), enc_char (drop_bit 6 w), enc_char w])"

lemma bit_pack:
  "bit (pack a b c) n \<longleftrightarrow> 16 \<le> n \<and> bit a (n - 16) \<or> 8 \<le> n \<and> bit b (n - 8) \<or> bit c n"
  by (auto simp: pack_def bit_simps dest: bit_imp_le_length)

lemma pack_small: "unat (pack a b c) < 2 ^ 24"
proof -
  have "take_bit 24 (pack a b c) = pack a b c"
    by (rule bit_word_eqI) (auto simp: bit_take_bit_iff bit_pack dest: bit_imp_le_length)
  then have "unat (pack a b c) = take_bit 24 (unat (pack a b c))" by (metis unsigned_take_bit_eq)
  then show ?thesis by (metis take_bit_nat_less_exp)
qed

lemma unpack:
  "ucast (drop_bit 16 (pack a b c) AND 255) = a"
  "ucast (drop_bit 8 (pack a b c) AND 255) = b"
  "ucast (pack a b c AND 255) = c"
proof -
  have m: "x AND 255 = take_bit 8 x" for x :: u32 by (simp add: take_bit_eq_mask mask_eq_exp_minus_1)
  show "ucast (drop_bit 16 (pack a b c) AND 255) = a" "ucast (drop_bit 8 (pack a b c) AND 255) = b"
    "ucast (pack a b c AND 255) = c"
    unfolding m by (rule bit_word_eqI; auto simp: bit_simps bit_pack dest: bit_imp_le_length)+
qed

lemma enc_three: "enc_loop (a # b # c # s) 2 0 out = enc_loop s 2 0 (out @ quad a b c)"
  by (simp add: quad_def pack_def Let_def or.assoc)

lemma enc_out:
  "enc_loop s pos buf (out @ out') = (case enc_loop s pos buf out' of (p, w, o') \<Rightarrow> (p, w, out @ o'))"
  by (induction s arbitrary: pos buf out') (simp_all add: Let_def)

lemma dec_three: "dec_loop (quad a b c @ s) 0 0 0 out = dec_loop s 0 0 0 (out @ [a, b, c])"
  unfolding quad_def Let_def append_Cons append_Nil dec_step dec_step_last push_bit_of_0 add_0
    sextets_join [OF pack_small] unpack ..

text \<open>The reference encoder: three bytes make four characters, a rest of one or two is padded.\<close>

fun base64_ref :: "u8 list \<Rightarrow> u8 list" where
  "base64_ref [] = []"
| "base64_ref [a] = take 2 (quad a 0 0) @ [equals_sign, equals_sign]"
| "base64_ref [a, b] = take 3 (quad a b 0) @ [equals_sign]"
| "base64_ref (a # b # c # s) = quad a b c @ base64_ref s"

lemma quad_length [simp]: "length (quad a b c) = 4"
  by (simp add: quad_def Let_def)

lemma encode_ref: "stl_base64_encode s = (int (length (base64_ref s)), base64_ref s)"
proof (induction s rule: base64_ref.induct)
  case (4 a b c s)
  have "enc_loop (a # b # c # s) 2 0 [] = (case enc_loop s 2 0 [] of (p, w, o') \<Rightarrow> (p, w, quad a b c @ o'))"
    using enc_out [of s 2 0 "quad a b c" "[]"] by (simp only: enc_three) simp
  with 4 show ?case by (auto simp: stl_base64_encode_def Let_def split: prod.splits if_split_asm)
qed (simp_all add: stl_base64_encode_def quad_def pack_def Let_def)

lemma pack_low:
  "pack a b 0 AND 63 = 0" "drop_bit 6 (pack a 0 0) AND 63 = 0"
proof -
  have m: "x AND 63 = take_bit 6 x" for x :: u32 by (simp add: take_bit_eq_mask mask_eq_exp_minus_1)
  show "pack a b 0 AND 63 = 0" "drop_bit 6 (pack a 0 0) AND 63 = 0"
    unfolding m by (rule bit_word_eqI; auto simp: bit_simps bit_pack)+
qed

lemma dec_equals:
  "dec_loop (equals_sign # s) buf 2 0 out = dec_loop s (push_bit 6 buf) 3 1 out"
  "dec_loop [equals_sign] buf 3 1 out =
     (int (length out) + 1, out @ [ucast (drop_bit 16 (push_bit 6 buf) AND 255)])"
  "dec_loop [equals_sign] buf 3 0 out =
     (int (length out) + 2, out @ [ucast (drop_bit 16 (push_bit 6 buf) AND 255),
                                   ucast (drop_bit 8 (push_bit 6 buf) AND 255)])"
  by (simp_all add: Let_def equals_sign_def dec_symbol_def dec_group_def)

lemma dec_one:
  "dec_loop (base64_ref [a]) 0 0 0 out = (int (length out) + 1, out @ [a])"
proof -
  have "push_bit 6 (push_bit 6 (push_bit 6 (drop_bit 18 (pack a 0 0) AND 63) +
      (drop_bit 12 (pack a 0 0) AND 63))) = pack a 0 0"
    using sextets_join [OF pack_small [of a 0 0]] by (simp only: pack_low add_0_right)
  moreover have "base64_ref [a] = [enc_char (drop_bit 18 (pack a 0 0)), enc_char (drop_bit 12 (pack a 0 0)),
      equals_sign, equals_sign]" by (simp add: quad_def Let_def)
  ultimately show ?thesis
    by (simp only: dec_step dec_equals push_bit_of_0 add_0 unpack)
qed

lemma dec_two:
  "dec_loop (base64_ref [a, b]) 0 0 0 out = (int (length out) + 2, out @ [a, b])"
proof -
  have "push_bit 6 (push_bit 6 (push_bit 6 (drop_bit 18 (pack a b 0) AND 63) +
      (drop_bit 12 (pack a b 0) AND 63)) + (drop_bit 6 (pack a b 0) AND 63)) = pack a b 0"
    using sextets_join [OF pack_small [of a b 0]] by (simp only: pack_low add_0_right)
  moreover have "base64_ref [a, b] = [enc_char (drop_bit 18 (pack a b 0)), enc_char (drop_bit 12 (pack a b 0)),
      enc_char (drop_bit 6 (pack a b 0)), equals_sign]" by (simp add: quad_def Let_def)
  ultimately show ?thesis
    by (simp only: dec_step dec_equals push_bit_of_0 add_0 unpack)
qed

lemma dec_ref: "dec_loop (base64_ref s) 0 0 0 out = (int (length out + length s), out @ s)"
proof (induction s arbitrary: out rule: base64_ref.induct)
  case (2 a)
  then show ?case using dec_one [of a out] by simp
next
  case (3 a b)
  then show ?case using dec_two [of a b out] by simp
next
  case (4 a b c s)
  then show ?case by (simp only: base64_ref.simps dec_three) (simp del: dec_loop.simps)
qed simp

lemma ref_length: "length (base64_ref s) = 4 * ((length s + 2) div 3)"
  by (induction s rule: base64_ref.induct) (simp_all add: quad_def Let_def, presburger)

text \<open>The decoder writes at most three bytes for four characters.\<close>

lemma dec_length:
  "dec_loop s buf pos end out = (n, res) \<Longrightarrow> 0 \<le> n \<Longrightarrow> 0 \<le> pos \<Longrightarrow> pos < 4 \<Longrightarrow>
   n = int (length res) \<and> 4 * int (length res) \<le> 4 * int (length out) + 3 * (int (length s) + pos)"
proof (induction s arbitrary: buf pos "end" out)
  case Nil
  then show ?case by (auto split: if_split_asm)
next
  case (Cons c s)
  then obtain b e where sym: "dec_symbol c pos end = Some (b, e)"
    by (cases "dec_symbol c pos end") auto
  let ?w = "push_bit 6 buf + word_of_int b :: u32"
  show ?case
  proof (cases "pos = 3")
    case True
    have g: "int (length (dec_group ?w e)) \<le> 3" by (simp add: dec_group_def)
    have "dec_loop s 0 0 e (out @ dec_group ?w e) = (n, res)" using Cons.prems(1) sym True by (simp add: Let_def)
    from Cons.IH [OF this Cons.prems(2)] g True show ?thesis by simp
  next
    case False
    have "dec_loop s ?w (pos + 1) e out = (n, res)" using Cons.prems(1) sym False by (simp add: Let_def)
    from Cons.IH [OF this Cons.prems(2)] False Cons.prems(3,4) show ?thesis by simp
  qed
qed

section \<open>Properties\<close>

text \<open>C14: Decoding what was encoded gives back the original bytes, for every byte string, and the encoder
  is the standard one: three bytes to four characters of the alphabet with padding at the end.\<close>

theorem base64_roundtrip:
  "stl_base64_encode s = (int (length (base64_ref s)), base64_ref s) \<and>
   stl_base64_decode (snd (stl_base64_encode s)) = (int (length s), s)"
  using encode_ref [of s] dec_ref [of s "[]"] by (simp add: stl_base64_decode_def)

text \<open>The announced sizes are enough: an encoding never needs more than \<open>stl_base64_enc_len\<close>
  characters, and decoding never writes more than \<open>stl_base64_dec_len\<close> bytes.\<close>

theorem base64_length_bounds:
  "fst (stl_base64_encode s) \<le> stl_base64_enc_len (int (length s)) \<and>
   fst (stl_base64_decode t) \<le> stl_base64_dec_len (int (length t))"
proof
  have "4 * ((n + 2) div 3) \<le> (n + 2) * 4 div (3 :: nat)" for n by presburger
  from this [of "length s"] have "int (4 * ((length s + 2) div 3)) \<le> (int (length s) + 2) * 4 div 3"
    by (simp only: of_nat_le_iff [symmetric, where 'a = int] zdiv_int) simp
  then show "fst (stl_base64_encode s) \<le> stl_base64_enc_len (int (length s))"
    by (simp add: encode_ref ref_length stl_base64_enc_len_def sdiv_pos_div)
next
  obtain n res where r: "stl_base64_decode t = (n, res)" by (cases "stl_base64_decode t")
  have "n \<le> int (length t) * 3 div 4"
  proof (cases "0 \<le> n")
    case True
    with dec_length [of t 0 0 0 "[]" n res] r show ?thesis by (simp add: stl_base64_decode_def) linarith
  next
    case False
    then show ?thesis by (smt (verit) pos_imp_zdiv_nonneg_iff of_nat_0_le_iff mult_nonneg_nonneg)
  qed
  then show "fst (stl_base64_decode t) \<le> stl_base64_dec_len (int (length t))"
    using r by (simp add: stl_base64_dec_len_def drop_bit_eq_div)
qed

end
