(* ===== verification/Bytes.thy ===== *)
theory Bytes
  imports C_Prelude
begin

text \<open>
  Byte buffers, shared by the checksums, the hash functions and the digests of the container
  library under \<open>src/module/stl/src\<close>. A buffer is the list of the bytes a \<open>char\<close> pointer
  may read; an access outside of it is undefined and gives \<open>None\<close>. Plain \<open>char\<close> is signed,
  so a \<open>char\<close> that enters an arithmetic expression is sign-extended (\<open>scast\<close>), while
  \<open>uint8_t\<close> is zero-extended (\<open>ucast\<close>).

  The loop \<open>for (i = 0; i < len; i++)\<close> over the bytes of a buffer is \<open>for_bytes\<close>;
  \<open>for_bytes_eq\<close> shows that it stays inside the buffer exactly when \<open>len\<close> does, and that it
  then folds its body over the first \<open>len\<close> bytes.
\<close>

type_synonym u16 = "16 word"

definition for_bytes :: "(u8 \<Rightarrow> 's \<Rightarrow> 's) \<Rightarrow> u8 list \<Rightarrow> int \<Rightarrow> 's \<Rightarrow> 's option" where
  "for_bytes f buf len s =
     for_each (\<lambda>i s. do { b \<leftarrow> mem_read buf i; Some (f b s) }) [0..len - 1] s"

text \<open>Little-endian reads of two and four bytes at a byte offset.\<close>

definition le16 :: "u8 \<Rightarrow> u8 \<Rightarrow> u32" where
  "le16 b0 b1 = ucast b0 OR push_bit 8 (ucast b1)"

definition le32 :: "u8 \<Rightarrow> u8 \<Rightarrow> u8 \<Rightarrow> u8 \<Rightarrow> u32" where
  "le32 b0 b1 b2 b3 =
     ucast b0 OR push_bit 8 (ucast b1) OR push_bit 16 (ucast b2) OR push_bit 24 (ucast b3)"

definition read16 :: "u8 list \<Rightarrow> int \<Rightarrow> u32 option" where
  "read16 buf i = do { b0 \<leftarrow> mem_read buf i; b1 \<leftarrow> mem_read buf (i + 1); Some (le16 b0 b1) }"

definition read32 :: "u8 list \<Rightarrow> int \<Rightarrow> u32 option" where
  "read32 buf i = do {
     b0 \<leftarrow> mem_read buf i; b1 \<leftarrow> mem_read buf (i + 1);
     b2 \<leftarrow> mem_read buf (i + 2); b3 \<leftarrow> mem_read buf (i + 3);
     Some (le32 b0 b1 b2 b3) }"

text \<open>\<open>memcpy\<close> of the first \<open>n\<close> bytes of \<open>src\<close> to the offset \<open>i\<close> of a buffer, and \<open>memset\<close> to zero.\<close>

definition memcpy :: "u8 list \<Rightarrow> nat \<Rightarrow> u8 list \<Rightarrow> nat \<Rightarrow> u8 list option" where
  "memcpy buf i src n = do {
     c_assert (i + n \<le> length buf \<and> n \<le> length src);
     Some (take i buf @ take n src @ drop (i + n) buf) }"

definition memzero :: "u8 list \<Rightarrow> nat \<Rightarrow> nat \<Rightarrow> u8 list option" where
  "memzero buf i n = memcpy buf i (replicate n 0) n"

section \<open>Loops over a buffer\<close>

lemma for_bytes_nat:
  "for_each (\<lambda>i s. do { b \<leftarrow> mem_read buf i; Some (f b s) }) (map int [0..<n]) s =
     (if n \<le> length buf then Some (fold f (take n buf) s) else None)"
proof (induction n)
  case 0
  then show ?case by simp
next
  case (Suc n)
  then show ?case
    by (auto simp: for_each_append mem_read_def take_Suc_conv_app_nth)
qed

lemma upto_map_int: "[0..len - 1] = map int [0..<nat len]"
proof (cases "0 \<le> len")
  case True
  have "map int [0..<n] = [0..int n - 1]" for n
    by (induction n) (simp_all add: upto_rec2)
  from this [of "nat len"] True show ?thesis by simp
next
  case False
  then show ?thesis by simp
qed

lemma for_bytes_eq:
  "for_bytes f buf len s =
     (if len \<le> int (length buf) then Some (fold f (take (nat len) buf) s) else None)"
  using for_bytes_nat [of buf f "nat len" s]
  by (simp add: for_bytes_def upto_map_int nat_le_iff)

lemma for_bytes_all: "for_bytes f buf (int (length buf)) s = Some (fold f buf s)"
  by (simp add: for_bytes_eq)

section \<open>Casts and masks\<close>

lemma and_FF: "w AND 0xFF = take_bit 8 (w :: 'a::len word)"
  by (simp add: take_bit_eq_mask mask_eq_exp_minus_1)

lemma take8_scast [simp]: "take_bit 8 (scast (b :: u8) :: 'a::len word) = ucast b"
proof (rule bit_word_eqI)
  fix n assume "n < LENGTH('a)"
  moreover have "n < 8" if "bit b n" using bit_imp_le_length [OF that] by simp
  moreover have "min 7 n = n" if "n < 8" using that by simp
  ultimately show "bit (take_bit 8 (scast b :: 'a word)) n = bit (ucast b :: 'a word) n"
    by (auto simp: bit_simps)
qed

lemma take8_ucast [simp]: "take_bit 8 (ucast (b :: u8) :: 'a::len word) = ucast b"
  by (rule bit_word_eqI) (auto simp: bit_simps dest: bit_imp_le_length)

lemma take8_xor: "take_bit 8 (v XOR w) = take_bit 8 v XOR take_bit 8 (w :: 'a::len word)"
  by (rule bit_word_eqI) (auto simp: bit_simps)

lemma take8_less: "unat (take_bit 8 (w :: 'a::len word)) < 256"
proof -
  have "unat (take_bit 8 w) = unat w mod 256"
    by (simp only: unsigned_take_bit_eq) (simp add: take_bit_eq_mod)
  then show ?thesis by simp
qed

lemma rotate_left_u32:
  assumes "0 < s" and "s < 32"
  shows "push_bit s a OR drop_bit (32 - s) a = word_rotl s (a :: u32)"
proof (rule bit_word_eqI)
  fix n assume n: "n < LENGTH(32)"
  show "bit (push_bit s a OR drop_bit (32 - s) a) n = bit (word_rotl s a) n"
  proof (cases "n < s")
    case True
    then have "(n + (32 - s)) mod 32 = 32 - s + n" using assms by simp
    then show ?thesis using True n assms by (auto simp: bit_simps)
  next
    case False
    then have "n + (32 - s) = (n - s) + 32" using assms n by simp
    then have "(n + (32 - s)) mod 32 = n - s" using n by (simp only: mod_add_self2) simp
    moreover have "\<not> bit a (32 - s + n)" using False assms by (auto dest: bit_imp_le_length)
    ultimately show ?thesis using False n assms by (auto simp: bit_simps)
  qed
qed

lemma and_ones_u32: "a AND 0xffffffff = (a :: u32)"
proof -
  have "(0xffffffff :: u32) = - 1" by simp
  then show ?thesis by (simp only: and.right_neutral)
qed

end
