(* ===== verification/Crc.thy ===== *)
theory Crc
  imports Crc_Tables
begin

text \<open>
  The cyclic redundancy checks: \<open>stl_crc16\<close>, \<open>stl_crc32\<close> and \<open>stl_crc64\<close> of
  \<open>stl_crc.c\<close>, and the three hash functions of \<open>stl_hash.c\<close> that are built on the same
  tables. Each is a table-driven loop over the bytes of a buffer.

  The reference is the shift register of the polynomial, one bit at a time: \<open>lfsr_step\<close> for
  the reflected codes (32 and 64 bits), \<open>msb_step\<close> for the code that shifts to the left (16
  bits). The lemmas show that the registers are linear, that a table entry is eight steps of the
  register (the table is the span of its eight entries at the powers of two) and that the loops
  therefore compute the reference. Since a step is injective, a change of the message within one
  register width is always detected.
\<close>

section \<open>Model\<close>

definition crc16_step :: "u8 \<Rightarrow> u16 \<Rightarrow> u16" where
  "crc16_step b crc =
     push_bit 8 crc XOR crc16tab ! unat ((drop_bit 8 (ucast crc :: u32) XOR scast b) AND 0x00FF)"

definition stl_crc16 :: "u8 list \<Rightarrow> int \<Rightarrow> u16 option" where
  "stl_crc16 buf len = for_bytes crc16_step buf len 0"

definition crc32_step :: "u8 \<Rightarrow> u32 \<Rightarrow> u32" where
  "crc32_step b crc =
     crc32_tab ! unat ((crc XOR scast b) AND 0xFF) XOR (drop_bit 8 crc AND 0x00FFFFFF)"

definition stl_crc32 :: "u8 list \<Rightarrow> int \<Rightarrow> u32 option" where
  "stl_crc32 s len = do {
     crc \<leftarrow> for_bytes crc32_step s len (0 XOR 0xFFFFFFFF);
     Some (word_of_int \<bar>uint (crc XOR 0xFFFFFFFF)\<bar>) }"

definition crc64_step :: "u8 \<Rightarrow> u64 \<Rightarrow> u64" where
  "crc64_step b crc = crc64_tab ! unat (ucast crc XOR b) XOR drop_bit 8 crc"

definition stl_crc64 :: "u8 list \<Rightarrow> int \<Rightarrow> u64 option" where
  "stl_crc64 s l = for_bytes crc64_step s l 0"

definition hash_crc16_step :: "u8 \<Rightarrow> u32 \<Rightarrow> u32" where
  "hash_crc16_step b crc =
     push_bit 8 crc XOR ucast (hash_crc16tab ! unat ((drop_bit 8 crc XOR scast b) AND 0x00ff))"

definition stl_hash_crc16 :: "u8 list \<Rightarrow> nat \<Rightarrow> u32 option" where
  "stl_hash_crc16 key key_length = for_bytes hash_crc16_step key (int key_length) 0"

definition hash_crc32_step :: "u8 \<Rightarrow> u32 \<Rightarrow> u32" where
  "hash_crc32_step b crc =
     drop_bit 8 crc XOR hash_crc32tab ! unat (((ucast crc :: u64) XOR scast b) AND 0xff)"

definition stl_hash_crc32 :: "u8 list \<Rightarrow> nat \<Rightarrow> u32 option" where
  "stl_hash_crc32 key key_length = do {
     crc \<leftarrow> for_bytes hash_crc32_step key (int key_length) 0xFFFFFFFF;
     Some (drop_bit 16 (NOT crc) AND 0x7fff) }"

definition hash_crc32a_step :: "u8 \<Rightarrow> u32 \<Rightarrow> u32" where
  "hash_crc32a_step b crc =
     hash_crc32tab ! unat ((crc XOR ucast b) AND 0xFF) XOR drop_bit 8 crc"

definition stl_hash_crc32a :: "u8 list \<Rightarrow> nat \<Rightarrow> u32 option" where
  "stl_hash_crc32a key key_length = do {
     crc \<leftarrow> for_bytes hash_crc32a_step key (int key_length) (NOT 0);
     Some (crc XOR NOT 0) }"

section \<open>Reference: the shift registers\<close>

definition lfsr_step :: "'a::len word \<Rightarrow> 'a word \<Rightarrow> 'a word" where
  "lfsr_step poly c = drop_bit 1 c XOR (if bit c 0 then poly else 0)"

definition msb_step :: "u16 \<Rightarrow> u16 \<Rightarrow> u16" where
  "msb_step poly c = push_bit 1 c XOR (if bit c 15 then poly else 0)"

definition crc_byte :: "'a::len word \<Rightarrow> u8 \<Rightarrow> 'a word \<Rightarrow> 'a word" where
  "crc_byte poly b c = (lfsr_step poly ^^ 8) (c XOR ucast b)"

definition crc16_byte :: "u8 \<Rightarrow> u16 \<Rightarrow> u16" where
  "crc16_byte b c = (msb_step 0x1021 ^^ 8) (c XOR push_bit 8 (ucast b))"

abbreviation poly32 :: u32 where "poly32 \<equiv> 0xEDB88320"
abbreviation poly64 :: u64 where "poly64 \<equiv> 0x95AC9329AC4BC9B5"

section \<open>Linear maps on words and their tables\<close>

definition xor_linear :: "('a::len word \<Rightarrow> 'b::len word) \<Rightarrow> bool" where
  "xor_linear f \<longleftrightarrow> (\<forall>v w. f (v XOR w) = f v XOR f w)"

lemma xor_linearD: "xor_linear f \<Longrightarrow> f (v XOR w) = f v XOR f w"
  by (simp add: xor_linear_def)

lemma xor_linear_0: "xor_linear f \<Longrightarrow> f 0 = 0"
  using xor_linearD [of f 0 0] by simp

lemma xor_linear_funpow:
  fixes f :: "'a::len word \<Rightarrow> 'a word"
  shows "xor_linear f \<Longrightarrow> xor_linear (f ^^ n)"
  by (induction n) (simp_all add: xor_linear_def)

lemma xor_linear_lfsr: "xor_linear (lfsr_step poly)"
  unfolding xor_linear_def lfsr_step_def
  by (auto intro!: bit_word_eqI simp: bit_simps)

lemma xor_linear_msb: "xor_linear (msb_step poly)"
  unfolding xor_linear_def msb_step_def
  by (auto intro!: bit_word_eqI simp: bit_simps)

text \<open>The table of a linear map is the span of its values at the powers of two.\<close>

fun span :: "'a::len word list \<Rightarrow> 'a word list" where
  "span [] = [0]"
| "span (w # ws) = (let t = span ws in t @ map (\<lambda>v. w XOR v) t)"

lemma word_of_nat_exp_add:
  assumes "i < 2 ^ n" and "n < LENGTH('a::len)"
  shows "(word_of_nat (2 ^ n + i) :: 'a word) = 2 ^ n XOR word_of_nat i"
proof (rule bit_word_eqI)
  fix m assume m: "m < LENGTH('a)"
  have no: "\<not> bit i n" using assms(1) by (metis bit_take_bit_iff less_irrefl take_bit_nat_eq_self)
  then have "(2 ^ n :: nat) AND i = 0" by (auto intro!: bit_eqI simp: bit_simps)
  then have "2 ^ n + i = (2 ^ n OR i :: nat)" by (rule disjunctive_add_eq_or)
  then have "bit (2 ^ n + i) m \<longleftrightarrow> m = n \<or> bit i m" by (auto simp: bit_simps)
  then show "bit (word_of_nat (2 ^ n + i) :: 'a word) m = bit (2 ^ n XOR (word_of_nat i :: 'a word)) m"
    using m no by (auto simp: bit_simps simp del: of_nat_add)
qed

lemma upt_double: "[0..<2 ^ Suc n] = [0..<2 ^ n] @ map (\<lambda>i. 2 ^ n + i) [0..<2 ^ n]"
proof -
  have "[0..<2 ^ Suc n] = [0..<2 ^ n] @ [2 ^ n..<2 ^ n + 2 ^ n]"
    using upt_add_eq_append [of 0 "2 ^ n" "2 ^ n"] by (simp add: mult_2)
  then show ?thesis by (simp add: map_add_upt [symmetric] add.commute)
qed

lemma span_powers:
  fixes f :: "'a::len word \<Rightarrow> 'b::len word"
  assumes "xor_linear f" and "n \<le> LENGTH('a)"
  shows "span (map (\<lambda>k. f (2 ^ k)) (rev [0..<n])) = map (\<lambda>i. f (word_of_nat i)) [0..<2 ^ n]"
  using assms(2)
proof (induction n)
  case 0
  then show ?case by (simp add: xor_linear_0 assms(1))
next
  case (Suc n)
  have "f (word_of_nat (2 ^ n + i)) = f (2 ^ n) XOR f (word_of_nat i)" if "i < 2 ^ n" for i
    using word_of_nat_exp_add [OF that, where 'a = 'a] Suc.prems by (simp add: xor_linearD [OF assms(1)])
  then show ?case using Suc by (simp add: upt_double Let_def del: power_Suc)
qed

lemma funpow8: "(f ^^ 8) x = f (f (f (f (f (f (f (f x)))))))"
  by (simp add: eval_nat_numeral)

lemma down8: "rev [0..<8] = [7, 6, 5, 4, 3, 2, 1, 0]"
  by code_simp

lemma span_table:
  fixes f :: "'a::len word \<Rightarrow> 'b::len word"
  assumes "xor_linear f" and "8 \<le> LENGTH('a)"
    and "tab = span (map f [128, 64, 32, 16, 8, 4, 2, 1])"
  shows "tab = map (\<lambda>i. f (word_of_nat i)) [0..<256]"
  using span_powers [OF assms(1,2)] assms(3) by (simp add: down8)

lemma table_lookup:
  assumes "tab = map (\<lambda>i. f (word_of_nat i)) [0..<256]"
  shows "tab ! unat (take_bit 8 (w :: 'a::len word)) = f (word_of_nat (unat (take_bit 8 w)))"
  using take8_less [of w] by (simp add: assms)

lemma crc32_tab_basis: "map (lfsr_step poly32 ^^ 8) [128, 64, 32, 16, 8, 4, 2, 1] =
   [0xedb88320, 0x76dc4190, 0x3b6e20c8, 0x1db71064, 0x0edb8832, 0x076dc419, 0xee0e612c, 0x77073096]"
  by (simp add: funpow8 lfsr_step_def)

lemma crc64_tab_basis: "map (lfsr_step poly64 ^^ 8) [128, 64, 32, 16, 8, 4, 2, 1] =
   [0x95ac9329ac4bc9b5, 0xdf7adabd7a6e2d6f, 0xfa11fe77117cdf02, 0x7d08ff3b88be6f81, 0xab28ecb46814fe75, 0xc038e5739841b68f, 0xf5b0e190606b12f2, 0x7ad870c830358979]"
  by (simp add: funpow8 lfsr_step_def)

definition crc16_entry :: "u16 \<Rightarrow> u16" where
  "crc16_entry c = (msb_step 0x1021 ^^ 8) (push_bit 8 c)"

lemma crc16_tab_basis: "map crc16_entry [128, 64, 32, 16, 8, 4, 2, 1] =
   [0x9188, 0x48c4, 0x2462, 0x1231, 0x8108, 0x4084, 0x2042, 0x1021]"
  by (simp add: crc16_entry_def funpow8 msb_step_def)

lemmas lfsr8_linear = xor_linear_funpow [OF xor_linear_lfsr, of 8]
lemmas msb8_linear = xor_linear_funpow [OF xor_linear_msb, of 8]

lemma crc16_entry_linear: "xor_linear crc16_entry"
  using msb8_linear [of "0x1021"] by (simp add: xor_linear_def crc16_entry_def push_bit_xor)

lemma crc32_tab_eq: "crc32_tab = map (\<lambda>i. (lfsr_step poly32 ^^ 8) (word_of_nat i)) [0..<256]"
  by (rule span_table [OF lfsr8_linear], simp, unfold crc32_tab_basis crc32_tab_def, simp add: Let_def)

lemma crc64_tab_eq: "crc64_tab = map (\<lambda>i. (lfsr_step poly64 ^^ 8) (word_of_nat i)) [0..<256]"
  by (rule span_table [OF lfsr8_linear], simp, unfold crc64_tab_basis crc64_tab_def, simp add: Let_def)

lemma crc16tab_eq: "crc16tab = map (\<lambda>i. crc16_entry (word_of_nat i)) [0..<256]"
  by (rule span_table [OF crc16_entry_linear], simp, unfold crc16_tab_basis crc16tab_def, simp add: Let_def)

lemma hash_tabs_eq: "hash_crc32tab = crc32_tab" "hash_crc16tab = crc16tab"
  by (simp_all only: hash_crc32tab_def crc32_tab_def hash_crc16tab_def crc16tab_def)

section \<open>Eight steps of a register\<close>

lemma lfsr_funpow_drop:
  "take_bit n c = 0 \<Longrightarrow> (lfsr_step poly ^^ n) c = drop_bit n (c :: 'a::len word)"
proof (induction n arbitrary: c)
  case 0
  then show ?case by simp
next
  case (Suc n)
  from Suc.prems have no: "\<not> bit c m" if "m < Suc n" for m
    using that by (metis bit_0_eq bit_take_bit_iff bot_apply bot_bool_def)
  then have "lfsr_step poly c = drop_bit 1 c" by (simp add: lfsr_step_def)
  moreover have "take_bit n (drop_bit 1 c) = 0"
    using no by (auto intro!: bit_word_eqI simp: bit_simps)
  ultimately show ?case using Suc.IH [of "drop_bit 1 c"]
    by (simp add: funpow_swap1 del: funpow.simps(2) add: funpow_Suc_right drop_bit_drop_bit)
qed

lemma xor_split8: "c = push_bit 8 (drop_bit 8 c) XOR take_bit 8 (c :: 'a::len word)"
  by (rule bit_word_eqI) (auto simp: bit_simps)

lemma lfsr8_split:
  "(lfsr_step poly ^^ 8) c = drop_bit 8 c XOR (lfsr_step poly ^^ 8) (take_bit 8 (c :: 'a::len word))"
proof -
  have "take_bit 8 (push_bit 8 (drop_bit 8 c)) = 0" by (rule bit_word_eqI) (auto simp: bit_simps)
  moreover have "drop_bit 8 (push_bit 8 (drop_bit 8 c)) = drop_bit 8 c"
    by (rule bit_word_eqI) (auto simp: bit_simps dest: bit_imp_le_length)
  ultimately show ?thesis
    using lfsr_funpow_drop [of 8 "push_bit 8 (drop_bit 8 c)"] xor_linearD [OF lfsr8_linear]
    by (metis xor_split8)
qed

lemma msb_funpow_push:
  "n \<le> 16 \<Longrightarrow> (\<And>m. 16 - n \<le> m \<Longrightarrow> \<not> bit c m) \<Longrightarrow> (msb_step poly ^^ n) c = push_bit n (c :: u16)"
proof (induction n arbitrary: c)
  case 0
  then show ?case by simp
next
  case (Suc n)
  have "\<not> bit c 15" using Suc.prems(1) by (intro Suc.prems(2)) simp
  then have "msb_step poly c = push_bit 1 c" by (simp add: msb_step_def)
  moreover have "\<not> bit (push_bit 1 c) m" if "16 - n \<le> m" for m
    using Suc.prems(1) Suc.prems(2) [of "m - 1"] that by (auto simp: bit_push_bit_iff simp del: push_bit_Suc)
  ultimately show ?case using Suc.IH [of "push_bit 1 c"] Suc.prems(1)
    by (simp add: funpow_Suc_right del: funpow.simps(2))
qed

lemma msb8_split: "(msb_step 0x1021 ^^ 8) c = push_bit 8 c XOR crc16_entry (drop_bit 8 c)"
proof -
  have "(msb_step 0x1021 ^^ 8) (take_bit 8 c) = push_bit 8 (take_bit 8 c)"
    by (rule msb_funpow_push) (simp_all add: bit_simps)
  moreover have "push_bit 8 (take_bit 8 c) = push_bit 8 c"
    by (rule bit_word_eqI) (auto simp: bit_simps)
  moreover have "(msb_step 0x1021 ^^ 8) (push_bit 8 (drop_bit 8 c) XOR take_bit 8 c) =
      crc16_entry (drop_bit 8 c) XOR (msb_step 0x1021 ^^ 8) (take_bit 8 c)"
    by (simp add: xor_linearD [OF msb8_linear] crc16_entry_def)
  ultimately show ?thesis using xor_split8 [of c] by (metis xor.commute)
qed

section \<open>The table-driven steps are the bitwise ones\<close>

text \<open>Every index of a table is the low byte of the register, combined with the message byte.\<close>

lemma unat_and_FF: "unat ((w :: 'a::len word) AND 0xFF) = unat (ucast w :: u8)"
  by (simp only: and_FF unsigned_take_bit_eq unsigned_ucast_eq) simp

lemma u8_xor: "(ucast (v XOR w) :: u8) = ucast v XOR ucast (w :: 'a::len word)"
  by (rule bit_word_eqI) (auto simp: bit_simps)

lemma u8_ucast: "8 \<le> LENGTH('a::len) \<Longrightarrow> (ucast (ucast (b :: u8) :: 'a word) :: u8) = b"
  by (rule bit_word_eqI) (auto simp: bit_simps)

lemma u8_scast: "8 \<le> LENGTH('a::len) \<Longrightarrow> (ucast (scast (b :: u8) :: 'a word) :: u8) = b"
  by (rule bit_word_eqI) (auto simp: bit_simps)

lemma u8_of_u32: "(ucast (ucast (c :: u32) :: u64) :: u8) = ucast c"
  by (rule bit_word_eqI) (auto simp: bit_simps)

lemma take8_u8: "take_bit 8 c = ucast (ucast (c :: 'a::len word) :: u8)"
  by (rule bit_word_eqI) (auto simp: bit_simps)

lemma u8_lookup:
  assumes "tab = map (\<lambda>i. f (word_of_nat i)) [0..<256]"
  shows "tab ! unat (i :: u8) = f (ucast i)"
  using unsigned_less [of i, where 'a = nat] by (simp add: assms)

lemmas table_lookups = u8_lookup [OF crc32_tab_eq] u8_lookup [OF crc64_tab_eq] u8_lookup [OF crc16tab_eq]

lemma drop8_xor_byte: "drop_bit 8 (c XOR ucast (b :: u8)) = drop_bit 8 (c :: 'a::len word)"
  by (rule bit_word_eqI) (auto simp: bit_simps dest: bit_imp_le_length)

lemma crc_byte_split:
  "8 \<le> LENGTH('a::len) \<Longrightarrow> crc_byte poly b (c :: 'a word) = drop_bit 8 c XOR (lfsr_step poly ^^ 8) (ucast (ucast c XOR b :: u8))"
  unfolding crc_byte_def
  by (subst lfsr8_split) (simp only: drop8_xor_byte take8_u8 u8_xor u8_ucast)

lemma drop8_masked: "drop_bit 8 (c :: u32) AND 0x00FFFFFF = drop_bit 8 c"
proof -
  have "(0x00FFFFFF :: u32) = mask 24" by (simp add: mask_eq_exp_minus_1)
  moreover have "take_bit 24 (drop_bit 8 c) = drop_bit 8 c"
    by (rule bit_word_eqI) (auto simp: bit_simps dest: bit_imp_le_length)
  ultimately show ?thesis by (simp only: take_bit_eq_mask)
qed

lemmas index_simps = unat_and_FF u8_xor u8_ucast u8_scast u8_of_u32 table_lookups hash_tabs_eq

lemma crc32_steps_ref:
  "crc32_step = crc_byte poly32" "hash_crc32_step = crc_byte poly32" "hash_crc32a_step = crc_byte poly32"
  by (simp_all add: fun_eq_iff crc32_step_def hash_crc32_step_def hash_crc32a_step_def crc_byte_split
      drop8_masked index_simps xor.commute)

lemma crc64_step_ref: "crc64_step = crc_byte poly64"
  by (simp add: fun_eq_iff crc64_step_def crc_byte_split index_simps xor.commute)

lemma crc16_step_ref: "crc16_step = crc16_byte"
proof (intro ext)
  fix b :: u8 and c :: u16
  have "push_bit 8 (c XOR push_bit 8 (ucast b)) = push_bit 8 c"
    by (rule bit_word_eqI) (auto simp: bit_simps)
  moreover have "drop_bit 8 (c XOR push_bit 8 (ucast b)) = ucast ((ucast (drop_bit 8 (ucast c :: u32)) :: u8) XOR b)"
    by (rule bit_word_eqI) (auto simp: bit_simps dest: bit_imp_le_length)
  ultimately show "crc16_step b c = crc16_byte b c"
    by (simp only: crc16_step_def crc16_byte_def msb8_split index_simps) (simp add: u8_scast)
qed

lemma hash_crc16_step_low: "ucast (hash_crc16_step b c) = crc16_step b (ucast c)"
proof -
  have "(ucast (push_bit 8 c XOR ucast t) :: u16) = push_bit 8 (ucast c) XOR t" for t :: u16
    by (rule bit_word_eqI) (auto simp: bit_simps)
  moreover have "(ucast (drop_bit 8 c) :: u8) = ucast (drop_bit 8 (ucast (ucast c :: u16) :: u32))"
    by (rule bit_word_eqI) (auto simp: bit_simps)
  ultimately show ?thesis
    by (simp only: hash_crc16_step_def crc16_step_def index_simps)
qed

section \<open>Error detection\<close>

text \<open>A linear step with a trivial kernel is injective; the registers have one because the polynomials
  have their outermost coefficient.\<close>

lemma xor_linear_inj:
  assumes "xor_linear f" and "\<And>c. f c = 0 \<Longrightarrow> c = 0"
  shows "inj f"
proof (rule injI)
  fix v w assume "f v = f w"
  then have "f (v XOR w) = 0" by (simp add: xor_linearD [OF assms(1)])
  then have "v XOR w = 0" by (rule assms(2))
  then show "v = w" by (metis xor.left_neutral xor.assoc xor_self_eq xor.right_neutral)
qed

lemma lfsr_inj:
  assumes "bit poly (LENGTH('a::len) - 1)"
  shows "inj (lfsr_step (poly :: 'a word))"
proof (rule xor_linear_inj [OF xor_linear_lfsr])
  fix c :: "'a word" assume z: "lfsr_step poly c = 0"
  have "bit (lfsr_step poly c) (LENGTH('a) - 1) \<longleftrightarrow> bit c 0"
    using assms by (auto simp: lfsr_step_def bit_simps dest: bit_imp_le_length)
  with z have c0: "\<not> bit c 0" by simp
  with z have "drop_bit 1 c = 0" by (simp add: lfsr_step_def)
  then have "\<not> bit c (Suc n)" for n by (metis bit_0_eq bit_drop_bit_eq bot_apply bot_bool_def comp_apply plus_1_eq_Suc)
  with c0 show "c = 0" by (auto intro!: bit_word_eqI) (metis not0_implies_Suc)
qed

lemma msb_inj:
  assumes "bit poly 0"
  shows "inj (msb_step poly)"
proof (rule xor_linear_inj [OF xor_linear_msb])
  fix c :: u16 assume z: "msb_step poly c = 0"
  have "bit (msb_step poly c) 0 \<longleftrightarrow> bit c 15" 
    unfolding msb_step_def bit_xor_iff bit_push_bit_iff using assms by auto
  with z have c0: "\<not> bit c 15" by simp
  with z have "push_bit 1 c = 0" by (simp add: msb_step_def)
  then have "\<not> bit (push_bit 1 c) (Suc n)" for n by simp
  then have "\<not> bit c n" if "n < 15" for n using that unfolding bit_push_bit_iff by auto
  with c0 have "\<not> bit c n" if "n < 16" for n using that by (cases "n = 15") auto
  then show "c = 0" by (auto intro!: bit_word_eqI)
qed

lemma xor_cancel: "v XOR w = v XOR w' \<longleftrightarrow> w = w'" "w XOR v = w' XOR v \<longleftrightarrow> w = w'"
  for v w w' :: "'a::len word"
  by (metis xor.assoc xor_self_eq xor.left_neutral) (metis xor.assoc xor_self_eq xor.right_neutral)

lemma inj_funpow: "inj f \<Longrightarrow> inj (f ^^ n)" for f :: "'b \<Rightarrow> 'b"
  by (induction n) (auto simp: inj_compose)

text \<open>The word that a run of bytes adds to the register.\<close>

fun bytes_word :: "u8 list \<Rightarrow> 'a::len word" where
  "bytes_word [] = 0"
| "bytes_word (b # bs) = ucast b XOR push_bit 8 (bytes_word bs)"

lemma bytes_word_bits: "bit (bytes_word bs :: 'a::len word) m \<Longrightarrow> m < 8 * length bs"
  by (induction bs arbitrary: m) (auto simp: bit_simps dest: bit_imp_le_length, force+)

lemma bytes_word_eq:
  "length xs = length ys \<Longrightarrow> 8 * length xs \<le> LENGTH('a::len) \<Longrightarrow>
     (bytes_word xs :: 'a word) = bytes_word ys \<Longrightarrow> xs = ys"
proof (induction xs ys rule: list_induct2)
  case Nil
  then show ?case by simp
next
  case (Cons x xs y ys)
  have low: "(ucast (bytes_word (b # bs) :: 'a word) :: u8) = b" for b bs
    using Cons.prems(1) by (intro bit_word_eqI) (auto simp: bit_simps)
  have high: "drop_bit 8 (bytes_word (b # bs) :: 'a word) = bytes_word bs" if "length bs = length ys" for b bs
  proof (rule bit_word_eqI)
    fix n assume "n < LENGTH('a)"
    moreover have "n < 8 * length ys" if "bit (bytes_word bs :: 'a word) n"
      using bytes_word_bits [OF that] \<open>length bs = length ys\<close> by simp
    ultimately show "bit (drop_bit 8 (bytes_word (b # bs) :: 'a word)) n = bit (bytes_word bs :: 'a word) n"
      using Cons.hyps Cons.prems(1) by (auto simp: bit_simps dest: bit_imp_le_length)
  qed
  have "x = y" using low [of x xs] low [of y ys] Cons.prems(2) by metis
  moreover have "(bytes_word xs :: 'a word) = bytes_word ys"
    using high [of xs x] high [of ys y] Cons.hyps Cons.prems(2) by metis
  ultimately show ?case using Cons.IH Cons.prems(1) by simp
qed

lemma crc_bytes_word:
  "8 * length bs \<le> LENGTH('a::len) \<Longrightarrow>
     fold (crc_byte poly) bs c = (lfsr_step poly ^^ (8 * length bs)) (c XOR bytes_word bs :: 'a word)"
proof (induction bs arbitrary: c)
  case Nil
  then show ?case by simp
next
  case (Cons b bs)
  let ?W = "bytes_word bs :: 'a word"
  have "take_bit 8 (push_bit 8 ?W) = 0" by (rule bit_word_eqI) (auto simp: bit_simps)
  moreover have "drop_bit 8 (push_bit 8 ?W) = ?W"
  proof (rule bit_word_eqI)
    fix n assume "n < LENGTH('a)"
    then show "bit (drop_bit 8 (push_bit 8 ?W)) n = bit ?W n"
      using bytes_word_bits [of bs n, where 'a = 'a] Cons.prems by (auto simp: bit_simps)
  qed
  ultimately have W: "(lfsr_step poly ^^ 8) (push_bit 8 ?W) = ?W" by (simp add: lfsr_funpow_drop)
  have "fold (crc_byte poly) (b # bs) c = (lfsr_step poly ^^ (8 * length bs)) (crc_byte poly b c XOR ?W)"
    using Cons by simp
  also have "crc_byte poly b c XOR ?W = (lfsr_step poly ^^ 8) (c XOR bytes_word (b # bs))"
    by (simp add: crc_byte_def xor_linearD [OF lfsr8_linear] W xor.assoc)
  also have "(lfsr_step poly ^^ (8 * length bs)) \<dots> = (lfsr_step poly ^^ (8 * length (b # bs))) (c XOR bytes_word (b # bs))"
    by (simp only: funpow_add [THEN fun_cong, unfolded comp_apply, symmetric]) (simp add: add.commute)
  finally show ?case .
qed

lemma fold_inj: "(\<And>b. inj (f b)) \<Longrightarrow> inj (fold f bs)"
  by (induction bs) (auto intro: inj_compose)

lemma burst_differs:
  fixes poly :: "'a::len word"
  assumes "bit poly (LENGTH('a) - 1)" and "length xs = length ys" and "8 * length xs \<le> LENGTH('a)" and "xs \<noteq> ys"
  shows "fold (crc_byte poly) (pre @ xs @ post) c \<noteq> fold (crc_byte poly) (pre @ ys @ post) c"
proof -
  note inj = inj_funpow [OF lfsr_inj [OF assms(1)]]
  let ?c = "fold (crc_byte poly) pre c"
  have "inj (crc_byte poly b)" for b
    by (rule injI) (simp only: crc_byte_def inj_eq [OF inj] xor_cancel)
  note post = fold_inj [of "crc_byte poly", OF this, of post]
  have "?c XOR bytes_word xs \<noteq> ?c XOR bytes_word ys"
    using bytes_word_eq [OF assms(2,3)] assms(4) by (metis xor.assoc xor_self_eq xor.left_neutral)
  then have "fold (crc_byte poly) xs ?c \<noteq> fold (crc_byte poly) ys ?c"
    using inj [of "8 * length ys"] assms(2,3) by (simp add: crc_bytes_word inj_eq)
  then show ?thesis using post by (simp add: inj_eq)
qed

lemma crc16_bytes:
  "crc16_byte a c = (msb_step 0x1021 ^^ 8) (c XOR push_bit 8 (ucast a))"
  "crc16_byte b (crc16_byte a c) = (msb_step 0x1021 ^^ 16) (c XOR push_bit 8 (ucast a) XOR ucast b)"
proof -
  have "(msb_step 0x1021 ^^ 8) (ucast b) = push_bit 8 (ucast b)"
    by (rule msb_funpow_push) (auto simp: bit_simps dest: bit_imp_le_length)
  then have "crc16_byte b (crc16_byte a c) =
      (msb_step 0x1021 ^^ 8) ((msb_step 0x1021 ^^ 8) (c XOR push_bit 8 (ucast a) XOR ucast b))"
    by (simp only: crc16_byte_def xor_linearD [OF msb8_linear] xor.assoc)
  then show "crc16_byte b (crc16_byte a c) = (msb_step 0x1021 ^^ 16) (c XOR push_bit 8 (ucast a) XOR ucast b)"
    by (simp only: funpow_add [THEN fun_cong, unfolded comp_apply, symmetric]) simp
qed (simp add: crc16_byte_def)

lemma burst16_differs:
  assumes "length xs = length ys" and "length xs \<le> 2" and "xs \<noteq> ys"
  shows "fold crc16_byte (pre @ xs @ post) c \<noteq> fold crc16_byte (pre @ ys @ post) c"
proof -
  have "bit (0x1021 :: u16) 0" by simp
  note inj = inj_funpow [OF msb_inj [OF this]]
  let ?c = "fold crc16_byte pre c"
  have u8: "(ucast (ucast (b :: u8) :: u16) :: u8) = b" for b by (simp add: u8_ucast)
  have push8: "push_bit 8 (ucast a :: u16) = push_bit 8 (ucast a') \<longleftrightarrow> a = a'" for a a' :: u8
  proof
    assume "push_bit 8 (ucast a :: u16) = push_bit 8 (ucast a')"
    then have "drop_bit 8 (push_bit 8 (ucast a :: u16)) = drop_bit 8 (push_bit 8 (ucast a'))" by simp
    moreover have "drop_bit 8 (push_bit 8 (ucast b :: u16)) = ucast b" for b :: u8
      by (rule bit_word_eqI) (auto simp: bit_simps dest: bit_imp_le_length)
    ultimately show "a = a'" by (metis u8)
  qed simp
  have pair: "a = a' \<and> b = b'"
    if "push_bit 8 (ucast a :: u16) XOR ucast b = push_bit 8 (ucast a') XOR ucast b'" for a a' b b' :: u8
  proof -
    have "(ucast (push_bit 8 (ucast a :: u16) XOR ucast b) :: u8) = b" for a b :: u8
      by (rule bit_word_eqI) (auto simp: bit_simps)
    with that have "b = b'" by metis
    with that push8 [of a a'] show ?thesis by (simp only: xor_cancel)
  qed
  have "inj (crc16_byte b)" for b
    by (rule injI) (simp only: crc16_byte_def inj_eq [OF inj] xor_cancel)
  note post = fold_inj [of crc16_byte, OF this, of post]
  consider "xs = []" "ys = []" | x y where "xs = [x]" "ys = [y]"
    | x x' y y' where "xs = [x, x']" "ys = [y, y']"
    using assms(1,2) by (auto simp: length_Suc_conv le_Suc_eq numeral_2_eq_2)
  then have "fold crc16_byte xs ?c \<noteq> fold crc16_byte ys ?c"
  proof cases
    case 1
    then show ?thesis using assms(3) by simp
  next
    case 2
    then show ?thesis using assms(3) by (simp add: crc16_bytes inj_eq [OF inj] xor_cancel push8)
  next
    case 3
    then show ?thesis using assms(3) pair [of x x' y y']
      by (auto simp: crc16_bytes(2) inj_eq [OF inj] xor_cancel xor.assoc)
  qed
  then show ?thesis using post by (simp add: inj_eq)
qed

section \<open>Properties\<close>

lemma crc32_runs:
  "stl_crc32 buf len = (if len \<le> int (length buf)
     then Some (NOT (fold (crc_byte poly32) (take (nat len) buf) (NOT 0))) else None)"
proof -
  have "(0xFFFFFFFF :: u32) = NOT 0" "0 XOR NOT 0 = (NOT 0 :: u32)" by simp_all
  moreover have "c XOR NOT 0 = NOT c" for c :: u32 by (rule bit_word_eqI) (simp add: bit_simps)
  ultimately show ?thesis
    by (simp only: stl_crc32_def for_bytes_eq crc32_steps_ref) simp
qed

lemma crc64_runs:
  "stl_crc64 buf len = (if len \<le> int (length buf)
     then Some (fold (crc_byte poly64) (take (nat len) buf) 0) else None)"
  by (simp add: stl_crc64_def for_bytes_eq crc64_step_ref)

lemma crc16_runs:
  "stl_crc16 buf len = (if len \<le> int (length buf)
     then Some (fold crc16_byte (take (nat len) buf) 0) else None)"
  by (simp add: stl_crc16_def for_bytes_eq crc16_step_ref)

text \<open>C13: The three table-driven checks compute the codes of their polynomials bit by bit (CRC-16 with
  polynomial 0x1021, CRC-32 with the reflected polynomial 0xEDB88320, inverted before and after, CRC-64
  with the reflected polynomial 0x95AC9329AC4BC9B5), and read the buffer only up to the given length.\<close>

theorem crc_is_shift_register:
  "stl_crc16 buf len = (if len \<le> int (length buf)
     then Some (fold crc16_byte (take (nat len) buf) 0) else None) \<and>
   stl_crc32 buf len = (if len \<le> int (length buf)
     then Some (NOT (fold (crc_byte poly32) (take (nat len) buf) (NOT 0))) else None) \<and>
   stl_crc64 buf len = (if len \<le> int (length buf)
     then Some (fold (crc_byte poly64) (take (nat len) buf) 0) else None)"
  by (intro conjI crc16_runs crc32_runs crc64_runs)

text \<open>A corrupted message is detected: two messages of one length that differ only within a run of two
  bytes have different CRC-16, within four bytes different CRC-32, and within eight bytes different
  CRC-64 values.\<close>

theorem crc_detects_bursts:
  assumes "length xs = length ys" and "xs \<noteq> ys" and "n = int (length (pre @ xs @ post))"
  shows "(length xs \<le> 2 \<longrightarrow> stl_crc16 (pre @ xs @ post) n \<noteq> stl_crc16 (pre @ ys @ post) n) \<and>
    (length xs \<le> 4 \<longrightarrow> stl_crc32 (pre @ xs @ post) n \<noteq> stl_crc32 (pre @ ys @ post) n) \<and>
    (length xs \<le> 8 \<longrightarrow> stl_crc64 (pre @ xs @ post) n \<noteq> stl_crc64 (pre @ ys @ post) n)"
proof (intro conjI impI)
  have n: "n \<le> int (length (pre @ zs @ post))" "take (nat n) (pre @ zs @ post) = pre @ zs @ post"
    if "length zs = length ys" for zs using assms(1,3) that by auto
  note take = n [OF assms(1)] n [OF refl]
  show "stl_crc16 (pre @ xs @ post) n \<noteq> stl_crc16 (pre @ ys @ post) n" if "length xs \<le> 2"
    using burst16_differs [OF assms(1) that assms(2)] by (simp only: crc16_runs take) simp
  show "stl_crc32 (pre @ xs @ post) n \<noteq> stl_crc32 (pre @ ys @ post) n" if "length xs \<le> 4"
    using burst_differs [of poly32, OF _ assms(1) _ assms(2)] that by (simp only: crc32_runs take) simp
  show "stl_crc64 (pre @ xs @ post) n \<noteq> stl_crc64 (pre @ ys @ post) n" if "length xs \<le> 8"
    using burst_differs [of poly64, OF _ assms(1) _ assms(2)] that by (simp only: crc64_runs take) simp
qed

theorem crc_detects_bursts_witness:
  "stl_crc16 ([1] @ [2, 3] @ [9]) 4 \<noteq> stl_crc16 ([1] @ [3, 2] @ [9]) 4 \<and>
   stl_crc32 ([1] @ [2, 3] @ [9]) 4 \<noteq> stl_crc32 ([1] @ [3, 2] @ [9]) 4 \<and>
   stl_crc64 ([1] @ [2, 3] @ [9]) 4 \<noteq> stl_crc64 ([1] @ [3, 2] @ [9]) 4"
  using crc_detects_bursts [of "[2, 3]" "[3, 2]" 4 "[1]" "[9]"] by simp

text \<open>The hash functions built on the checks agree with them: \<open>stl_hash_crc32a\<close> is the CRC-32,
  \<open>stl_hash_crc32\<close> its bits 16 to 30, and \<open>stl_hash_crc16\<close> has the CRC-16 in its low half.\<close>

theorem crc_hashes_agree:
  "stl_hash_crc32a key n = stl_crc32 key (int n) \<and>
   stl_hash_crc32 key n = map_option (\<lambda>c. drop_bit 16 c AND 0x7fff) (stl_crc32 key (int n)) \<and>
   map_option ucast (stl_hash_crc16 key n) = stl_crc16 key (int n)"
proof (intro conjI)
  have not: "c XOR NOT 0 = NOT c" for c :: u32 by (rule bit_word_eqI) (simp add: bit_simps)
  have ones: "(0xFFFFFFFF :: u32) = NOT 0" by simp
  show "stl_hash_crc32a key n = stl_crc32 key (int n)"
    by (simp only: stl_hash_crc32a_def crc32_runs for_bytes_eq crc32_steps_ref not) simp
  show "stl_hash_crc32 key n = map_option (\<lambda>c. drop_bit 16 c AND 0x7fff) (stl_crc32 key (int n))"
    by (simp only: stl_hash_crc32_def crc32_runs for_bytes_eq crc32_steps_ref ones) simp
  have "ucast (fold hash_crc16_step bs c) = fold crc16_step bs (ucast c)" for bs c
    by (induction bs arbitrary: c) (simp_all add: hash_crc16_step_low)
  then show "map_option ucast (stl_hash_crc16 key n) = stl_crc16 key (int n)"
    by (simp add: stl_hash_crc16_def stl_crc16_def for_bytes_eq)
qed

text \<open>\<open>stl_hash_crc16\<close> keeps what is shifted out of the sixteen bits: from three bytes on its value
  need not be a 16-bit value.\<close>

theorem hash_crc16_not_truncated:
  "\<exists>h. stl_hash_crc16 [1, 0, 0] 3 = Some h \<and> 0xFFFF < h"
  by (rule exI [of _ "0x10333730"]) code_simp

end
