(* ===== verification/Jenkins.thy ===== *)
theory Jenkins
  imports Crc
begin

text \<open>
  \<open>stl_hash_jenkins\<close> of \<open>stl_hash.c\<close>, Jenkins' lookup3. It has three bodies, chosen by the
  alignment of the key's address, which is an argument of the model: the key is read in 32-bit words,
  in 16-bit words or in bytes. The reference \<open>lookup3\<close> works on the list of the bytes, padded with
  zeros; the lemmas show that each body computes it, so the hash does not depend on the alignment. The
  body for aligned keys reads whole words and so up to three bytes behind the key.
\<close>

section \<open>Model: Jenkins' lookup3\<close>

definition JENKINS_INITVAL :: u32 where "JENKINS_INITVAL = 13"

definition rot :: "u32 \<Rightarrow> nat \<Rightarrow> u32" where
  "rot x k = push_bit k x OR drop_bit (32 - k) x"

definition mix :: "u32 \<times> u32 \<times> u32 \<Rightarrow> u32 \<times> u32 \<times> u32" where
  "mix s = (let (a, b, c) = s;
     a = a - c; a = a XOR rot c 4; c = c + b;
     b = b - a; b = b XOR rot a 6; a = a + c;
     c = c - b; c = c XOR rot b 8; b = b + a;
     a = a - c; a = a XOR rot c 16; c = c + b;
     b = b - a; b = b XOR rot a 19; a = a + c;
     c = c - b; c = c XOR rot b 4; b = b + a
   in (a, b, c))"

definition final :: "u32 \<times> u32 \<times> u32 \<Rightarrow> u32" where
  "final s = (let (a, b, c) = s;
     c = c XOR b; c = c - rot b 14;
     a = a XOR c; a = a - rot c 11;
     b = b XOR a; b = b - rot a 25;
     c = c XOR b; c = c - rot b 16;
     a = a XOR c; a = a - rot c 4;
     b = b XOR a; b = b - rot a 14;
     c = c XOR b
   in c - rot b 24)"

text \<open>The key read in 32-bit words. The switch gives \<open>Some None\<close> where it returns \<open>c\<close> at once.\<close>

fun jenkins_loop32 :: "u8 list \<Rightarrow> int \<Rightarrow> nat \<Rightarrow> u32 \<times> u32 \<times> u32 \<Rightarrow> (int \<times> nat \<times> u32 \<times> u32 \<times> u32) option" where
  "jenkins_loop32 key off len (a, b, c) =
     (if 12 < len then do {
        k0 \<leftarrow> read32 key off; k1 \<leftarrow> read32 key (off + 4); k2 \<leftarrow> read32 key (off + 8);
        jenkins_loop32 key (off + 12) (len - 12) (mix (a + k0, b + k1, c + k2)) }
      else Some (off, len, a, b, c))"

definition jenkins_tail32 ::
    "u8 list \<Rightarrow> int \<Rightarrow> nat \<Rightarrow> u32 \<times> u32 \<times> u32 \<Rightarrow> (u32 \<times> u32 \<times> u32) option option" where
  "jenkins_tail32 key off len s =
     (let (a, b, c) = s; k = (\<lambda>i. read32 key (off + 4 * i)) in
      if len = 12 then do { k2 \<leftarrow> k 2; k1 \<leftarrow> k 1; k0 \<leftarrow> k 0; Some (Some (a + k0, b + k1, c + k2)) }
      else if len = 11 then do { k2 \<leftarrow> k 2; k1 \<leftarrow> k 1; k0 \<leftarrow> k 0; Some (Some (a + k0, b + k1, c + (k2 AND 0xffffff))) }
      else if len = 10 then do { k2 \<leftarrow> k 2; k1 \<leftarrow> k 1; k0 \<leftarrow> k 0; Some (Some (a + k0, b + k1, c + (k2 AND 0xffff))) }
      else if len = 9 then do { k2 \<leftarrow> k 2; k1 \<leftarrow> k 1; k0 \<leftarrow> k 0; Some (Some (a + k0, b + k1, c + (k2 AND 0xff))) }
      else if len = 8 then do { k1 \<leftarrow> k 1; k0 \<leftarrow> k 0; Some (Some (a + k0, b + k1, c)) }
      else if len = 7 then do { k1 \<leftarrow> k 1; k0 \<leftarrow> k 0; Some (Some (a + k0, b + (k1 AND 0xffffff), c)) }
      else if len = 6 then do { k1 \<leftarrow> k 1; k0 \<leftarrow> k 0; Some (Some (a + k0, b + (k1 AND 0xffff), c)) }
      else if len = 5 then do { k1 \<leftarrow> k 1; k0 \<leftarrow> k 0; Some (Some (a + k0, b + (k1 AND 0xff), c)) }
      else if len = 4 then do { k0 \<leftarrow> k 0; Some (Some (a + k0, b, c)) }
      else if len = 3 then do { k0 \<leftarrow> k 0; Some (Some (a + (k0 AND 0xffffff), b, c)) }
      else if len = 2 then do { k0 \<leftarrow> k 0; Some (Some (a + (k0 AND 0xffff), b, c)) }
      else if len = 1 then do { k0 \<leftarrow> k 0; Some (Some (a + (k0 AND 0xff), b, c)) }
      else Some None)"

text \<open>The key read in 16-bit words, the last odd byte on its own.\<close>

definition word16 :: "u8 list \<Rightarrow> int \<Rightarrow> u32 option" where
  "word16 key i = do { lo \<leftarrow> read16 key i; hi \<leftarrow> read16 key (i + 2); Some (lo + push_bit 16 hi) }"

fun jenkins_loop16 :: "u8 list \<Rightarrow> int \<Rightarrow> nat \<Rightarrow> u32 \<times> u32 \<times> u32 \<Rightarrow> (int \<times> nat \<times> u32 \<times> u32 \<times> u32) option" where
  "jenkins_loop16 key off len (a, b, c) =
     (if 12 < len then do {
        k0 \<leftarrow> word16 key off; k2 \<leftarrow> word16 key (off + 4); k4 \<leftarrow> word16 key (off + 8);
        jenkins_loop16 key (off + 12) (len - 12) (mix (a + k0, b + k2, c + k4)) }
      else Some (off, len, a, b, c))"

definition jenkins_tail16 ::
    "u8 list \<Rightarrow> int \<Rightarrow> nat \<Rightarrow> u32 \<times> u32 \<times> u32 \<Rightarrow> (u32 \<times> u32 \<times> u32) option option" where
  "jenkins_tail16 key off len s =
     (let (a, b, c) = s;
          k = (\<lambda>i. read16 key (off + 2 * i));
          w = (\<lambda>i. word16 key (off + 2 * i));
          k8 = (\<lambda>i. map_option ucast (mem_read key (off + i))) in
      if len = 12 then do { c' \<leftarrow> w 4; b' \<leftarrow> w 2; a' \<leftarrow> w 0; Some (Some (a + a', b + b', c + c')) }
      else if len = 11 then do { x \<leftarrow> k8 10; c' \<leftarrow> k 4; b' \<leftarrow> w 2; a' \<leftarrow> w 0;
        Some (Some (a + a', b + b', c + push_bit 16 x + c')) }
      else if len = 10 then do { c' \<leftarrow> k 4; b' \<leftarrow> w 2; a' \<leftarrow> w 0; Some (Some (a + a', b + b', c + c')) }
      else if len = 9 then do { x \<leftarrow> k8 8; b' \<leftarrow> w 2; a' \<leftarrow> w 0; Some (Some (a + a', b + b', c + x)) }
      else if len = 8 then do { b' \<leftarrow> w 2; a' \<leftarrow> w 0; Some (Some (a + a', b + b', c)) }
      else if len = 7 then do { x \<leftarrow> k8 6; b' \<leftarrow> k 2; a' \<leftarrow> w 0;
        Some (Some (a + a', b + push_bit 16 x + b', c)) }
      else if len = 6 then do { b' \<leftarrow> k 2; a' \<leftarrow> w 0; Some (Some (a + a', b + b', c)) }
      else if len = 5 then do { x \<leftarrow> k8 4; a' \<leftarrow> w 0; Some (Some (a + a', b + x, c)) }
      else if len = 4 then do { a' \<leftarrow> w 0; Some (Some (a + a', b, c)) }
      else if len = 3 then do { x \<leftarrow> k8 2; a' \<leftarrow> k 0; Some (Some (a + push_bit 16 x + a', b, c)) }
      else if len = 2 then do { a' \<leftarrow> k 0; Some (Some (a + a', b, c)) }
      else if len = 1 then do { x \<leftarrow> k8 0; Some (Some (a + x, b, c)) }
      else Some None)"

text \<open>The key read byte by byte; the cases of the switch fall through.\<close>

definition add_byte :: "u8 list \<Rightarrow> int \<Rightarrow> nat \<Rightarrow> u32 \<Rightarrow> u32 option" where
  "add_byte key i sh x = do { k \<leftarrow> mem_read key i; Some (x + push_bit sh (ucast k)) }"

fun jenkins_loop8 :: "u8 list \<Rightarrow> int \<Rightarrow> nat \<Rightarrow> u32 \<times> u32 \<times> u32 \<Rightarrow> (int \<times> nat \<times> u32 \<times> u32 \<times> u32) option" where
  "jenkins_loop8 key off len (a, b, c) =
     (if 12 < len then do {
        a \<leftarrow> add_byte key off 0 a; a \<leftarrow> add_byte key (off + 1) 8 a;
        a \<leftarrow> add_byte key (off + 2) 16 a; a \<leftarrow> add_byte key (off + 3) 24 a;
        b \<leftarrow> add_byte key (off + 4) 0 b; b \<leftarrow> add_byte key (off + 5) 8 b;
        b \<leftarrow> add_byte key (off + 6) 16 b; b \<leftarrow> add_byte key (off + 7) 24 b;
        c \<leftarrow> add_byte key (off + 8) 0 c; c \<leftarrow> add_byte key (off + 9) 8 c;
        c \<leftarrow> add_byte key (off + 10) 16 c; c \<leftarrow> add_byte key (off + 11) 24 c;
        jenkins_loop8 key (off + 12) (len - 12) (mix (a, b, c)) }
      else Some (off, len, a, b, c))"

definition jenkins_tail8 ::
    "u8 list \<Rightarrow> int \<Rightarrow> nat \<Rightarrow> u32 \<times> u32 \<times> u32 \<Rightarrow> (u32 \<times> u32 \<times> u32) option option" where
  "jenkins_tail8 key off len s =
     (let (a, b, c) = s;
          step = (\<lambda>n i sh x. if n \<le> len then add_byte key (off + i) sh x else Some x) in
      if len = 0 \<or> 12 < len then Some None else do {
        c \<leftarrow> step 12 11 24 c; c \<leftarrow> step 11 10 16 c; c \<leftarrow> step 10 9 8 c; c \<leftarrow> step 9 8 0 c;
        b \<leftarrow> step 8 7 24 b; b \<leftarrow> step 7 6 16 b; b \<leftarrow> step 6 5 8 b; b \<leftarrow> step 5 4 0 b;
        a \<leftarrow> step 4 3 24 a; a \<leftarrow> step 3 2 16 a; a \<leftarrow> step 2 1 8 a; a \<leftarrow> step 1 0 0 a;
        Some (Some (a, b, c)) })"

declare jenkins_loop32.simps [simp del] jenkins_loop16.simps [simp del] jenkins_loop8.simps [simp del]

definition stl_hash_jenkins :: "nat \<Rightarrow> u8 list \<Rightarrow> nat \<Rightarrow> u32 option" where
  "stl_hash_jenkins addr key len =
     (let v = 0xdeadbeef + word_of_nat len + JENKINS_INITVAL;
          (loop, tail) = (if addr mod 4 = 0 then (jenkins_loop32, jenkins_tail32)
                          else if addr mod 2 = 0 then (jenkins_loop16, jenkins_tail16)
                          else (jenkins_loop8, jenkins_tail8)) in
      do { (off, rem, a, b, c) \<leftarrow> loop key 0 len (v, v, v);
           r \<leftarrow> tail key off rem (a, b, c);
           Some (case r of None \<Rightarrow> c | Some s \<Rightarrow> final s) })"

section \<open>Reference\<close>

definition byte_at :: "u8 list \<Rightarrow> nat \<Rightarrow> u8" where
  "byte_at bs i = (if i < length bs then bs ! i else 0)"

definition word_at :: "u8 list \<Rightarrow> nat \<Rightarrow> u32" where
  "word_at bs i = le32 (byte_at bs i) (byte_at bs (i + 1)) (byte_at bs (i + 2)) (byte_at bs (i + 3))"

definition add_block :: "u8 list \<Rightarrow> u32 \<times> u32 \<times> u32 \<Rightarrow> u32 \<times> u32 \<times> u32" where
  "add_block bs s = (let (a, b, c) = s in (a + word_at bs 0, b + word_at bs 4, c + word_at bs 8))"

fun lookup3 :: "u8 list \<Rightarrow> u32 \<times> u32 \<times> u32 \<Rightarrow> u32" where
  "lookup3 bs s =
     (if 12 < length bs then lookup3 (drop 12 bs) (mix (add_block bs s))
      else if bs = [] then snd (snd s) else final (add_block bs s))"

declare lookup3.simps [simp del]

definition jenkins_seed :: "nat \<Rightarrow> u32 \<times> u32 \<times> u32" where
  "jenkins_seed n = (let v = 0xdeadbeef + word_of_nat n + JENKINS_INITVAL in (v, v, v))"

section \<open>Words of a key\<close>

lemma le32_add:
  "le32 b0 b1 b2 b3 = ucast b0 + push_bit 8 (ucast b1) + push_bit 16 (ucast b2) + push_bit 24 (ucast b3)"
proof -
  have "ucast b0 + push_bit 8 (ucast b1) = (ucast b0 OR push_bit 8 (ucast b1) :: u32)"
    by (rule disjunctive_add_eq_or, rule bit_word_eqI) (auto simp: bit_simps dest: bit_imp_le_length)
  moreover have "(ucast b0 OR push_bit 8 (ucast b1)) + push_bit 16 (ucast b2) =
      (ucast b0 OR push_bit 8 (ucast b1) OR push_bit 16 (ucast b2) :: u32)"
    by (rule disjunctive_add_eq_or [THEN trans], rule bit_word_eqI)
       (auto simp: bit_simps or.assoc dest: bit_imp_le_length)
  moreover have "(ucast b0 OR push_bit 8 (ucast b1) OR push_bit 16 (ucast b2)) + push_bit 24 (ucast b3) = le32 b0 b1 b2 b3"
    unfolding le32_def
    by (rule disjunctive_add_eq_or [THEN trans], rule bit_word_eqI)
       (auto simp: bit_simps or.assoc dest: bit_imp_le_length)
  ultimately show ?thesis by simp
qed

lemma le16_add: "le16 b0 b1 = ucast b0 + push_bit 8 (ucast b1)"
  unfolding le16_def
  by (rule disjunctive_add_eq_or [symmetric], rule bit_word_eqI) (auto simp: bit_simps dest: bit_imp_le_length)

lemma le32_masks:
  "le32 b0 b1 b2 b3 AND 0xffffff = le32 b0 b1 b2 0"
  "le32 b0 b1 b2 b3 AND 0xffff = le32 b0 b1 0 0"
  "le32 b0 b1 b2 b3 AND 0xff = le32 b0 0 0 0"
proof -
  have m: "(0xffffff :: u32) = mask 24" "(0xffff :: u32) = mask 16" "(0xff :: u32) = mask 8"
    by (simp_all add: mask_eq_exp_minus_1)
  show "le32 b0 b1 b2 b3 AND 0xffffff = le32 b0 b1 b2 0"
    unfolding m le32_def by (rule bit_word_eqI) (auto simp: bit_simps dest: bit_imp_le_length)
  show "le32 b0 b1 b2 b3 AND 0xffff = le32 b0 b1 0 0"
    unfolding m le32_def by (rule bit_word_eqI) (auto simp: bit_simps dest: bit_imp_le_length)
  show "le32 b0 b1 b2 b3 AND 0xff = le32 b0 0 0 0"
    unfolding m le32_def by (rule bit_word_eqI) (auto simp: bit_simps dest: bit_imp_le_length)
qed

lemma le32_0: "le32 0 0 0 0 = 0"
  by (simp add: le32_def)

lemma mem_read_off: "o1 + numeral k < length key \<Longrightarrow> mem_read key (int o1 + numeral k) = Some (key ! (o1 + numeral k))"
  using mem_read_int [of "o1 + numeral k" key] by simp

lemma mem_read_off': "o1 + numeral k < length key \<Longrightarrow> mem_read key (numeral k + int o1) = Some (key ! (o1 + numeral k))"
  using mem_read_off [of o1 k key] by (simp add: add.commute)

lemma mem_read_off1:
  "Suc o1 < length key \<Longrightarrow> mem_read key (int o1 + 1) = Some (key ! Suc o1)"
  "Suc o1 < length key \<Longrightarrow> mem_read key (1 + int o1) = Some (key ! Suc o1)"
  by (simp_all add: mem_read_def nat_add_distrib)

lemma upto12: "n \<le> 12 \<Longrightarrow> n \<in> {0, 1, 2, 3, 4, 5, 6, 7, 8, 9, 10, 11, 12 :: nat}"
  unfolding insert_iff empty_iff by arith

lemma byte_at_key: "o1 + n \<le> length key \<Longrightarrow> byte_at (take n (drop o1 key)) i = (if i < n then key ! (o1 + i) else 0)"
  by (auto simp: byte_at_def)

lemmas key_simps = byte_at_key read32_def read16_def word16_def add_byte_def mem_read_off mem_read_off' mem_read_off1

lemma tail32_ref:
  assumes "n \<le> 12" and "o1 + 4 * ((n + 3) div 4) \<le> length key"
  shows "jenkins_tail32 key (int o1) n s =
    Some (if n = 0 then None else Some (add_block (take n (drop o1 key)) s))"
proof -
  obtain a b c where s: "s = (a, b, c)" by (cases s)
  show ?thesis
    using upto12 [OF assms(1)] assms(2)
    by (elim insertE emptyE; simp add: jenkins_tail32_def s add_block_def word_at_def key_simps le32_masks le32_0)
qed

lemma tail16_ref:
  assumes "n \<le> 12" and "o1 + n \<le> length key"
  shows "jenkins_tail16 key (int o1) n s =
    Some (if n = 0 then None else Some (add_block (take n (drop o1 key)) s))"
proof -
  obtain a b c where s: "s = (a, b, c)" by (cases s)
  show ?thesis
    using upto12 [OF assms(1)] assms(2)
    by (elim insertE emptyE; simp add: jenkins_tail16_def s add_block_def word_at_def key_simps le32_add le16_add
        push_bit_add ac_simps)
qed

lemma tail8_ref:
  assumes "n \<le> 12" and "o1 + n \<le> length key"
  shows "jenkins_tail8 key (int o1) n s =
    Some (if n = 0 then None else Some (add_block (take n (drop o1 key)) s))"
proof -
  obtain a b c where s: "s = (a, b, c)" by (cases s)
  show ?thesis
    using upto12 [OF assms(1)] assms(2)
    by (elim insertE emptyE; simp add: jenkins_tail8_def s add_block_def word_at_def key_simps le32_add ac_simps)
qed

section \<open>The three bodies\<close>

text \<open>What follows the choice of a body: the loop over blocks of twelve bytes, the switch and the final mix.\<close>

definition jenkins_run ::
    "(u8 list \<Rightarrow> int \<Rightarrow> nat \<Rightarrow> u32 \<times> u32 \<times> u32 \<Rightarrow> (int \<times> nat \<times> u32 \<times> u32 \<times> u32) option) \<Rightarrow>
     (u8 list \<Rightarrow> int \<Rightarrow> nat \<Rightarrow> u32 \<times> u32 \<times> u32 \<Rightarrow> (u32 \<times> u32 \<times> u32) option option) \<Rightarrow>
     u8 list \<Rightarrow> int \<Rightarrow> nat \<Rightarrow> u32 \<times> u32 \<times> u32 \<Rightarrow> u32 option" where
  "jenkins_run loop tail key off len s = do {
     (off, rem, a, b, c) \<leftarrow> loop key off len s;
     r \<leftarrow> tail key off rem (a, b, c);
     Some (case r of None \<Rightarrow> c | Some s \<Rightarrow> final s) }"

text \<open>A body computes the reference when its loop takes one block as the reference does and its switch adds
  the last bytes; \<open>fits\<close> is the memory that the body needs behind an offset.\<close>

lemma run_is_lookup3:
  assumes block: "\<And>o1 n s. 12 < n \<Longrightarrow> fits o1 n \<Longrightarrow>
      loop key (int o1) n s = loop key (int (o1 + 12)) (n - 12) (mix (add_block (take n (drop o1 key)) s))"
    and stop: "\<And>o1 n s. n \<le> 12 \<Longrightarrow> loop key (int o1) n s = Some (int o1, n, s)"
    and tail: "\<And>o1 n s. n \<le> 12 \<Longrightarrow> fits o1 n \<Longrightarrow> tail key (int o1) n s =
      Some (if n = 0 then None else Some (add_block (take n (drop o1 key)) s))"
    and fits: "\<And>o1 n. 12 < n \<Longrightarrow> fits o1 n \<Longrightarrow> fits (o1 + 12) (n - 12)" "\<And>o1 n. fits o1 n \<Longrightarrow> o1 + n \<le> length key"
  shows "fits o1 n \<Longrightarrow> jenkins_run loop tail key (int o1) n s = Some (lookup3 (take n (drop o1 key)) s)"
proof (induction n arbitrary: o1 s rule: less_induct)
  case (less n)
  let ?bs = "take n (drop o1 key)"
  have len: "length ?bs = n" using fits(2) [OF less.prems] by simp
  show ?case
  proof (cases "12 < n")
    case True
    have "drop 12 ?bs = take (n - 12) (drop (o1 + 12) key)" by (simp add: drop_take add.commute)
    then have "lookup3 ?bs s = lookup3 (take (n - 12) (drop (o1 + 12) key)) (mix (add_block ?bs s))"
      using True len by (subst lookup3.simps) simp
    moreover have "jenkins_run loop tail key (int o1) n s =
        jenkins_run loop tail key (int (o1 + 12)) (n - 12) (mix (add_block ?bs s))"
      by (simp only: jenkins_run_def block [OF True less.prems])
    ultimately show ?thesis using less.IH [of "n - 12" "o1 + 12"] fits(1) [OF True less.prems] True by simp
  next
    case False
    obtain a b c where s: "s = (a, b, c)" by (cases s)
    have "?bs = [] \<longleftrightarrow> n = 0" using len by (metis length_0_conv)
    then have "lookup3 ?bs s = (if n = 0 then c else final (add_block ?bs s))"
      using False len s by (subst lookup3.simps) simp
    then show ?thesis using False stop [of n o1 s] tail [of n o1 s] less.prems
      by (simp add: jenkins_run_def s)
  qed
qed

lemma run32:
  "o1 + 4 * ((n + 3) div 4) \<le> length key \<Longrightarrow>
     jenkins_run jenkins_loop32 jenkins_tail32 key (int o1) n s = Some (lookup3 (take n (drop o1 key)) s)"
proof (rule run_is_lookup3 [where fits = "\<lambda>o1 n. o1 + 4 * ((n + 3) div 4) \<le> length key"])
  fix o1 n and s :: "u32 \<times> u32 \<times> u32"
  obtain a b c where s: "s = (a, b, c)" by (cases s)
  assume n: "12 < n" "o1 + 4 * ((n + 3) div 4) \<le> length key"
  then have "o1 + n \<le> length key" by linarith
  with n show "jenkins_loop32 key (int o1) n s =
      jenkins_loop32 key (int (o1 + 12)) (n - 12) (mix (add_block (take n (drop o1 key)) s))"
    unfolding s by (subst jenkins_loop32.simps) (simp add: add_block_def word_at_def key_simps add.commute)
next
  fix o1 n assume "12 < n" "o1 + 4 * ((n + 3) div 4) \<le> length key"
  moreover have "n + 3 = (n - 12 + 3) + 4 * 3" using \<open>12 < n\<close> by simp
  then have "(n + 3) div 4 = (n - 12 + 3) div 4 + 3" by simp
  ultimately show "o1 + 12 + 4 * ((n - 12 + 3) div 4) \<le> length key" by simp
qed (auto simp: tail32_ref jenkins_loop32.simps)

lemma run16:
  "o1 + n \<le> length key \<Longrightarrow>
     jenkins_run jenkins_loop16 jenkins_tail16 key (int o1) n s = Some (lookup3 (take n (drop o1 key)) s)"
proof (rule run_is_lookup3 [where fits = "\<lambda>o1 n. o1 + n \<le> length key"])
  fix o1 n and s :: "u32 \<times> u32 \<times> u32"
  obtain a b c where s: "s = (a, b, c)" by (cases s)
  assume n: "12 < n" "o1 + n \<le> length key"
  then show "jenkins_loop16 key (int o1) n s =
      jenkins_loop16 key (int (o1 + 12)) (n - 12) (mix (add_block (take n (drop o1 key)) s))"
    unfolding s by (subst jenkins_loop16.simps)
       (simp add: add_block_def word_at_def key_simps le32_add le16_add push_bit_add ac_simps)
qed (auto simp: tail16_ref jenkins_loop16.simps)

lemma run8:
  "o1 + n \<le> length key \<Longrightarrow>
     jenkins_run jenkins_loop8 jenkins_tail8 key (int o1) n s = Some (lookup3 (take n (drop o1 key)) s)"
proof (rule run_is_lookup3 [where fits = "\<lambda>o1 n. o1 + n \<le> length key"])
  fix o1 n and s :: "u32 \<times> u32 \<times> u32"
  obtain a b c where s: "s = (a, b, c)" by (cases s)
  assume n: "12 < n" "o1 + n \<le> length key"
  then show "jenkins_loop8 key (int o1) n s =
      jenkins_loop8 key (int (o1 + 12)) (n - 12) (mix (add_block (take n (drop o1 key)) s))"
    unfolding s by (subst jenkins_loop8.simps)
       (simp add: add_block_def word_at_def key_simps le32_add ac_simps)
qed (auto simp: tail8_ref jenkins_loop8.simps)

lemma jenkins_as_run:
  "stl_hash_jenkins addr key n =
     (if addr mod 4 = 0 then jenkins_run jenkins_loop32 jenkins_tail32
      else if addr mod 2 = 0 then jenkins_run jenkins_loop16 jenkins_tail16
      else jenkins_run jenkins_loop8 jenkins_tail8) key (int 0) n (jenkins_seed n)"
  by (simp add: stl_hash_jenkins_def jenkins_run_def jenkins_seed_def Let_def)

text \<open>C16: Whatever the alignment of the key, the hash is the lookup3 function of its bytes: the bodies for
  32-bit, 16-bit and byte access agree, as long as the memory reaches to the end of the key's last
  32-bit word.\<close>

theorem jenkins_alignment_independent:
  assumes "4 * ((n + 3) div 4) \<le> length key"
  shows "stl_hash_jenkins addr key n = Some (lookup3 (take n key) (jenkins_seed n))"
  using assms run32 [of 0 n key] run16 [of 0 n key] run8 [of 0 n key]
  by (simp add: jenkins_as_run)

theorem jenkins_alignment_independent_witness:
  "stl_hash_jenkins 0 [1, 2, 3, 4, 5, 0, 0, 0] 5 = stl_hash_jenkins 1 [1, 2, 3, 4, 5, 9, 9, 9] 5"
  using jenkins_alignment_independent [of 5 "[1, 2, 3, 4, 5, 0, 0, 0]" 0]
    jenkins_alignment_independent [of 5 "[1, 2, 3, 4, 5, 9, 9, 9]" 1] by simp

text \<open>The body for aligned keys reads whole words: a key whose length is no multiple of four and that
  ends where its memory ends is read beyond its end, while the other two bodies stay inside.\<close>

theorem jenkins_aligned_overreads:
  "stl_hash_jenkins 0 [1, 2, 3, 4, 5] 5 = None \<and> stl_hash_jenkins 2 [1, 2, 3, 4, 5] 5 \<noteq> None \<and>
   stl_hash_jenkins 1 [1, 2, 3, 4, 5] 5 \<noteq> None"
proof (intro conjI)
  show "stl_hash_jenkins 0 [1, 2, 3, 4, 5] 5 = None"
    by (simp add: stl_hash_jenkins_def jenkins_loop32.simps jenkins_tail32_def read32_def mem_read_def Let_def)
qed (use run16 [of 0 5 "[1, 2, 3, 4, 5]"] run8 [of 0 5 "[1, 2, 3, 4, 5]"] in \<open>simp_all add: jenkins_as_run\<close>)

end
