(* ===== verification/Block_Stream.thy ===== *)
theory Block_Stream
  imports Bytes
begin

text \<open>
  What the two message digests of the library share. A digest context holds a byte count, a chaining
  state and a buffer of 64 bytes with the bytes that do not fill a block yet. \<open>block_loop\<close> is the
  \<open>do ... while (size -= 64)\<close> loop of both \<open>stl_md5_body\<close> and \<open>stl_sha1_body\<close>; \<open>blocks\<close> is its
  reference on a byte list. \<open>absorbs\<close> says which message a context stands for, and the lemmas show
  what each way of updating a context does to that message.

  The locale \<open>digest\<close> is the interface of a digest for its users: initialise, update, finish. Inside
  it is shown once that the result depends only on the concatenation of the pieces that were fed in.
\<close>

section \<open>The loop over blocks\<close>

function block_loop :: "('s \<Rightarrow> u8 list \<Rightarrow> 's) \<Rightarrow> 's \<Rightarrow> u8 list \<Rightarrow> nat \<Rightarrow> nat \<Rightarrow> ('s \<times> nat) option" where
  "block_loop f s data p n =
     (if p + 64 \<le> length data then
        let s = f s (take 64 (drop p data)); n = (n + 2 ^ 64 - 64) mod 2 ^ 64 in
        if n = 0 then Some (s, p + 64) else block_loop f s data (p + 64) n
      else None)"
  by auto
termination
  by (relation "measure (\<lambda>(f, s, data, p, n). length data - p)") auto

declare block_loop.simps [simp del]

fun blocks :: "('s \<Rightarrow> u8 list \<Rightarrow> 's) \<Rightarrow> 's \<Rightarrow> u8 list \<Rightarrow> 's" where
  "blocks f s xs = (if 64 \<le> length xs then blocks f (f s (take 64 xs)) (drop 64 xs) else s)"

declare blocks.simps [simp del]

lemma blocks_short: "length xs < 64 \<Longrightarrow> blocks f s xs = s"
  by (simp add: blocks.simps)

lemma blocks_one: "length xs = 64 \<Longrightarrow> blocks f s xs = f s xs"
  by (simp add: blocks.simps [of f s] blocks_short)

lemma blocks_append: "64 dvd length xs \<Longrightarrow> blocks f s (xs @ ys) = blocks f (blocks f s xs) ys"
proof (induction f s xs rule: blocks.induct)
  case (1 f s xs)
  show ?case
  proof (cases "64 \<le> length xs")
    case True
    have "64 dvd length (drop 64 xs)" using "1.prems" by (simp add: dvd_diff_nat)
    from "1.IH" [OF True this] show ?thesis
      using True blocks.simps [of f s "xs @ ys"] blocks.simps [of f s xs] by simp
  next
    case False
    with "1.prems" have "xs = []" by (metis dvd_imp_le length_0_conv gr0I)
    then show ?thesis by (simp add: blocks_short)
  qed
qed

lemma blocks_tail: "length ys < 64 \<Longrightarrow> 64 dvd length xs \<Longrightarrow> blocks f s (xs @ ys) = blocks f s xs"
  by (simp add: blocks_append blocks_short)

lemma block_loop_blocks:
  assumes "0 < n" and "64 dvd n" and "p + n \<le> length data" and "n < 2 ^ 64"
  shows "block_loop f s data p n = Some (blocks f s (take n (drop p data)), p + n)"
  using assms
proof (induction f s data p n rule: block_loop.induct)
  case (1 f s data p n)
  have n: "64 \<le> n" using "1.prems" by (auto dest: dvd_imp_le)
  then have wrap: "(n + 2 ^ 64 - 64) mod 2 ^ 64 = n - 64"
  proof -
    have "n + 2 ^ 64 - 64 = (n - 64) + 2 ^ 64" using n by simp
    then show ?thesis using "1.prems"(4) n by (simp only: mod_add_self2) simp
  qed
  have fits: "p + 64 \<le> length data" using "1.prems" n by simp
  have split: "blocks f s (take n (drop p data)) =
      blocks f (f s (take 64 (drop p data))) (take (n - 64) (drop (p + 64) data))"
  proof -
    have "length (take n (drop p data)) = n" using "1.prems"(3) by simp
    moreover have "take 64 (take n (drop p data)) = take 64 (drop p data)" using n by simp
    moreover have "drop 64 (take n (drop p data)) = take (n - 64) (drop (p + 64) data)"
      by (simp add: drop_take add.commute)
    ultimately show ?thesis using n by (subst blocks.simps) simp
  qed
  show ?case
  proof (cases "n = 64")
    case True
    then show ?thesis using fits wrap split by (subst block_loop.simps) (simp add: blocks_short Let_def)
  next
    case False
    then have "block_loop f (f s (take 64 (drop p data))) data (p + 64) (n - 64) =
        Some (blocks f (f s (take 64 (drop p data))) (take (n - 64) (drop (p + 64) data)), p + 64 + (n - 64))"
      using "1.IH" [OF fits refl wrap [symmetric]] "1.prems" n by (simp add: dvd_diff_nat)
    then show ?thesis using fits wrap split n False
      by (subst block_loop.simps) (simp add: Let_def)
  qed
qed

section \<open>The message a context stands for\<close>

definition absorbs :: "('s \<Rightarrow> u8 list \<Rightarrow> 's) \<Rightarrow> 's \<Rightarrow> u64 \<Rightarrow> 's \<Rightarrow> u8 list \<Rightarrow> u8 list \<Rightarrow> bool" where
  "absorbs f s0 cnt s buf m \<longleftrightarrow> length buf = 64 \<and> cnt = word_of_nat (length m) \<and> s = blocks f s0 m \<and>
     take (length m mod 64) buf = drop (length m - length m mod 64) m"

lemma and_3f: "unat (w AND 0x3f) = unat (w :: u64) mod 64"
proof -
  have "w AND 0x3f = take_bit 6 w" by (simp add: take_bit_eq_mask mask_eq_exp_minus_1)
  then show ?thesis by (simp only: unsigned_take_bit_eq) (simp add: take_bit_eq_mod)
qed

lemma absorbs_used:
  assumes "absorbs f s0 cnt s buf m"
  shows "unat (cnt AND 0x3f) = length m mod 64"
proof -
  have "unat cnt = length m mod 2 ^ 64" using assms by (simp add: absorbs_def unsigned_of_nat take_bit_eq_mod)
  moreover have "(64 :: nat) dvd 2 ^ 64" by (simp add: dvd_def)
  ultimately show ?thesis by (simp add: and_3f mod_mod_cancel)
qed

lemma absorbs_init: "length buf = 64 \<Longrightarrow> absorbs f s0 0 s0 buf []"
  by (simp add: absorbs_def blocks_short)

text \<open>The message is its whole blocks, which the state stands for, and the rest, which is in the buffer.\<close>

lemma absorbs_split:
  assumes "absorbs f s0 cnt s buf m"
  obtains w r where "m = w @ r" "64 dvd length w" "length r = length m mod 64"
    "take (length r) buf = r" "s = blocks f s0 w" "length buf = 64" "cnt = word_of_nat (length m)"
proof
  let ?k = "length m - length m mod 64"
  show "m = take ?k m @ drop ?k m" by simp
  show w: "64 dvd length (take ?k m)" by (simp add: min_absorb2 dvd_minus_mod)
  show r: "length (drop ?k m) = length m mod 64" by simp
  then show "take (length (drop ?k m)) buf = drop ?k m" using assms by (simp add: absorbs_def)
  have "blocks f s0 (take ?k m @ drop ?k m) = blocks f s0 (take ?k m)"
    by (intro blocks_tail w) (simp add: r)
  then show "s = blocks f s0 (take ?k m)" using assms by (simp add: absorbs_def)
qed (use assms in \<open>simp_all add: absorbs_def\<close>)

lemma absorbs_joinI:
  assumes "64 dvd length w" and "length r < 64" and "take (length r) buf = r" and "length buf = 64"
    and "s = blocks f s0 w" and "cnt = word_of_nat (length w + length r)" and "m = w @ r"
  shows "absorbs f s0 cnt s buf m"
  using assms by (auto simp: absorbs_def blocks_tail dvd_eq_mod_eq_0 mod_add_eq [symmetric])

lemma absorbs_small:
  assumes "absorbs f s0 cnt s buf m" and "length m mod 64 + n < 64" and "n \<le> length d"
  shows "absorbs f s0 (cnt + word_of_nat n) s
    (take (length m mod 64) buf @ take n d @ drop (length m mod 64 + n) buf) (m @ take n d)"
proof -
  from assms(1) obtain w r where m: "m = w @ r" "64 dvd length w" "length r = length m mod 64"
    "take (length r) buf = r" "s = blocks f s0 w" "length buf = 64" "cnt = word_of_nat (length m)"
    by (rule absorbs_split)
  show ?thesis
    by (rule absorbs_joinI [of w "r @ take n d"])
       (use m assms(2,3) in \<open>simp_all flip: m(3)\<close>)
qed

lemma absorbs_fill:
  assumes "absorbs f s0 cnt s buf m" and "k = 64 - length m mod 64" and "k \<le> length d"
    and "b = take (length m mod 64) buf @ take k d"
  shows "absorbs f s0 (cnt + word_of_nat k) (f s b) b (m @ take k d)" and "length b = 64"
    and "64 dvd length (m @ take k d)"
proof -
  from assms(1) obtain w r where m: "m = w @ r" "64 dvd length w" "length r = length m mod 64"
    "take (length r) buf = r" "s = blocks f s0 w" "length buf = 64" "cnt = word_of_nat (length m)"
    by (rule absorbs_split)
  have r: "length r < 64" using m(3) by simp
  have b: "b = r @ take k d" using assms(4) m(3,4) by simp
  have lb: "length b = 64" using assms(2,3) m(3) r by (simp add: b)
  have "blocks f s0 (w @ b) = f s b" using m(2,5) lb by (simp add: blocks_append blocks_one)
  moreover have "m @ take k d = w @ b" using m(1) b by simp
  moreover have "64 dvd length (w @ b)" using m(2) lb by simp
  moreover have "word_of_nat (length (w @ b)) = cnt + word_of_nat k"
    using m(7) assms(2,3) m(1) b by simp
  ultimately show "absorbs f s0 (cnt + word_of_nat k) (f s b) b (m @ take k d)" "64 dvd length (m @ take k d)"
    using lb by (auto simp: absorbs_def)
  show "length b = 64" by (rule lb)
qed

lemma absorbs_whole:
  assumes "absorbs f s0 cnt s buf m" and "64 dvd length m" and "64 dvd n" and "n \<le> length d"
  shows "absorbs f s0 (cnt + word_of_nat n) (blocks f s (take n d)) buf (m @ take n d)"
  using assms by (auto simp: absorbs_def blocks_append)

lemma absorbs_rest:
  assumes "absorbs f s0 cnt s buf m" and "64 dvd length m" and "n < 64" and "n \<le> length d"
  shows "absorbs f s0 (cnt + word_of_nat n) s (take n d @ drop n buf) (m @ take n d)"
  using absorbs_small [OF assms(1), of n d] assms(2-4) by simp

lemma absorbs_blocks:
  assumes "absorbs f s0 cnt s buf m" and "64 dvd length m" and "n \<le> length d"
  shows "absorbs f s0 (cnt + word_of_nat n) (blocks f s (take (n - n mod 64) d))
    (take (n mod 64) (drop (n - n mod 64) d) @ drop (n mod 64) buf) (m @ take n d)"
proof -
  let ?w = "n - n mod 64"
  have w: "64 dvd ?w" "?w \<le> length d" "n mod 64 < 64" "n mod 64 \<le> length (drop ?w d)"
    using assms(3) by (simp_all add: dvd_minus_mod)
  have "length (take ?w d) = ?w" using w(2) by simp
  then have "64 dvd length (m @ take ?w d)" by (simp only: length_append dvd_add [OF assms(2) w(1)])
  note absorbs_rest [OF absorbs_whole [OF assms(1,2) w(1,2)] this w(3,4)]
  moreover have "cnt + word_of_nat ?w + word_of_nat (n mod 64) = cnt + word_of_nat n"
    by (simp add: add.assoc flip: of_nat_add)
  moreover have "take ?w d @ take (n mod 64) (drop ?w d) = take n d"
    by (simp flip: take_add)
  ultimately show ?thesis by simp
qed

section \<open>Padding\<close>

text \<open>A message is completed by the byte 0x80, zeros and the eight bytes \<open>e\<close> of its length.\<close>

definition pad_message :: "u8 list \<Rightarrow> u8 list \<Rightarrow> u8 list" where
  "pad_message e m = m @ 0x80 # replicate ((119 - length m mod 64) mod 64) 0 @ e"

lemma absorbs_pad_one:
  assumes "absorbs f s0 cnt s buf m" and "length m mod 64 \<le> 55" and "length e = 8"
  shows "f s (take (length m mod 64) buf @ 0x80 # replicate (55 - length m mod 64) 0 @ e) =
    blocks f s0 (pad_message e m)"
proof -
  from assms(1) obtain w r where m: "m = w @ r" "64 dvd length w" "length r = length m mod 64"
    "take (length r) buf = r" "s = blocks f s0 w" "length buf = 64" "cnt = word_of_nat (length m)"
    by (rule absorbs_split)
  let ?b = "r @ 0x80 # replicate (55 - length r) 0 @ e"
  have lb: "length ?b = 64" using assms(2,3) m(3) by simp
  have "119 - length m mod 64 = (55 - length m mod 64) + 64" using assms(2) by simp
  then have "(119 - length m mod 64) mod 64 = (55 - length m mod 64) mod 64" by (simp only: mod_add_self2)
  then have "pad_message e m = w @ ?b" unfolding pad_message_def m(3) using assms(2) by (simp add: m(1))
  moreover have "blocks f s0 (w @ ?b) = f s ?b"
    by (simp only: blocks_append [OF m(2)] blocks_one [OF lb] m(5))
  ultimately show ?thesis by (simp only: m(3) [symmetric] m(4))
qed

lemma absorbs_pad_two:
  assumes "absorbs f s0 cnt s buf m" and "55 < length m mod 64" and "length e = 8"
  shows "f (f s (take (length m mod 64) buf @ 0x80 # replicate (63 - length m mod 64) 0)) (replicate 56 0 @ e) =
    blocks f s0 (pad_message e m)"
proof -
  from assms(1) obtain w r where m: "m = w @ r" "64 dvd length w" "length r = length m mod 64"
    "take (length r) buf = r" "s = blocks f s0 w" "length buf = 64" "cnt = word_of_nat (length m)"
    by (rule absorbs_split)
  have r: "length m mod 64 < 64" by simp
  let ?b = "r @ 0x80 # replicate (63 - length r) 0" and ?c = "replicate 56 0 @ e"
  have lb: "length ?b = 64" using m(3) r by simp
  have lc: "length ?c = 64" using assms(3) by simp
  have "(119 - length m mod 64) mod 64 = (63 - length m mod 64) + 56" using assms(2) r by simp
  then have "pad_message e m = (w @ ?b) @ ?c"
    by (simp only: pad_message_def replicate_add m(3)) (simp add: m(1))
  moreover have "blocks f s0 ((w @ ?b) @ ?c) = f (f s ?b) ?c"
  proof -
    have "64 dvd length (w @ ?b)" using m(2) lb by simp
    then show ?thesis
      by (simp only: blocks_append [OF m(2)] blocks_append [of "w @ ?b"] blocks_one [OF lb] blocks_one [OF lc] m(5))
  qed
  ultimately show ?thesis by (simp only: m(3) [symmetric] m(4))
qed

lemma last8_updates:
  assumes "length buf = 64"
  shows "buf[56 := a, 57 := b, 58 := c, 59 := d, 60 := e, 61 := f, 62 := g, 63 := h] =
    take 56 buf @ [a, b, c, d, e, f, g, h]"
proof -
  have len: "length (drop 56 buf) = Suc (Suc (Suc (Suc (Suc (Suc (Suc (Suc 0)))))))" using assms by simp
  obtain t0 t1 t2 t3 t4 t5 t6 t7 where t: "drop 56 buf = [t0, t1, t2, t3, t4, t5, t6, t7]"
    using len [unfolded length_Suc_conv] by auto
  obtain u where u: "take 56 buf = u" "length u = 56" using assms by simp
  have "buf = u @ [t0, t1, t2, t3, t4, t5, t6, t7]" using t u(1) by (metis append_take_drop_id)
  then show ?thesis using u(2) by (simp add: list_update_append)
qed

text \<open>The writes that put the padding into a buffer.\<close>

lemma pad_marker:
  "length buf = 64 \<Longrightarrow> u < 64 \<Longrightarrow> mem_write buf (int u) x = Some (take u buf @ x # drop (u + 1) buf)"
  by (simp add: mem_write_def upd_conv_take_nth_drop)

lemma pad_zeros:
  assumes "length buf = 64" and "u < 64"
  shows "u \<le> 55 \<Longrightarrow> memzero (take u buf @ x # drop (u + 1) buf) (u + 1) (55 - u) =
      Some (take u buf @ x # replicate (55 - u) 0 @ drop 56 buf)"
    and "memzero (take u buf @ x # drop (u + 1) buf) (u + 1) (63 - u) =
      Some (take u buf @ x # replicate (63 - u) 0)"
proof -
  assume "u \<le> 55"
  then have "56 - u = Suc (55 - u)" by simp
  then show "memzero (take u buf @ x # drop (u + 1) buf) (u + 1) (55 - u) =
      Some (take u buf @ x # replicate (55 - u) 0 @ drop 56 buf)"
    using assms \<open>u \<le> 55\<close> by (simp add: memzero_def memcpy_def)
qed (use assms in \<open>simp add: memzero_def memcpy_def\<close>)

lemma pad_take56:
  assumes "length buf = 64" and "u \<le> 55"
  shows "take 56 (take u buf @ x # replicate (55 - u) 0 @ rest) = take u buf @ x # replicate (55 - u) 0"
proof -
  have "56 - u = Suc (55 - u)" using assms(2) by simp
  then show ?thesis using assms by simp
qed

lemma zero_56: "length b = 64 \<Longrightarrow> memzero b 0 56 = Some (replicate 56 0 @ drop 56 b)"
  by (simp add: memzero_def memcpy_def)

lemma word_of_nat_split: "k \<le> n \<Longrightarrow> c + word_of_nat n = c + word_of_nat k + (word_of_nat (n - k) :: u64)"
  by (simp add: add.assoc flip: of_nat_add)

lemma push3_of_nat: "push_bit 3 (word_of_nat n :: u64) = word_of_nat (8 * n)"
  by (simp add: push_bit_eq_mult mult.commute)

section \<open>The interface of a digest\<close>

locale digest =
  fixes init :: 'c
    and update :: "'c \<Rightarrow> u8 list \<Rightarrow> 'c option"
    and finish :: "'c \<Rightarrow> 'r option"
    and holds :: "'c \<Rightarrow> u8 list \<Rightarrow> bool"
    and hash :: "u8 list \<Rightarrow> 'r"
  assumes init_holds: "holds init []"
    and update_holds: "holds c m \<Longrightarrow> length d < 2 ^ 64 \<Longrightarrow> \<exists>c'. update c d = Some c' \<and> holds c' (m @ d)"
    and finish_hash: "holds c m \<Longrightarrow> finish c = Some (hash m)"
begin

lemma feed_holds:
  "holds c m \<Longrightarrow> \<forall>d\<in>set ds. length d < 2 ^ 64 \<Longrightarrow>
     \<exists>c'. for_each (\<lambda>d c. update c d) ds c = Some c' \<and> holds c' (m @ concat ds)"
proof (induction ds arbitrary: c m)
  case Nil
  then show ?case by simp
next
  case (Cons d ds)
  then obtain c' where "update c d = Some c'" "holds c' (m @ d)" using update_holds [of c m d] by auto
  with Cons.IH [of c' "m @ d"] Cons.prems(2) show ?case by simp
qed

text \<open>However a message is cut into pieces, its digest is the same.\<close>

lemma digest_of_pieces:
  assumes "\<forall>d\<in>set ds. length d < 2 ^ 64"
  shows "Option.bind (for_each (\<lambda>d c. update c d) ds init) finish = Some (hash (concat ds))"
  using feed_holds [OF init_holds assms] finish_hash by auto

end

end
