(* ===== verification/Md5.thy ===== *)
theory Md5
  imports Block_Stream
begin

text \<open>
  The MD5 digest (\<open>stl_md5.c\<close>). The context is the record \<open>stl_md5\<close>; a freed or NULL context
  does not occur, since the code never checks for one. \<open>stl_md5_body\<close> runs \<open>md5_block\<close> over the
  blocks of its argument; the 64 \<open>STEP\<close> lines are the four lists of message index, constant and
  shift, in the order of the source, where the roles of the four registers rotate by one from line
  to line. Sizes are naturals below \<open>2 ^ 64\<close>.

  The reference \<open>md5\<close> is RFC 1321: its auxiliary functions, its schedule of message words and
  shifts, and its padding.
\<close>

section \<open>Model\<close>

record stl_md5 =
  bytes :: u64
  md5_a :: u32
  md5_b :: u32
  md5_c :: u32
  md5_d :: u32
  buffer :: "u8 list"

definition stl_md5_init :: "stl_md5 \<Rightarrow> stl_md5" where
  "stl_md5_init ctx = ctx\<lparr>md5_a := 0x67452301, md5_b := 0xefcdab89, md5_c := 0x98badcfe, md5_d := 0x10325476,
     buffer := replicate 64 0, bytes := 0\<rparr>"

definition stl_md5_zero :: stl_md5 where
  "stl_md5_zero = \<lparr>bytes = 0, md5_a = 0, md5_b = 0, md5_c = 0, md5_d = 0, buffer = replicate 64 0\<rparr>"

definition stl_md5_alloc :: stl_md5 where
  "stl_md5_alloc = stl_md5_init stl_md5_zero"

definition md5_F :: "u32 \<Rightarrow> u32 \<Rightarrow> u32 \<Rightarrow> u32" where "md5_F x y z = z XOR (x AND (y XOR z))"
definition md5_G :: "u32 \<Rightarrow> u32 \<Rightarrow> u32 \<Rightarrow> u32" where "md5_G x y z = y XOR (z AND (x XOR y))"
definition md5_H :: "u32 \<Rightarrow> u32 \<Rightarrow> u32 \<Rightarrow> u32" where "md5_H x y z = x XOR y XOR z"
definition md5_I :: "u32 \<Rightarrow> u32 \<Rightarrow> u32 \<Rightarrow> u32" where "md5_I x y z = y XOR (x OR NOT z)"

type_synonym md5_regs = "u32 \<times> u32 \<times> u32 \<times> u32"

text \<open>One \<open>STEP\<close>; the result has the registers in the roles they have in the next line.\<close>

definition md5_step :: "(u32 \<Rightarrow> u32 \<Rightarrow> u32 \<Rightarrow> u32) \<Rightarrow> u32 list \<Rightarrow> nat \<times> u32 \<times> nat \<Rightarrow> md5_regs \<Rightarrow> md5_regs" where
  "md5_step f x line r = (let (n, t, s) = line; (a, b, c, d) = r;
     a = a + (f b c d + x ! n + t);
     a = push_bit s a OR drop_bit (32 - s) (a AND 0xffffffff);
     a = a + b
   in (d, a, b, c))"

text \<open>\<open>SET\<close>: the sixteen little-endian words of a block.\<close>

definition md5_set :: "u8 list \<Rightarrow> u32 list" where
  "md5_set p = map (\<lambda>n. ucast (p ! (4 * n)) OR push_bit 8 (ucast (p ! (4 * n + 1))) OR
     push_bit 16 (ucast (p ! (4 * n + 2))) OR push_bit 24 (ucast (p ! (4 * n + 3)))) [0..<16]"

definition md5_round1 :: "(nat \<times> u32 \<times> nat) list" where
  "md5_round1 = [
     (0, 0xd76aa478, 7), (1, 0xe8c7b756, 12), (2, 0x242070db, 17), (3, 0xc1bdceee, 22),
     (4, 0xf57c0faf, 7), (5, 0x4787c62a, 12), (6, 0xa8304613, 17), (7, 0xfd469501, 22),
     (8, 0x698098d8, 7), (9, 0x8b44f7af, 12), (10, 0xffff5bb1, 17), (11, 0x895cd7be, 22),
     (12, 0x6b901122, 7), (13, 0xfd987193, 12), (14, 0xa679438e, 17), (15, 0x49b40821, 22)]"

definition md5_round2 :: "(nat \<times> u32 \<times> nat) list" where
  "md5_round2 = [
     (1, 0xf61e2562, 5), (6, 0xc040b340, 9), (11, 0x265e5a51, 14), (0, 0xe9b6c7aa, 20),
     (5, 0xd62f105d, 5), (10, 0x02441453, 9), (15, 0xd8a1e681, 14), (4, 0xe7d3fbc8, 20),
     (9, 0x21e1cde6, 5), (14, 0xc33707d6, 9), (3, 0xf4d50d87, 14), (8, 0x455a14ed, 20),
     (13, 0xa9e3e905, 5), (2, 0xfcefa3f8, 9), (7, 0x676f02d9, 14), (12, 0x8d2a4c8a, 20)]"

definition md5_round3 :: "(nat \<times> u32 \<times> nat) list" where
  "md5_round3 = [
     (5, 0xfffa3942, 4), (8, 0x8771f681, 11), (11, 0x6d9d6122, 16), (14, 0xfde5380c, 23),
     (1, 0xa4beea44, 4), (4, 0x4bdecfa9, 11), (7, 0xf6bb4b60, 16), (10, 0xbebfbc70, 23),
     (13, 0x289b7ec6, 4), (0, 0xeaa127fa, 11), (3, 0xd4ef3085, 16), (6, 0x04881d05, 23),
     (9, 0xd9d4d039, 4), (12, 0xe6db99e5, 11), (15, 0x1fa27cf8, 16), (2, 0xc4ac5665, 23)]"

definition md5_round4 :: "(nat \<times> u32 \<times> nat) list" where
  "md5_round4 = [
     (0, 0xf4292244, 6), (7, 0x432aff97, 10), (14, 0xab9423a7, 15), (5, 0xfc93a039, 21),
     (12, 0x655b59c3, 6), (3, 0x8f0ccc92, 10), (10, 0xffeff47d, 15), (1, 0x85845dd1, 21),
     (8, 0x6fa87e4f, 6), (15, 0xfe2ce6e0, 10), (6, 0xa3014314, 15), (13, 0x4e0811a1, 21),
     (4, 0xf7537e82, 6), (11, 0xbd3af235, 10), (2, 0x2ad7d2bb, 15), (9, 0xeb86d391, 21)]"

definition md5_block :: "md5_regs \<Rightarrow> u8 list \<Rightarrow> md5_regs" where
  "md5_block saved p = (let x = md5_set p;
     r = fold (md5_step md5_F x) md5_round1 saved;
     r = fold (md5_step md5_G x) md5_round2 r;
     r = fold (md5_step md5_H x) md5_round3 r;
     r = fold (md5_step md5_I x) md5_round4 r;
     (a, b, c, d) = r; (sa, sb, sc, sd) = saved
   in (a + sa, b + sb, c + sc, d + sd))"

text \<open>The result is the context and the offset of the pointer that the code returns.\<close>

definition stl_md5_body :: "stl_md5 \<Rightarrow> u8 list \<Rightarrow> nat \<Rightarrow> (stl_md5 \<times> nat) option" where
  "stl_md5_body ctx data n = do {
     ((a, b, c, d), p) \<leftarrow> block_loop md5_block (md5_a ctx, md5_b ctx, md5_c ctx, md5_d ctx) data 0 n;
     Some (ctx\<lparr>md5_a := a, md5_b := b, md5_c := c, md5_d := d\<rparr>, p) }"

text \<open>The part of \<open>stl_md5_compute\<close> behind the handling of a partly filled buffer.\<close>

definition md5_compute_rest :: "stl_md5 \<Rightarrow> u8 list \<Rightarrow> nat \<Rightarrow> stl_md5 option" where
  "md5_compute_rest ctx data n = do {
     (ctx, data, n) \<leftarrow> (if 64 \<le> n then do {
         (ctx, p) \<leftarrow> stl_md5_body ctx data (n - n mod 64);
         Some (ctx, drop p data, n mod 64) }
       else Some (ctx, data, n));
     b \<leftarrow> memcpy (buffer ctx) 0 data n;
     Some (ctx\<lparr>buffer := b\<rparr>) }"

definition stl_md5_compute :: "stl_md5 \<Rightarrow> u8 list \<Rightarrow> nat \<Rightarrow> stl_md5 option" where
  "stl_md5_compute ctx data n = (let
     used = unat (bytes ctx AND 0x3f);
     ctx = ctx\<lparr>bytes := bytes ctx + word_of_nat n\<rparr> in
   if used \<noteq> 0 then (let free = 64 - used in
     if n < free then do {
       b \<leftarrow> memcpy (buffer ctx) used data n;
       Some (ctx\<lparr>buffer := b\<rparr>) }
     else do {
       b \<leftarrow> memcpy (buffer ctx) used data free;
       (ctx, _) \<leftarrow> stl_md5_body (ctx\<lparr>buffer := b\<rparr>) b 64;
       md5_compute_rest ctx (drop free data) (n - free) })
   else md5_compute_rest ctx data n)"

definition le_bytes :: "'a::len word \<Rightarrow> nat \<Rightarrow> u8 list" where
  "le_bytes w n = map (\<lambda>i. ucast (drop_bit (8 * i) w)) [0..<n]"

text \<open>\<open>"%02x"\<close> of a byte, as character codes.\<close>

definition hex_digit :: "nat \<Rightarrow> u8" where
  "hex_digit n = word_of_nat (if n < 10 then 48 + n else 87 + n)"

definition hex_byte :: "u8 \<Rightarrow> u8 list" where
  "hex_byte b = [hex_digit (unat b div 16), hex_digit (unat b mod 16)]"

text \<open>The \<open>sprintf\<close> loop writes the digits of each byte and a terminating zero.\<close>

definition md5_sprintf :: "u8 list \<Rightarrow> u8 list \<Rightarrow> u8 list option" where
  "md5_sprintf temp result =
     for_each (\<lambda>i r. memcpy r (2 * i) (hex_byte (temp ! i) @ [0]) 3) [0..<16] result"

text \<open>The first part of \<open>stl_md5_checksum\<close>: the padding and the last blocks.\<close>

definition md5_pad :: "stl_md5 \<Rightarrow> stl_md5 option" where
  "md5_pad ctx = do {
     let used = unat (bytes ctx AND 0x3f);
     b \<leftarrow> mem_write (buffer ctx) (int used) 0x80;
     let used = used + 1;
     let free = 64 - used;
     (ctx, used, free) \<leftarrow> (if free < 8 then do {
         b \<leftarrow> memzero b used free;
         (ctx, _) \<leftarrow> stl_md5_body (ctx\<lparr>buffer := b\<rparr>) b 64;
         Some (ctx, 0, 64) }
       else Some (ctx\<lparr>buffer := b\<rparr>, used, free));
     b \<leftarrow> memzero (buffer ctx) used (free - 8);
     let n = push_bit 3 (bytes ctx);
     let b = b[56 := ucast n, 57 := ucast (drop_bit 8 n), 58 := ucast (drop_bit 16 n), 59 := ucast (drop_bit 24 n),
       60 := ucast (drop_bit 32 n), 61 := ucast (drop_bit 40 n), 62 := ucast (drop_bit 48 n), 63 := ucast (drop_bit 56 n)];
     (ctx, _) \<leftarrow> stl_md5_body (ctx\<lparr>bytes := n, buffer := b\<rparr>) b 64;
     Some ctx }"

definition stl_md5_checksum :: "stl_md5 \<Rightarrow> u8 list \<Rightarrow> (stl_md5 \<times> u8 list) option" where
  "stl_md5_checksum ctx result = do {
     ctx \<leftarrow> md5_pad ctx;
     let temp = le_bytes (md5_a ctx) 4 @ le_bytes (md5_b ctx) 4 @ le_bytes (md5_c ctx) 4 @ le_bytes (md5_d ctx) 4;
     result \<leftarrow> md5_sprintf temp result;
     Some (stl_md5_zero, result) }"

section \<open>Reference: RFC 1321\<close>

definition rfc_T :: "u32 list" where
  "rfc_T = [
     0xd76aa478, 0xe8c7b756, 0x242070db, 0xc1bdceee, 0xf57c0faf, 0x4787c62a,
     0xa8304613, 0xfd469501, 0x698098d8, 0x8b44f7af, 0xffff5bb1, 0x895cd7be,
     0x6b901122, 0xfd987193, 0xa679438e, 0x49b40821, 0xf61e2562, 0xc040b340,
     0x265e5a51, 0xe9b6c7aa, 0xd62f105d, 0x02441453, 0xd8a1e681, 0xe7d3fbc8,
     0x21e1cde6, 0xc33707d6, 0xf4d50d87, 0x455a14ed, 0xa9e3e905, 0xfcefa3f8,
     0x676f02d9, 0x8d2a4c8a, 0xfffa3942, 0x8771f681, 0x6d9d6122, 0xfde5380c,
     0xa4beea44, 0x4bdecfa9, 0xf6bb4b60, 0xbebfbc70, 0x289b7ec6, 0xeaa127fa,
     0xd4ef3085, 0x04881d05, 0xd9d4d039, 0xe6db99e5, 0x1fa27cf8, 0xc4ac5665,
     0xf4292244, 0x432aff97, 0xab9423a7, 0xfc93a039, 0x655b59c3, 0x8f0ccc92,
     0xffeff47d, 0x85845dd1, 0x6fa87e4f, 0xfe2ce6e0, 0xa3014314, 0x4e0811a1,
     0xf7537e82, 0xbd3af235, 0x2ad7d2bb, 0xeb86d391]"

definition rfc_fun :: "nat \<Rightarrow> u32 \<Rightarrow> u32 \<Rightarrow> u32 \<Rightarrow> u32" where
  "rfc_fun i x y z =
     (if i < 16 then (x AND y) OR (NOT x AND z)
      else if i < 32 then (x AND z) OR (y AND NOT z)
      else if i < 48 then x XOR y XOR z
      else y XOR (x OR NOT z))"

definition rfc_index :: "nat \<Rightarrow> nat" where
  "rfc_index i = (if i < 16 then i else if i < 32 then 5 * i + 1 else if i < 48 then 3 * i + 5 else 7 * i) mod 16"

definition rfc_shift :: "nat \<Rightarrow> nat" where
  "rfc_shift i = [[7, 12, 17, 22], [5, 9, 14, 20], [4, 11, 16, 23], [6, 10, 15, 21]] ! (i div 16) ! (i mod 4)"

definition rfc_step :: "u32 list \<Rightarrow> nat \<Rightarrow> md5_regs \<Rightarrow> md5_regs" where
  "rfc_step x i r = (let (a, b, c, d) = r in
     (d, b + word_rotl (rfc_shift i) (a + rfc_fun i b c d + x ! rfc_index i + rfc_T ! i), b, c))"

definition rfc_words :: "u8 list \<Rightarrow> u32 list" where
  "rfc_words p = map (\<lambda>n. le32 (p ! (4 * n)) (p ! (4 * n + 1)) (p ! (4 * n + 2)) (p ! (4 * n + 3))) [0..<16]"

definition rfc_block :: "md5_regs \<Rightarrow> u8 list \<Rightarrow> md5_regs" where
  "rfc_block s p = (let (a, b, c, d) = fold (rfc_step (rfc_words p)) [0..<64] s; (sa, sb, sc, sd) = s
     in (a + sa, b + sb, c + sc, d + sd))"

definition md5_padded :: "u8 list \<Rightarrow> u8 list" where
  "md5_padded m = pad_message (le_bytes (word_of_nat (8 * length m) :: u64) 8) m"

definition md5_init :: md5_regs where
  "md5_init = (0x67452301, 0xefcdab89, 0x98badcfe, 0x10325476)"

definition md5 :: "u8 list \<Rightarrow> u8 list" where
  "md5 m = (let (a, b, c, d) = blocks rfc_block md5_init (md5_padded m)
     in le_bytes a 4 @ le_bytes b 4 @ le_bytes c 4 @ le_bytes d 4)"

section \<open>The body is the one of the RFC\<close>

lemma md5_functions:
  "md5_F x y z = (x AND y) OR (NOT x AND z)" "md5_G x y z = (x AND z) OR (y AND NOT z)"
  by (auto intro!: bit_word_eqI simp: md5_F_def md5_G_def bit_simps)

definition rfc_line :: "nat \<Rightarrow> nat \<times> u32 \<times> nat" where
  "rfc_line i = (rfc_index i, rfc_T ! i, rfc_shift i)"

lemma md5_lines:
  "md5_round1 = map rfc_line [0..<16]" "md5_round2 = map rfc_line [16..<32]"
  "md5_round3 = map rfc_line [32..<48]" "md5_round4 = map rfc_line [48..<64]"
  by code_simp+

lemma rfc_shift_range: "i < 64 \<Longrightarrow> 0 < rfc_shift i \<and> rfc_shift i < 32"
proof -
  have "\<forall>i\<in>set [0..<64]. 0 < rfc_shift i \<and> rfc_shift i < 32" by code_simp
  then show "i < 64 \<Longrightarrow> ?thesis" by simp
qed

lemma md5_step_rfc:
  assumes "i < 64" and "\<And>x y z. f x y z = rfc_fun i x y z"
  shows "md5_step f x (rfc_line i) r = rfc_step x i r"
  using rotate_left_u32 [of "rfc_shift i"] rfc_shift_range [OF assms(1)]
  by (simp add: md5_step_def rfc_step_def rfc_line_def assms(2) Let_def and_ones_u32 split_def ac_simps)

lemma fold_lines:
  assumes "u \<le> 64" and "\<And>i x y z. l \<le> i \<Longrightarrow> i < u \<Longrightarrow> f x y z = rfc_fun i x y z"
  shows "fold (md5_step f x) (map rfc_line [l..<u]) r = fold (rfc_step x) [l..<u] r"
proof -
  have "i \<in> set [l..<u] \<Longrightarrow> md5_step f x (rfc_line i) = rfc_step x i" for i
    using assms md5_step_rfc [of i f x] by (intro ext) simp
  then show ?thesis unfolding fold_map by (intro fold_cong) simp_all
qed

lemma md5_block_rfc: "md5_block = rfc_block"
proof (intro ext)
  fix s p
  let ?x = "rfc_words p"
  have x: "md5_set p = ?x" by (simp add: md5_set_def rfc_words_def le32_def)
  have "[0..<64] = [0..<16] @ [16..<32] @ [32..<48] @ [48..<64]" by code_simp
  then have "fold (rfc_step ?x) [0..<64] s =
      fold (rfc_step ?x) [48..<64] (fold (rfc_step ?x) [32..<48]
        (fold (rfc_step ?x) [16..<32] (fold (rfc_step ?x) [0..<16] s)))"
    by (simp only: fold_append comp_apply)
  moreover have "fold (md5_step md5_F ?x) md5_round1 r = fold (rfc_step ?x) [0..<16] r"
    "fold (md5_step md5_G ?x) md5_round2 r = fold (rfc_step ?x) [16..<32] r"
    "fold (md5_step md5_H ?x) md5_round3 r = fold (rfc_step ?x) [32..<48] r"
    "fold (md5_step md5_I ?x) md5_round4 r = fold (rfc_step ?x) [48..<64] r" for r
    unfolding md5_lines
    by (rule fold_lines; simp add: rfc_fun_def md5_functions md5_H_def md5_I_def)+
  ultimately show "md5_block s p = rfc_block s p"
    by (simp only: md5_block_def rfc_block_def x Let_def)
qed

section \<open>Updating\<close>

abbreviation md5_regs_of :: "stl_md5 \<Rightarrow> md5_regs" where
  "md5_regs_of ctx \<equiv> (md5_a ctx, md5_b ctx, md5_c ctx, md5_d ctx)"

definition md5_holds :: "stl_md5 \<Rightarrow> u8 list \<Rightarrow> bool" where
  "md5_holds ctx m \<longleftrightarrow> absorbs md5_block md5_init (bytes ctx) (md5_regs_of ctx) (buffer ctx) m"

lemma md5_body_blocks:
  assumes "0 < n" and "64 dvd n" and "n \<le> length data" and "n < 2 ^ 64"
  obtains ctx' where "stl_md5_body ctx data n = Some (ctx', n)"
    "md5_regs_of ctx' = blocks md5_block (md5_regs_of ctx) (take n data)"
    "bytes ctx' = bytes ctx" "buffer ctx' = buffer ctx"
proof -
  obtain a b c d where r: "blocks md5_block (md5_regs_of ctx) (take n data) = (a, b, c, d)"
    by (cases "blocks md5_block (md5_regs_of ctx) (take n data)")
  show ?thesis
    by (rule that [of "ctx\<lparr>md5_a := a, md5_b := b, md5_c := c, md5_d := d\<rparr>"])
       (use block_loop_blocks [of n 0 data md5_block "md5_regs_of ctx"] assms r in \<open>simp_all add: stl_md5_body_def\<close>)
qed

lemma md5_rest:
  assumes "absorbs md5_block md5_init cnt (md5_regs_of ctx) (buffer ctx) m"
    and "64 dvd length m" and "n \<le> length d" and "n < 2 ^ 64" and "bytes ctx = cnt + word_of_nat n"
  shows "\<exists>ctx'. md5_compute_rest ctx d n = Some ctx' \<and> md5_holds ctx' (m @ take n d)"
proof -
  let ?w = "n - n mod 64"
  have len: "length (buffer ctx) = 64" using assms(1) by (simp add: absorbs_def)
  have fits: "n mod 64 \<le> length d - ?w" "n mod 64 \<le> 64" using assms(3) by auto
  note new = absorbs_blocks [OF assms(1-3), folded assms(5)]
  show ?thesis
  proof (cases "64 \<le> n")
    case True
    then have "0 < ?w" by simp
    then obtain ctx' where c: "stl_md5_body ctx d ?w = Some (ctx', ?w)"
      "md5_regs_of ctx' = blocks md5_block (md5_regs_of ctx) (take ?w d)"
      "bytes ctx' = bytes ctx" "buffer ctx' = buffer ctx"
      using assms(3,4) by (auto simp: dvd_minus_mod intro: md5_body_blocks [of ?w d ctx])
    have "md5_compute_rest ctx d n = Some (ctx'\<lparr>buffer := take (n mod 64) (drop ?w d) @ drop (n mod 64) (buffer ctx)\<rparr>)"
      using True c(1,4) len fits by (simp add: md5_compute_rest_def memcpy_def)
    moreover have "md5_holds (ctx'\<lparr>buffer := take (n mod 64) (drop ?w d) @ drop (n mod 64) (buffer ctx)\<rparr>) (m @ take n d)"
      using new c(2,3) by (simp add: md5_holds_def)
    ultimately show ?thesis by blast
  next
    case False
    then show ?thesis using new len assms(3)
      by (simp add: md5_compute_rest_def memcpy_def md5_holds_def blocks_short)
  qed
qed

lemma md5_compute_holds:
  assumes "md5_holds ctx m" and "n \<le> length d" and "n < 2 ^ 64"
  shows "\<exists>ctx'. stl_md5_compute ctx d n = Some ctx' \<and> md5_holds ctx' (m @ take n d)"
proof -
  note abs = assms(1) [unfolded md5_holds_def]
  note used = absorbs_used [OF abs]
  have len: "length (buffer ctx) = 64" using abs by (simp add: absorbs_def)
  let ?u = "length m mod 64" and ?k = "64 - length m mod 64"
  have u: "?u < 64" by simp
  consider (empty) "?u = 0" | (small) "?u \<noteq> 0" "n < ?k" | (fill) "?u \<noteq> 0" "?k \<le> n" by linarith
  then show ?thesis
  proof cases
    case empty
    then show ?thesis
      using md5_rest [of "bytes ctx" "ctx\<lparr>bytes := bytes ctx + word_of_nat n\<rparr>" m n d] abs assms(2,3)
      by (simp add: stl_md5_compute_def used Let_def dvd_eq_mod_eq_0)
  next
    case small
    then have "?u + n < 64" "?u + n \<le> 64" by simp_all
    with absorbs_small [OF abs this(1) assms(2)] show ?thesis using small u len assms(2)
      by (simp add: stl_md5_compute_def used Let_def memcpy_def md5_holds_def)
  next
    case fill
    have k: "?k \<le> length d" using fill assms(2) by simp
    let ?b = "take ?u (buffer ctx) @ take ?k d"
    note b = absorbs_fill [OF abs refl k refl]
    let ?c = "ctx\<lparr>bytes := bytes ctx + word_of_nat n, buffer := ?b\<rparr>"
    obtain ctx' where c: "stl_md5_body ?c ?b 64 = Some (ctx', 64)"
      "md5_regs_of ctx' = blocks md5_block (md5_regs_of ?c) (take 64 ?b)"
      "bytes ctx' = bytes ?c" "buffer ctx' = buffer ?c"
      using b(2) by (auto intro: md5_body_blocks [of 64 ?b ?c])
    have "md5_regs_of ctx' = md5_block (md5_regs_of ctx) ?b" using c(2) b(2) by (simp add: blocks_one)
    then have "\<exists>ctx''. md5_compute_rest ctx' (drop ?k d) (n - ?k) = Some ctx'' \<and>
        md5_holds ctx'' ((m @ take ?k d) @ take (n - ?k) (drop ?k d))"
      using b(1,3) c(3,4) fill assms(2,3) word_of_nat_split [OF fill(2), of "bytes ctx"]
      by (intro md5_rest [where cnt = "bytes ctx + word_of_nat ?k"]) (simp_all del: of_nat_diff)
    moreover have "take ?k d @ take (n - ?k) (drop ?k d) = take n d"
      using fill(2) by (simp flip: take_add)
    moreover have "stl_md5_compute ctx d n = md5_compute_rest ctx' (drop ?k d) (n - ?k)"
      using fill u len k c(1) by (simp add: stl_md5_compute_def used Let_def memcpy_def)
    ultimately show ?thesis by simp
  qed
qed

section \<open>Finishing\<close>

lemma le_bytes_8: "le_bytes (n :: u64) 8 = [ucast n, ucast (drop_bit 8 n), ucast (drop_bit 16 n), ucast (drop_bit 24 n),
    ucast (drop_bit 32 n), ucast (drop_bit 40 n), ucast (drop_bit 48 n), ucast (drop_bit 56 n)]"
proof -
  have "[0..<8] = [0, 1, 2, 3, 4, 5, 6, 7 :: nat]" by code_simp
  then show ?thesis by (simp add: le_bytes_def)
qed

lemma length_le_bytes [simp]: "length (le_bytes w n) = n"
  by (simp add: le_bytes_def)

definition md5_result :: "md5_regs \<Rightarrow> u8 list" where
  "md5_result r = (let (a, b, c, d) = r in le_bytes a 4 @ le_bytes b 4 @ le_bytes c 4 @ le_bytes d 4)"

lemma length_md5_result [simp]: "length (md5_result r) = 16"
  by (simp add: md5_result_def split_def)

lemma md5_result_ref: "md5_result (blocks md5_block md5_init (md5_padded m)) = md5 m"
  by (simp add: md5_result_def md5_def md5_block_rfc)

lemma md5_body_one:
  assumes "length b = 64"
  obtains c' where "stl_md5_body c b 64 = Some (c', 64)" "md5_regs_of c' = md5_block (md5_regs_of c) b"
    "bytes c' = bytes c" "buffer c' = buffer c"
  using assms by (auto simp: blocks_one intro: md5_body_blocks [of 64 b c])

text \<open>One block for the padding, or two when the length does not fit behind the message.\<close>

lemma md5_pad_holds:
  assumes "md5_holds ctx m"
  shows "\<exists>c. md5_pad ctx = Some c \<and> md5_regs_of c = blocks md5_block md5_init (md5_padded m)"
proof -
  note abs = assms [unfolded md5_holds_def]
  have len: "length (buffer ctx) = 64" and cnt: "bytes ctx = word_of_nat (length m)"
    using abs by (auto simp: absorbs_def)
  define u where "u = length m mod 64"
  let ?e = "le_bytes (push_bit 3 (bytes ctx)) 8"
  have u: "u < 64" and used: "unat (bytes ctx AND 0x3f) = u"
    using absorbs_used [OF abs] by (simp_all add: u_def)
  have e: "pad_message ?e m = md5_padded m" by (simp add: md5_padded_def cnt push3_of_nat)
  let ?m = "take u (buffer ctx) @ 0x80 # drop (u + 1) (buffer ctx)"
  have free: "64 - (u + 1) = 63 - u" by simp
  show ?thesis
  proof (cases "u \<le> 55")
    case True
    let ?z = "take u (buffer ctx) @ 0x80 # replicate (55 - u) 0 @ drop 56 (buffer ctx)"
    let ?b = "take u (buffer ctx) @ 0x80 # replicate (55 - u) 0 @ ?e"
    have z: "length ?z = 64" and b: "length ?b = 64" using True len by simp_all
    obtain c where c: "stl_md5_body (ctx\<lparr>buffer := ?m, bytes := push_bit 3 (bytes ctx), buffer := ?b\<rparr>) ?b 64 = Some (c, 64)"
      "md5_regs_of c = md5_block (md5_regs_of (ctx\<lparr>buffer := ?m, bytes := push_bit 3 (bytes ctx), buffer := ?b\<rparr>)) ?b"
      by (rule md5_body_one [OF b])
    have "\<not> 63 - u < 8" "63 - u - 8 = 55 - u" using True by simp_all
    then have "md5_pad ctx = Some c"
      using c(1) last8_updates [OF z]
      by (simp add: md5_pad_def used pad_marker [OF len u, simplified] pad_zeros(1) [OF len u True, simplified] free
          pad_take56 [OF len True] flip: le_bytes_8 del: take_append take_Cons')
    then show ?thesis using absorbs_pad_one [OF abs, of ?e] True c(2) e by (simp add: u_def)
  next
    case False
    let ?b1 = "take u (buffer ctx) @ 0x80 # replicate (63 - u) 0" and ?b2 = "replicate 56 0 @ ?e"
    have b: "length ?b1 = 64" "length ?b2 = 64" "length (replicate 56 0 @ drop 56 ?b1) = 64"
      using len u by simp_all
    obtain c1 where c1: "stl_md5_body (ctx\<lparr>buffer := ?b1\<rparr>) ?b1 64 = Some (c1, 64)"
      "md5_regs_of c1 = md5_block (md5_regs_of (ctx\<lparr>buffer := ?b1\<rparr>)) ?b1"
      "bytes c1 = bytes (ctx\<lparr>buffer := ?b1\<rparr>)" "buffer c1 = buffer (ctx\<lparr>buffer := ?b1\<rparr>)"
      by (rule md5_body_one [OF b(1)])
    obtain c where c: "stl_md5_body (c1\<lparr>bytes := push_bit 3 (bytes c1), buffer := ?b2\<rparr>) ?b2 64 = Some (c, 64)"
      "md5_regs_of c = md5_block (md5_regs_of (c1\<lparr>bytes := push_bit 3 (bytes c1), buffer := ?b2\<rparr>)) ?b2"
      by (rule md5_body_one [OF b(2)])
    have "63 - u < 8" using False by simp
    then have "md5_pad ctx = Some c"
      using c(1) c1 last8_updates [OF b(3)] zero_56 [OF b(1)]
      by (simp add: md5_pad_def used pad_marker [OF len u, simplified] pad_zeros(2) [OF len u, simplified] free
          flip: le_bytes_8)
    then show ?thesis using absorbs_pad_two [OF abs, of ?e] False c1(2) c(2) e by (simp add: u_def)
  qed
qed

definition hex_string :: "u8 list \<Rightarrow> u8 list" where
  "hex_string bs = concat (map hex_byte bs)"

lemma length_hex_string [simp]: "length (hex_string bs) = 2 * length bs"
  by (induction bs) (simp_all add: hex_string_def hex_byte_def)

lemma hex_string_Nil [simp]: "hex_string [] = []"
  by (simp add: hex_string_def)

lemma md5_sprintf_prefix:
  assumes "length temp = 16" and "n \<le> 16" and "2 * n + 1 \<le> length r"
  shows "for_each (\<lambda>i r. memcpy r (2 * i) (hex_byte (temp ! i) @ [0]) 3) [0..<n] r =
    Some (hex_string (take n temp) @ (if n = 0 then r else 0 # drop (2 * n + 1) r))"
  using assms(2,3)
proof (induction n)
  case 0
  then show ?case by simp
next
  case (Suc n)
  let ?r = "hex_string (take n temp) @ (if n = 0 then r else 0 # drop (2 * n + 1) r)"
  have len: "length (hex_string (take n temp)) = 2 * n" using Suc.prems(1) assms(1) by simp
  have hex: "hex_string (take (Suc n) temp) = hex_string (take n temp) @ hex_byte (temp ! n)"
    using Suc.prems(1) assms(1) by (simp add: take_Suc_conv_app_nth hex_string_def)
  have "memcpy ?r (2 * n) (hex_byte (temp ! n) @ [0]) 3 =
      Some (hex_string (take (Suc n) temp) @ 0 # drop (2 * Suc n + 1) r)"
  proof -
    have three: "2 * Suc n + 1 = 2 * n + 3" by simp
    have r: "length ?r = length r" "take (2 * n) ?r = hex_string (take n temp)" "drop (2 * n + 3) ?r = drop (2 * n + 3) r"
      using Suc.prems(2) len by (auto simp: numeral_3_eq_3)
    have "2 * n + 3 \<le> length ?r" using r(1) Suc.prems(2) three by simp
    then have "memcpy ?r (2 * n) (hex_byte (temp ! n) @ [0]) 3 =
        Some (take (2 * n) ?r @ (hex_byte (temp ! n) @ [0]) @ drop (2 * n + 3) ?r)"
      by (simp only: memcpy_def) (simp add: hex_byte_def)
    then show ?thesis by (simp only: r three hex append_assoc append.simps)
  qed
  then show ?case using Suc by (simp add: for_each_append)
qed

lemma md5_sprintf_ok:
  "length temp = 16 \<Longrightarrow> 33 \<le> length r \<Longrightarrow> md5_sprintf temp r = Some (hex_string temp @ 0 # drop 33 r)"
  using md5_sprintf_prefix [of temp 16 r] by (simp add: md5_sprintf_def)

lemma md5_sprintf_overflow:
  assumes "length temp = 16" and "length r = 16"
  shows "md5_sprintf temp r = None"
proof -
  define g where "g = (\<lambda>i r. memcpy r (2 * i) (hex_byte (temp ! i) @ [0]) 3)"
  have upt: "[0..<16] = [0..<7] @ 7 # [8..<16]" by code_simp
  have "for_each g [0..<7] r = Some (hex_string (take 7 temp) @ 0 # drop 15 r)"
    using md5_sprintf_prefix [of temp 7 r] assms by (simp add: g_def del: upt_Suc upt_rec_numeral)
  moreover have "g 7 (hex_string (take 7 temp) @ 0 # drop 15 r) = None"
    using assms by (simp add: g_def memcpy_def)
  ultimately show ?thesis
    by (simp add: md5_sprintf_def upt for_each_append flip: g_def del: upt_Suc upt_rec_numeral)
qed

lemma md5_init_holds: "md5_holds stl_md5_alloc []"
  by (simp add: md5_holds_def stl_md5_alloc_def stl_md5_init_def md5_init_def absorbs_init)

lemma md5_length: "length (md5 m) = 16"
  using length_md5_result by (simp flip: md5_result_ref)

lemma md5_checksum_holds:
  assumes "md5_holds ctx m" and "33 \<le> length result"
  shows "stl_md5_checksum ctx result = Some (stl_md5_zero, hex_string (md5 m) @ 0 # drop 33 result)"
proof -
  from md5_pad_holds [OF assms(1)] obtain c where c: "md5_pad ctx = Some c"
    "md5_regs_of c = blocks md5_block md5_init (md5_padded m)" by blast
  have "md5_result (md5_regs_of c) = md5 m" using c(2) md5_result_ref by simp
  then show ?thesis using c(1) assms(2) md5_sprintf_ok [of "md5 m"] md5_length
    by (simp add: stl_md5_checksum_def md5_result_def)
qed

interpretation md5_stream: digest stl_md5_alloc "\<lambda>c d. stl_md5_compute c d (length d)"
  "\<lambda>c. stl_md5_checksum c (replicate 33 0)" md5_holds "\<lambda>m. (stl_md5_zero, hex_string (md5 m) @ [0])"
proof
  show "md5_holds stl_md5_alloc []" by (rule md5_init_holds)
next
  fix c m d assume "md5_holds c m" "length (d :: u8 list) < 2 ^ 64"
  then show "\<exists>c'. stl_md5_compute c d (length d) = Some c' \<and> md5_holds c' (m @ d)"
    using md5_compute_holds [of c m "length d" d] by simp
next
  fix c m assume "md5_holds c m"
  then show "stl_md5_checksum c (replicate 33 0) = Some (stl_md5_zero, hex_string (md5 m) @ [0])"
    by (simp add: md5_checksum_holds)
qed

section \<open>Properties\<close>

text \<open>C11: However a message is cut into pieces, initialising a context, feeding the pieces and asking for the
  checksum gives the MD5 digest of RFC 1321 of the whole message, as a hexadecimal string, and a cleared
  context; no step leaves the context's buffer.\<close>

theorem md5_computes_rfc1321:
  assumes "\<forall>d\<in>set ds. length d < 2 ^ 64"
  shows "Option.bind (for_each (\<lambda>d c. stl_md5_compute c d (length d)) ds stl_md5_alloc)
      (\<lambda>c. stl_md5_checksum c (replicate 33 0)) = Some (stl_md5_zero, hex_string (md5 (concat ds)) @ [0])"
  by (rule md5_stream.digest_of_pieces [OF assms])

theorem md5_computes_rfc1321_witness:
  "Option.bind (for_each (\<lambda>d c. stl_md5_compute c d (length d)) [[97], [98, 99]] stl_md5_alloc)
      (\<lambda>c. stl_md5_checksum c (replicate 33 0)) = Some (stl_md5_zero, hex_string (md5 [97, 98, 99]) @ [0])"
  using md5_computes_rfc1321 [of "[[97], [98, 99]]"] by simp

text \<open>The reference on the message ``abc'', as the RFC lists it.\<close>

lemma md5_abc: "hex_string (md5 [97, 98, 99]) =
    map of_char ''900150983cd24fb0d6963f7d28e17f72''"
  by code_simp

text \<open>The 16 bytes that the prototype of \<open>stl_md5_checksum\<close> announces for the result are not enough for
  the hexadecimal digits: whatever was fed in, with such a buffer the function writes past its end.\<close>

theorem md5_checksum_overflows_declared_buffer:
  assumes "md5_holds ctx m" and "length result = 16"
  shows "stl_md5_checksum ctx result = None"
proof -
  from md5_pad_holds [OF assms(1)] obtain c where c: "md5_pad ctx = Some c" by blast
  have "length (md5_result (md5_regs_of c)) = 16" by simp
  from md5_sprintf_overflow [OF this assms(2)] show ?thesis
    using c by (simp add: stl_md5_checksum_def md5_result_def)
qed

theorem md5_checksum_overflows_declared_buffer_witness:
  "stl_md5_checksum stl_md5_alloc (replicate 16 0) = None"
  using md5_checksum_overflows_declared_buffer [OF md5_init_holds] by simp

end
