(* ===== verification/Sha1.thy ===== *)
theory Sha1
  imports Block_Stream
begin

text \<open>
  The SHA-1 digest (\<open>stl_sha1.c\<close>). The context is the record \<open>stl_sha1\<close>; a NULL context is
  \<open>None\<close> where the code checks for it. \<open>stl_sha1_body\<close> runs \<open>sha1_block\<close> over the blocks of its
  argument; the 80 \<open>STEP\<close> lines are four runs of twenty with one function and one constant each.
  Sizes are naturals below \<open>2 ^ 64\<close>.

  The reference \<open>sha1\<close> is FIPS 180-4: its functions and constants, its recursive message schedule
  and its padding. The structure of the lemmas follows theory \<open>Block_Stream\<close>.
\<close>

section \<open>Model\<close>

record stl_sha1 =
  sha_bytes :: u64
  sha_a :: u32
  sha_b :: u32
  sha_c :: u32
  sha_d :: u32
  sha_e :: u32
  sha_f :: u32
  sha_buffer :: "u8 list"

definition stl_sha1_zero :: stl_sha1 where
  "stl_sha1_zero = \<lparr>sha_bytes = 0, sha_a = 0, sha_b = 0, sha_c = 0, sha_d = 0, sha_e = 0, sha_f = 0,
     sha_buffer = replicate 64 0\<rparr>"

definition stl_sha1_init :: "stl_sha1 option \<Rightarrow> int \<times> stl_sha1 option" where
  "stl_sha1_init ctx = (case ctx of None \<Rightarrow> (-1, None)
     | Some ctx \<Rightarrow> (0, Some (ctx\<lparr>sha_a := 0x67452301, sha_b := 0xefcdab89, sha_c := 0x98badcfe,
         sha_d := 0x10325476, sha_e := 0xc3d2e1f0, sha_bytes := 0\<rparr>)))"

text \<open>\<open>calloc\<close> gives cleared memory, or NULL when there is none.\<close>

definition stl_sha1_alloc :: "bool \<Rightarrow> stl_sha1 option" where
  "stl_sha1_alloc memory = (let (r, sa1) = stl_sha1_init (if memory then Some stl_sha1_zero else None) in
     if r \<noteq> 0 then None else sa1)"

definition stl_sha1_deinit :: "stl_sha1 option \<Rightarrow> int \<times> stl_sha1 option" where
  "stl_sha1_deinit ctx = (case ctx of None \<Rightarrow> (-1, None) | Some ctx \<Rightarrow> (0, Some stl_sha1_zero))"

definition ROTATE :: "nat \<Rightarrow> u32 \<Rightarrow> u32" where
  "ROTATE bits word = push_bit bits word OR drop_bit (32 - bits) word"

definition sha1_F1 :: "u32 \<Rightarrow> u32 \<Rightarrow> u32 \<Rightarrow> u32" where "sha1_F1 b c d = (b AND c) OR (NOT b AND d)"
definition sha1_F2 :: "u32 \<Rightarrow> u32 \<Rightarrow> u32 \<Rightarrow> u32" where "sha1_F2 b c d = b XOR c XOR d"
definition sha1_F3 :: "u32 \<Rightarrow> u32 \<Rightarrow> u32 \<Rightarrow> u32" where
  "sha1_F3 b c d = (b AND c) OR (b AND d) OR (c AND d)"

type_synonym sha1_regs = "u32 \<times> u32 \<times> u32 \<times> u32 \<times> u32"

definition sha1_step :: "(u32 \<Rightarrow> u32 \<Rightarrow> u32 \<Rightarrow> u32) \<Rightarrow> u32 \<Rightarrow> u32 \<Rightarrow> sha1_regs \<Rightarrow> sha1_regs" where
  "sha1_step f t w r = (let (a, b, c, d, e) = r;
     temp = ROTATE 5 a + f b c d + e + w + t
   in (temp, a, ROTATE 30 b, c, d))"

definition sha1_get :: "u8 list \<Rightarrow> nat \<Rightarrow> u32" where
  "sha1_get p n = ucast (p ! (n * 4 + 3)) OR push_bit 8 (ucast (p ! (n * 4 + 2))) OR
     push_bit 16 (ucast (p ! (n * 4 + 1))) OR push_bit 24 (ucast (p ! (n * 4)))"

text \<open>The array \<open>words\<close>, filled from the front.\<close>

definition sha1_extend :: "nat \<Rightarrow> u32 list \<Rightarrow> u32 list" where
  "sha1_extend i ws = ws @ [ROTATE 1 (ws ! (i - 3) XOR ws ! (i - 8) XOR ws ! (i - 14) XOR ws ! (i - 16))]"

definition sha1_words :: "u8 list \<Rightarrow> u32 list" where
  "sha1_words p = fold sha1_extend [16..<80] (map (sha1_get p) [0..<16])"

definition sha1_block :: "sha1_regs \<Rightarrow> u8 list \<Rightarrow> sha1_regs" where
  "sha1_block saved p = (let w = sha1_words p;
     r = fold (\<lambda>i. sha1_step sha1_F1 0x5a827999 (w ! i)) [0..<20] saved;
     r = fold (\<lambda>i. sha1_step sha1_F2 0x6ed9eba1 (w ! i)) [20..<40] r;
     r = fold (\<lambda>i. sha1_step sha1_F3 0x8f1bbcdc (w ! i)) [40..<60] r;
     r = fold (\<lambda>i. sha1_step sha1_F2 0xca62c1d6 (w ! i)) [60..<80] r;
     (a, b, c, d, e) = r; (sa, sb, sc, sd, se) = saved
   in (a + sa, b + sb, c + sc, d + sd, e + se))"

text \<open>The result is the context and the offset of the pointer that the code returns.\<close>

definition stl_sha1_body :: "stl_sha1 \<Rightarrow> u8 list \<Rightarrow> nat \<Rightarrow> (stl_sha1 \<times> nat) option" where
  "stl_sha1_body ctx data n = do {
     ((a, b, c, d, e), p) \<leftarrow>
       block_loop sha1_block (sha_a ctx, sha_b ctx, sha_c ctx, sha_d ctx, sha_e ctx) data 0 n;
     Some (ctx\<lparr>sha_a := a, sha_b := b, sha_c := c, sha_d := d, sha_e := e\<rparr>, p) }"

text \<open>The part of \<open>stl_sha1_update\<close> behind the handling of a partly filled buffer.\<close>

definition sha1_update_rest :: "stl_sha1 \<Rightarrow> u8 list \<Rightarrow> nat \<Rightarrow> stl_sha1 option" where
  "sha1_update_rest ctx data n = do {
     (ctx, data, n) \<leftarrow> (if 64 \<le> n then do {
         (ctx, p) \<leftarrow> stl_sha1_body ctx data (n - n mod 64);
         Some (ctx, drop p data, n mod 64) }
       else Some (ctx, data, n));
     b \<leftarrow> memcpy (sha_buffer ctx) 0 data n;
     Some (ctx\<lparr>sha_buffer := b\<rparr>) }"

definition stl_sha1_update :: "stl_sha1 \<Rightarrow> u8 list \<Rightarrow> nat \<Rightarrow> stl_sha1 option" where
  "stl_sha1_update ctx data n = (let
     used = unat (sha_bytes ctx AND 0x3f);
     ctx = ctx\<lparr>sha_bytes := sha_bytes ctx + word_of_nat n\<rparr> in
   if used \<noteq> 0 then (let free = 64 - used in
     if n < free then do {
       b \<leftarrow> memcpy (sha_buffer ctx) used data n;
       Some (ctx\<lparr>sha_buffer := b\<rparr>) }
     else do {
       b \<leftarrow> memcpy (sha_buffer ctx) used data free;
       (ctx, _) \<leftarrow> stl_sha1_body (ctx\<lparr>sha_buffer := b\<rparr>) b 64;
       sha1_update_rest ctx (drop free data) (n - free) })
   else sha1_update_rest ctx data n)"

definition be_bytes :: "'a::len word \<Rightarrow> nat \<Rightarrow> u8 list" where
  "be_bytes w n = map (\<lambda>i. ucast (drop_bit (8 * (n - 1 - i)) w)) [0..<n]"

text \<open>The first part of \<open>stl_sha1_final\<close>: the padding and the last blocks.\<close>

definition sha1_pad :: "stl_sha1 \<Rightarrow> stl_sha1 option" where
  "sha1_pad ctx = do {
     let used = unat (sha_bytes ctx AND 0x3f);
     b \<leftarrow> mem_write (sha_buffer ctx) (int used) 0x80;
     let used = used + 1;
     let free = 64 - used;
     (ctx, used, free) \<leftarrow> (if free < 8 then do {
         b \<leftarrow> memzero b used free;
         (ctx, _) \<leftarrow> stl_sha1_body (ctx\<lparr>sha_buffer := b\<rparr>) b 64;
         Some (ctx, 0, 64) }
       else Some (ctx\<lparr>sha_buffer := b\<rparr>, used, free));
     b \<leftarrow> memzero (sha_buffer ctx) used (free - 8);
     let n = push_bit 3 (sha_bytes ctx);
     let b = b[56 := ucast (drop_bit 56 n), 57 := ucast (drop_bit 48 n), 58 := ucast (drop_bit 40 n), 59 := ucast (drop_bit 32 n),
       60 := ucast (drop_bit 24 n), 61 := ucast (drop_bit 16 n), 62 := ucast (drop_bit 8 n), 63 := ucast n];
     (ctx, _) \<leftarrow> stl_sha1_body (ctx\<lparr>sha_bytes := n, sha_buffer := b\<rparr>) b 64;
     Some ctx }"

definition stl_sha1_final :: "stl_sha1 \<Rightarrow> u8 list \<Rightarrow> (stl_sha1 \<times> u8 list) option" where
  "stl_sha1_final ctx result = do {
     ctx \<leftarrow> sha1_pad ctx;
     let digest = be_bytes (sha_a ctx) 4 @ be_bytes (sha_b ctx) 4 @ be_bytes (sha_c ctx) 4 @
       be_bytes (sha_d ctx) 4 @ be_bytes (sha_e ctx) 4;
     result \<leftarrow> memcpy result 0 digest 20;
     Some (stl_sha1_zero, result) }"

section \<open>Reference: FIPS 180-4\<close>

definition fips_f :: "nat \<Rightarrow> u32 \<Rightarrow> u32 \<Rightarrow> u32 \<Rightarrow> u32" where
  "fips_f t x y z =
     (if t < 20 then (x AND y) XOR (NOT x AND z)
      else if 40 \<le> t \<and> t < 60 then (x AND y) XOR (x AND z) XOR (y AND z)
      else x XOR y XOR z)"

definition fips_K :: "nat \<Rightarrow> u32" where
  "fips_K t = [0x5a827999, 0x6ed9eba1, 0x8f1bbcdc, 0xca62c1d6] ! (t div 20)"

fun fips_W :: "u8 list \<Rightarrow> nat \<Rightarrow> u32" where
  "fips_W p t = (if t < 16 then le32 (p ! (4 * t + 3)) (p ! (4 * t + 2)) (p ! (4 * t + 1)) (p ! (4 * t))
     else word_rotl 1 (fips_W p (t - 3) XOR fips_W p (t - 8) XOR fips_W p (t - 14) XOR fips_W p (t - 16)))"

declare fips_W.simps [simp del]

definition fips_step :: "u8 list \<Rightarrow> nat \<Rightarrow> sha1_regs \<Rightarrow> sha1_regs" where
  "fips_step p t r = (let (a, b, c, d, e) = r in
     (word_rotl 5 a + fips_f t b c d + e + fips_K t + fips_W p t, a, word_rotl 30 b, c, d))"

definition fips_block :: "sha1_regs \<Rightarrow> u8 list \<Rightarrow> sha1_regs" where
  "fips_block s p = (let (a, b, c, d, e) = fold (fips_step p) [0..<80] s; (sa, sb, sc, sd, se) = s
     in (a + sa, b + sb, c + sc, d + sd, e + se))"

definition sha1_padded :: "u8 list \<Rightarrow> u8 list" where
  "sha1_padded m = pad_message (be_bytes (word_of_nat (8 * length m) :: u64) 8) m"

definition sha1_init :: sha1_regs where
  "sha1_init = (0x67452301, 0xefcdab89, 0x98badcfe, 0x10325476, 0xc3d2e1f0)"

definition sha1 :: "u8 list \<Rightarrow> u8 list" where
  "sha1 m = (let (a, b, c, d, e) = blocks fips_block sha1_init (sha1_padded m)
     in be_bytes a 4 @ be_bytes b 4 @ be_bytes c 4 @ be_bytes d 4 @ be_bytes e 4)"

section \<open>The body is the one of the standard\<close>

lemma sha1_functions:
  "sha1_F1 x y z = (x AND y) XOR (NOT x AND z)" "sha1_F3 x y z = (x AND y) XOR (x AND z) XOR (y AND z)"
  by (auto intro!: bit_word_eqI simp: sha1_F1_def sha1_F3_def bit_simps)

lemma ROTATE_rotl: "0 < s \<Longrightarrow> s < 32 \<Longrightarrow> ROTATE s a = word_rotl s a"
  by (simp add: ROTATE_def rotate_left_u32)

lemma sha1_words_prefix:
  assumes "16 \<le> n"
  shows "fold sha1_extend [16..<n] (map (sha1_get p) [0..<16]) = map (fips_W p) [0..<n]"
  using assms
proof (induction n rule: dec_induct)
  case base
  have "sha1_get p t = fips_W p t" if "t < 16" for t
    using that by (simp add: fips_W.simps [of p t] sha1_get_def le32_def mult.commute)
  then show ?case by (simp cong: map_cong del: upt_rec_numeral)
next
  case (step n)
  then have "sha1_extend n (map (fips_W p) [0..<n]) = map (fips_W p) [0..<Suc n]"
    by (simp add: sha1_extend_def ROTATE_rotl fips_W.simps [of p n])
  then show ?case using step by simp
qed

lemma sha1_words_W: "t < 80 \<Longrightarrow> sha1_words p ! t = fips_W p t"
  unfolding sha1_words_def by (subst sha1_words_prefix) simp_all

lemma sha1_step_fips:
  assumes "t < 80" and "\<And>x y z. f x y z = fips_f t x y z" and "k = fips_K t"
  shows "sha1_step f k (sha1_words p ! t) = fips_step p t"
  by (intro ext) (simp add: sha1_step_def fips_step_def ROTATE_rotl assms sha1_words_W split_def ac_simps)

lemma fold_fips:
  assumes "u \<le> 80" and "\<And>t x y z. l \<le> t \<Longrightarrow> t < u \<Longrightarrow> f x y z = fips_f t x y z"
    and "\<And>t. l \<le> t \<Longrightarrow> t < u \<Longrightarrow> k = fips_K t"
  shows "fold (\<lambda>i. sha1_step f k (sha1_words p ! i)) [l..<u] r = fold (fips_step p) [l..<u] r"
  by (rule fold_cong) (use assms sha1_step_fips in auto)

lemma sha1_block_fips: "sha1_block = fips_block"
proof (intro ext)
  fix s p
  have K: "fips_K t = (if t < 20 then 0x5a827999 else if t < 40 then 0x6ed9eba1 else if t < 60 then 0x8f1bbcdc else 0xca62c1d6)"
    if "t < 80" for t
  proof -
    from that consider "t div 20 = 0" "t < 20" | "t div 20 = 1" "20 \<le> t" "t < 40" | "t div 20 = 2" "40 \<le> t" "t < 60"
      | "t div 20 = 3" "60 \<le> t" by linarith
    then show ?thesis by cases (simp_all add: fips_K_def)
  qed
  have "[0..<80] = [0..<20] @ [20..<40] @ [40..<60] @ [60..<80]" by code_simp
  then have "fold (fips_step p) [0..<80] s = fold (fips_step p) [60..<80] (fold (fips_step p) [40..<60]
      (fold (fips_step p) [20..<40] (fold (fips_step p) [0..<20] s)))"
    by (simp only: fold_append comp_apply)
  moreover have "fold (\<lambda>i. sha1_step sha1_F1 0x5a827999 (sha1_words p ! i)) [0..<20] r = fold (fips_step p) [0..<20] r"
    "fold (\<lambda>i. sha1_step sha1_F2 0x6ed9eba1 (sha1_words p ! i)) [20..<40] r = fold (fips_step p) [20..<40] r"
    "fold (\<lambda>i. sha1_step sha1_F3 0x8f1bbcdc (sha1_words p ! i)) [40..<60] r = fold (fips_step p) [40..<60] r"
    "fold (\<lambda>i. sha1_step sha1_F2 0xca62c1d6 (sha1_words p ! i)) [60..<80] r = fold (fips_step p) [60..<80] r" for r
    by (rule fold_fips; simp add: fips_f_def sha1_functions sha1_F2_def K)+
  ultimately show "sha1_block s p = fips_block s p"
    by (simp only: sha1_block_def fips_block_def Let_def)
qed

section \<open>Updating\<close>

abbreviation sha1_regs_of :: "stl_sha1 \<Rightarrow> sha1_regs" where
  "sha1_regs_of ctx \<equiv> (sha_a ctx, sha_b ctx, sha_c ctx, sha_d ctx, sha_e ctx)"

definition sha1_holds :: "stl_sha1 \<Rightarrow> u8 list \<Rightarrow> bool" where
  "sha1_holds ctx m \<longleftrightarrow> absorbs sha1_block sha1_init (sha_bytes ctx) (sha1_regs_of ctx) (sha_buffer ctx) m"

lemma sha1_body_blocks:
  assumes "0 < n" and "64 dvd n" and "n \<le> length data" and "n < 2 ^ 64"
  obtains ctx' where "stl_sha1_body ctx data n = Some (ctx', n)"
    "sha1_regs_of ctx' = blocks sha1_block (sha1_regs_of ctx) (take n data)"
    "sha_bytes ctx' = sha_bytes ctx" "sha_buffer ctx' = sha_buffer ctx"
proof -
  obtain a b c d e where r: "blocks sha1_block (sha1_regs_of ctx) (take n data) = (a, b, c, d, e)"
    by (cases "blocks sha1_block (sha1_regs_of ctx) (take n data)")
  show ?thesis
    by (rule that [of "ctx\<lparr>sha_a := a, sha_b := b, sha_c := c, sha_d := d, sha_e := e\<rparr>"])
       (use block_loop_blocks [of n 0 data sha1_block "sha1_regs_of ctx"] assms r in \<open>simp_all add: stl_sha1_body_def\<close>)
qed

lemma sha1_rest:
  assumes "absorbs sha1_block sha1_init cnt (sha1_regs_of ctx) (sha_buffer ctx) m"
    and "64 dvd length m" and "n \<le> length d" and "n < 2 ^ 64" and "sha_bytes ctx = cnt + word_of_nat n"
  shows "\<exists>ctx'. sha1_update_rest ctx d n = Some ctx' \<and> sha1_holds ctx' (m @ take n d)"
proof -
  let ?w = "n - n mod 64"
  have len: "length (sha_buffer ctx) = 64" using assms(1) by (simp add: absorbs_def)
  have fits: "n mod 64 \<le> length d - ?w" "n mod 64 \<le> 64" using assms(3) by auto
  note new = absorbs_blocks [OF assms(1-3), folded assms(5)]
  show ?thesis
  proof (cases "64 \<le> n")
    case True
    then have "0 < ?w" by simp
    then obtain ctx' where c: "stl_sha1_body ctx d ?w = Some (ctx', ?w)"
      "sha1_regs_of ctx' = blocks sha1_block (sha1_regs_of ctx) (take ?w d)"
      "sha_bytes ctx' = sha_bytes ctx" "sha_buffer ctx' = sha_buffer ctx"
      using assms(3,4) by (auto simp: dvd_minus_mod intro: sha1_body_blocks [of ?w d ctx])
    have "sha1_update_rest ctx d n = Some (ctx'\<lparr>sha_buffer := take (n mod 64) (drop ?w d) @ drop (n mod 64) (sha_buffer ctx)\<rparr>)"
      using True c(1,4) len fits by (simp add: sha1_update_rest_def memcpy_def)
    moreover have "sha1_holds (ctx'\<lparr>sha_buffer := take (n mod 64) (drop ?w d) @ drop (n mod 64) (sha_buffer ctx)\<rparr>) (m @ take n d)"
      using new c(2,3) by (simp add: sha1_holds_def)
    ultimately show ?thesis by blast
  next
    case False
    then show ?thesis using new len assms(3)
      by (simp add: sha1_update_rest_def memcpy_def sha1_holds_def blocks_short)
  qed
qed

lemma sha1_update_holds:
  assumes "sha1_holds ctx m" and "n \<le> length d" and "n < 2 ^ 64"
  shows "\<exists>ctx'. stl_sha1_update ctx d n = Some ctx' \<and> sha1_holds ctx' (m @ take n d)"
proof -
  note abs = assms(1) [unfolded sha1_holds_def]
  note used = absorbs_used [OF abs]
  have len: "length (sha_buffer ctx) = 64" using abs by (simp add: absorbs_def)
  let ?u = "length m mod 64" and ?k = "64 - length m mod 64"
  have u: "?u < 64" by simp
  consider (empty) "?u = 0" | (small) "?u \<noteq> 0" "n < ?k" | (fill) "?u \<noteq> 0" "?k \<le> n" by linarith
  then show ?thesis
  proof cases
    case empty
    then show ?thesis
      using sha1_rest [of "sha_bytes ctx" "ctx\<lparr>sha_bytes := sha_bytes ctx + word_of_nat n\<rparr>" m n d] abs assms(2,3)
      by (simp add: stl_sha1_update_def used Let_def dvd_eq_mod_eq_0)
  next
    case small
    then have "?u + n < 64" "?u + n \<le> 64" by simp_all
    with absorbs_small [OF abs this(1) assms(2)] show ?thesis using small u len assms(2)
      by (simp add: stl_sha1_update_def used Let_def memcpy_def sha1_holds_def)
  next
    case fill
    have k: "?k \<le> length d" using fill assms(2) by simp
    let ?b = "take ?u (sha_buffer ctx) @ take ?k d"
    note b = absorbs_fill [OF abs refl k refl]
    let ?c = "ctx\<lparr>sha_bytes := sha_bytes ctx + word_of_nat n, sha_buffer := ?b\<rparr>"
    obtain ctx' where c: "stl_sha1_body ?c ?b 64 = Some (ctx', 64)"
      "sha1_regs_of ctx' = blocks sha1_block (sha1_regs_of ?c) (take 64 ?b)"
      "sha_bytes ctx' = sha_bytes ?c" "sha_buffer ctx' = sha_buffer ?c"
      using b(2) by (auto intro: sha1_body_blocks [of 64 ?b ?c])
    have "sha1_regs_of ctx' = sha1_block (sha1_regs_of ctx) ?b" using c(2) b(2) by (simp add: blocks_one)
    then have "\<exists>ctx''. sha1_update_rest ctx' (drop ?k d) (n - ?k) = Some ctx'' \<and>
        sha1_holds ctx'' ((m @ take ?k d) @ take (n - ?k) (drop ?k d))"
      using b(1,3) c(3,4) fill assms(2,3) word_of_nat_split [OF fill(2), of "sha_bytes ctx"]
      by (intro sha1_rest [where cnt = "sha_bytes ctx + word_of_nat ?k"]) (simp_all del: of_nat_diff)
    moreover have "take ?k d @ take (n - ?k) (drop ?k d) = take n d"
      using fill(2) by (simp flip: take_add)
    moreover have "stl_sha1_update ctx d n = sha1_update_rest ctx' (drop ?k d) (n - ?k)"
      using fill u len k c(1) by (simp add: stl_sha1_update_def used Let_def memcpy_def)
    ultimately show ?thesis by simp
  qed
qed

section \<open>Finishing\<close>

lemma be_bytes_8: "be_bytes (n :: u64) 8 = [ucast (drop_bit 56 n), ucast (drop_bit 48 n), ucast (drop_bit 40 n), ucast (drop_bit 32 n),
    ucast (drop_bit 24 n), ucast (drop_bit 16 n), ucast (drop_bit 8 n), ucast n]"
proof -
  have "[0..<8] = [0, 1, 2, 3, 4, 5, 6, 7 :: nat]" by code_simp
  then show ?thesis by (simp add: be_bytes_def)
qed

lemma length_be_bytes [simp]: "length (be_bytes w n) = n"
  by (simp add: be_bytes_def)

definition sha1_result :: "sha1_regs \<Rightarrow> u8 list" where
  "sha1_result r = (let (a, b, c, d, e) = r in be_bytes a 4 @ be_bytes b 4 @ be_bytes c 4 @ be_bytes d 4 @ be_bytes e 4)"

lemma length_sha1_result [simp]: "length (sha1_result r) = 20"
  by (simp add: sha1_result_def split_def)

lemma sha1_result_ref: "sha1_result (blocks sha1_block sha1_init (sha1_padded m)) = sha1 m"
  by (simp add: sha1_result_def sha1_def sha1_block_fips)

lemma sha1_body_one:
  assumes "length b = 64"
  obtains c' where "stl_sha1_body c b 64 = Some (c', 64)" "sha1_regs_of c' = sha1_block (sha1_regs_of c) b"
    "sha_bytes c' = sha_bytes c" "sha_buffer c' = sha_buffer c"
  using assms by (auto simp: blocks_one intro: sha1_body_blocks [of 64 b c])

text \<open>One block for the padding, or two when the length does not fit behind the message.\<close>

lemma sha1_pad_holds:
  assumes "sha1_holds ctx m"
  shows "\<exists>c. sha1_pad ctx = Some c \<and> sha1_regs_of c = blocks sha1_block sha1_init (sha1_padded m)"
proof -
  note abs = assms [unfolded sha1_holds_def]
  have len: "length (sha_buffer ctx) = 64" and cnt: "sha_bytes ctx = word_of_nat (length m)"
    using abs by (auto simp: absorbs_def)
  define u where "u = length m mod 64"
  let ?e = "be_bytes (push_bit 3 (sha_bytes ctx)) 8"
  have u: "u < 64" and used: "unat (sha_bytes ctx AND 0x3f) = u"
    using absorbs_used [OF abs] by (simp_all add: u_def)
  have e: "pad_message ?e m = sha1_padded m" by (simp add: sha1_padded_def cnt push3_of_nat)
  let ?m = "take u (sha_buffer ctx) @ 0x80 # drop (u + 1) (sha_buffer ctx)"
  have free: "64 - (u + 1) = 63 - u" by simp
  show ?thesis
  proof (cases "u \<le> 55")
    case True
    let ?z = "take u (sha_buffer ctx) @ 0x80 # replicate (55 - u) 0 @ drop 56 (sha_buffer ctx)"
    let ?b = "take u (sha_buffer ctx) @ 0x80 # replicate (55 - u) 0 @ ?e"
    have z: "length ?z = 64" and b: "length ?b = 64" using True len by simp_all
    obtain c where c: "stl_sha1_body (ctx\<lparr>sha_buffer := ?m, sha_bytes := push_bit 3 (sha_bytes ctx), sha_buffer := ?b\<rparr>) ?b 64 = Some (c, 64)"
      "sha1_regs_of c = sha1_block (sha1_regs_of (ctx\<lparr>sha_buffer := ?m, sha_bytes := push_bit 3 (sha_bytes ctx), sha_buffer := ?b\<rparr>)) ?b"
      by (rule sha1_body_one [OF b])
    have "\<not> 63 - u < 8" "63 - u - 8 = 55 - u" using True by simp_all
    then have "sha1_pad ctx = Some c"
      using c(1) last8_updates [OF z]
      by (simp add: sha1_pad_def used pad_marker [OF len u, simplified] pad_zeros(1) [OF len u True, simplified] free
          pad_take56 [OF len True] flip: be_bytes_8 del: take_append take_Cons')
    then show ?thesis using absorbs_pad_one [OF abs, of ?e] True c(2) e by (simp add: u_def)
  next
    case False
    let ?b1 = "take u (sha_buffer ctx) @ 0x80 # replicate (63 - u) 0" and ?b2 = "replicate 56 0 @ ?e"
    have b: "length ?b1 = 64" "length ?b2 = 64" "length (replicate 56 0 @ drop 56 ?b1) = 64"
      using len u by simp_all
    obtain c1 where c1: "stl_sha1_body (ctx\<lparr>sha_buffer := ?b1\<rparr>) ?b1 64 = Some (c1, 64)"
      "sha1_regs_of c1 = sha1_block (sha1_regs_of (ctx\<lparr>sha_buffer := ?b1\<rparr>)) ?b1"
      "sha_bytes c1 = sha_bytes (ctx\<lparr>sha_buffer := ?b1\<rparr>)" "sha_buffer c1 = sha_buffer (ctx\<lparr>sha_buffer := ?b1\<rparr>)"
      by (rule sha1_body_one [OF b(1)])
    obtain c where c: "stl_sha1_body (c1\<lparr>sha_bytes := push_bit 3 (sha_bytes c1), sha_buffer := ?b2\<rparr>) ?b2 64 = Some (c, 64)"
      "sha1_regs_of c = sha1_block (sha1_regs_of (c1\<lparr>sha_bytes := push_bit 3 (sha_bytes c1), sha_buffer := ?b2\<rparr>)) ?b2"
      by (rule sha1_body_one [OF b(2)])
    have "63 - u < 8" using False by simp
    then have "sha1_pad ctx = Some c"
      using c(1) c1 last8_updates [OF b(3)] zero_56 [OF b(1)]
      by (simp add: sha1_pad_def used pad_marker [OF len u, simplified] pad_zeros(2) [OF len u, simplified] free
          flip: be_bytes_8)
    then show ?thesis using absorbs_pad_two [OF abs, of ?e] False c1(2) c(2) e by (simp add: u_def)
  qed
qed

lemma sha1_length: "length (sha1 m) = 20"
  using length_sha1_result by (simp flip: sha1_result_ref)

lemma sha1_final_holds:
  assumes "sha1_holds ctx m" and "20 \<le> length result"
  shows "stl_sha1_final ctx result = Some (stl_sha1_zero, sha1 m @ drop 20 result)"
proof -
  from sha1_pad_holds [OF assms(1)] obtain c where c: "sha1_pad ctx = Some c"
    "sha1_regs_of c = blocks sha1_block sha1_init (sha1_padded m)" by blast
  have "sha1_result (sha1_regs_of c) = sha1 m" using c(2) sha1_result_ref by simp
  then show ?thesis using c(1) assms(2) sha1_length [of m]
    by (simp add: stl_sha1_final_def sha1_result_def memcpy_def)
qed

lemma sha1_init_holds: "sha1_holds (the (stl_sha1_alloc True)) []"
  by (simp add: sha1_holds_def stl_sha1_alloc_def stl_sha1_init_def stl_sha1_zero_def sha1_init_def absorbs_init)

interpretation sha1_stream: digest "the (stl_sha1_alloc True)" "\<lambda>c d. stl_sha1_update c d (length d)"
  "\<lambda>c. stl_sha1_final c (replicate 20 0)" sha1_holds "\<lambda>m. (stl_sha1_zero, sha1 m)"
proof
  show "sha1_holds (the (stl_sha1_alloc True)) []" by (rule sha1_init_holds)
next
  fix c m d assume "sha1_holds c m" "length (d :: u8 list) < 2 ^ 64"
  then show "\<exists>c'. stl_sha1_update c d (length d) = Some c' \<and> sha1_holds c' (m @ d)"
    using sha1_update_holds [of c m "length d" d] by simp
next
  fix c m assume "sha1_holds c m"
  then show "stl_sha1_final c (replicate 20 0) = Some (stl_sha1_zero, sha1 m)"
    by (simp add: sha1_final_holds)
qed

section \<open>Properties\<close>

text \<open>C12: However a message is cut into pieces, allocating a context, feeding the pieces and finishing gives the
  SHA-1 digest of FIPS 180-4 of the whole message, in twenty bytes, and a cleared context; no step
  leaves the context's buffer.\<close>

theorem sha1_computes_fips180:
  assumes "\<forall>d\<in>set ds. length d < 2 ^ 64"
  shows "\<exists>ctx. stl_sha1_alloc True = Some ctx \<and>
    Option.bind (for_each (\<lambda>d c. stl_sha1_update c d (length d)) ds ctx)
      (\<lambda>c. stl_sha1_final c (replicate 20 0)) = Some (stl_sha1_zero, sha1 (concat ds))"
proof -
  obtain ctx where "stl_sha1_alloc True = Some ctx" by (simp add: stl_sha1_alloc_def stl_sha1_init_def)
  with sha1_stream.digest_of_pieces [OF assms] show ?thesis by simp
qed

theorem sha1_computes_fips180_witness:
  "\<exists>ctx. stl_sha1_alloc True = Some ctx \<and>
    Option.bind (for_each (\<lambda>d c. stl_sha1_update c d (length d)) [[97], [98, 99]] ctx)
      (\<lambda>c. stl_sha1_final c (replicate 20 0)) = Some (stl_sha1_zero, sha1 [97, 98, 99])"
  using sha1_computes_fips180 [of "[[97], [98, 99]]"] by simp

end
