(* ===== verification/Rwlock.thy ===== *)
theory Rwlock
  imports C_Prelude
begin

text \<open>
  The readers-writer spin lock (\<open>stl_rwlock.c\<close>). The lock is one 64-bit word: 0 when free, the number
  of readers, or all ones (\<open>STL_RWLOCK_WLOCK_MODE\<close>) when a writer holds it.

  Each of the four functions is a small program over the shared word. A thread's program counter says
  which of its accesses to the word comes next; \<open>wlock_exec\<close>, \<open>rlock_exec\<close>, \<open>unlock_exec\<close> and
  \<open>downgrade_exec\<close> do one access. A NULL lock is refused by every function before any access. The
  parameter \<open>n\<close> of the waiting states is the back-off counter of the inner loop, 0 for the first attempt
  of the outer loop; the pauses and the yield between two attempts do not touch the word.

  \<open>stl_atomic_cmp_set\<close> and \<open>stl_atomic_fetch_add\<close> are one instruction each. No file of the repository
  defines \<open>STL_SMP\<close>, so \<open>STL_SMP_LOCK\<close> is empty and the instructions have no \<open>lock\<close> prefix. On one
  processor an instruction is still one step, since threads change between instructions only. On several
  processors it is two: it reads the word, and later writes what it computed from the value it read (a
  failed \<open>cmpxchg\<close> writes that value back), and other processors may access the word in between. The
  states \<open>WStore\<close>, \<open>RStore\<close>, \<open>UCasStore\<close> and \<open>UDecStore\<close> are in the middle of such an instruction.
  \<open>ncpu\<close> is the number of processors that the code asks \<open>sysconf\<close> for.

  The step relation \<open>rw_step\<close> interleaves any number of threads. Threads call the functions as their
  contract says: only a holder unlocks and only a writer downgrades.
\<close>

section \<open>Model\<close>

definition STL_RWLOCK_SPIN :: nat where "STL_RWLOCK_SPIN = 2048"
definition STL_RWLOCK_WLOCK_MODE :: u64 where "STL_RWLOCK_WLOCK_MODE = - 1"

text \<open>An undefined macro is 0 in \<open>#if\<close>.\<close>

definition STL_SMP :: bool where "STL_SMP = False"

datatype rw_pc =
    Outside \<comment> \<open>holds nothing and calls nothing\<close>
  | Reading
  | Writing
  | WTest nat \<comment> \<open>\<open>*lock == 0\<close>\<close>
  | WCas nat
  | RRead nat \<comment> \<open>\<open>readers = *lock\<close> and its test\<close>
  | RCas nat u64
  | UTest bool \<comment> \<open>of a writer, or of a reader\<close>
  | UCas bool
  | UDec bool
  | DTest
  | DSet
  | WStore nat u64 \<comment> \<open>the write of a \<open>cmpxchg\<close> that has read the word\<close>
  | RStore nat u64 u64
  | UCasStore bool u64
  | UDecStore bool u64

text \<open>Whether an instruction is one step.\<close>

definition one_step :: "nat \<Rightarrow> bool" where
  "one_step ncpu \<longleftrightarrow> STL_SMP \<or> ncpu \<le> 1"

text \<open>The result of the instruction, from the value that it reads, and the value that it writes.\<close>

definition stl_atomic_cmp_set :: "u64 \<Rightarrow> u64 \<Rightarrow> u64 \<Rightarrow> bool \<times> u64" where
  "stl_atomic_cmp_set seen old new = (if seen = old then (True, new) else (False, seen))"

definition stl_atomic_fetch_add :: "u64 \<Rightarrow> u64 \<Rightarrow> u64 \<times> u64" where
  "stl_atomic_fetch_add seen add = (seen, seen + add)"

text \<open>The counter of the next attempt: the inner loop doubles it and the outer loop starts again.\<close>

definition next_spin :: "nat \<Rightarrow> nat \<Rightarrow> nat" where
  "next_spin ncpu n =
     (if n = 0 then (if 1 < ncpu then 1 else 0) else if 2 * n < STL_RWLOCK_SPIN then 2 * n else 0)"

definition wlock_cas :: "nat \<Rightarrow> nat \<Rightarrow> u64 \<Rightarrow> rw_pc \<times> u64" where
  "wlock_cas ncpu n seen = (let (ok, lock) = stl_atomic_cmp_set seen 0 STL_RWLOCK_WLOCK_MODE
     in (if ok then Writing else WTest (next_spin ncpu n), lock))"

definition rlock_cas :: "nat \<Rightarrow> nat \<Rightarrow> u64 \<Rightarrow> u64 \<Rightarrow> rw_pc \<times> u64" where
  "rlock_cas ncpu n readers seen = (let (ok, lock) = stl_atomic_cmp_set seen readers (readers + 1)
     in (if ok then Reading else RRead (next_spin ncpu n), lock))"

fun wlock_exec :: "nat \<Rightarrow> rw_pc \<Rightarrow> u64 \<Rightarrow> rw_pc \<times> u64" where
  "wlock_exec ncpu (WTest n) lock = (if lock = 0 then WCas n else WTest (next_spin ncpu n), lock)"
| "wlock_exec ncpu (WCas n) lock = (if one_step ncpu then wlock_cas ncpu n lock else (WStore n lock, lock))"
| "wlock_exec ncpu (WStore n seen) lock = wlock_cas ncpu n seen"
| "wlock_exec ncpu pc lock = (pc, lock)"

fun rlock_exec :: "nat \<Rightarrow> rw_pc \<Rightarrow> u64 \<Rightarrow> rw_pc \<times> u64" where
  "rlock_exec ncpu (RRead n) lock =
     (if lock \<noteq> STL_RWLOCK_WLOCK_MODE then RCas n lock else RRead (next_spin ncpu n), lock)"
| "rlock_exec ncpu (RCas n readers) lock =
     (if one_step ncpu then rlock_cas ncpu n readers lock else (RStore n readers lock, lock))"
| "rlock_exec ncpu (RStore n readers seen) lock = rlock_cas ncpu n readers seen"
| "rlock_exec ncpu pc lock = (pc, lock)"

fun unlock_exec :: "nat \<Rightarrow> rw_pc \<Rightarrow> u64 \<Rightarrow> rw_pc \<times> u64" where
  "unlock_exec ncpu (UTest w) lock = (if lock = STL_RWLOCK_WLOCK_MODE then UCas w else UDec w, lock)"
| "unlock_exec ncpu (UCas w) lock =
     (if one_step ncpu then (Outside, snd (stl_atomic_cmp_set lock STL_RWLOCK_WLOCK_MODE 0)) else (UCasStore w lock, lock))"
| "unlock_exec ncpu (UDec w) lock =
     (if one_step ncpu then (Outside, snd (stl_atomic_fetch_add lock (- 1))) else (UDecStore w lock, lock))"
| "unlock_exec ncpu (UCasStore w seen) lock = (Outside, snd (stl_atomic_cmp_set seen STL_RWLOCK_WLOCK_MODE 0))"
| "unlock_exec ncpu (UDecStore w seen) lock = (Outside, snd (stl_atomic_fetch_add seen (- 1)))"
| "unlock_exec ncpu pc lock = (pc, lock)"

fun downgrade_exec :: "rw_pc \<Rightarrow> u64 \<Rightarrow> rw_pc \<times> u64" where
  "downgrade_exec DTest lock = (if lock = STL_RWLOCK_WLOCK_MODE then DSet else Writing, lock)"
| "downgrade_exec DSet lock = (Reading, 1)"
| "downgrade_exec pc lock = (pc, lock)"

text \<open>One access of the thread, in whichever function it is.\<close>

definition rw_exec :: "nat \<Rightarrow> rw_pc \<Rightarrow> u64 \<Rightarrow> rw_pc \<times> u64" where
  "rw_exec ncpu pc lock = (case pc of
     WTest _ \<Rightarrow> wlock_exec ncpu pc lock | WCas _ \<Rightarrow> wlock_exec ncpu pc lock | WStore _ _ \<Rightarrow> wlock_exec ncpu pc lock
   | RRead _ \<Rightarrow> rlock_exec ncpu pc lock | RCas _ _ \<Rightarrow> rlock_exec ncpu pc lock | RStore _ _ _ \<Rightarrow> rlock_exec ncpu pc lock
   | UTest _ \<Rightarrow> unlock_exec ncpu pc lock | UCas _ \<Rightarrow> unlock_exec ncpu pc lock | UDec _ \<Rightarrow> unlock_exec ncpu pc lock
   | UCasStore _ _ \<Rightarrow> unlock_exec ncpu pc lock | UDecStore _ _ \<Rightarrow> unlock_exec ncpu pc lock
   | DTest \<Rightarrow> downgrade_exec pc lock | DSet \<Rightarrow> downgrade_exec pc lock
   | _ \<Rightarrow> (pc, lock))"

record rw_state =
  rw_lock :: u64
  rw_pcs :: "rw_pc list"

definition rw_run :: "nat \<Rightarrow> nat \<Rightarrow> rw_state \<Rightarrow> rw_state" where
  "rw_run ncpu i s = (let (pc, lock) = rw_exec ncpu (rw_pcs s ! i) (rw_lock s)
     in s\<lparr>rw_lock := lock, rw_pcs := (rw_pcs s)[i := pc]\<rparr>)"

inductive rw_step :: "nat \<Rightarrow> rw_state \<Rightarrow> rw_state \<Rightarrow> bool" for ncpu where
  call_wlock: "i < length (rw_pcs s) \<Longrightarrow> rw_pcs s ! i = Outside \<Longrightarrow>
     rw_step ncpu s (s\<lparr>rw_pcs := (rw_pcs s)[i := WTest 0]\<rparr>)"
| call_rlock: "i < length (rw_pcs s) \<Longrightarrow> rw_pcs s ! i = Outside \<Longrightarrow>
     rw_step ncpu s (s\<lparr>rw_pcs := (rw_pcs s)[i := RRead 0]\<rparr>)"
| call_unlock_r: "i < length (rw_pcs s) \<Longrightarrow> rw_pcs s ! i = Reading \<Longrightarrow>
     rw_step ncpu s (s\<lparr>rw_pcs := (rw_pcs s)[i := UTest False]\<rparr>)"
| call_unlock_w: "i < length (rw_pcs s) \<Longrightarrow> rw_pcs s ! i = Writing \<Longrightarrow>
     rw_step ncpu s (s\<lparr>rw_pcs := (rw_pcs s)[i := UTest True]\<rparr>)"
| call_downgrade: "i < length (rw_pcs s) \<Longrightarrow> rw_pcs s ! i = Writing \<Longrightarrow>
     rw_step ncpu s (s\<lparr>rw_pcs := (rw_pcs s)[i := DTest]\<rparr>)"
| access: "i < length (rw_pcs s) \<Longrightarrow> rw_step ncpu s (rw_run ncpu i s)"

definition rw_init :: "nat \<Rightarrow> rw_state" where
  "rw_init n = \<lparr>rw_lock = 0, rw_pcs = replicate n Outside\<rparr>"

abbreviation rw_reachable :: "nat \<Rightarrow> nat \<Rightarrow> rw_state \<Rightarrow> bool" where
  "rw_reachable ncpu n \<equiv> (rw_step ncpu)\<^sup>*\<^sup>* (rw_init n)"

section \<open>Who holds the lock\<close>

fun is_reader :: "rw_pc \<Rightarrow> bool" where
  "is_reader Reading = True"
| "is_reader (UTest w) = (\<not> w)"
| "is_reader (UCas w) = (\<not> w)"
| "is_reader (UDec w) = (\<not> w)"
| "is_reader (UCasStore w _) = (\<not> w)"
| "is_reader (UDecStore w _) = (\<not> w)"
| "is_reader _ = False"

fun is_writer :: "rw_pc \<Rightarrow> bool" where
  "is_writer Writing = True"
| "is_writer (UTest w) = w"
| "is_writer (UCas w) = w"
| "is_writer (UDec w) = w"
| "is_writer (UCasStore w _) = w"
| "is_writer (UDecStore w _) = w"
| "is_writer DTest = True"
| "is_writer DSet = True"
| "is_writer _ = False"

abbreviation holders :: "(rw_pc \<Rightarrow> bool) \<Rightarrow> rw_state \<Rightarrow> nat" where
  "holders P s \<equiv> length (filter P (rw_pcs s))"

text \<open>On one processor no instruction is in its middle; a release takes the branch that fits the holder, and
  a reader never tries to replace the write mode.\<close>

fun branch_ok :: "rw_pc \<Rightarrow> bool" where
  "branch_ok (UCas w) = w"
| "branch_ok (UDec w) = (\<not> w)"
| "branch_ok (RCas _ readers) = (readers \<noteq> STL_RWLOCK_WLOCK_MODE)"
| "branch_ok (WStore _ _) = False"
| "branch_ok (RStore _ _ _) = False"
| "branch_ok (UCasStore _ _) = False"
| "branch_ok (UDecStore _ _) = False"
| "branch_ok _ = True"

definition rw_inv :: "nat \<Rightarrow> rw_state \<Rightarrow> bool" where
  "rw_inv n s \<longleftrightarrow> length (rw_pcs s) = n \<and> list_all branch_ok (rw_pcs s) \<and>
     (holders is_writer s = 0 \<and> rw_lock s = word_of_nat (holders is_reader s) \<or>
      holders is_writer s = 1 \<and> holders is_reader s = 0 \<and> rw_lock s = STL_RWLOCK_WLOCK_MODE)"

lemma holders_pos:
  assumes "i < length xs" "P (xs ! i)"
  shows "0 < length (filter P xs)"
  using assms by (auto simp: filter_empty_conv)

lemma holders_two:
  assumes "i < length xs" "j < length xs" "i \<noteq> j" "P (xs ! i)" "P (xs ! j)"
  shows "2 \<le> length (filter P xs)"
proof -
  have "card {i, j} \<le> card {k. k < length xs \<and> P (xs ! k)}"
    using assms by (intro card_mono) auto
  then show ?thesis using assms(3) by (simp add: length_filter_conv_card)
qed

text \<open>A count of threads is not the write mode, and its word tells it exactly.\<close>

lemma word_count:
  assumes "k < 2 ^ 64 - 1"
  shows "word_of_nat k \<noteq> STL_RWLOCK_WLOCK_MODE"
    and "(word_of_nat k = (0 :: u64)) = (k = 0)"
proof -
  have u: "unat (word_of_nat k :: u64) = k"
    using assms by (simp add: unat_of_nat)
  have "unat (- 1 :: u64) = 2 ^ 64 - 1" by (simp add: unsigned_minus_1_eq_mask mask_eq_exp_minus_1)
  with u assms show "word_of_nat k \<noteq> STL_RWLOCK_WLOCK_MODE"
    unfolding STL_RWLOCK_WLOCK_MODE_def by (metis less_irrefl)
  show "(word_of_nat k = (0 :: u64)) = (k = 0)"
    using arg_cong [of "word_of_nat k" 0 "unat :: u64 \<Rightarrow> nat"] u by auto
qed

lemma mode_nonzero [simp]: "STL_RWLOCK_WLOCK_MODE \<noteq> 0" "0 \<noteq> STL_RWLOCK_WLOCK_MODE"
  by (simp_all add: STL_RWLOCK_WLOCK_MODE_def)

section \<open>The invariant\<close>

lemma rw_inv_init: "rw_inv n (rw_init n)"
  by (simp add: rw_inv_def rw_init_def list_all_iff)

text \<open>A step that leaves the word alone and keeps what the thread holds keeps the invariant.\<close>

lemma rw_inv_move:
  assumes inv: "rw_inv n s" and i: "i < length (rw_pcs s)"
    and r: "is_reader pc = is_reader (rw_pcs s ! i)" and w: "is_writer pc = is_writer (rw_pcs s ! i)"
    and b: "branch_ok pc"
  shows "rw_inv n (s\<lparr>rw_pcs := (rw_pcs s)[i := pc]\<rparr>)"
proof -
  have "length (filter is_reader ((rw_pcs s)[i := pc])) = length (filter is_reader (rw_pcs s))"
    using length_filter_update [OF i, of is_reader pc] r by simp
  moreover have "length (filter is_writer ((rw_pcs s)[i := pc])) = length (filter is_writer (rw_pcs s))"
    using length_filter_update [OF i, of is_writer pc] w by simp
  moreover have "list_all branch_ok ((rw_pcs s)[i := pc])"
    using inv b by (simp add: rw_inv_def)
  ultimately show ?thesis using inv by (simp add: rw_inv_def)
qed

text \<open>The lock word seen by a thread of a state that satisfies the invariant.\<close>

lemma rw_inv_writer:
  assumes "rw_inv n s" "i < length (rw_pcs s)" "is_writer (rw_pcs s ! i)"
  shows "rw_lock s = STL_RWLOCK_WLOCK_MODE" "holders is_writer s = 1" "holders is_reader s = 0"
  using assms holders_pos [of i "rw_pcs s" is_writer] by (auto simp: rw_inv_def)

lemma rw_inv_reader:
  assumes "rw_inv n s" "i < length (rw_pcs s)" "is_reader (rw_pcs s ! i)"
  shows "rw_lock s = word_of_nat (holders is_reader s)" "holders is_writer s = 0"
    "0 < holders is_reader s"
  using assms holders_pos [of i "rw_pcs s" is_reader] by (auto simp: rw_inv_def)

lemma rw_inv_count: "rw_inv n s \<Longrightarrow> holders is_reader s \<le> n"
  by (metis rw_inv_def length_filter_le)


text \<open>The steps that change the word.\<close>

lemma rw_inv_acquire_write:
  assumes inv: "rw_inv n s" and i: "i < length (rw_pcs s)" and n: "n < 2 ^ 64 - 1"
    and free: "rw_lock s = 0" and h: "\<not> is_reader (rw_pcs s ! i)" "\<not> is_writer (rw_pcs s ! i)"
  shows "rw_inv n (s\<lparr>rw_lock := STL_RWLOCK_WLOCK_MODE, rw_pcs := (rw_pcs s)[i := Writing]\<rparr>)"
proof -
  have "holders is_reader s < 2 ^ 64 - 1" using rw_inv_count [OF inv] n by linarith
  then have none: "holders is_reader s = 0" "holders is_writer s = 0"
    using inv free word_count(2) [of "holders is_reader s"] by (auto simp: rw_inv_def)
  have "list_all branch_ok ((rw_pcs s)[i := Writing])"
    using inv by (simp add: rw_inv_def)
  then show ?thesis
    using inv none h length_filter_update [OF i, of is_reader Writing] length_filter_update [OF i, of is_writer Writing]
    by (simp add: rw_inv_def)
qed

lemma rw_inv_acquire_read:
  assumes inv: "rw_inv n s" and i: "i < length (rw_pcs s)"
    and shared: "rw_lock s \<noteq> STL_RWLOCK_WLOCK_MODE"
    and h: "\<not> is_reader (rw_pcs s ! i)" "\<not> is_writer (rw_pcs s ! i)"
  shows "rw_inv n (s\<lparr>rw_lock := rw_lock s + 1, rw_pcs := (rw_pcs s)[i := Reading]\<rparr>)"
proof -
  have "list_all branch_ok ((rw_pcs s)[i := Reading])"
    using inv by (simp add: rw_inv_def)
  then show ?thesis
    using inv shared h length_filter_update [OF i, of is_reader Reading] length_filter_update [OF i, of is_writer Reading]
    by (simp add: rw_inv_def)
qed

lemma rw_inv_release_write:
  assumes inv: "rw_inv n s" and i: "i < length (rw_pcs s)" and w: "is_writer (rw_pcs s ! i)"
    and r: "\<not> is_reader (rw_pcs s ! i)"
  shows "rw_inv n (s\<lparr>rw_lock := 0, rw_pcs := (rw_pcs s)[i := Outside]\<rparr>)"
    and "rw_inv n (s\<lparr>rw_lock := 1, rw_pcs := (rw_pcs s)[i := Reading]\<rparr>)"
proof -
  have b: "list_all branch_ok ((rw_pcs s)[i := pc])" if "branch_ok pc" for pc
    using inv that by (simp add: rw_inv_def)
  note h = rw_inv_writer [OF inv i w]
  show "rw_inv n (s\<lparr>rw_lock := 0, rw_pcs := (rw_pcs s)[i := Outside]\<rparr>)"
    using inv h w r b [of Outside] length_filter_update [OF i, of is_reader Outside]
      length_filter_update [OF i, of is_writer Outside] by (simp add: rw_inv_def)
  show "rw_inv n (s\<lparr>rw_lock := 1, rw_pcs := (rw_pcs s)[i := Reading]\<rparr>)"
    using inv h w r b [of Reading] length_filter_update [OF i, of is_reader Reading]
      length_filter_update [OF i, of is_writer Reading] by (simp add: rw_inv_def)
qed

lemma rw_inv_release_read:
  assumes inv: "rw_inv n s" and i: "i < length (rw_pcs s)" and r: "is_reader (rw_pcs s ! i)"
    and w: "\<not> is_writer (rw_pcs s ! i)"
  shows "rw_inv n (s\<lparr>rw_lock := rw_lock s - 1, rw_pcs := (rw_pcs s)[i := Outside]\<rparr>)"
proof -
  have b: "list_all branch_ok ((rw_pcs s)[i := Outside])"
    using inv by (simp add: rw_inv_def)
  note h = rw_inv_reader [OF inv i r]
  have c: "holders is_reader s = Suc (length (filter is_reader ((rw_pcs s)[i := Outside])))"
    using length_filter_update [OF i, of is_reader Outside] r by simp
  show ?thesis
    using inv h w b c length_filter_update [OF i, of is_writer Outside] by (simp add: rw_inv_def)
qed

lemma rw_inv_branch: "rw_inv n s \<Longrightarrow> i < length (rw_pcs s) \<Longrightarrow> branch_ok (rw_pcs s ! i)"
  by (simp add: rw_inv_def list_all_length)

lemmas rw_exec_defs = rw_run_def rw_exec_def stl_atomic_cmp_set_def stl_atomic_fetch_add_def
  wlock_cas_def rlock_cas_def

lemma one_cpu_steps: "ncpu \<le> 1 \<Longrightarrow> one_step ncpu"
  by (simp add: one_step_def)

lemma one_cpu_step [simp]: "one_step 1" "one_step (Suc 0)"
  by (simp_all add: one_step_def)

lemma rw_inv_run:
  assumes inv: "rw_inv n s" and i: "i < length (rw_pcs s)" and n: "n < 2 ^ 64 - 1" and cpu: "ncpu \<le> 1"
  shows "rw_inv n (rw_run ncpu i s)"
proof -
  have [simp]: "one_step ncpu" using cpu by (rule one_cpu_steps)
  have [simp]: "s\<lparr>rw_lock := l, rw_pcs := x\<rparr> = s\<lparr>rw_pcs := x\<rparr>" if "rw_lock s = l" for x l
    using that by (cases s) simp
  note move = rw_inv_move [OF inv i]
  note br = rw_inv_branch [OF inv i]
  have mode: "rw_lock s \<noteq> STL_RWLOCK_WLOCK_MODE" if "is_reader (rw_pcs s ! i)"
    using rw_inv_reader(1) [OF inv i that] rw_inv_count [OF inv] n
      word_count(1) [of "holders is_reader s"] by auto
  show ?thesis
  proof (cases "rw_pcs s ! i")
    case (WCas k)
    then show ?thesis
      using rw_inv_acquire_write [OF inv i n] move by (simp add: rw_exec_defs)
  next
    case (RCas k readers)
    then show ?thesis
      using br rw_inv_acquire_read [OF inv i] move by (auto simp: rw_exec_defs)
  next
    case (UTest w)
    then show ?thesis
      using mode rw_inv_writer(1) [OF inv i] move by (cases w) (simp_all add: rw_exec_defs)
  next
    case (UCas w)
    then show ?thesis
      using br rw_inv_release_write(1) [OF inv i] rw_inv_writer(1) [OF inv i] by (simp add: rw_exec_defs)
  next
    case (UDec w)
    then show ?thesis
      using br rw_inv_release_read [OF inv i] by (simp add: rw_exec_defs)
  next
    case DSet
    then show ?thesis
      using rw_inv_release_write(2) [OF inv i] by (simp add: rw_exec_defs)
  next
    case DTest
    then show ?thesis
      using rw_inv_writer(1) [OF inv i] move by (simp add: rw_exec_defs)
  qed (use move inv br in \<open>auto simp: rw_exec_defs\<close>)
qed


lemma rw_inv_step:
  assumes "rw_step ncpu s s'" "rw_inv n s" "n < 2 ^ 64 - 1" "ncpu \<le> 1"
  shows "rw_inv n s'"
  using assms by (induction rule: rw_step.induct) (auto intro!: rw_inv_move rw_inv_run)

lemma rw_inv_reachable:
  assumes "rw_reachable ncpu n s" "n < 2 ^ 64 - 1" "ncpu \<le> 1"
  shows "rw_inv n s"
  using assms by (induction rule: rtranclp_induct) (auto intro: rw_inv_init rw_inv_step)

section \<open>Properties\<close>

text \<open>A run of one thread by itself: \<open>k\<close> accesses.\<close>

definition rw_alone :: "nat \<Rightarrow> nat \<Rightarrow> nat \<Rightarrow> rw_state \<Rightarrow> rw_state" where
  "rw_alone ncpu i k = (rw_run ncpu i ^^ k)"

fun wants_write :: "rw_pc \<Rightarrow> bool" where
  "wants_write (WTest _) = True" | "wants_write (WCas _) = True" | "wants_write _ = False"

fun wants_read :: "rw_pc \<Rightarrow> bool" where
  "wants_read (RRead _) = True" | "wants_read (RCas _ _) = True" | "wants_read _ = False"

lemmas rw_alone_simps = rw_alone_def rw_exec_defs

text \<open>A run on one processor: the first thread takes the lock for writing, the second waits to read, the
  first downgrades and the second may read too.\<close>

abbreviation rw_example :: "u64 \<Rightarrow> rw_pc \<Rightarrow> rw_pc \<Rightarrow> rw_state" where
  "rw_example lock a b \<equiv> \<lparr>rw_lock = lock, rw_pcs = [a, b]\<rparr>"

lemma rw_example_steps:
  "rw_reachable 1 2 (rw_example 0 Outside Outside)"
  "rw_reachable 1 2 (rw_example 0 (WTest 0) Outside)"
  "rw_reachable 1 2 (rw_example 0 (WCas 0) Outside)"
  "rw_reachable 1 2 (rw_example (- 1) Writing Outside)"
  "rw_reachable 1 2 (rw_example (- 1) Writing (RRead 0))"
  "rw_reachable 1 2 (rw_example (- 1) DTest (RRead 0))"
  "rw_reachable 1 2 (rw_example (- 1) DSet (RRead 0))"
  "rw_reachable 1 2 (rw_example 1 Reading (RRead 0))"
proof -
  show 0: "rw_reachable 1 2 (rw_example 0 Outside Outside)"
    by (simp add: rw_init_def numeral_2_eq_2)
  note step = rtranclp.rtrancl_into_rtrancl
  show 1: "rw_reachable 1 2 (rw_example 0 (WTest 0) Outside)"
    using step [OF 0 call_wlock [of 0]] by simp
  show 2: "rw_reachable 1 2 (rw_example 0 (WCas 0) Outside)"
    using step [OF 1 access [of 0]] by (simp add: rw_exec_defs)
  show 3: "rw_reachable 1 2 (rw_example (- 1) Writing Outside)"
    using step [OF 2 access [of 0]] by (simp add: rw_exec_defs STL_RWLOCK_WLOCK_MODE_def)
  show 4: "rw_reachable 1 2 (rw_example (- 1) Writing (RRead 0))"
    using step [OF 3 call_rlock [of 1]] by simp
  show 6: "rw_reachable 1 2 (rw_example (- 1) DTest (RRead 0))"
    using step [OF 4 call_downgrade [of 0]] by simp
  show 7: "rw_reachable 1 2 (rw_example (- 1) DSet (RRead 0))"
    using step [OF 6 access [of 0]] by (simp add: rw_exec_defs STL_RWLOCK_WLOCK_MODE_def)
  show 8: "rw_reachable 1 2 (rw_example 1 Reading (RRead 0))"
    using step [OF 7 access [of 0]] by (simp add: rw_exec_defs)
qed

text \<open>On one processor, while one thread holds the lock for writing no other thread holds it.\<close>

lemma rwlock_exclusion_one_cpu:
  assumes "rw_reachable ncpu n s" "n < 2 ^ 64 - 1" "ncpu \<le> 1" "i < n" "j < n" "i \<noteq> j" "is_writer (rw_pcs s ! i)"
  shows "\<not> is_writer (rw_pcs s ! j) \<and> \<not> is_reader (rw_pcs s ! j)"
proof -
  have inv: "rw_inv n s" using assms by (blast intro: rw_inv_reachable)
  then have len: "length (rw_pcs s) = n" by (simp add: rw_inv_def)
  note w = rw_inv_writer [OF inv _ assms(7)]
  show ?thesis
    using w(2,3) assms(4-7) len holders_two [of i "rw_pcs s" j is_writer]
      holders_pos [of j "rw_pcs s" is_reader] by auto
qed

text \<open>On several processors two writers may both read a free word before either writes it.\<close>

lemma rwlock_two_writers:
  assumes "1 < ncpu" "2 \<le> n"
  shows "rw_reachable ncpu n \<lparr>rw_lock = - 1, rw_pcs = Writing # Writing # replicate (n - 2) Outside\<rparr>"
proof -
  let ?s = "\<lambda>w a b. \<lparr>rw_lock = w, rw_pcs = a # b # replicate (n - 2) Outside\<rparr>"
  have cpu: "\<not> one_step ncpu" using assms(1) by (simp add: one_step_def STL_SMP_def)
  note step = rtranclp.rtrancl_into_rtrancl and d = rw_run_def rw_exec_def cpu wlock_cas_def stl_atomic_cmp_set_def STL_RWLOCK_WLOCK_MODE_def
  obtain m where "n = Suc (Suc m)" using assms(2) by (cases n; cases "n - 1") auto
  then have "rw_reachable ncpu n (?s 0 Outside Outside)" by (simp add: rw_init_def)
  from step [OF this call_wlock [of 0]] have "rw_reachable ncpu n (?s 0 (WTest 0) Outside)" by simp
  from step [OF this call_wlock [of 1]] have "rw_reachable ncpu n (?s 0 (WTest 0) (WTest 0))" by simp
  from step [OF this access [of 0]] have "rw_reachable ncpu n (?s 0 (WCas 0) (WTest 0))" by (simp add: d)
  from step [OF this access [of 1]] have "rw_reachable ncpu n (?s 0 (WCas 0) (WCas 0))" by (simp add: d)
  from step [OF this access [of 0]] have "rw_reachable ncpu n (?s 0 (WStore 0 0) (WCas 0))" by (simp add: d)
  from step [OF this access [of 1]] have "rw_reachable ncpu n (?s 0 (WStore 0 0) (WStore 0 0))" by (simp add: d)
  from step [OF this access [of 0]] have "rw_reachable ncpu n (?s (- 1) Writing (WStore 0 0))" by (simp add: d)
  from step [OF this access [of 1]] show ?thesis by (simp add: d)
qed

text \<open>C17: Mutual exclusion of the lock as it is compiled, without the \<open>lock\<close> prefix, holds exactly on a
  machine with one processor. There, whatever the interleaving of the accesses of the threads, while one
  thread holds the lock for writing no other holds it, for reading or for writing. With more processors,
  whatever their number and that of the threads, two threads can both come to hold it for writing.\<close>

theorem rwlock_mutual_exclusion:
  assumes "2 \<le> n" "n < 2 ^ 64 - 1"
  shows "(\<forall>s i j. rw_reachable ncpu n s \<longrightarrow> i < n \<longrightarrow> j < n \<longrightarrow> i \<noteq> j \<longrightarrow> is_writer (rw_pcs s ! i) \<longrightarrow>
    \<not> is_writer (rw_pcs s ! j) \<and> \<not> is_reader (rw_pcs s ! j)) \<longleftrightarrow> ncpu \<le> 1"
proof
  assume "ncpu \<le> 1"
  then show "\<forall>s i j. rw_reachable ncpu n s \<longrightarrow> i < n \<longrightarrow> j < n \<longrightarrow> i \<noteq> j \<longrightarrow> is_writer (rw_pcs s ! i) \<longrightarrow>
    \<not> is_writer (rw_pcs s ! j) \<and> \<not> is_reader (rw_pcs s ! j)"
    using rwlock_exclusion_one_cpu assms(2) by blast
next
  assume excl: "\<forall>s i j. rw_reachable ncpu n s \<longrightarrow> i < n \<longrightarrow> j < n \<longrightarrow> i \<noteq> j \<longrightarrow> is_writer (rw_pcs s ! i) \<longrightarrow>
    \<not> is_writer (rw_pcs s ! j) \<and> \<not> is_reader (rw_pcs s ! j)"
  show "ncpu \<le> 1"
  proof (rule ccontr)
    assume "\<not> ncpu \<le> 1"
    then have "rw_reachable ncpu n \<lparr>rw_lock = - 1, rw_pcs = Writing # Writing # replicate (n - 2) Outside\<rparr>"
      using rwlock_two_writers [of ncpu n] assms(1) by simp
    from excl [rule_format, OF this, of 0 1] assms(1) show False by simp
  qed
qed

theorem rwlock_mutual_exclusion_witness:
  "rw_reachable 1 2 (rw_example (- 1) Writing (RRead 0)) \<and>
   \<not> is_writer (rw_pcs (rw_example (- 1) Writing (RRead 0)) ! 1) \<and>
   \<not> is_reader (rw_pcs (rw_example (- 1) Writing (RRead 0)) ! 1)"
  using rwlock_mutual_exclusion [of 2 1, THEN iffD2, rule_format, OF _ _ _ rw_example_steps(5), of 0 1]
    rw_example_steps(5) by simp

text \<open>The lock word is the state of the lock. In every reachable state of a machine with one processor it is
  the exact number of readers when no thread writes, and all ones when one does.\<close>

theorem rwlock_word_counts_readers:
  assumes "rw_reachable ncpu n s" "n < 2 ^ 64 - 1" "ncpu \<le> 1"
  shows "if holders is_writer s = 0 then unat (rw_lock s) = holders is_reader s
    else rw_lock s = STL_RWLOCK_WLOCK_MODE \<and> holders is_writer s = 1 \<and> holders is_reader s = 0"
proof -
  have inv: "rw_inv n s" using assms by (rule rw_inv_reachable)
  have "holders is_reader s < 2 ^ 64" using rw_inv_count [OF inv] assms(2) by linarith
  then show ?thesis using inv by (auto simp: rw_inv_def unat_of_nat)
qed

theorem rwlock_word_counts_readers_witness:
  "rw_reachable 1 2 (rw_example 1 Reading (RRead 0)) \<and> unat (rw_lock (rw_example 1 Reading (RRead 0))) = 1"
  using rwlock_word_counts_readers [OF rw_example_steps(8)] rw_example_steps(8) by simp

text \<open>A lock that can be had is had. On one processor, in a reachable state with no holder, a thread inside
  \<open>stl_rwlock_wlock\<close> that runs by itself holds the lock for writing after at most two accesses; with
  no writer, a thread inside \<open>stl_rwlock_rlock\<close> holds it for reading after at most three.\<close>

theorem rwlock_acquires_when_free:
  assumes "rw_reachable ncpu n s" "n < 2 ^ 64 - 1" "ncpu \<le> 1" "i < n" "holders is_writer s = 0"
  shows "(wants_write (rw_pcs s ! i) \<and> holders is_reader s = 0 \<longrightarrow>
      (\<exists>k\<le>2. rw_pcs (rw_alone ncpu i k s) ! i = Writing)) \<and>
    (wants_read (rw_pcs s ! i) \<longrightarrow> (\<exists>k\<le>3. rw_pcs (rw_alone ncpu i k s) ! i = Reading))"
proof -
  have [simp]: "one_step ncpu" using assms(3) by (rule one_cpu_steps)
  have inv: "rw_inv n s" using assms by (blast intro: rw_inv_reachable)
  then have len: "i < length (rw_pcs s)" using assms(4) by (simp add: rw_inv_def)
  have lock: "rw_lock s = word_of_nat (holders is_reader s)" using inv assms(5) by (simp add: rw_inv_def)
  have mode: "rw_lock s \<noteq> STL_RWLOCK_WLOCK_MODE"
    using lock rw_inv_count [OF inv] assms(2) word_count(1) [of "holders is_reader s"] by simp
  have "\<exists>k\<le>2. rw_pcs (rw_alone ncpu i k s) ! i = Writing"
    if "wants_write (rw_pcs s ! i)" "holders is_reader s = 0"
  proof (cases "rw_pcs s ! i")
    case (WTest m)
    then show ?thesis using len lock that by (intro exI [of _ 2]) (simp add: rw_alone_simps numeral_2_eq_2)
  next
    case (WCas m)
    then show ?thesis using len lock that by (intro exI [of _ 1]) (simp add: rw_alone_simps)
  qed (use that in simp_all)
  moreover have "\<exists>k\<le>3. rw_pcs (rw_alone ncpu i k s) ! i = Reading" if "wants_read (rw_pcs s ! i)"
  proof (cases "rw_pcs s ! i")
    case (RRead m)
    then show ?thesis using len mode by (intro exI [of _ 2]) (simp add: rw_alone_simps numeral_2_eq_2)
  next
    case (RCas m readers)
    then show ?thesis using len mode
      by (intro exI [of _ "if rw_lock s = readers then 1 else 3"])
        (simp add: rw_alone_simps numeral_3_eq_3)
  qed (use that in simp_all)
  ultimately show ?thesis by blast
qed

theorem rwlock_acquires_when_free_witness:
  "rw_reachable 1 2 (rw_example 1 Reading (RRead 0)) \<and>
   (\<exists>k\<le>3. rw_pcs (rw_alone 1 1 k (rw_example 1 Reading (RRead 0))) ! 1 = Reading)"
  using rwlock_acquires_when_free [OF rw_example_steps(8), of 1] rw_example_steps(8) by simp

end
