(* ===== verification/Task_Queue.thy ===== *)
theory Task_Queue
  imports C_Prelude
begin

text \<open>
  The task queue of the thread pool (first half of \<open>module/stl/src/stl_thread_pool.c\<close>): a linked list of
  tasks with a front and a rear pointer, a length and a binary semaphore.

  Tasks are heap objects: the heap is a list indexed by address in which a freed task is \<open>None\<close>. The
  \<open>prev\<close> pointer of a task leads to the one behind it. A queue function runs with \<open>rwmutex\<close> held
  from its first to its last access, so it is one function on the heap and the queue. The value \<open>v\<close>
  of the queue's semaphore is a field of the queue.

  \<open>walk\<close> reads a queue as the list of its tasks. The locale \<open>fifo\<close> is the contract of the queue, and
  its interpretation \<open>tq\<close> is on the code.
\<close>

section \<open>Tasks\<close>

record task =
  prev :: ptr
  do_task_func :: ptr
  arg :: ptr

type_synonym task_heap = "task option list"

definition task_at :: "task_heap \<Rightarrow> nat \<Rightarrow> task option" where
  "task_at h a = (if a < length h then h ! a else None)"

text \<open>The function and its argument are stored only when neither is NULL.\<close>

definition task_alloc :: "task_heap \<Rightarrow> ptr \<Rightarrow> ptr \<Rightarrow> task_heap \<times> nat" where
  "task_alloc h func arg_p =
     (let t = \<lparr>prev = None, do_task_func = None, arg = None\<rparr>;
          t = (if func \<noteq> None \<and> arg_p \<noteq> None then t\<lparr>do_task_func := func, arg := arg_p\<rparr> else t)
      in (h @ [Some t], length h))"

definition task_destroy :: "task_heap \<Rightarrow> ptr \<Rightarrow> task_heap" where
  "task_destroy h p = (case p of None \<Rightarrow> h | Some a \<Rightarrow> h[a := None])"

definition set_prev :: "task_heap \<Rightarrow> nat \<Rightarrow> ptr \<Rightarrow> task_heap option" where
  "set_prev h a p = do { t \<leftarrow> task_at h a; Some (h[a := Some (t\<lparr>prev := p\<rparr>)]) }"

section \<open>The binary semaphore\<close>

text \<open>\<open>bsem_init\<close> exits the process for a value other than 0 and 1. \<open>bsem_wait\<close> has no result
  while the semaphore is 0: the caller sleeps.\<close>

definition bsem_init :: "int \<Rightarrow> int option" where
  "bsem_init val = (if val < 0 \<or> val > 1 then None else Some val)"

definition bsem_reset :: "int option" where
  "bsem_reset = bsem_init 0"

definition bsem_post :: "int \<Rightarrow> int" where
  "bsem_post v = 1"

definition bsem_wait :: "int \<Rightarrow> int option" where
  "bsem_wait v = (if v \<noteq> 1 then None else Some 0)"

section \<open>The queue\<close>

record task_queue =
  tid :: int
  front :: ptr
  rear :: ptr
  has_jobs :: int
  len :: int

definition task_queue_alloc :: "nat \<Rightarrow> task_queue option" where
  "task_queue_alloc n = do {
     v \<leftarrow> bsem_init 0;
     Some \<lparr>tid = int n, front = None, rear = None, has_jobs = v, len = 0\<rparr> }"

definition task_queue_push :: "task_heap \<Rightarrow> task_queue \<Rightarrow> nat \<Rightarrow> (task_heap \<times> task_queue) option" where
  "task_queue_push h q new_task = do {
     h \<leftarrow> set_prev h new_task None;
     (h, q) \<leftarrow> (if len q = 0 then Some (h, q\<lparr>front := Some new_task, rear := Some new_task\<rparr>)
       else do {
         r \<leftarrow> rear q;
         h \<leftarrow> set_prev h r (Some new_task);
         Some (h, q\<lparr>rear := Some new_task\<rparr>) });
     Some (h, q\<lparr>len := len q + 1, has_jobs := bsem_post (has_jobs q)\<rparr>) }"

definition task_queue_pull :: "task_heap \<Rightarrow> task_queue \<Rightarrow> (ptr \<times> task_queue) option" where
  "task_queue_pull h q =
     (let task_p = front q in
      if len q = 0 then Some (task_p, q)
      else if len q = 1 then Some (task_p, q\<lparr>front := None, rear := None, len := 0\<rparr>)
      else do {
        a \<leftarrow> task_p;
        t \<leftarrow> task_at h a;
        Some (task_p, q\<lparr>front := prev t, len := len q - 1, has_jobs := bsem_post (has_jobs q)\<rparr>) })"

partial_function (option) clear_loop :: "task_heap \<Rightarrow> task_queue \<Rightarrow> (task_heap \<times> task_queue) option" where
  "clear_loop h q =
     (if len q \<noteq> 0 then do {
        (p, q) \<leftarrow> task_queue_pull h q;
        clear_loop (task_destroy h p) q }
      else Some (h, q))"

definition task_queue_clear :: "task_heap \<Rightarrow> task_queue \<Rightarrow> (task_heap \<times> task_queue) option" where
  "task_queue_clear h q = do {
     (h, q) \<leftarrow> clear_loop h q;
     v \<leftarrow> bsem_reset;
     Some (h, q\<lparr>front := None, rear := None, has_jobs := v, len := 0\<rparr>) }"

section \<open>The queue as a list\<close>

fun walk :: "task_heap \<Rightarrow> ptr \<Rightarrow> nat \<Rightarrow> nat list" where
  "walk h p 0 = []"
| "walk h None (Suc n) = []"
| "walk h (Some a) (Suc n) = a # (case task_at h a of None \<Rightarrow> [] | Some t \<Rightarrow> walk h (prev t) n)"

fun chain :: "task_heap \<Rightarrow> ptr \<Rightarrow> nat list \<Rightarrow> bool" where
  "chain h p [] = (p = None)"
| "chain h p (a # xs) = (p = Some a \<and> (case task_at h a of None \<Rightarrow> False | Some t \<Rightarrow> chain h (prev t) xs))"

definition tq_list :: "task_heap \<Rightarrow> task_queue \<Rightarrow> nat list" where
  "tq_list h q = walk h (front q) (nat (len q))"

definition tq_inv :: "task_heap \<Rightarrow> task_queue \<Rightarrow> bool" where
  "tq_inv h q \<longleftrightarrow> 0 \<le> len q \<and> length (tq_list h q) = nat (len q) \<and> distinct (tq_list h q) \<and>
     chain h (front q) (tq_list h q) \<and>
     rear q = (if tq_list h q = [] then None else Some (last (tq_list h q)))"

lemma walk_chain: "chain h p xs \<Longrightarrow> walk h p (length xs) = xs"
  by (induction xs arbitrary: p) (auto split: option.splits)

lemma tq_inv_iff:
  "tq_inv h q \<longleftrightarrow> (\<exists>xs. chain h (front q) xs \<and> distinct xs \<and> len q = int (length xs) \<and>
     rear q = (if xs = [] then None else Some (last xs)))"
proof
  assume "tq_inv h q"
  then show "\<exists>xs. chain h (front q) xs \<and> distinct xs \<and> len q = int (length xs) \<and>
     rear q = (if xs = [] then None else Some (last xs))"
    by (intro exI [of _ "tq_list h q"]) (auto simp: tq_inv_def)
next
  assume "\<exists>xs. chain h (front q) xs \<and> distinct xs \<and> len q = int (length xs) \<and>
     rear q = (if xs = [] then None else Some (last xs))"
  then show "tq_inv h q" by (auto simp: tq_inv_def tq_list_def walk_chain)
qed

lemma tq_listI:
  "chain h (front q) xs \<Longrightarrow> len q = int (length xs) \<Longrightarrow> tq_list h q = xs"
  by (simp add: tq_list_def walk_chain)

text \<open>A change of the heap away from the queue's tasks does not change the queue.\<close>

lemma chain_frame:
  "chain h p xs \<Longrightarrow> (\<And>a. a \<in> set xs \<Longrightarrow> task_at h' a = task_at h a) \<Longrightarrow> chain h' p xs"
  by (induction xs arbitrary: p) (auto split: option.splits)

lemma chain_alloc: "chain h p xs \<Longrightarrow> a \<in> set xs \<Longrightarrow> task_at h a \<noteq> None"
  by (induction xs arbitrary: p) (auto split: option.splits)

lemma task_at_update: "task_at (h[a := t]) b = (if a = b \<and> a < length h then t else task_at h b)"
  by (auto simp: task_at_def)

lemma task_at_alloc:
  "task_at (h @ [t]) b = (if b = length h then t else task_at h b)"
  by (auto simp: task_at_def nth_append)

lemma task_at_less: "task_at h a = Some t \<Longrightarrow> a < length h"
  by (simp add: task_at_def split: if_splits)

lemma tq_frame:
  assumes "tq_inv h q" and "\<And>a. a \<in> set (tq_list h q) \<Longrightarrow> task_at h' a = task_at h a"
  shows "tq_inv h' q \<and> tq_list h' q = tq_list h q"
proof -
  obtain xs where xs: "chain h (front q) xs" "distinct xs" "len q = int (length xs)"
    "rear q = (if xs = [] then None else Some (last xs))" using assms(1) by (auto simp: tq_inv_iff)
  then have "tq_list h q = xs" by (auto intro: tq_listI)
  then have "chain h' (front q) xs" using xs(1) assms(2) by (auto intro: chain_frame)
  then show ?thesis
    using xs \<open>tq_list h q = xs\<close> by (auto simp: tq_inv_iff intro: tq_listI)
qed

text \<open>Linking a task behind the last one.\<close>

lemma chain_snoc:
  assumes "chain h p xs" "distinct xs" "xs \<noteq> []" "set_prev h (last xs) (Some a) = Some h'"
    "a \<notin> set xs" "task_at h a = Some t" "prev t = None"
  shows "chain h' p (xs @ [a])"
  using assms
proof (induction xs arbitrary: p)
  case (Cons x xs)
  from Cons.prems(4) obtain l where l: "task_at h (last (x # xs)) = Some l"
    "h' = h[last (x # xs) := Some (l\<lparr>prev := Some a\<rparr>)]" by (auto simp: set_prev_def elim!: bind_SomeE)
  show ?case
  proof (cases "xs = []")
    case True
    then show ?thesis using Cons.prems l by (auto simp: task_at_update task_at_less split: option.splits)
  next
    case False
    then have "last (x # xs) \<noteq> x" using Cons.prems(2) by auto
    then have "task_at h' x = task_at h x" using l by (auto simp: task_at_update)
    then show ?thesis using Cons.prems Cons.IH False by (auto split: option.splits)
  qed
qed simp

section \<open>Push, pull and clear\<close>

text \<open>What a task will run, which the queue never changes.\<close>

definition content :: "task_heap \<Rightarrow> nat \<Rightarrow> (ptr \<times> ptr) option" where
  "content h a = map_option (\<lambda>t. (do_task_func t, arg t)) (task_at h a)"

lemma content_set_prev: "set_prev h a p = Some h' \<Longrightarrow> content h' b = content h b"
  by (auto simp: set_prev_def content_def task_at_update elim!: bind_SomeE)

lemma set_prev_other: "set_prev h a p = Some h' \<Longrightarrow> b \<noteq> a \<Longrightarrow> task_at h' b = task_at h b"
  by (auto simp: set_prev_def task_at_update elim!: bind_SomeE)

lemma set_prev_same:
  "set_prev h a p = Some h' \<Longrightarrow> \<exists>t. task_at h' a = Some t \<and> prev t = p"
  by (auto simp: set_prev_def task_at_update task_at_less elim!: bind_SomeE)

lemma set_prev_ok: "task_at h a \<noteq> None \<Longrightarrow> \<exists>h'. set_prev h a p = Some h'"
  by (auto simp: set_prev_def)

lemma content_None: "content h a = None \<longleftrightarrow> task_at h a = None"
  by (simp add: content_def)

lemma set_prev_alloc: "set_prev h a p = Some h' \<Longrightarrow> task_at h' b = None \<longleftrightarrow> task_at h b = None"
  by (metis content_None content_set_prev)

lemma push_ok:
  assumes inv: "tq_inv h q" and a: "task_at h a \<noteq> None" "a \<notin> set (tq_list h q)"
  shows "\<exists>h' q'. task_queue_push h q a = Some (h', q') \<and> tq_inv h' q' \<and>
    tq_list h' q' = tq_list h q @ [a] \<and> has_jobs q' = 1 \<and> content h' = content h \<and>
    (\<forall>b. b \<noteq> a \<and> b \<notin> set (tq_list h q) \<longrightarrow> task_at h' b = task_at h b)"
proof -
  define xs where "xs = tq_list h q"
  have q: "chain h (front q) xs" "distinct xs" "len q = int (length xs)"
    "rear q = (if xs = [] then None else Some (last xs))"
    using inv by (auto simp: tq_inv_def xs_def)
  obtain g where g: "set_prev h a None = Some g" using a set_prev_ok by blast
  obtain t where t: "task_at g a = Some t" "prev t = None" using set_prev_same [OF g] by blast
  have cg: "chain g (front q) xs"
    by (rule chain_frame [OF q(1)], rule set_prev_other [OF g]) (use a(2) xs_def in auto)
  show ?thesis
  proof (cases "xs = []")
    case True
    have "chain g (Some a) [a]" using t by simp
    then show ?thesis
      using True q(3) g set_prev_other [OF g] content_set_prev [OF g]
      by (auto simp: task_queue_push_def xs_def [symmetric] bsem_post_def tq_inv_iff fun_eq_iff
          intro!: tq_listI exI [of _ "[a]"])
  next
    case False
    then have "task_at g (last xs) \<noteq> None" using chain_alloc [OF cg] by simp
    then obtain g' where g': "set_prev g (last xs) (Some a) = Some g'" using set_prev_ok by blast
    have c: "chain g' (front q) (xs @ [a])"
      by (rule chain_snoc [OF cg q(2) False g' _ t]) (use a(2) xs_def in simp)
    have o: "task_at g' b = task_at h b" if "b \<noteq> a" "b \<notin> set xs" for b
    proof -
      have "b \<noteq> last xs" using that False by auto
      then show ?thesis using set_prev_other [OF g' ] set_prev_other [OF g that(1)] by simp
    qed
    have "content g' = content h" using content_set_prev [OF g] content_set_prev [OF g'] by auto
    then show ?thesis
      using False q c g g' o a(2)
      by (auto simp: task_queue_push_def xs_def [symmetric] bsem_post_def tq_inv_iff
          intro!: tq_listI exI [of _ "xs @ [a]"])
  qed
qed

lemma pull_ok:
  assumes inv: "tq_inv h q"
  shows "\<exists>q'. task_queue_pull h q =
      Some (case tq_list h q of [] \<Rightarrow> None | a # _ \<Rightarrow> Some a, q') \<and>
    tq_inv h q' \<and> tq_list h q' = tl (tq_list h q) \<and>
    has_jobs q' = (if 2 \<le> length (tq_list h q) then 1 else has_jobs q)"
proof -
  define xs where "xs = tq_list h q"
  have q: "chain h (front q) xs" "distinct xs" "len q = int (length xs)"
    "rear q = (if xs = [] then None else Some (last xs))"
    using inv by (auto simp: tq_inv_def xs_def)
  consider "xs = []" | a where "xs = [a]" | a b ys where "xs = a # b # ys"
    by (metis remdups_adj.cases)
  then show ?thesis
  proof cases
    case 1
    then show ?thesis using q inv by (simp add: task_queue_pull_def xs_def [symmetric])
  next
    case 2
    then show ?thesis
      using q by (auto simp: task_queue_pull_def xs_def [symmetric] tq_inv_iff
          intro!: tq_listI exI [of _ "[]"])
  next
    case 3
    then obtain t where t: "task_at h a = Some t" "chain h (prev t) (b # ys)"
      using q(1) by (cases "task_at h a") auto
    let ?q = "q\<lparr>front := prev t, len := len q - 1, has_jobs := 1\<rparr>"
    have "task_queue_pull h q = Some (Some a, ?q)"
      using 3 q(1,3) t(1) by (simp add: task_queue_pull_def bsem_post_def)
    moreover have "tq_inv h ?q"
      using 3 q t(2) by (auto simp: tq_inv_iff simp del: chain.simps(2) intro!: exI [of _ "b # ys"])
    moreover have "tq_list h ?q = b # ys"
      using 3 q(3) t(2) by (intro tq_listI) (simp_all del: chain.simps(2))
    ultimately show ?thesis using 3 by (simp add: xs_def [symmetric])
  qed
qed

lemma task_at_destroy: "task_at (task_destroy h p) b = (if p = Some b then None else task_at h b)"
  by (cases p) (auto simp: task_destroy_def task_at_update task_at_def)

text \<open>Clearing a queue frees its tasks and no others.\<close>

lemma clear_loop_ok:
  assumes "tq_inv h q"
  shows "\<exists>h' q'. clear_loop h q = Some (h', q') \<and>
    (\<forall>b. task_at h' b = (if b \<in> set (tq_list h q) then None else task_at h b))"
  using assms
proof (induction "tq_list h q" arbitrary: h q)
  case Nil
  then have "len q = 0" by (simp add: tq_inv_def)
  then show ?case using Nil by (simp add: clear_loop.simps)
next
  case (Cons a xs)
  obtain q' where q': "task_queue_pull h q = Some (Some a, q')" "tq_inv h q'" "tq_list h q' = xs"
    using pull_ok [OF Cons.prems] Cons.hyps(2) [symmetric] by auto
  let ?h = "task_destroy h (Some a)"
  have "a \<notin> set xs" using Cons.prems Cons.hyps(2) by (metis distinct.simps(2) tq_inv_def)
  then have "tq_inv ?h q' \<and> tq_list ?h q' = tq_list h q'"
    using q'(2,3) by (intro tq_frame) (auto simp: task_at_destroy)
  then obtain h' r where "clear_loop ?h q' = Some (h', r)"
    "\<forall>b. task_at h' b = (if b \<in> set xs then None else task_at ?h b)"
    using Cons.hyps(1) [of ?h q'] q'(3) by auto
  moreover have "len q \<noteq> 0" using Cons.prems Cons.hyps(2) by (auto simp: tq_inv_def tq_list_def)
  ultimately show ?case
    using q'(1) Cons.hyps(2) [symmetric] by (auto simp: clear_loop.simps [of h q] task_at_destroy)
qed

section \<open>The contract\<close>

datatype 'a queue_op = Push 'a | Pull

text \<open>Runs of operations: on a concrete queue, and on a list.\<close>

fun queue_run :: "('h \<Rightarrow> 'q \<Rightarrow> 'a \<Rightarrow> ('h \<times> 'q) option) \<Rightarrow> ('h \<Rightarrow> 'q \<Rightarrow> ('a option \<times> 'q) option) \<Rightarrow>
    'a queue_op list \<Rightarrow> 'h \<Rightarrow> 'q \<Rightarrow> ('a option list \<times> 'h \<times> 'q) option" where
  "queue_run push pull [] h q = Some ([], h, q)"
| "queue_run push pull (Push a # ops) h q = do { (h, q) \<leftarrow> push h q a; queue_run push pull ops h q }"
| "queue_run push pull (Pull # ops) h q = do {
     (r, q) \<leftarrow> pull h q;
     (rs, h, q) \<leftarrow> queue_run push pull ops h q;
     Some (r # rs, h, q) }"

fun list_run :: "'a queue_op list \<Rightarrow> 'a list \<Rightarrow> 'a option list \<times> 'a list" where
  "list_run [] xs = ([], xs)"
| "list_run (Push a # ops) xs = list_run ops (xs @ [a])"
| "list_run (Pull # ops) xs = (let (rs, ys) = list_run ops (tl xs) in
     ((case xs of [] \<Rightarrow> None | x # _ \<Rightarrow> Some x) # rs, ys))"

fun pushed :: "'a queue_op list \<Rightarrow> 'a list" where
  "pushed [] = []"
| "pushed (Push a # ops) = a # pushed ops"
| "pushed (Pull # ops) = pushed ops"

locale fifo =
  fixes items :: "'h \<Rightarrow> 'q \<Rightarrow> 'a list"
    and inv :: "'h \<Rightarrow> 'q \<Rightarrow> bool"
    and usable :: "'h \<Rightarrow> 'a \<Rightarrow> bool"
    and push :: "'h \<Rightarrow> 'q \<Rightarrow> 'a \<Rightarrow> ('h \<times> 'q) option"
    and pull :: "'h \<Rightarrow> 'q \<Rightarrow> ('a option \<times> 'q) option"
  assumes push_law: "inv h q \<Longrightarrow> usable h a \<Longrightarrow> a \<notin> set (items h q) \<Longrightarrow>
      \<exists>h' q'. push h q a = Some (h', q') \<and> inv h' q' \<and> items h' q' = items h q @ [a] \<and> usable h' = usable h"
    and pull_law: "inv h q \<Longrightarrow>
      \<exists>q'. pull h q = Some (case items h q of [] \<Rightarrow> None | a # _ \<Rightarrow> Some a, q') \<and> inv h q' \<and>
        items h q' = tl (items h q)"
begin

lemma run_refines:
  assumes "inv h q" "distinct (items h q @ pushed ops)" "list_all (usable h) (pushed ops)"
  shows "\<exists>h' q'. queue_run push pull ops h q = Some (fst (list_run ops (items h q)), h', q') \<and>
    inv h' q' \<and> items h' q' = snd (list_run ops (items h q))"
  using assms
proof (induction ops arbitrary: h q)
  case Nil
  then show ?case by simp
next
  case (Cons oper ops)
  show ?case
  proof (cases oper)
    case (Push a)
    then obtain h' q' where p: "push h q a = Some (h', q')" "inv h' q'"
      "items h' q' = items h q @ [a]" "usable h' = usable h"
      using push_law [of h q a] Cons.prems by auto
    then show ?thesis using Push Cons.IH [of h' q'] Cons.prems by auto
  next
    case Pull
    obtain q' where p: "pull h q = Some (case items h q of [] \<Rightarrow> None | a # _ \<Rightarrow> Some a, q')"
      "inv h q'" "items h q' = tl (items h q)" using pull_law Cons.prems(1) by blast
    have "distinct (tl (items h q) @ pushed ops)"
      using Cons.prems(2) Pull by (cases "items h q") auto
    then show ?thesis
      using Pull Cons.IH [of h q'] Cons.prems p by (auto simp: Let_def split: prod.splits)
  qed
qed

end

interpretation tq: fifo tq_list tq_inv "\<lambda>h a. task_at h a \<noteq> None" task_queue_push task_queue_pull
proof unfold_locales
  fix h q a
  assume *: "tq_inv h q" "task_at h a \<noteq> None" "a \<notin> set (tq_list h q)"
  show "\<exists>h' q'. task_queue_push h q a = Some (h', q') \<and> tq_inv h' q' \<and>
    tq_list h' q' = tq_list h q @ [a] \<and> (\<lambda>a. task_at h' a \<noteq> None) = (\<lambda>a. task_at h a \<noteq> None)"
    using push_ok [OF *] by (metis content_None)
next
  fix h q
  assume "tq_inv h q"
  then show "\<exists>q'. task_queue_pull h q = Some (case tq_list h q of [] \<Rightarrow> None | a # _ \<Rightarrow> Some a, q') \<and>
    tq_inv h q' \<and> tq_list h q' = tl (tq_list h q)"
    using pull_ok by blast
qed

section \<open>Properties\<close>

text \<open>C20: The task queue is first in, first out. Any sequence of pushes and pulls on a new queue, the
  tasks pushed being allocated and different, returns and leaves what it would on a list: pushes
  append, a pull takes the first task and is NULL when there is none.\<close>

theorem task_queue_fifo:
  assumes "task_queue_alloc n = Some q" "distinct (pushed ops)"
    "list_all (\<lambda>a. task_at h a \<noteq> None) (pushed ops)"
  shows "\<exists>h' q'. queue_run task_queue_push task_queue_pull ops h q = Some (fst (list_run ops []), h', q') \<and>
    tq_inv h' q' \<and> tq_list h' q' = snd (list_run ops [])"
proof -
  have q: "q = \<lparr>tid = int n, front = None, rear = None, has_jobs = 0, len = 0\<rparr>"
    using assms(1) by (simp add: task_queue_alloc_def bsem_init_def)
  have "tq_inv h q" "tq_list h q = []" by (auto simp: q tq_inv_iff tq_list_def intro!: exI [of _ "[]"])
  then show ?thesis using tq.run_refines [of h q ops] assms(2,3) by simp
qed

theorem task_queue_fifo_witness:
  "\<exists>h' q'. queue_run task_queue_push task_queue_pull [Push 0, Push 1, Pull, Pull, Pull]
     (replicate 2 (Some \<lparr>prev = None, do_task_func = Some 7, arg = Some 8\<rparr>))
     (the (task_queue_alloc 0)) = Some ([Some 0, Some 1, None], h', q')"
  using task_queue_fifo [of 0 "the (task_queue_alloc 0)" "[Push 0, Push 1, Pull, Pull, Pull]"
      "replicate 2 (Some \<lparr>prev = None, do_task_func = Some 7, arg = Some 8\<rparr>)"]
  by (auto simp: task_queue_alloc_def bsem_init_def task_at_def numeral_2_eq_2)

text \<open>Clearing a queue ends, leaves it empty with its semaphore down, frees every task in it and
  touches no other.\<close>

theorem task_queue_clear_frees_all:
  assumes "tq_inv h q"
  shows "\<exists>h' q'. task_queue_clear h q = Some (h', q') \<and> tq_inv h' q' \<and> tq_list h' q' = [] \<and>
    has_jobs q' = 0 \<and> (\<forall>b. task_at h' b = (if b \<in> set (tq_list h q) then None else task_at h b))"
proof -
  obtain h' q' where "clear_loop h q = Some (h', q')"
    "\<forall>b. task_at h' b = (if b \<in> set (tq_list h q) then None else task_at h b)"
    using clear_loop_ok [OF assms] by blast
  then show ?thesis
    by (auto simp: task_queue_clear_def bsem_reset_def bsem_init_def tq_inv_iff tq_list_def
        intro!: exI [of _ "[]"])
qed

theorem task_queue_clear_frees_all_witness:
  "let h = [Some \<lparr>prev = None, do_task_func = Some 7, arg = Some 8\<rparr>];
       q = \<lparr>tid = 0, front = Some 0, rear = Some 0, has_jobs = 1, len = 1\<rparr>
   in tq_inv h q \<and> (\<exists>h' q'. task_queue_clear h q = Some (h', q') \<and> task_at h' 0 = None)"
proof -
  let ?h = "[Some \<lparr>prev = None, do_task_func = Some 7, arg = Some 8\<rparr>]"
  let ?q = "\<lparr>tid = 0, front = Some 0, rear = Some 0, has_jobs = 1, len = 1\<rparr>"
  have i: "tq_inv ?h ?q" by (simp add: tq_inv_def tq_list_def task_at_def)
  have "tq_list ?h ?q = [0]" by (simp add: tq_list_def task_at_def)
  then show ?thesis using task_queue_clear_frees_all [OF i] i by (auto simp: Let_def)
qed

end
