(* ===== verification/Thread_Pool.thy ===== *)
theory Thread_Pool
  imports Task_Queue "HOL-Library.Multiset"
begin

text \<open>
  The thread pool (second half of \<open>module/stl/src/stl_thread_pool.c\<close>): worker threads that each serve a
  queue of their own, clients that add tasks round robin, and clients that wait until all is done.

  The state holds the pool, the heap of tasks, the program counter of every worker (\<open>stl_thread_do\<close>) and
  of every client (\<open>stl_thread_pool_add_task\<close>, \<open>stl_thread_pool_wait\<close>), and who may hold
  \<open>thcount_lock\<close>. \<open>worker_exec\<close> and \<open>client_exec\<close> do what a thread does up to its next access to
  shared data; the queue functions hold their mutex throughout and are one access each. A thread that
  waits for a semaphore, a lock or a condition stays where it is. \<open>tp_step\<close> interleaves the threads.
  Clients may add any task, with a NULL function or argument too.

  \<open>stl_thread_pool_wait\<close> reads the length of a queue, a plain \<open>int\<close>, without the mutex its writers hold:
  a data race (\<open>len_read_races\<close>). C gives such a read no meaning at all; here it is defined and may return
  any value, so what is proved of every run holds however the read comes out as long as it does come out.
  The fields \<open>submitted\<close> and \<open>ran\<close> record, for the statements only, what clients asked for and what
  workers did.

  The pool is the one \<open>stl_thread_pool_init\<close> sets up. Nothing clears \<open>threads_keepalive\<close> while it
  works: only \<open>stl_thread_pool_deinit\<close> does, and that function reads the array of queue pointers as if it
  were a queue, which has no meaning.
\<close>

section \<open>The pool\<close>

record stl_thread_pool =
  num_threads :: int
  num_threads_alive :: u64
  num_threads_working :: u64
  his_task_num :: u64
  task_queues :: "task_queue list"
  done_task_nums :: "u64 list"

text \<open>\<open>his_task_num\<close> and the threads' \<open>done_task_num\<close> are not initialised: they keep what the memory
  holds (\<open>done0\<close> for the latter).\<close>

fun init_loop :: "(nat \<Rightarrow> u64) \<Rightarrow> nat \<Rightarrow> nat \<Rightarrow> stl_thread_pool \<Rightarrow> stl_thread_pool option" where
  "init_loop done0 n 0 tp = Some tp"
| "init_loop done0 n (Suc k) tp = do {
     q \<leftarrow> task_queue_alloc n;
     init_loop done0 (Suc n) k (tp\<lparr>task_queues := task_queues tp @ [q],
       done_task_nums := done_task_nums tp @ [done0 n]\<rparr>) }"

definition stl_thread_pool_init ::
    "(nat \<Rightarrow> u64) \<Rightarrow> stl_thread_pool option \<Rightarrow> int \<Rightarrow> (int \<times> stl_thread_pool option) option" where
  "stl_thread_pool_init done0 tp n = (case tp of
     None \<Rightarrow> Some (-1, None)
   | Some tp \<Rightarrow> if n > 0 then do {
        tp \<leftarrow> init_loop done0 0 (nat n) (tp\<lparr>num_threads_alive := 0, num_threads_working := 0,
          num_threads := n, task_queues := [], done_task_nums := []\<rparr>);
        Some (-1, Some tp) }
      else Some (-1, Some tp))"

text \<open>The memory \<open>malloc\<close> returns holds anything.\<close>

definition stl_thread_pool_alloc ::
    "(nat \<Rightarrow> u64) \<Rightarrow> stl_thread_pool \<Rightarrow> int \<Rightarrow> stl_thread_pool option option" where
  "stl_thread_pool_alloc done0 mem n = do {
     (r, tp) \<leftarrow> stl_thread_pool_init done0 (Some mem) n;
     if r \<noteq> 0 then Some None else Some tp }"

definition stl_thread_pool_running_threads :: "stl_thread_pool \<Rightarrow> int" where
  "stl_thread_pool_running_threads tp = sint (ucast (num_threads_working tp) :: u32)"

section \<open>Threads\<close>

datatype worker_pc =
    WStart
  | WTop \<comment> \<open>the loop condition\<close>
  | WWait \<comment> \<open>\<open>bsem_wait\<close>\<close>
  | WAwake \<comment> \<open>the second test of \<open>threads_keepalive\<close>\<close>
  | WEnter \<comment> \<open>\<open>num_threads_working\<close> up\<close>
  | WPull
  | WRun nat
  | WCount nat
  | WFree nat
  | WLeave \<comment> \<open>\<open>num_threads_working\<close> down\<close>
  | WSignal
  | WEnd \<comment> \<open>\<open>num_threads_alive\<close> down\<close>
  | WExit

datatype client_pc =
    CIdle
  | CCount nat \<comment> \<open>\<open>his_task_num\<close> up\<close>
  | CPick nat \<comment> \<open>\<open>his_task_num % num_threads\<close>\<close>
  | CPush nat nat
  | CLock nat \<comment> \<open>taking \<open>thcount_lock\<close>, for the first time or on waking up\<close>
  | CLen nat \<comment> \<open>\<open>queue[i]->len\<close>\<close>
  | CWork nat \<comment> \<open>\<open>num_threads_working\<close>\<close>
  | CBlock nat \<comment> \<open>\<open>pthread_cond_wait\<close>\<close>
  | CSleep nat

text \<open>The task a client is adding.\<close>

fun adding :: "client_pc \<Rightarrow> nat list" where
  "adding (CCount a) = [a]"
| "adding (CPick a) = [a]"
| "adding (CPush a _) = [a]"
| "adding _ = []"

record tp_sys =
  pool :: stl_thread_pool
  tasks :: task_heap
  workers :: "worker_pc list"
  clients :: "client_pc list"
  thcount_lock :: bool
  threads_keepalive :: bool
  submitted :: "(ptr \<times> ptr) list"
  ran :: "(nat \<times> ptr \<times> ptr) list"

definition goto_w :: "nat \<Rightarrow> worker_pc \<Rightarrow> tp_sys \<Rightarrow> tp_sys" where
  "goto_w i pc s = s\<lparr>workers := (workers s)[i := pc]\<rparr>"

definition goto_c :: "nat \<Rightarrow> client_pc \<Rightarrow> tp_sys \<Rightarrow> tp_sys" where
  "goto_c j pc s = s\<lparr>clients := (clients s)[j := pc]\<rparr>"

definition set_queue :: "nat \<Rightarrow> task_queue \<Rightarrow> tp_sys \<Rightarrow> tp_sys" where
  "set_queue i q s = s\<lparr>pool := (pool s)\<lparr>task_queues := (task_queues (pool s))[i := q]\<rparr>\<rparr>"

definition queue_of :: "tp_sys \<Rightarrow> nat \<Rightarrow> task_queue option" where
  "queue_of s i = (if i < length (task_queues (pool s)) then Some (task_queues (pool s) ! i) else None)"

text \<open>\<open>pthread_cond_signal\<close> wakes the sleeper \<open>k\<close> the scheduler chose, if there is one.\<close>

definition signal :: "nat \<Rightarrow> tp_sys \<Rightarrow> tp_sys" where
  "signal k s = (if k < length (clients s) then
     case clients s ! k of CSleep i \<Rightarrow> goto_c k (CLock i) s | _ \<Rightarrow> s else s)"

text \<open>The loop of \<open>stl_thread_do\<close>. Setting the thread's name, its processor and its signal handler
  comes before and touches nothing here (\<open>sigaction\<close> succeeds).\<close>

definition worker_exec :: "nat \<Rightarrow> nat \<Rightarrow> tp_sys \<Rightarrow> tp_sys option" where
  "worker_exec k i s = (case workers s ! i of
     WStart \<Rightarrow> Some (goto_w i WTop
       (s\<lparr>pool := (pool s)\<lparr>num_threads_alive := num_threads_alive (pool s) + 1\<rparr>\<rparr>))
   | WTop \<Rightarrow> Some (goto_w i (if threads_keepalive s then WWait else WEnd) s)
   | WWait \<Rightarrow> do {
       q \<leftarrow> queue_of s i;
       case bsem_wait (has_jobs q) of
         None \<Rightarrow> Some s
       | Some v \<Rightarrow> Some (goto_w i WAwake (set_queue i (q\<lparr>has_jobs := v\<rparr>) s)) }
   | WAwake \<Rightarrow> Some (goto_w i (if threads_keepalive s then WEnter else WTop) s)
   | WEnter \<Rightarrow> Some (goto_w i WPull
       (s\<lparr>pool := (pool s)\<lparr>num_threads_working := num_threads_working (pool s) + 1\<rparr>\<rparr>))
   | WPull \<Rightarrow> do {
       q \<leftarrow> queue_of s i;
       (p, q) \<leftarrow> task_queue_pull (tasks s) q;
       Some (goto_w i (case p of None \<Rightarrow> WLeave | Some a \<Rightarrow> WRun a) (set_queue i q s)) }
   | WRun a \<Rightarrow> do {
       t \<leftarrow> task_at (tasks s) a;
       f \<leftarrow> do_task_func t;
       Some (goto_w i (WCount a) (s\<lparr>ran := ran s @ [(i, Some f, arg t)]\<rparr>)) }
   | WCount a \<Rightarrow> Some (goto_w i (WFree a) (s\<lparr>pool := (pool s)\<lparr>done_task_nums :=
       (done_task_nums (pool s))[i := done_task_nums (pool s) ! i + 1]\<rparr>\<rparr>))
   | WFree a \<Rightarrow> Some (goto_w i WLeave (s\<lparr>tasks := task_destroy (tasks s) (Some a)\<rparr>))
   | WLeave \<Rightarrow> Some (goto_w i WSignal
       (s\<lparr>pool := (pool s)\<lparr>num_threads_working := num_threads_working (pool s) - 1\<rparr>\<rparr>))
   | WSignal \<Rightarrow> Some (goto_w i WTop (if num_threads_working (pool s) = 0 then signal k s else s))
   | WEnd \<Rightarrow> Some (goto_w i WExit
       (s\<lparr>pool := (pool s)\<lparr>num_threads_alive := num_threads_alive (pool s) - 1\<rparr>\<rparr>))
   | WExit \<Rightarrow> Some s)"

text \<open>The beginnings of the two calls.\<close>

definition call_add_task :: "nat \<Rightarrow> ptr \<Rightarrow> ptr \<Rightarrow> tp_sys \<Rightarrow> tp_sys" where
  "call_add_task j func arg_p s =
     (let (h, a) = task_alloc (tasks s) func arg_p
      in goto_c j (CCount a) (s\<lparr>tasks := h, submitted := submitted s @ [(func, arg_p)]\<rparr>))"

definition call_wait :: "nat \<Rightarrow> tp_sys \<Rightarrow> tp_sys" where
  "call_wait j s = goto_c j (CLock 0) s"

definition add_task_exec :: "nat \<Rightarrow> tp_sys \<Rightarrow> tp_sys option" where
  "add_task_exec j s = (case clients s ! j of
     CCount a \<Rightarrow> Some (goto_c j (CPick a)
       (s\<lparr>pool := (pool s)\<lparr>his_task_num := his_task_num (pool s) + 1\<rparr>\<rparr>))
   | CPick a \<Rightarrow> (let n = word_of_int (num_threads (pool s)) :: u64 in
       if n = 0 then None else Some (goto_c j (CPush a (unat (his_task_num (pool s) mod n))) s))
   | CPush a i \<Rightarrow> do {
       q \<leftarrow> queue_of s i;
       (h, q) \<leftarrow> task_queue_push (tasks s) q a;
       Some (goto_c j CIdle (set_queue i q (s\<lparr>tasks := h\<rparr>))) }
   | _ \<Rightarrow> Some s)"

text \<open>The value \<open>v\<close> is what the unsynchronised read of \<open>queue[i]->len\<close> returns.\<close>

definition wait_exec :: "int \<Rightarrow> nat \<Rightarrow> tp_sys \<Rightarrow> tp_sys option" where
  "wait_exec v j s = (case clients s ! j of
     CLock i \<Rightarrow> Some (if thcount_lock s then s else goto_c j (CLen i) (s\<lparr>thcount_lock := True\<rparr>))
   | CLen i \<Rightarrow> if i < unat (word_of_int (num_threads (pool s)) :: u64) then do {
         q \<leftarrow> queue_of s i;
         Some (goto_c j (if v \<noteq> 0 then CBlock i else CWork i) s) }
       else Some (goto_c j CIdle (s\<lparr>thcount_lock := False\<rparr>))
   | CWork i \<Rightarrow> Some (goto_c j (if num_threads_working (pool s) \<noteq> 0 then CBlock i else CLen (i + 1)) s)
   | CBlock i \<Rightarrow> Some (goto_c j (CSleep i) (s\<lparr>thcount_lock := False\<rparr>))
   | _ \<Rightarrow> Some s)"

definition client_exec :: "int \<Rightarrow> nat \<Rightarrow> tp_sys \<Rightarrow> tp_sys option" where
  "client_exec v j s = (if adding (clients s ! j) \<noteq> [] then add_task_exec j s else wait_exec v j s)"

text \<open>The interleaving. A signal wakes a sleeper if there is one, and a sleeper may wake up by itself.\<close>

fun asleep :: "client_pc \<Rightarrow> bool" where
  "asleep (CSleep _) = True"
| "asleep _ = False"

inductive tp_step :: "tp_sys \<Rightarrow> tp_sys \<Rightarrow> bool" where
  worker: "i < length (workers s) \<Longrightarrow>
     ((\<exists>j<length (clients s). asleep (clients s ! j)) \<longrightarrow> k < length (clients s) \<and> asleep (clients s ! k)) \<Longrightarrow>
     worker_exec k i s = Some s' \<Longrightarrow> tp_step s s'"
| client: "j < length (clients s) \<Longrightarrow> client_exec v j s = Some s' \<Longrightarrow> tp_step s s'"
| add_task: "j < length (clients s) \<Longrightarrow> clients s ! j = CIdle \<Longrightarrow> tp_step s (call_add_task j func arg_p s)"
| wait: "j < length (clients s) \<Longrightarrow> clients s ! j = CIdle \<Longrightarrow> tp_step s (call_wait j s)"
| wakeup: "j < length (clients s) \<Longrightarrow> clients s ! j = CSleep i \<Longrightarrow> tp_step s (goto_c j (CLock i) s)"

definition tp_start :: "stl_thread_pool \<Rightarrow> nat \<Rightarrow> tp_sys" where
  "tp_start tp m = \<lparr>pool = tp, tasks = [], workers = replicate (nat (num_threads tp)) WStart,
     clients = replicate m CIdle, thcount_lock = False, threads_keepalive = True, submitted = [], ran = []\<rparr>"

definition tp_reachable :: "(nat \<Rightarrow> u64) \<Rightarrow> stl_thread_pool \<Rightarrow> int \<Rightarrow> nat \<Rightarrow> tp_sys \<Rightarrow> bool" where
  "tp_reachable done0 mem n m s \<longleftrightarrow>
     (\<exists>r tp. stl_thread_pool_init done0 (Some mem) n = Some (r, Some tp) \<and> tp_step\<^sup>*\<^sup>* (tp_start tp m) s)"

text \<open>Tasks that can be run: \<open>task_alloc\<close> stores the function only when neither pointer is NULL.\<close>

definition runnable :: "(ptr \<times> ptr) list \<Rightarrow> bool" where
  "runnable ts \<longleftrightarrow> list_all (\<lambda>(func, arg_p). func \<noteq> None \<and> arg_p \<noteq> None) ts"

lemmas client_exec_defs = client_exec_def add_task_exec_def wait_exec_def

section \<open>The invariant\<close>

text \<open>The tasks a thread holds, the one a worker has still to run, and where a worker stands.\<close>

fun hand :: "worker_pc \<Rightarrow> nat list" where
  "hand (WRun a) = [a]"
| "hand (WCount a) = [a]"
| "hand (WFree a) = [a]"
| "hand _ = []"

fun todo :: "worker_pc \<Rightarrow> nat list" where
  "todo (WRun a) = [a]"
| "todo _ = []"

fun busy :: "worker_pc \<Rightarrow> bool" where
  "busy WPull = True" | "busy (WRun _) = True" | "busy (WCount _) = True" | "busy (WFree _) = True"
| "busy WLeave = True" | "busy _ = False"

fun alerted :: "worker_pc \<Rightarrow> bool" where
  "alerted WAwake = True" | "alerted WEnter = True" | "alerted WPull = True" | "alerted _ = False"

fun serving :: "worker_pc \<Rightarrow> bool" where
  "serving WEnd = False" | "serving WExit = False" | "serving _ = True"

text \<open>All the lists of a family as one multiset, and what replacing one member does to it.\<close>

definition gather :: "('a \<Rightarrow> nat list) \<Rightarrow> 'a list \<Rightarrow> nat multiset" where
  "gather f xs = mset (concat (map f xs))"

lemma gather_update:
  "i < length xs \<Longrightarrow> gather f (xs[i := y]) + mset (f (xs ! i)) = gather f xs + mset (f y)"
proof (induction xs arbitrary: i)
  case (Cons x xs)
  then show ?case by (cases i) (auto simp: gather_def ac_simps)
qed simp

lemma gather_member: "i < length xs \<Longrightarrow> a \<in> set (f (xs ! i)) \<Longrightarrow> a \<in># gather f xs"
  by (auto simp: gather_def)

lemma gather_change:
  assumes "i < length xs" "length ys = length xs" "\<And>j. j < length xs \<Longrightarrow> j \<noteq> i \<Longrightarrow> g (ys ! j) = f (xs ! j)"
  shows "gather g ys + mset (f (xs ! i)) = gather f xs + mset (g (ys ! i))"
proof -
  have "map g ys = (map f xs)[i := g (ys ! i)]"
    using assms by (intro nth_equalityI) (auto simp: nth_list_update)
  then show ?thesis using gather_update [of i "map f xs" id "g (ys ! i)"] assms(1) by (simp add: gather_def)
qed

lemma gather_two:
  assumes "i < length xs" "j < length xs" "i \<noteq> j" "a \<in> set (f (xs ! i))" "a \<in> set (f (xs ! j))"
  shows "1 < count (gather f xs) a"
proof -
  have g: "gather id ((map f xs)[i := []]) + mset (f (xs ! i)) = gather f xs"
    using gather_update [of i "map f xs" id "[]"] assms(1) by (simp add: gather_def)
  have "a \<in># gather id ((map f xs)[i := []])" "a \<in># mset (f (xs ! i))"
    using gather_member [of j "(map f xs)[i := []]" a id] assms by simp_all
  then have "0 < count (gather id ((map f xs)[i := []])) a" "0 < count (mset (f (xs ! i))) a"
    by (simp_all only: count_greater_zero_iff)
  then show ?thesis unfolding g [symmetric] count_union by linarith
qed

lemma gather_update_same:
  "i < length xs \<Longrightarrow> mset (f y) = mset (f (xs ! i)) \<Longrightarrow> gather f (xs[i := y]) = gather f xs"
  using gather_update [of i xs f y] by simp

lemma gather_cong: "(\<And>x. x \<in> set xs \<Longrightarrow> f x = g x) \<Longrightarrow> gather f xs = gather g xs"
  by (simp add: gather_def cong: map_cong)

lemma gather_replicate [simp]: "f x = [] \<Longrightarrow> gather f (replicate n x) = {#}"
  by (induction n) (auto simp: gather_def)

definition owned :: "task_heap \<Rightarrow> task_queue list \<Rightarrow> worker_pc list \<Rightarrow> client_pc list \<Rightarrow> nat multiset" where
  "owned h qs ws cs = gather (tq_list h) qs + gather hand ws + gather adding cs"

definition pending :: "task_heap \<Rightarrow> task_queue list \<Rightarrow> worker_pc list \<Rightarrow> client_pc list \<Rightarrow> nat multiset" where
  "pending h qs ws cs = gather (tq_list h) qs + gather todo ws + gather adding cs"

text \<open>The parts of the invariant: the tasks are held by one owner each and can be run; what was
  submitted has run or is pending; the count of busy workers; no wake-up is lost.\<close>

definition tasks_ok :: "task_heap \<Rightarrow> task_queue list \<Rightarrow> worker_pc list \<Rightarrow> client_pc list \<Rightarrow> bool" where
  "tasks_ok h qs ws cs \<longleftrightarrow> (\<forall>q\<in>set qs. tq_inv h q) \<and> (\<forall>a. count (owned h qs ws cs) a \<le> 1) \<and>
     (\<forall>a\<in>#owned h qs ws cs. \<exists>f x. content h a = Some (Some f, Some x)) \<and>
     (\<forall>a i. CPush a i \<in> set cs \<longrightarrow> i < length qs)"

definition account_ok :: "task_heap \<Rightarrow> task_queue list \<Rightarrow> worker_pc list \<Rightarrow> client_pc list \<Rightarrow>
    (ptr \<times> ptr) list \<Rightarrow> (nat \<times> ptr \<times> ptr) list \<Rightarrow> bool" where
  "account_ok h qs ws cs sub done \<longleftrightarrow>
     mset (map snd done) + image_mset (\<lambda>a. the (content h a)) (pending h qs ws cs) = mset sub"

definition alert_ok :: "task_heap \<Rightarrow> task_queue list \<Rightarrow> worker_pc list \<Rightarrow> bool" where
  "alert_ok h qs ws \<longleftrightarrow> (\<forall>i<length qs. tq_list h (qs ! i) \<noteq> [] \<longrightarrow>
     has_jobs (qs ! i) = 1 \<or> alerted (ws ! i))"

definition pool_inv :: "nat \<Rightarrow> tp_sys \<Rightarrow> bool" where
  "pool_inv n s \<longleftrightarrow> length (task_queues (pool s)) = n \<and> length (workers s) = n \<and>
     length (done_task_nums (pool s)) = n \<and> num_threads (pool s) = int n \<and> threads_keepalive s \<and>
     list_all serving (workers s) \<and> tasks_ok (tasks s) (task_queues (pool s)) (workers s) (clients s) \<and>
     account_ok (tasks s) (task_queues (pool s)) (workers s) (clients s) (submitted s) (ran s) \<and>
     unat (num_threads_working (pool s)) = length (filter busy (workers s)) \<and>
     alert_ok (tasks s) (task_queues (pool s)) (workers s)"

subsection \<open>Moves of a worker\<close>

lemma tasks_worker:
  assumes "i < length ws" "hand pc = hand (ws ! i)"
  shows "tasks_ok h qs (ws[i := pc]) cs = tasks_ok h qs ws cs"
  using assms by (simp add: tasks_ok_def owned_def gather_update_same)

lemma account_worker:
  assumes "i < length ws" "todo pc = todo (ws ! i)"
  shows "account_ok h qs (ws[i := pc]) cs sub done = account_ok h qs ws cs sub done"
  using assms by (simp add: account_ok_def pending_def gather_update_same)

lemma alert_worker:
  assumes "alert_ok h qs ws" "alerted (ws ! i) \<Longrightarrow> alerted pc"
  shows "alert_ok h qs (ws[i := pc])"
  unfolding alert_ok_def
proof (intro allI impI)
  fix k assume k: "k < length qs" "tq_list h (qs ! k) \<noteq> []"
  then have "has_jobs (qs ! k) = 1 \<or> alerted (ws ! k)" using assms(1) by (auto simp: alert_ok_def)
  then show "has_jobs (qs ! k) = 1 \<or> alerted (ws[i := pc] ! k)"
    using assms(2) by (cases "k = i"; cases "i < length ws") (auto simp: list_update_beyond)
qed

text \<open>A worker that goes on with the same task.\<close>

lemma worker_move:
  assumes "pool_inv n s" "i < n" "hand pc = hand (workers s ! i)" "todo pc = todo (workers s ! i)"
    "alerted (workers s ! i) \<Longrightarrow> alerted pc" "busy pc = busy (workers s ! i)" "serving pc"
  shows "pool_inv n (goto_w i pc s)"
proof -
  have i: "i < length (workers s)" using assms by (simp add: pool_inv_def)
  show ?thesis
    using assms tasks_worker [OF i assms(3)] account_worker [OF i assms(4)]
      alert_worker [of _ _ "workers s" i pc] length_filter_update [OF i, of busy pc]
    by (simp add: pool_inv_def goto_w_def)
qed

text \<open>Counters that no part of the invariant mentions.\<close>

lemma pool_inv_counters [simp]:
  "pool_inv n (s\<lparr>pool := (pool s)\<lparr>num_threads_alive := x\<rparr>\<rparr>) = pool_inv n s"
  "pool_inv n (s\<lparr>pool := (pool s)\<lparr>his_task_num := x\<rparr>\<rparr>) = pool_inv n s"
  "pool_inv n (s\<lparr>thcount_lock := b\<rparr>) = pool_inv n s"
  "length ds = length (done_task_nums (pool s)) \<Longrightarrow>
     pool_inv n (s\<lparr>pool := (pool s)\<lparr>done_task_nums := ds\<rparr>\<rparr>) = pool_inv n s"
  by (auto simp: pool_inv_def)

text \<open>A worker that starts or stops working.\<close>

lemma worker_enter:
  assumes inv: "pool_inv n s" and i: "i < n" and n: "n < 2 ^ 64" and w: "workers s ! i = WEnter"
  shows "pool_inv n (goto_w i WPull
    (s\<lparr>pool := (pool s)\<lparr>num_threads_working := num_threads_working (pool s) + 1\<rparr>\<rparr>))"
proof -
  have l: "i < length (workers s)" "length (workers s) = n" using inv i by (simp_all add: pool_inv_def)
  note b = length_filter_update [OF l(1), of busy WPull]
  have u: "unat (num_threads_working (pool s)) = length (filter busy (workers s))"
    using inv by (simp add: pool_inv_def)
  have "length (filter busy ((workers s)[i := WPull])) \<le> n"
    using length_filter_le [of busy "(workers s)[i := WPull]"] l(2) by simp
  then have "Suc (unat (num_threads_working (pool s))) < 2 ^ 64" using b u n w by simp
  then have "unat (num_threads_working (pool s) + 1) = Suc (unat (num_threads_working (pool s)))"
    by (simp add: unat_word_ariths)
  then show ?thesis
    using inv b u w tasks_worker [OF l(1), of WPull] account_worker [OF l(1), of WPull]
      alert_worker [of _ _ "workers s" i WPull]
    by (simp add: pool_inv_def goto_w_def)
qed

lemma worker_leave:
  assumes inv: "pool_inv n s" and i: "i < n" and w: "workers s ! i = WLeave"
  shows "pool_inv n (goto_w i WSignal
    (s\<lparr>pool := (pool s)\<lparr>num_threads_working := num_threads_working (pool s) - 1\<rparr>\<rparr>))"
proof -
  have l: "i < length (workers s)" using inv i by (simp add: pool_inv_def)
  note b = length_filter_update [OF l, of busy WSignal]
  have u: "unat (num_threads_working (pool s)) = length (filter busy (workers s))"
    using inv by (simp add: pool_inv_def)
  then have "unat (num_threads_working (pool s)) \<noteq> 0" using b w by auto
  then have "unat (num_threads_working (pool s) - 1) = unat (num_threads_working (pool s)) - 1"
    by (metis unat_0 unat_minus_one)
  then show ?thesis
    using inv b u w tasks_worker [OF l, of WSignal] account_worker [OF l, of WSignal]
      alert_worker [of _ _ "workers s" i WSignal]
    by (simp add: pool_inv_def goto_w_def)
qed

text \<open>The semaphore is not part of what a queue holds.\<close>

lemma tq_has_jobs [simp]:
  "tq_list h (q\<lparr>has_jobs := v\<rparr>) = tq_list h q" "tq_inv h (q\<lparr>has_jobs := v\<rparr>) = tq_inv h q"
  by (simp_all add: tq_inv_def tq_list_def)

lemma worker_awake:
  assumes inv: "pool_inv n s" and i: "i < n" and w: "workers s ! i = WWait"
  shows "pool_inv n (goto_w i WAwake
    (set_queue i ((task_queues (pool s) ! i)\<lparr>has_jobs := v\<rparr>) s))"
proof -
  have l: "i < length (workers s)" "i < length (task_queues (pool s))" using inv i by (simp_all add: pool_inv_def)
  let ?qs = "(task_queues (pool s))[i := (task_queues (pool s) ! i)\<lparr>has_jobs := v\<rparr>]"
  have g: "gather (tq_list h) ?qs = gather (tq_list h) (task_queues (pool s))" for h
    using l(2) by (simp add: gather_update_same)
  have "tasks_ok (tasks s) ?qs (workers s) (clients s)"
    using inv l(2) by (auto simp: pool_inv_def tasks_ok_def owned_def g
        dest!: set_update_subset_insert [THEN subsetD])
  moreover have "account_ok (tasks s) ?qs (workers s) (clients s) (submitted s) (ran s)"
    using inv by (simp add: pool_inv_def account_ok_def pending_def g)
  moreover have "alert_ok (tasks s) ?qs ((workers s)[i := WAwake])"
    using inv l by (auto simp: pool_inv_def alert_ok_def nth_list_update)
  ultimately show ?thesis
    using inv w l length_filter_update [OF l(1), of busy WAwake] tasks_worker [OF l(1), of WAwake]
      account_worker [OF l(1), of WAwake]
    by (simp add: pool_inv_def goto_w_def set_queue_def)
qed

text \<open>Taking a task from the queue.\<close>

lemma worker_pull:
  assumes inv: "pool_inv n s" and i: "i < n" and w: "workers s ! i = WPull"
    and q: "tq_inv (tasks s) q'" "tq_list (tasks s) q' = tl (tq_list (tasks s) (task_queues (pool s) ! i))"
      "2 \<le> length (tq_list (tasks s) (task_queues (pool s) ! i)) \<Longrightarrow> has_jobs q' = 1"
  shows "pool_inv n (goto_w i (case tq_list (tasks s) (task_queues (pool s) ! i) of
      [] \<Rightarrow> WLeave | a # _ \<Rightarrow> WRun a) (set_queue i q' s))"
proof -
  let ?q = "task_queues (pool s) ! i" and ?qs = "(task_queues (pool s))[i := q']"
  let ?xs = "tq_list (tasks s) ?q"
  let ?pc = "case ?xs of [] \<Rightarrow> WLeave | a # _ \<Rightarrow> WRun a"
  have l: "i < length (workers s)" "i < length (task_queues (pool s))" using inv i by (simp_all add: pool_inv_def)
  have pc: "mset (hand ?pc) + mset (tl ?xs) = mset ?xs" "todo ?pc = hand ?pc" "busy ?pc" "serving ?pc"
    by (simp_all split: list.split)
  have gq: "gather (tq_list (tasks s)) ?qs + mset ?xs = gather (tq_list (tasks s)) (task_queues (pool s)) + mset (tl ?xs)"
    using gather_update [OF l(2), of "tq_list (tasks s)" q'] q(2) by simp
  have gw: "gather f ((workers s)[i := ?pc]) = gather f (workers s) + mset (hand ?pc)"
    if "f WPull = []" "f ?pc = hand ?pc" for f
    using gather_update [OF l(1), of f ?pc] w that by simp
  have sum: "gather (tq_list (tasks s)) ?qs + mset (hand ?pc) = gather (tq_list (tasks s)) (task_queues (pool s))"
    using gq unfolding pc(1) [symmetric] by (metis add.assoc add_right_cancel)
  have o: "owned (tasks s) ?qs ((workers s)[i := ?pc]) (clients s) =
      owned (tasks s) (task_queues (pool s)) (workers s) (clients s)"
    using gw [of hand] sum by (simp add: owned_def ac_simps)
  have p: "pending (tasks s) ?qs ((workers s)[i := ?pc]) (clients s) =
      pending (tasks s) (task_queues (pool s)) (workers s) (clients s)"
    using gw [of todo] sum pc(2) by (simp add: pending_def ac_simps)
  have "tasks_ok (tasks s) ?qs ((workers s)[i := ?pc]) (clients s)"
    using inv q(1) by (auto simp: pool_inv_def tasks_ok_def o dest!: set_update_subset_insert [THEN subsetD])
  moreover have "account_ok (tasks s) ?qs ((workers s)[i := ?pc]) (clients s) (submitted s) (ran s)"
    using inv by (simp add: pool_inv_def account_ok_def p)
  moreover have "alert_ok (tasks s) ?qs ((workers s)[i := ?pc])"
  proof -
    have "tl ?xs \<noteq> [] \<Longrightarrow> has_jobs q' = 1" using q(3) by (cases ?xs rule: remdups_adj.cases) auto
    then show ?thesis using inv l q(2) by (auto simp: pool_inv_def alert_ok_def nth_list_update)
  qed
  ultimately show ?thesis
    using inv w l pc(3,4) length_filter_update [OF l(1), of busy ?pc]
    by (simp add: pool_inv_def goto_w_def set_queue_def)
qed

text \<open>Running a task and freeing it.\<close>

lemma worker_run:
  assumes inv: "pool_inv n s" and i: "i < n" and w: "workers s ! i = WRun a"
    and c: "content (tasks s) a = Some c"
  shows "pool_inv n (goto_w i (WCount a) (s\<lparr>ran := ran s @ [(i, c)]\<rparr>))"
proof -
  have l: "i < length (workers s)" using inv i by (simp add: pool_inv_def)
  have "gather todo ((workers s)[i := WCount a]) + {#a#} = gather todo (workers s)"
    using gather_update [OF l, of todo "WCount a"] w by simp
  then have "pending (tasks s) (task_queues (pool s)) (workers s) (clients s) =
      pending (tasks s) (task_queues (pool s)) ((workers s)[i := WCount a]) (clients s) + {#a#}"
    by (simp add: pending_def ac_simps)
  then have "account_ok (tasks s) (task_queues (pool s)) ((workers s)[i := WCount a]) (clients s)
      (submitted s) (ran s @ [(i, c)])"
    using inv c by (simp add: pool_inv_def account_ok_def ac_simps)
  then show ?thesis
    using inv w tasks_worker [OF l, of "WCount a"] alert_worker [of _ _ "workers s" i "WCount a"]
      length_filter_update [OF l, of busy "WCount a"]
    by (simp add: pool_inv_def goto_w_def)
qed

lemma gather_todo_hand: "gather todo ws \<subseteq># gather hand ws"
proof (induction ws)
  case (Cons w ws)
  have "mset (todo w) \<subseteq># mset (hand w)" by (cases w) auto
  then show ?case using Cons by (simp add: gather_def subset_mset.add_mono)
qed (simp add: gather_def)

lemma pending_owned: "pending h qs ws cs \<subseteq># owned h qs ws cs"
  using gather_todo_hand by (simp add: pending_def owned_def)

lemma worker_free:
  assumes inv: "pool_inv n s" and i: "i < n" and w: "workers s ! i = WFree a"
  shows "pool_inv n (goto_w i WLeave (s\<lparr>tasks := task_destroy (tasks s) (Some a)\<rparr>))"
proof -
  let ?h = "task_destroy (tasks s) (Some a)" and ?qs = "task_queues (pool s)" and ?ws = "(workers s)[i := WLeave]"
  have l: "i < length (workers s)" using inv i by (simp add: pool_inv_def)
  have ok: "tasks_ok (tasks s) ?qs (workers s) (clients s)" using inv by (simp add: pool_inv_def)
  have o: "owned (tasks s) ?qs (workers s) (clients s) = owned (tasks s) ?qs ?ws (clients s) + {#a#}"
    using gather_update [OF l, of hand WLeave] w by (simp add: owned_def ac_simps)
  then have z: "a \<notin># owned (tasks s) ?qs ?ws (clients s)"
  proof -
    have "count (owned (tasks s) ?qs (workers s) (clients s)) a \<le> 1" using ok by (simp add: tasks_ok_def)
    then have "count (owned (tasks s) ?qs ?ws (clients s)) a = 0" unfolding o count_union by simp
    then show ?thesis by (simp add: not_in_iff)
  qed
  have fr: "tq_inv ?h q \<and> tq_list ?h q = tq_list (tasks s) q" if "q \<in> set ?qs" for q
  proof (rule tq_frame)
    show "tq_inv (tasks s) q" using ok that by (simp add: tasks_ok_def)
    fix b assume "b \<in> set (tq_list (tasks s) q)"
    then have "b \<in># owned (tasks s) ?qs ?ws (clients s)" using that by (auto simp: owned_def gather_def)
    then show "task_at ?h b = task_at (tasks s) b" using z by (auto simp: task_at_destroy)
  qed
  then have g: "gather (tq_list ?h) ?qs = gather (tq_list (tasks s)) ?qs" by (auto intro: gather_cong)
  have ct: "content ?h b = content (tasks s) b" if "b \<noteq> a" for b
    using that by (simp add: content_def task_at_destroy)
  have o': "owned ?h ?qs ?ws (clients s) = owned (tasks s) ?qs ?ws (clients s)" by (simp add: owned_def g)
  have "count (owned (tasks s) ?qs ?ws (clients s)) b \<le> 1" for b
  proof -
    have "count (owned (tasks s) ?qs (workers s) (clients s)) b \<le> 1" using ok by (simp add: tasks_ok_def)
    then show ?thesis unfolding o count_union by linarith
  qed
  moreover have "\<exists>f x. content ?h b = Some (Some f, Some x)" if "b \<in># owned (tasks s) ?qs ?ws (clients s)" for b
  proof -
    have "content ?h b = content (tasks s) b" using that z by (intro ct) auto
    then show ?thesis using ok that by (simp add: tasks_ok_def o)
  qed
  ultimately have "tasks_ok ?h ?qs ?ws (clients s)"
    using ok fr by (simp add: tasks_ok_def o')
  moreover have "account_ok ?h ?qs ?ws (clients s) (submitted s) (ran s)"
  proof -
    have "pending ?h ?qs ?ws (clients s) = pending (tasks s) ?qs ?ws (clients s)" by (simp add: pending_def g)
    moreover have "a \<notin># pending (tasks s) ?qs ?ws (clients s)" using z pending_owned by (metis mset_subset_eqD)
    ultimately have "image_mset (\<lambda>b. the (content ?h b)) (pending ?h ?qs ?ws (clients s)) =
        image_mset (\<lambda>b. the (content (tasks s) b)) (pending (tasks s) ?qs ?ws (clients s))"
      by (auto intro!: image_mset_cong arg_cong [of _ _ the] ct)
    then show ?thesis
      using inv account_worker [OF l, of WLeave] w by (simp add: pool_inv_def account_ok_def)
  qed
  moreover have "alert_ok ?h ?qs ?ws"
    using inv w fr alert_worker [of "tasks s" ?qs "workers s" i WLeave]
    by (auto simp: pool_inv_def alert_ok_def)
  ultimately show ?thesis
    using inv w length_filter_update [OF l, of busy WLeave]
    by (simp add: pool_inv_def goto_w_def)
qed

subsection \<open>Moves of a client\<close>

lemma push_index: "CPush a k \<in> set (cs[j := pc]) \<Longrightarrow> CPush a k \<in> set cs \<or> pc = CPush a k"
  by (auto dest: set_update_subset_insert [THEN subsetD])

lemma client_move:
  assumes inv: "pool_inv n s" and j: "j < length (clients s)" and c: "adding pc = adding (clients s ! j)"
    and p: "\<And>a k. pc = CPush a k \<Longrightarrow> k < n"
  shows "pool_inv n (goto_c j pc s)"
proof -
  have g: "gather adding ((clients s)[j := pc]) = gather adding (clients s)"
    using j c by (simp add: gather_update_same)
  show ?thesis
    using inv p by (auto simp: pool_inv_def goto_c_def tasks_ok_def account_ok_def owned_def pending_def g
        dest!: push_index)
qed

lemma gather_adding_add:
  assumes "j < length cs" "adding (cs ! j) = []" "adding pc = [a]"
  shows "gather adding (cs[j := pc]) = gather adding cs + {#a#}"
  using gather_update [OF assms(1), of adding pc] assms by simp

lemma client_add:
  assumes inv: "pool_inv n s" and j: "j < length (clients s)" "clients s ! j = CIdle"
    and f: "func = Some f" "arg_p = Some x"
  shows "pool_inv n (call_add_task j func arg_p s)"
proof -
  let ?t = "\<lparr>prev = None, do_task_func = Some f, arg = Some x\<rparr>" and ?a = "length (tasks s)"
  let ?h = "tasks s @ [Some ?t]" and ?qs = "task_queues (pool s)" and ?cs = "(clients s)[j := CCount ?a]"
  have ok: "tasks_ok (tasks s) ?qs (workers s) (clients s)" using inv by (simp add: pool_inv_def)
  have live: "task_at (tasks s) b \<noteq> None" if "b \<in># owned (tasks s) ?qs (workers s) (clients s)" for b
    using ok that by (auto simp: tasks_ok_def content_None [symmetric])
  then have fresh: "?a \<notin># owned (tasks s) ?qs (workers s) (clients s)" by (force simp: task_at_def)
  have fr: "tq_inv ?h q \<and> tq_list ?h q = tq_list (tasks s) q" if "q \<in> set ?qs" for q
  proof (rule tq_frame)
    show "tq_inv (tasks s) q" using ok that by (simp add: tasks_ok_def)
    fix b assume "b \<in> set (tq_list (tasks s) q)"
    then have "b \<in># owned (tasks s) ?qs (workers s) (clients s)" using that by (auto simp: owned_def gather_def)
    then show "task_at ?h b = task_at (tasks s) b" using fresh by (auto simp: task_at_alloc)
  qed
  then have g: "gather (tq_list ?h) ?qs = gather (tq_list (tasks s)) ?qs" by (auto intro: gather_cong)
  note gc = gather_adding_add [of j "clients s" "CCount ?a" ?a]
  have o: "owned ?h ?qs (workers s) ?cs = owned (tasks s) ?qs (workers s) (clients s) + {#?a#}"
    using j gc by (simp add: owned_def g)
  have p: "pending ?h ?qs (workers s) ?cs = pending (tasks s) ?qs (workers s) (clients s) + {#?a#}"
    using j gc by (simp add: pending_def g)
  have ct: "content ?h b = (if b = ?a then Some (Some f, Some x) else content (tasks s) b)" for b
    by (simp add: content_def task_at_alloc)
  have "tasks_ok ?h ?qs (workers s) ?cs"
    using ok fr fresh by (auto simp: tasks_ok_def o ct not_in_iff dest!: push_index)
  moreover have "account_ok ?h ?qs (workers s) ?cs (submitted s @ [(Some f, Some x)]) (ran s)"
  proof -
    have "?a \<notin># pending (tasks s) ?qs (workers s) (clients s)" using fresh pending_owned by (metis mset_subset_eqD)
    then have "image_mset (\<lambda>b. the (content ?h b)) (pending (tasks s) ?qs (workers s) (clients s)) =
        image_mset (\<lambda>b. the (content (tasks s) b)) (pending (tasks s) ?qs (workers s) (clients s))"
      by (auto intro!: image_mset_cong simp: ct)
    then show ?thesis using inv by (simp add: pool_inv_def account_ok_def p ct)
  qed
  moreover have "alert_ok ?h ?qs (workers s)" using inv fr by (auto simp: pool_inv_def alert_ok_def)
  ultimately show ?thesis
    using inv f by (simp add: pool_inv_def call_add_task_def task_alloc_def goto_c_def)
qed

lemma client_push:
  assumes inv: "pool_inv n s" and j: "j < length (clients s)" "clients s ! j = CPush a k"
  shows "\<exists>h q. task_queue_push (tasks s) (task_queues (pool s) ! k) a = Some (h, q) \<and>
    pool_inv n (goto_c j CIdle (set_queue k q (s\<lparr>tasks := h\<rparr>)))"
proof -
  let ?qs = "task_queues (pool s)" and ?cs = "(clients s)[j := CIdle]"
  let ?xs = "tq_list (tasks s) (?qs ! k)"
  have ok: "tasks_ok (tasks s) ?qs (workers s) (clients s)" using inv by (simp add: pool_inv_def)
  then have k: "k < length ?qs" using j by (metis nth_mem tasks_ok_def)
  have gc: "gather adding (clients s) = gather adding ?cs + {#a#}"
    using gather_update [OF j(1), of adding CIdle] j(2) by simp
  then have o: "owned (tasks s) ?qs (workers s) (clients s) = owned (tasks s) ?qs (workers s) ?cs + {#a#}"
    by (simp add: owned_def)
  have once: "count (owned (tasks s) ?qs (workers s) (clients s)) b \<le> 1" for b using ok by (simp add: tasks_ok_def)
  have out: "a \<notin> set (tq_list (tasks s) (?qs ! m))" if "m < length ?qs" for m
  proof
    assume "a \<in> set (tq_list (tasks s) (?qs ! m))"
    then have "a \<in># owned (tasks s) ?qs (workers s) ?cs"
      using that gather_member [of m ?qs a "tq_list (tasks s)"] by (simp add: owned_def)
    then show False using once [of a] by (simp add: o count_eq_zero_iff)
  qed
  have "task_at (tasks s) a \<noteq> None"
    using ok by (auto simp: tasks_ok_def o content_None [symmetric])
  then obtain h q where pq: "task_queue_push (tasks s) (?qs ! k) a = Some (h, q)" "tq_inv h q"
      "tq_list h q = ?xs @ [a]" "has_jobs q = 1" "content h = content (tasks s)"
      "\<And>b. b \<noteq> a \<Longrightarrow> b \<notin> set ?xs \<Longrightarrow> task_at h b = task_at (tasks s) b"
    using push_ok [of "tasks s" "?qs ! k" a] ok k out by (auto simp: tasks_ok_def)
  have fr: "tq_inv h (?qs ! m) \<and> tq_list h (?qs ! m) = tq_list (tasks s) (?qs ! m)"
    if "m < length ?qs" "m \<noteq> k" for m
  proof (rule tq_frame)
    show "tq_inv (tasks s) (?qs ! m)" using ok that by (simp add: tasks_ok_def)
    fix b assume b: "b \<in> set (tq_list (tasks s) (?qs ! m))"
    have "b \<notin> set ?xs"
    proof
      assume "b \<in> set ?xs"
      then have "1 < count (gather (tq_list (tasks s)) ?qs) b" using gather_two [OF that(1) k that(2)] b by blast
      then show False using once [of b] unfolding owned_def count_union by simp
    qed
    then show "task_at h b = task_at (tasks s) b" using b out [OF that(1)] by (intro pq(6)) auto
  qed
  have "gather (tq_list h) (?qs[k := q]) + mset ?xs = gather (tq_list (tasks s)) ?qs + mset (tq_list h q)"
    using gather_change [OF k, of "?qs[k := q]" "tq_list h" "tq_list (tasks s)"] fr k by simp
  then have gq: "gather (tq_list h) (?qs[k := q]) = gather (tq_list (tasks s)) ?qs + {#a#}"
    using pq(3) by (simp add: ac_simps)
  have o': "owned h (?qs[k := q]) (workers s) ?cs = owned (tasks s) ?qs (workers s) (clients s)"
    using gq gc by (simp add: owned_def)
  have "\<forall>q\<in>set (?qs[k := q]). tq_inv h q"
    using pq(2) fr k by (auto simp: in_set_conv_nth nth_list_update)
  then have "tasks_ok h (?qs[k := q]) (workers s) ?cs"
    using ok by (auto simp: tasks_ok_def o' pq(5) dest!: push_index)
  moreover have "account_ok h (?qs[k := q]) (workers s) ?cs (submitted s) (ran s)"
    using inv gc by (simp add: pool_inv_def account_ok_def pending_def gq pq(5))
  moreover have "alert_ok h (?qs[k := q]) (workers s)"
    using inv fr pq(4) k by (auto simp: pool_inv_def alert_ok_def nth_list_update)
  ultimately show ?thesis
    using inv pq(1) by (simp add: pool_inv_def goto_c_def set_queue_def)
qed

subsection \<open>Every step\<close>

lemma queue_of_inv: "pool_inv n s \<Longrightarrow> i < n \<Longrightarrow> queue_of s i = Some (task_queues (pool s) ! i)"
  by (simp add: pool_inv_def queue_of_def)

lemma signal_cases: obtains "signal k s = s"
  | i where "k < length (clients s)" "clients s ! k = CSleep i" "signal k s = goto_c k (CLock i) s"
  by (cases "k < length (clients s)"; cases "clients s ! k") (auto simp: signal_def)

lemma signal_inv:
  assumes "pool_inv n s"
  shows "pool_inv n (signal k s)"
  by (rule signal_cases [of k s]) (use assms in \<open>auto intro!: client_move [OF assms]\<close>)

lemma signal_workers [simp]: "workers (signal k s) = workers s"
  by (rule signal_cases [of k s]) (simp_all add: goto_c_def)

lemma content_run:
  assumes "pool_inv n s" "i < n" "workers s ! i = WRun a"
  shows "\<exists>t f x. task_at (tasks s) a = Some t \<and> do_task_func t = Some f \<and> arg t = Some x"
proof -
  have "a \<in># gather hand (workers s)"
    using assms gather_member [of i "workers s" a hand] by (simp add: pool_inv_def)
  then have "\<exists>f x. content (tasks s) a = Some (Some f, Some x)"
    using assms(1) by (auto simp: pool_inv_def tasks_ok_def owned_def)
  then show ?thesis by (auto simp: content_def)
qed

text \<open>A worker never gets stuck and keeps the invariant.\<close>

lemma worker_exec_inv:
  assumes inv: "pool_inv n s" and i: "i < n" and n: "n < 2 ^ 64"
  shows "\<exists>s'. worker_exec k i s = Some s' \<and> pool_inv n s'"
proof (cases "workers s ! i")
  case WStart
  let ?s = "s\<lparr>pool := (pool s)\<lparr>num_threads_alive := num_threads_alive (pool s) + 1\<rparr>\<rparr>"
  have "pool_inv n (goto_w i WTop ?s)" by (rule worker_move) (use inv i WStart in simp_all)
  then show ?thesis using WStart by (simp add: worker_exec_def)
next
  case WTop
  then show ?thesis using inv worker_move [OF inv i] by (simp add: worker_exec_def pool_inv_def)
next
  case WWait
  then show ?thesis
    using inv worker_awake [OF inv i WWait]
    by (simp add: worker_exec_def queue_of_inv [OF inv i] split: option.split)
next
  case WAwake
  have "threads_keepalive s" using inv by (simp add: pool_inv_def)
  then show ?thesis using WAwake worker_move [OF inv i] by (simp add: worker_exec_def)
next
  case WEnter
  then show ?thesis using worker_enter [OF inv i n] by (simp add: worker_exec_def)
next
  case WPull
  have "tq_inv (tasks s) (task_queues (pool s) ! i)" using inv i by (simp add: pool_inv_def tasks_ok_def)
  from pull_ok [OF this] show ?thesis
    using WPull worker_pull [OF inv i WPull]
    by (auto simp: worker_exec_def queue_of_inv [OF inv i] split: list.split)
next
  case (WRun a)
  with content_run [OF inv i] obtain t f x where t: "task_at (tasks s) a = Some t"
    "do_task_func t = Some f" "arg t = Some x" by blast
  then have "content (tasks s) a = Some (Some f, arg t)" by (simp add: content_def)
  then show ?thesis using WRun worker_run [OF inv i WRun] t by (simp add: worker_exec_def)
next
  case (WCount a)
  let ?s = "s\<lparr>pool := (pool s)\<lparr>done_task_nums := (done_task_nums (pool s))[i := done_task_nums (pool s) ! i + 1]\<rparr>\<rparr>"
  have "pool_inv n (goto_w i (WFree a) ?s)" by (rule worker_move) (use inv i WCount in simp_all)
  then show ?thesis using WCount by (simp add: worker_exec_def)
next
  case (WFree a)
  then show ?thesis using worker_free [OF inv i] by (simp add: worker_exec_def)
next
  case WLeave
  then show ?thesis using worker_leave [OF inv i] by (simp add: worker_exec_def)
next
  case WSignal
  have "pool_inv n (goto_w i WTop (signal k s))"
    by (rule worker_move) (use inv i WSignal signal_inv [OF inv] in simp_all)
  moreover have "pool_inv n (goto_w i WTop s)" by (rule worker_move) (use inv i WSignal in simp_all)
  ultimately show ?thesis using WSignal by (simp add: worker_exec_def)
next
  case WEnd
  then show ?thesis using inv i by (auto simp: pool_inv_def list_all_length)
qed (use inv in \<open>simp add: worker_exec_def\<close>)

lemma unat_num_threads: "n < 2 ^ 64 \<Longrightarrow> unat (word_of_int (int n) :: u64) = n"
  by (simp add: unat_of_nat)

lemma client_exec_inv:
  assumes inv: "pool_inv n s" and j: "j < length (clients s)" and n: "0 < n" "n < 2 ^ 64"
  shows "\<exists>s'. client_exec v j s = Some s' \<and> pool_inv n s'"
proof (cases "clients s ! j")
  case (CCount a)
  let ?s = "s\<lparr>pool := (pool s)\<lparr>his_task_num := his_task_num (pool s) + 1\<rparr>\<rparr>"
  have "pool_inv n (goto_c j (CPick a) ?s)" by (rule client_move) (use inv j CCount in simp_all)
  then show ?thesis using CCount by (simp add: client_exec_defs)
next
  case (CPick a)
  let ?n = "word_of_int (num_threads (pool s)) :: u64"
  have u: "unat ?n = n" using inv n unat_num_threads by (simp add: pool_inv_def)
  then have nz: "?n \<noteq> 0" using n(1) by auto
  have "unat (his_task_num (pool s) mod ?n) < n" using u n(1) by (simp add: unat_mod_distrib)
  then have "pool_inv n (goto_c j (CPush a (unat (his_task_num (pool s) mod ?n))) s)"
    using CPick j by (intro client_move [OF inv]) auto
  then show ?thesis using CPick nz by (simp add: client_exec_defs Let_def)
next
  case (CPush a k)
  have "k < n" using inv j CPush by (metis nth_mem pool_inv_def tasks_ok_def)
  then show ?thesis
    using client_push [OF inv j CPush] CPush by (auto simp: client_exec_defs queue_of_inv [OF inv])
next
  case (CLock i)
  have "pool_inv n (goto_c j (CLen i) (s\<lparr>thcount_lock := True\<rparr>))"
    by (rule client_move) (use inv j CLock in simp_all)
  then show ?thesis using CLock inv by (simp add: client_exec_defs)
next
  case (CLen i)
  have u: "unat (word_of_int (num_threads (pool s)) :: u64) = n" using inv n unat_num_threads by (simp add: pool_inv_def)
  have "pool_inv n (goto_c j CIdle (s\<lparr>thcount_lock := False\<rparr>))"
    by (rule client_move) (use inv j CLen in simp_all)
  moreover have "pool_inv n (goto_c j pc s)" if "pc \<in> {CBlock i, CWork i}" for pc
    using that CLen j by (intro client_move [OF inv]) auto
  ultimately show ?thesis using CLen u by (simp add: client_exec_defs queue_of_inv [OF inv])
next
  case (CWork i)
  have "pool_inv n (goto_c j pc s)" if "pc \<in> {CBlock i, CLen (i + 1)}" for pc
    using that CWork j by (intro client_move [OF inv]) auto
  then show ?thesis using CWork by (simp add: client_exec_defs)
next
  case (CBlock i)
  have "pool_inv n (goto_c j (CSleep i) (s\<lparr>thcount_lock := False\<rparr>))"
    by (rule client_move) (use inv j CBlock in simp_all)
  then show ?thesis using CBlock by (simp add: client_exec_defs)
qed (use inv in \<open>simp_all add: client_exec_defs\<close>)

lemma init_loop_result:
  "init_loop done0 k m tp = Some (tp\<lparr>
     task_queues := task_queues tp @ map (\<lambda>i. \<lparr>tid = int i, front = None, rear = None, has_jobs = 0, len = 0\<rparr>) [k..<k + m],
     done_task_nums := done_task_nums tp @ map done0 [k..<k + m]\<rparr>)"
proof (induction m arbitrary: k tp)
  case (Suc m)
  then show ?case by (simp add: task_queue_alloc_def bsem_init_def upt_conv_Cons del: upt_Suc)
qed simp

lemma pool_inv_start:
  assumes "stl_thread_pool_init done0 (Some mem) n = Some (r, Some tp)" "0 < n"
  shows "pool_inv (nat n) (tp_start tp m)"
proof -
  let ?q = "\<lambda>i. \<lparr>tid = int i, front = None, rear = None, has_jobs = 0, len = 0\<rparr>"
  have tp: "tp = mem\<lparr>num_threads_alive := 0, num_threads_working := 0, num_threads := n,
      task_queues := map ?q [0..<nat n], done_task_nums := map done0 [0..<nat n]\<rparr>"
    using assms by (auto simp: stl_thread_pool_init_def init_loop_result)
  have l: "tq_list h (?q i) = []" "tq_inv h (?q i)" for h i
    by (auto simp: tq_list_def tq_inv_iff intro!: exI [of _ "[]"])
  have g: "gather (tq_list h) (map ?q is) = {#}" for h "is"
    by (simp add: gather_def l)
  show ?thesis
    using assms(2) by (auto simp: pool_inv_def tp_start_def tp tasks_ok_def account_ok_def alert_ok_def
        owned_def pending_def g l list_all_iff)
qed

text \<open>What was submitted stays submitted.\<close>

lemma set_fields [simp]:
  "submitted (goto_w i pc s) = submitted s" "submitted (goto_c j cpc s) = submitted s"
  "submitted (set_queue i q s) = submitted s" "submitted (signal k s) = submitted s"
  by (auto simp: goto_w_def goto_c_def set_queue_def signal_def split: client_pc.split)

lemma tp_step_submitted:
  assumes "tp_step s s'"
  shows "\<exists>ts. submitted s' = submitted s @ ts"
  using assms
proof (induction rule: tp_step.induct)
  case (worker i s k s')
  then show ?case by (cases "workers s ! i") (auto simp: worker_exec_def elim!: bind_SomeE split: option.splits)
next
  case (client j s v s')
  then show ?case
    by (cases "clients s ! j") (auto simp: client_exec_defs Let_def elim!: bind_SomeE split: if_splits)
qed (simp_all add: call_add_task_def call_wait_def Let_def task_alloc_def)

lemma pool_inv_step:
  assumes "tp_step s s'" "pool_inv n s" "0 < n" "n < 2 ^ 64" "runnable (submitted s')"
  shows "pool_inv n s'"
  using assms
proof (induction rule: tp_step.induct)
  case (worker i s k s')
  then show ?case using worker_exec_inv [of n s i k] by (auto simp: pool_inv_def)
next
  case (client j s v s')
  then show ?case using client_exec_inv [of n s j v] by auto
next
  case (add_task j s func arg_p)
  then have "func \<noteq> None" "arg_p \<noteq> None"
    by (auto simp: call_add_task_def runnable_def Let_def task_alloc_def)
  then show ?case using add_task by (auto intro: client_add)
next
  case (wait j s)
  then show ?case by (auto simp: call_wait_def intro: client_move)
next
  case (wakeup j s i)
  then show ?case by (auto intro: client_move)
qed

lemma pool_inv_reachable:
  assumes "tp_reachable done0 mem n m s" "0 < n" "n < 2 ^ 31" "runnable (submitted s)"
  shows "pool_inv (nat n) s"
proof -
  obtain r tp where tp: "stl_thread_pool_init done0 (Some mem) n = Some (r, Some tp)"
    "tp_step\<^sup>*\<^sup>* (tp_start tp m) s" using assms(1) by (auto simp: tp_reachable_def)
  have n: "0 < nat n" "nat n < 2 ^ 64" using assms(2,3) by auto
  from tp(2) assms(4) show ?thesis
  proof (induction rule: rtranclp_induct)
    case (step s s')
    have "runnable (submitted s)"
      using tp_step_submitted [OF step.hyps(2)] step.prems by (auto simp: runnable_def)
    then show ?case using pool_inv_step [OF step.hyps(2) _ n] step by simp
  qed (use pool_inv_start [OF tp(1) assms(2)] in simp)
qed

section \<open>Running a schedule\<close>

text \<open>An executable run, for concrete states: each item names the thread that makes the next step. The
  read of a length returns the length.\<close>

definition len_seen :: "nat \<Rightarrow> tp_sys \<Rightarrow> int" where
  "len_seen j s = (case clients s ! j of CLen i \<Rightarrow> (case queue_of s i of None \<Rightarrow> 0 | Some q \<Rightarrow> len q) | _ \<Rightarrow> 0)"

datatype sched = Work nat | Client nat | Add nat ptr ptr | Wait nat

fun tp_run :: "sched list \<Rightarrow> tp_sys \<Rightarrow> tp_sys option" where
  "tp_run [] s = Some s"
| "tp_run (Work i # xs) s = do {
     c_assert (i < length (workers s) \<and> \<not> list_ex asleep (clients s));
     s \<leftarrow> worker_exec 0 i s; tp_run xs s }"
| "tp_run (Client j # xs) s = do { c_assert (j < length (clients s)); s \<leftarrow> client_exec (len_seen j s) j s; tp_run xs s }"
| "tp_run (Add j f a # xs) s = do {
     c_assert (j < length (clients s) \<and> clients s ! j = CIdle);
     tp_run xs (call_add_task j f a s) }"
| "tp_run (Wait j # xs) s = do {
     c_assert (j < length (clients s) \<and> clients s ! j = CIdle);
     tp_run xs (call_wait j s) }"

lemma tp_run_steps:
  "tp_run xs s = Some s' \<Longrightarrow> tp_step\<^sup>*\<^sup>* s s'"
proof (induction xs s arbitrary: s' rule: tp_run.induct)
  case (2 i xs s)
  then obtain t where t: "i < length (workers s)" "\<not> list_ex asleep (clients s)" "worker_exec 0 i s = Some t"
    "tp_run xs t = Some s'" by (auto elim!: bind_SomeE)
  have "tp_step s t" by (rule tp_step.worker [OF t(1) _ t(3)]) (use t(2) in \<open>auto simp: list_ex_length\<close>)
  then show ?case using 2 t by (auto intro: converse_rtranclp_into_rtranclp elim!: bind_SomeE)
next
  case (3 j xs s)
  then obtain t where t: "j < length (clients s)" "client_exec (len_seen j s) j s = Some t" "tp_run xs t = Some s'"
    by (auto elim!: bind_SomeE)
  then have "tp_step s t" by (auto intro: tp_step.client)
  then show ?case using 3 t by (auto intro: converse_rtranclp_into_rtranclp elim!: bind_SomeE)
next
  case (4 j f a xs s)
  then have "tp_step s (call_add_task j f a s)" by (auto intro: tp_step.add_task elim!: bind_SomeE)
  then show ?case using 4 by (auto intro: converse_rtranclp_into_rtranclp elim!: bind_SomeE)
next
  case (5 j xs s)
  then have "tp_step s (call_wait j s)" by (auto intro: tp_step.wait elim!: bind_SomeE)
  then show ?case using 5 by (auto intro: converse_rtranclp_into_rtranclp elim!: bind_SomeE)
qed simp

section \<open>A worker by itself\<close>

fun worker_alone :: "nat \<Rightarrow> nat \<Rightarrow> nat \<Rightarrow> tp_sys \<Rightarrow> tp_sys option" where
  "worker_alone t i 0 s = Some s"
| "worker_alone t i (Suc k) s = do { s \<leftarrow> worker_exec t i s; worker_alone t i k s }"

definition agenda :: "tp_sys \<Rightarrow> nat \<Rightarrow> nat list" where
  "agenda s i = todo (workers s ! i) @ tq_list (tasks s) (task_queues (pool s) ! i)"

text \<open>What has run, followed by what the worker will run if nothing is added.\<close>

definition plan :: "tp_sys \<Rightarrow> nat \<Rightarrow> (nat \<times> ptr \<times> ptr) list" where
  "plan s i = ran s @ map (\<lambda>a. (i, the (content (tasks s) a))) (agenda s i)"

fun rank :: "worker_pc \<Rightarrow> nat" where
  "rank (WRun _) = 9" | "rank (WCount _) = 8" | "rank (WFree _) = 7" | "rank WLeave = 6"
| "rank WSignal = 5" | "rank WStart = 5" | "rank WTop = 4" | "rank WWait = 3" | "rank WAwake = 2"
| "rank WEnter = 1" | "rank _ = 0"

definition work_left :: "tp_sys \<Rightarrow> nat \<Rightarrow> nat" where
  "work_left s i = 10 * length (tq_list (tasks s) (task_queues (pool s) ! i)) + rank (workers s ! i)"

lemma hand_not_queued:
  assumes "pool_inv n s" "i < n" "a \<in> set (hand (workers s ! i))" "q \<in> set (task_queues (pool s))"
  shows "a \<notin> set (tq_list (tasks s) q)"
proof
  assume "a \<in> set (tq_list (tasks s) q)"
  then have "a \<in># gather (tq_list (tasks s)) (task_queues (pool s))" using assms(4) by (auto simp: gather_def)
  moreover have "a \<in># gather hand (workers s)"
    using assms(1-3) by (intro gather_member) (simp_all add: pool_inv_def)
  ultimately have "0 < count (gather (tq_list (tasks s)) (task_queues (pool s))) a"
    "0 < count (gather hand (workers s)) a" by (simp_all only: count_greater_zero_iff)
  moreover have "count (owned (tasks s) (task_queues (pool s)) (workers s) (clients s)) a \<le> 1"
    using assms(1) by (simp add: pool_inv_def tasks_ok_def)
  ultimately show False unfolding owned_def count_union by linarith
qed

lemma signal_fields [simp]:
  "tasks (signal k s) = tasks s" "pool (signal k s) = pool s" "ran (signal k s) = ran s"
  by (rule signal_cases [of k s]; simp add: goto_c_def)+

lemma worker_plan:
  assumes inv: "pool_inv n s" and i: "i < n" and e: "worker_exec t i s = Some s'"
  shows "plan s' i = plan s i \<and> (agenda s i \<noteq> [] \<longrightarrow> work_left s' i < work_left s i)"
proof -
  have l: "i < length (workers s)" "i < length (task_queues (pool s))" using inv i by (simp_all add: pool_inv_def)
  have ka: "threads_keepalive s" using inv by (simp add: pool_inv_def)
  note d = worker_exec_def plan_def agenda_def work_left_def goto_w_def set_queue_def queue_of_inv [OF inv i]
  show ?thesis
  proof (cases "workers s ! i")
    case WWait
    have "agenda s i \<noteq> [] \<Longrightarrow> has_jobs (task_queues (pool s) ! i) = 1"
      using inv WWait l by (auto simp: pool_inv_def alert_ok_def agenda_def)
    then show ?thesis using WWait e l by (auto simp: d bsem_wait_def split: if_splits)
  next
    case WPull
    have "tq_inv (tasks s) (task_queues (pool s) ! i)" using inv l by (simp add: pool_inv_def tasks_ok_def)
    from pull_ok [OF this] show ?thesis
      using WPull e l by (auto simp: d split: list.splits)
  next
    case (WRun a)
    with content_run [OF inv i] obtain u f x where u: "task_at (tasks s) a = Some u"
      "do_task_func u = Some f" "arg u = Some x" by blast
    then show ?thesis using WRun e l by (auto simp: d content_def)
  next
    case (WFree a)
    let ?q = "task_queues (pool s) ! i"
    have a: "a \<notin> set (tq_list (tasks s) ?q)" using hand_not_queued [OF inv i] WFree l by simp
    have "tq_inv (tasks s) ?q" using inv l by (simp add: pool_inv_def tasks_ok_def)
    then have "tq_list (task_destroy (tasks s) (Some a)) ?q = tq_list (tasks s) ?q"
      by (rule conjunct2 [OF tq_frame]) (use a in \<open>auto simp: task_at_destroy\<close>)
    then show ?thesis using WFree e l a by (auto simp: d content_def task_at_destroy)
  next
    case WExit
    then show ?thesis using inv l by (auto simp: pool_inv_def list_all_length)
  next
    case WEnd
    then show ?thesis using inv l by (auto simp: pool_inv_def list_all_length)
  qed (use e l ka in \<open>auto simp: d\<close>)
qed

lemma worker_finishes:
  assumes "pool_inv n s" "i < n" "n < 2 ^ 64"
  shows "\<exists>k s'. k \<le> work_left s i \<and> worker_alone t i k s = Some s' \<and> agenda s' i = [] \<and> ran s' = plan s i"
  using assms(1)
proof (induction "work_left s i" arbitrary: s rule: less_induct)
  case less
  show ?case
  proof (cases "agenda s i = []")
    case True
    then show ?thesis by (intro exI [of _ 0]) (simp add: plan_def)
  next
    case False
    obtain u where u: "worker_exec t i s = Some u" "pool_inv n u"
      using worker_exec_inv [OF less.prems assms(2,3)] by blast
    have w: "plan u i = plan s i" "work_left u i < work_left s i"
      using worker_plan [OF less.prems assms(2) u(1)] False by simp_all
    from less.hyps [OF w(2) u(2)] obtain k s' where "k \<le> work_left u i" "worker_alone t i k u = Some s'"
      "agenda s' i = []" "ran s' = plan u i" by blast
    then show ?thesis using u(1) w by (intro exI [of _ "Suc k"] exI [of _ s']) auto
  qed
qed

section \<open>Properties\<close>

text \<open>A pool of one thread with one client, and the state a schedule leads to.\<close>

definition raw_pool :: stl_thread_pool where
  "raw_pool = \<lparr>num_threads = 0, num_threads_alive = 0, num_threads_working = 0, his_task_num = 5,
     task_queues = [], done_task_nums = []\<rparr>"

definition one_pool :: stl_thread_pool where
  "one_pool = raw_pool\<lparr>num_threads := 1, done_task_nums := [0],
     task_queues := [\<lparr>tid = 0, front = None, rear = None, has_jobs = 0, len = 0\<rparr>]\<rparr>"

lemma one_pool_reachable:
  assumes "tp_run xs (tp_start one_pool 1) = Some s"
  shows "tp_reachable (\<lambda>_. 0) raw_pool 1 1 s"
proof -
  have "stl_thread_pool_init (\<lambda>_. 0) (Some raw_pool) 1 = Some (-1, Some one_pool)"
    by (simp add: stl_thread_pool_init_def one_pool_def raw_pool_def task_queue_alloc_def bsem_init_def)
  then show ?thesis using tp_run_steps [OF assms] by (auto simp: tp_reachable_def)
qed

definition queued :: "sched list" where
  "queued = [Work 0, Work 0, Add 0 (Some 7) (Some 8), Client 0, Client 0, Client 0]"

definition served :: "sched list" where
  "served = queued @ [Work 0, Work 0, Work 0, Work 0, Work 0]"

definition slept :: "sched list" where
  "slept = queued @ [Wait 0, Client 0, Client 0] @ replicate 10 (Work 0) @ [Client 0]"

text \<open>C18: Every task runs exactly once, if all tasks submitted so far had a function and an argument that
  are not NULL (the API takes others too, and a worker that gets one crashes: \<open>null_argument_task_crashes\<close>).
  In every reachable state of such a run the tasks submitted are, as a multiset, those that ran and those
  still held by a client that is adding them, by a queue or by a worker about to run them; each of these
  has one owner; and no thread's next access is through a pointer that is NULL or to a task that was
  freed. The length a waiting client reads without the queue's mutex, a data race, may be any value \<open>v\<close> here.\<close>

theorem thread_pool_exactly_once:
  assumes "tp_reachable done0 mem n m s" "0 < n" "n < 2 ^ 31" "runnable (submitted s)"
  shows "mset (map snd (ran s)) + image_mset (\<lambda>a. the (content (tasks s) a))
      (pending (tasks s) (task_queues (pool s)) (workers s) (clients s)) = mset (submitted s) \<and>
    (\<forall>a. count (pending (tasks s) (task_queues (pool s)) (workers s) (clients s)) a \<le> 1) \<and>
    (\<forall>k i. i < length (workers s) \<longrightarrow> worker_exec k i s \<noteq> None) \<and>
    (\<forall>v j. j < length (clients s) \<longrightarrow> client_exec v j s \<noteq> None)"
proof -
  have inv: "pool_inv (nat n) s" using assms by (rule pool_inv_reachable)
  have n: "nat n < 2 ^ 64" "0 < nat n" using assms(2,3) by auto
  have "count (pending (tasks s) (task_queues (pool s)) (workers s) (clients s)) a \<le> 1" for a
  proof -
    have "count (owned (tasks s) (task_queues (pool s)) (workers s) (clients s)) a \<le> 1"
      using inv by (simp add: pool_inv_def tasks_ok_def)
    then show ?thesis
      using mset_subset_eq_count [OF pending_owned, of "tasks s" "task_queues (pool s)" "workers s" "clients s" a]
      by linarith
  qed
  moreover have "worker_exec k i s \<noteq> None" if "i < length (workers s)" for k i
    using worker_exec_inv [OF inv _ n(1), of i k] that inv by (auto simp: pool_inv_def)
  moreover have "client_exec v j s \<noteq> None" if "j < length (clients s)" for v j
    using client_exec_inv [OF inv that n(2,1)] by auto
  ultimately show ?thesis using inv by (auto simp: pool_inv_def account_ok_def)
qed

theorem thread_pool_exactly_once_witness:
  "\<exists>s. tp_run served (tp_start one_pool 1) = Some s \<and> map snd (ran s) = [(Some 7, Some 8)] \<and>
     (\<forall>a. count (pending (tasks s) (task_queues (pool s)) (workers s) (clients s)) a \<le> 1)"
proof -
  have "case tp_run served (tp_start one_pool 1) of None \<Rightarrow> False
      | Some s \<Rightarrow> map snd (ran s) = [(Some 7, Some 8)] \<and> submitted s = [(Some 7, Some 8)]" by code_simp
  then obtain s where s: "tp_run served (tp_start one_pool 1) = Some s"
    "map snd (ran s) = [(Some 7, Some 8)]" "submitted s = [(Some 7, Some 8)]"
    by (auto split: option.splits)
  then show ?thesis
    using thread_pool_exactly_once [OF one_pool_reachable [OF s(1)]] by (auto simp: runnable_def)
qed

text \<open>The test of \<open>stl_thread_pool_wait\<close> is right. In a reachable state in which every queue has
  length zero, the number of working threads is zero and no client is adding a task, everything that
  was submitted has run (no task having a NULL function or argument).\<close>

theorem thread_pool_idle_means_done:
  assumes "tp_reachable done0 mem n m s" "0 < n" "n < 2 ^ 31"
    "list_all (\<lambda>q. len q = 0) (task_queues (pool s))" "num_threads_working (pool s) = 0"
    "list_all (\<lambda>c. adding c = []) (clients s)" "runnable (submitted s)"
  shows "mset (map snd (ran s)) = mset (submitted s)"
proof -
  have inv: "pool_inv (nat n) s" using assms(1-3,7) by (rule pool_inv_reachable)
  have "\<forall>w\<in>set (workers s). \<not> busy w" using inv assms(5) by (simp add: pool_inv_def filter_empty_conv)
  then have "todo w = []" if "w \<in> set (workers s)" for w using that by (cases w) auto
  then have "pending (tasks s) (task_queues (pool s)) (workers s) (clients s) = {#}"
    using assms(4,6) by (auto simp: pending_def gather_def list_all_iff tq_list_def)
  then show ?thesis using inv by (simp add: pool_inv_def account_ok_def)
qed

theorem thread_pool_idle_means_done_witness:
  "\<exists>s. tp_run slept (tp_start one_pool 1) = Some s \<and> mset (map snd (ran s)) = mset (submitted s)"
proof -
  have "case tp_run slept (tp_start one_pool 1) of None \<Rightarrow> False
      | Some s \<Rightarrow> list_all (\<lambda>q. len q = 0) (task_queues (pool s)) \<and> num_threads_working (pool s) = 0 \<and>
          list_all (\<lambda>c. adding c = []) (clients s) \<and> submitted s = [(Some 7, Some 8)]" by code_simp
  then obtain s where s: "tp_run slept (tp_start one_pool 1) = Some s" "submitted s = [(Some 7, Some 8)]"
    "list_all (\<lambda>q. len q = 0) (task_queues (pool s))" "num_threads_working (pool s) = 0"
    "list_all (\<lambda>c. adding c = []) (clients s)"
    by (auto split: option.splits)
  then show ?thesis using thread_pool_idle_means_done [OF one_pool_reachable [OF s(1)]] by (auto simp: runnable_def)
qed

text \<open>C19: No wake-up is lost. In every reachable state of a pool to which only tasks with a function and
  an argument other than NULL were submitted, a worker that runs by itself makes at most ten accesses
  per task of its queue and nine more, and then has run the task it was about to run and all
  tasks of its queue, in the order of the queue.\<close>

theorem worker_serves_its_queue:
  assumes "tp_reachable done0 mem n m s" "0 < n" "n < 2 ^ 31" "i < nat n" "runnable (submitted s)"
  shows "\<exists>k s'. k \<le> 10 * length (tq_list (tasks s) (task_queues (pool s) ! i)) + 9 \<and>
    worker_alone t i k s = Some s' \<and> tq_list (tasks s') (task_queues (pool s') ! i) = [] \<and>
    ran s' = ran s @ map (\<lambda>a. (i, the (content (tasks s) a)))
      (todo (workers s ! i) @ tq_list (tasks s) (task_queues (pool s) ! i))"
proof -
  have inv: "pool_inv (nat n) s" using assms(1-3,5) by (rule pool_inv_reachable)
  have "nat n < 2 ^ 64" using assms(3) by auto
  from worker_finishes [OF inv assms(4) this] obtain k s' where
    k: "k \<le> work_left s i" "worker_alone t i k s = Some s'" "agenda s' i = []" "ran s' = plan s i" by blast
  have "rank (workers s ! i) \<le> 9" by (cases "workers s ! i") auto
  then show ?thesis
    using k by (intro exI [of _ k] exI [of _ s']) (auto simp: work_left_def agenda_def plan_def)
qed

theorem worker_serves_its_queue_witness:
  "\<exists>s k s'. tp_run queued (tp_start one_pool 1) = Some s \<and> k \<le> 19 \<and>
     worker_alone 0 0 k s = Some s' \<and> ran s' = [(0, Some 7, Some 8)]"
proof -
  have "case tp_run queued (tp_start one_pool 1) of None \<Rightarrow> False
      | Some s \<Rightarrow> tq_list (tasks s) (task_queues (pool s) ! 0) = [0] \<and> todo (workers s ! 0) = [] \<and>
          content (tasks s) 0 = Some (Some 7, Some 8) \<and> ran s = [] \<and> submitted s = [(Some 7, Some 8)]" by code_simp
  then obtain s where s: "tp_run queued (tp_start one_pool 1) = Some s" "submitted s = [(Some 7, Some 8)]"
    "tq_list (tasks s) (task_queues (pool s) ! 0) = [0]" "todo (workers s ! 0) = []"
    "content (tasks s) 0 = Some (Some 7, Some 8)" "ran s = []"
    by (auto split: option.splits)
  from worker_serves_its_queue [OF one_pool_reachable [OF s(1)], of 0 0] s show ?thesis by (auto simp: runnable_def)
qed

text \<open>C38: A call of \<open>stl_thread_pool_wait\<close> may sleep forever. The last worker signals without holding
  \<open>thcount_lock\<close>, so its signal may come after the client saw a task in the queue and before it sleeps.
  In the state reached everything has run and nothing moves any more. In this run the client has
  read the true length of the queue.\<close>

theorem wait_can_sleep_forever:
  "\<exists>s. tp_reachable (\<lambda>_. 0) raw_pool 1 1 s \<and> tp_run slept (tp_start one_pool 1) = Some s \<and>
     clients s = [CSleep 0] \<and>
     map snd (ran s) = submitted s \<and> length (workers s) = 1 \<and>
     (\<forall>k. worker_exec k 0 s = Some s) \<and> (\<forall>v. client_exec v 0 s = Some s)"
proof -
  have "case tp_run slept (tp_start one_pool 1) of None \<Rightarrow> False
      | Some s \<Rightarrow> clients s = [CSleep 0] \<and> map snd (ran s) = submitted s \<and> workers s = [WWait] \<and>
          map has_jobs (task_queues (pool s)) = [0]" by code_simp
  then obtain s where s: "tp_run slept (tp_start one_pool 1) = Some s"
    "clients s = [CSleep 0]" "map snd (ran s) = submitted s" "workers s = [WWait]"
    "map has_jobs (task_queues (pool s)) = [0]"
    by (auto split: option.splits)
  from s(5) obtain q where q: "task_queues (pool s) = [q]" "has_jobs q = 0" by auto
  show ?thesis
    using s q one_pool_reachable [OF s(1)]
    by (intro exI [of _ s]) (auto simp: worker_exec_def client_exec_defs queue_of_def bsem_wait_def)
qed

text \<open>A waiting client and a worker may be about to access the length of the same queue, the worker to
  write it: neither waits for the other, since they hold different locks.\<close>

theorem len_read_races:
  "\<exists>s s'. tp_reachable (\<lambda>_. 0) raw_pool 1 1 s \<and> clients s = [CLen 0] \<and> thcount_lock s \<and>
     worker_exec 0 0 s = Some s' \<and> map len (task_queues (pool s)) = [1] \<and> map len (task_queues (pool s')) = [0]"
proof -
  have "case tp_run (queued @ [Wait 0, Client 0, Work 0, Work 0, Work 0]) (tp_start one_pool 1) of None \<Rightarrow> False
      | Some s \<Rightarrow> clients s = [CLen 0] \<and> thcount_lock s \<and> map len (task_queues (pool s)) = [1] \<and>
          map_option (\<lambda>s'. map len (task_queues (pool s'))) (worker_exec 0 0 s) = Some [0]" by code_simp
  then obtain s where s: "tp_run (queued @ [Wait 0, Client 0, Work 0, Work 0, Work 0]) (tp_start one_pool 1) = Some s"
    "clients s = [CLen 0]" "thcount_lock s" "map len (task_queues (pool s)) = [1]"
    "map_option (\<lambda>s'. map len (task_queues (pool s'))) (worker_exec 0 0 s) = Some [0]"
    by (auto split: option.splits)
  then obtain s' where "worker_exec 0 0 s = Some s'" "map len (task_queues (pool s')) = [0]" by auto
  with s one_pool_reachable [OF s(1)] show ?thesis by (intro exI [of _ s] exI [of _ s'] conjI)
qed

text \<open>A task with a NULL argument is stored without its function, and the worker that takes it
  calls a NULL pointer.\<close>

theorem null_argument_task_crashes:
  "\<exists>s. tp_run [Work 0, Work 0, Add 0 (Some 7) None, Client 0, Client 0, Client 0, Work 0, Work 0, Work 0, Work 0]
     (tp_start one_pool 1) = Some s \<and> worker_exec 0 0 s = None"
proof -
  have "case tp_run [Work 0, Work 0, Add 0 (Some 7) None, Client 0, Client 0, Client 0, Work 0, Work 0, Work 0, Work 0]
     (tp_start one_pool 1) of None \<Rightarrow> False | Some s \<Rightarrow> Option.is_none (worker_exec 0 0 s)" by code_simp
  then show ?thesis by (auto split: option.splits simp: Option.is_none_def)
qed

text \<open>\<open>stl_thread_pool_alloc\<close> never returns a pool: the initialisation it checks returns -1 also when
  it succeeds.\<close>

theorem thread_pool_alloc_returns_null:
  "stl_thread_pool_alloc done0 mem n = Some None"
  by (simp add: stl_thread_pool_alloc_def stl_thread_pool_init_def init_loop_result)

end
