(* ===== verification/Radix_Tree.thy ===== *)
theory Radix_Tree
  imports C_Prelude "HOL-Library.Sublist"
begin

text \<open>
  The radix tree over 32-bit keys (\<open>module/stl/src/stl_radix_tree.c\<close>): a binary tree with parent
  pointers whose nodes are prefixes of keys. Nodes are heap objects; a deleted node goes to the list
  \<open>free\<close>, linked through its right pointer.

  The allocator \<open>stl_radix_alloc\<close> is declared in the file and defined nowhere. It is a parameter of the
  operations that call it, and \<open>radix_allocator\<close> says what the code relies on: it returns NULL, or a node
  that is not in use, and leaves the nodes in use alone.

  \<open>radix_repr\<close> relates a tree to the finite map from prefixes to values it stands for. The theorems
  describe insertion, deletion and lookup on that map; a lookup is a longest prefix match.
\<close>

section \<open>Model\<close>

definition STL_RADIX_NO_VALUE :: u64 where
  "STL_RADIX_NO_VALUE = - 1"

record stl_radix_node =
  nright :: ptr
  nleft :: ptr
  nparent :: ptr
  nvalue :: u64

record stl_radix_tree =
  root :: ptr
  free :: ptr
  start :: ptr
  nfree :: nat \<comment> \<open>the field \<open>size\<close>\<close>
  nodes :: "stl_radix_node option list"

type_synonym allocator = "stl_radix_tree \<Rightarrow> ptr \<times> stl_radix_tree"

definition node_at :: "stl_radix_tree \<Rightarrow> nat \<Rightarrow> stl_radix_node option" where
  "node_at t a = (if a < length (nodes t) then nodes t ! a else None)"

definition set_node :: "nat \<Rightarrow> (stl_radix_node \<Rightarrow> stl_radix_node) \<Rightarrow> stl_radix_tree \<Rightarrow> stl_radix_tree option" where
  "set_node a f t = do { n \<leftarrow> node_at t a; Some (t\<lparr>nodes := (nodes t)[a := Some (f n)]\<rparr>) }"

lemma shift_less: "b AND m \<noteq> (0 :: u32) \<Longrightarrow> unat (drop_bit (Suc 0) b) < unat b"
proof -
  assume "b AND m \<noteq> 0"
  then have "unat b \<noteq> 0" by (auto simp: unat_eq_0)
  then have "unat b div 2 < unat b" by simp
  then show ?thesis by (simp add: drop_bit_Suc unat_div_distrib)
qed

text \<open>The first loop of the insertion: follow the key as long as the mask and the tree go.\<close>

function insert_walk ::
    "stl_radix_tree \<Rightarrow> u32 \<Rightarrow> u32 \<Rightarrow> u32 \<Rightarrow> nat \<Rightarrow> ptr \<Rightarrow> (u32 \<times> nat \<times> ptr) option" where
  "insert_walk t key msk bt nd next =
     (if bt AND msk \<noteq> 0 then do {
        n \<leftarrow> node_at t nd;
        case (if key AND bt \<noteq> 0 then nright n else nleft n) of
          None \<Rightarrow> Some (bt, nd, None)
        | Some m \<Rightarrow> insert_walk t key msk (drop_bit 1 bt) m (Some m) }
      else Some (bt, nd, next))"
  by pat_completeness auto
termination
  by (relation "measure (\<lambda>(t, key, msk, bt, nd, next). unat bt)") (simp_all add: shift_less)

text \<open>The second loop: add the missing nodes. The first component is false when the allocator fails.\<close>

function insert_grow ::
    "allocator \<Rightarrow> stl_radix_tree \<Rightarrow> u32 \<Rightarrow> u32 \<Rightarrow> u32 \<Rightarrow> nat \<Rightarrow> (bool \<times> nat \<times> stl_radix_tree) option" where
  "insert_grow stl_radix_alloc t key msk bt nd =
     (if bt AND msk \<noteq> 0 then
        (case stl_radix_alloc t of
           (None, t) \<Rightarrow> Some (False, nd, t)
         | (Some next, t) \<Rightarrow> do {
             t \<leftarrow> set_node next (\<lambda>n. n\<lparr>nright := None, nleft := None, nparent := Some nd,
                    nvalue := STL_RADIX_NO_VALUE\<rparr>) t;
             t \<leftarrow> set_node nd (\<lambda>n. if key AND bt \<noteq> 0 then n\<lparr>nright := Some next\<rparr> else n\<lparr>nleft := Some next\<rparr>) t;
             insert_grow stl_radix_alloc t key msk (drop_bit 1 bt) next })
      else Some (True, nd, t))"
  by pat_completeness auto
termination
  by (relation "measure (\<lambda>(al, t, key, msk, bt, nd). unat bt)") (simp_all add: shift_less)

declare insert_walk.simps [simp del] insert_grow.simps [simp del]

definition stl_radix32tree_insert ::
    "allocator \<Rightarrow> stl_radix_tree \<Rightarrow> u32 \<Rightarrow> u32 \<Rightarrow> u64 \<Rightarrow> (int \<times> stl_radix_tree) option" where
  "stl_radix32tree_insert stl_radix_alloc t key msk val = do {
     r \<leftarrow> root t;
     (bt, nd, next) \<leftarrow> insert_walk t key msk 0x80000000 r (Some r);
     if next \<noteq> None then do {
       n \<leftarrow> node_at t nd;
       if nvalue n \<noteq> STL_RADIX_NO_VALUE then Some (-3, t)
       else do { t \<leftarrow> set_node nd (\<lambda>n. n\<lparr>nvalue := val\<rparr>) t; Some (0, t) } }
     else do {
       (ok, nd, t) \<leftarrow> insert_grow stl_radix_alloc t key msk bt nd;
       if \<not> ok then Some (-1, t)
       else do { t \<leftarrow> set_node nd (\<lambda>n. n\<lparr>nvalue := val\<rparr>) t; Some (0, t) } } }"

function delete_walk :: "stl_radix_tree \<Rightarrow> u32 \<Rightarrow> u32 \<Rightarrow> u32 \<Rightarrow> ptr \<Rightarrow> ptr option" where
  "delete_walk t key msk bt p = (case p of None \<Rightarrow> Some None
     | Some nd \<Rightarrow> if bt AND msk \<noteq> 0 then do {
         n \<leftarrow> node_at t nd;
         delete_walk t key msk (drop_bit 1 bt) (if key AND bt \<noteq> 0 then nright n else nleft n) }
       else Some p)"
  by pat_completeness auto
termination
  by (relation "measure (\<lambda>(t, key, msk, bt, p). unat bt)") (simp_all add: shift_less)

declare delete_walk.simps [simp del]

text \<open>The pruning loop: unlink the node, put it on the free list, go on with a parent left useless.\<close>

partial_function (option) delete_prune :: "stl_radix_tree \<Rightarrow> nat \<Rightarrow> stl_radix_tree option" where
  "delete_prune t nd = do {
     n \<leftarrow> node_at t nd;
     par \<leftarrow> nparent n;
     pn \<leftarrow> node_at t par;
     t \<leftarrow> (if nright pn = Some nd then set_node par (\<lambda>n. n\<lparr>nright := None\<rparr>) t
           else set_node par (\<lambda>n. n\<lparr>nleft := None\<rparr>) t);
     t \<leftarrow> set_node nd (\<lambda>n. n\<lparr>nright := free t\<rparr>) t;
     let t = t\<lparr>free := Some nd\<rparr>;
     pn \<leftarrow> node_at t par;
     if nright pn \<noteq> None \<or> nleft pn \<noteq> None then Some t
     else if nvalue pn \<noteq> STL_RADIX_NO_VALUE then Some t
     else if nparent pn = None then Some t
     else delete_prune t par }"

definition stl_radix32tree_delete :: "stl_radix_tree \<Rightarrow> u32 \<Rightarrow> u32 \<Rightarrow> (int \<times> stl_radix_tree) option" where
  "stl_radix32tree_delete t key msk = do {
     p \<leftarrow> delete_walk t key msk 0x80000000 (root t);
     case p of None \<Rightarrow> Some (-1, t)
     | Some nd \<Rightarrow> do {
         n \<leftarrow> node_at t nd;
         if nright n \<noteq> None \<or> nleft n \<noteq> None then
           (if nvalue n \<noteq> STL_RADIX_NO_VALUE
            then do { t \<leftarrow> set_node nd (\<lambda>n. n\<lparr>nvalue := STL_RADIX_NO_VALUE\<rparr>) t; Some (0, t) }
            else Some (-1, t))
         else do { t \<leftarrow> delete_prune t nd; Some (0, t) } } }"

partial_function (option) find_loop :: "stl_radix_tree \<Rightarrow> u32 \<Rightarrow> u32 \<Rightarrow> u64 \<Rightarrow> ptr \<Rightarrow> u64 option" where
  "find_loop t key bt val p = (case p of None \<Rightarrow> Some val
     | Some nd \<Rightarrow> do {
         n \<leftarrow> node_at t nd;
         find_loop t key (drop_bit 1 bt) (if nvalue n \<noteq> STL_RADIX_NO_VALUE then nvalue n else val)
           (if key AND bt \<noteq> 0 then nright n else nleft n) })"

definition stl_radix32tree_find :: "stl_radix_tree \<Rightarrow> u32 \<Rightarrow> u64 option" where
  "stl_radix32tree_find t key = find_loop t key 0x80000000 STL_RADIX_NO_VALUE (root t)"

text \<open>Creating a tree. The result of the preallocation is \<open>None\<close> inside where the code returns NULL.
  With the 32 bytes of a node and pages of \<open>pagesize\<close> bytes the default depth is 6, 7 or 8.\<close>

partial_function (option) prealloc_keys ::
    "allocator \<Rightarrow> stl_radix_tree \<Rightarrow> u32 \<Rightarrow> u32 \<Rightarrow> u32 \<Rightarrow> stl_radix_tree option option" where
  "prealloc_keys stl_radix_alloc t key msk inc = do {
     (r, t) \<leftarrow> stl_radix32tree_insert stl_radix_alloc t key msk STL_RADIX_NO_VALUE;
     if r \<noteq> 0 then Some None
     else if key + inc \<noteq> 0 then prealloc_keys stl_radix_alloc t (key + inc) msk inc
     else Some (Some t) }"

partial_function (option) prealloc_levels ::
    "allocator \<Rightarrow> stl_radix_tree \<Rightarrow> int \<Rightarrow> u32 \<Rightarrow> u32 \<Rightarrow> stl_radix_tree option option" where
  "prealloc_levels stl_radix_alloc t preallocate msk inc =
     (if preallocate = 0 then Some (Some t)
      else do {
        let msk = drop_bit 1 msk OR 0x80000000;
        t \<leftarrow> prealloc_keys stl_radix_alloc t 0 msk inc;
        case t of None \<Rightarrow> Some None
        | Some t \<Rightarrow> prealloc_levels stl_radix_alloc t (preallocate - 1) msk (drop_bit 1 inc) })"

definition default_levels :: "nat \<Rightarrow> int" where
  "default_levels pagesize = (let n = pagesize div 32 in if n = 128 then 6 else if n = 256 then 7 else 8)"

definition stl_radix_tree_alloc :: "allocator \<Rightarrow> nat \<Rightarrow> stl_radix_node option list \<Rightarrow> int \<Rightarrow> stl_radix_tree option option" where
  "stl_radix_tree_alloc stl_radix_alloc pagesize mem preallocate =
     (let t = \<lparr>root = None, free = None, start = None, nfree = 0, nodes = mem\<rparr> in
      case stl_radix_alloc t of
        (None, t) \<Rightarrow> Some None
      | (Some r, t) \<Rightarrow> do {
          t \<leftarrow> set_node r (\<lambda>n. n\<lparr>nright := None, nleft := None, nparent := None,
                 nvalue := STL_RADIX_NO_VALUE\<rparr>) (t\<lparr>root := Some r\<rparr>);
          if preallocate = 0 then Some (Some t)
          else prealloc_levels stl_radix_alloc t
            (if preallocate = -1 then default_levels pagesize else preallocate) 0 0x80000000 })"

section \<open>Trees in the heap\<close>

text \<open>A tree with the addresses of its nodes, left before right.\<close>

datatype rtree = Tip | Nd nat u64 rtree rtree

fun addrs :: "rtree \<Rightarrow> nat list" where
  "addrs Tip = []"
| "addrs (Nd a v l r) = a # addrs l @ addrs r"

fun shape :: "stl_radix_tree \<Rightarrow> ptr \<Rightarrow> ptr \<Rightarrow> rtree \<Rightarrow> bool" where
  "shape t p par Tip = (p = None)"
| "shape t p par (Nd a v l r) = (p = Some a \<and> (case node_at t a of None \<Rightarrow> False | Some n \<Rightarrow>
     nvalue n = v \<and> nparent n = par \<and> shape t (nleft n) (Some a) l \<and> shape t (nright n) (Some a) r))"

text \<open>The subtree at a path, where \<open>True\<close> is right, and its replacement.\<close>

fun sub :: "rtree \<Rightarrow> bool list \<Rightarrow> rtree" where
  "sub tr [] = tr"
| "sub Tip (b # bs) = Tip"
| "sub (Nd a v l r) (b # bs) = sub (if b then r else l) bs"

fun replace :: "rtree \<Rightarrow> bool list \<Rightarrow> rtree \<Rightarrow> rtree" where
  "replace tr [] s = s"
| "replace Tip (b # bs) s = Tip"
| "replace (Nd a v l r) (b # bs) s =
     (if b then Nd a v l (replace r bs s) else Nd a v (replace l bs s) r)"

definition opt_value :: "u64 \<Rightarrow> u64 option" where
  "opt_value v = (if v = STL_RADIX_NO_VALUE then None else Some v)"

definition vals :: "rtree \<Rightarrow> bool list \<Rightarrow> u64 option" where
  "vals tr bs = (case sub tr bs of Tip \<Rightarrow> None | Nd a v l r \<Rightarrow> opt_value v)"

text \<open>The nodes on the free list.\<close>

inductive spare :: "stl_radix_tree \<Rightarrow> nat \<Rightarrow> bool" for t where
  first: "free t = Some a \<Longrightarrow> spare t a"
| further: "spare t a \<Longrightarrow> node_at t a = Some n \<Longrightarrow> nright n = Some b \<Longrightarrow> spare t b"

fun free_chain :: "stl_radix_tree \<Rightarrow> ptr \<Rightarrow> nat list \<Rightarrow> bool" where
  "free_chain t p [] = (p = None)"
| "free_chain t p (a # xs) = (p = Some a \<and> (case node_at t a of None \<Rightarrow> False | Some n \<Rightarrow> free_chain t (nright n) xs))"

definition free_ok :: "stl_radix_tree \<Rightarrow> bool" where
  "free_ok t \<longleftrightarrow> (\<exists>xs. free_chain t (free t) xs \<and> distinct xs)"

definition radix_wf :: "stl_radix_tree \<Rightarrow> rtree \<Rightarrow> bool" where
  "radix_wf t tr \<longleftrightarrow> shape t (root t) None tr \<and> tr \<noteq> Tip \<and> distinct (addrs tr) \<and>
     (\<forall>a\<in>set (addrs tr). \<not> spare t a) \<and> free_ok t \<and> (\<forall>bs. sub tr bs \<noteq> Tip \<longrightarrow> length bs \<le> 32)"

definition radix_repr :: "stl_radix_tree \<Rightarrow> (bool list \<Rightarrow> u64 option) \<Rightarrow> bool" where
  "radix_repr t m \<longleftrightarrow> (\<exists>tr. radix_wf t tr \<and> vals tr = m)"

text \<open>What the code relies on of the allocator.\<close>

definition radix_allocator :: "allocator \<Rightarrow> bool" where
  "radix_allocator al \<longleftrightarrow> (\<forall>t p t'. free_ok t \<longrightarrow> al t = (p, t') \<longrightarrow>
     root t' = root t \<and> free_ok t' \<and> (\<forall>b. spare t' b \<longrightarrow> spare t b) \<and>
     (\<forall>b. p \<noteq> Some b \<and> node_at t b \<noteq> None \<longrightarrow> node_at t' b = node_at t b) \<and>
     (\<forall>a. p = Some a \<longrightarrow> node_at t' a \<noteq> None \<and> (node_at t a = None \<or> spare t a) \<and> \<not> spare t' a))"

subsection \<open>Facts on trees\<close>

lemma sub_append: "sub tr (bs @ cs) = sub (sub tr bs) cs"
proof (induction tr bs rule: sub.induct)
  case (2 b bs)
  then show ?case by (cases cs) auto
qed auto

lemma sub_Tip [simp]: "sub Tip bs = Tip"
  by (cases bs) auto

lemma addrs_sub: "set (addrs (sub tr bs)) \<subseteq> set (addrs tr)"
  by (induction tr bs rule: sub.induct) auto

lemma addrs_replace:
  "sub tr bs \<noteq> Tip \<Longrightarrow> set (addrs (replace tr bs s)) \<subseteq> set (addrs tr) \<union> set (addrs s)"
  by (induction tr bs s rule: replace.induct) (auto split: if_splits)

lemma addrs_replace_eq:
  "distinct (addrs tr) \<Longrightarrow> sub tr bs \<noteq> Tip \<Longrightarrow>
     set (addrs (replace tr bs s)) = (set (addrs tr) - set (addrs (sub tr bs))) \<union> set (addrs s)"
proof (induction tr bs s rule: replace.induct)
  case (3 a v l r b bs s)
  then show ?case using addrs_sub [of l bs] addrs_sub [of r bs] by (cases b) auto
qed auto

lemma distinct_sub: "distinct (addrs tr) \<Longrightarrow> distinct (addrs (sub tr bs))"
  by (induction tr bs rule: sub.induct) auto

lemma distinct_replace:
  assumes "distinct (addrs tr)" "sub tr bs \<noteq> Tip" "distinct (addrs s)"
    "set (addrs s) \<inter> set (addrs tr) \<subseteq> set (addrs (sub tr bs))"
  shows "distinct (addrs (replace tr bs s))"
  using assms
proof (induction tr bs s rule: replace.induct)
  case (3 a v l r b bs s)
  show ?case
  proof (cases b)
    case True
    have "set (addrs (sub r bs)) \<subseteq> set (addrs r)" by (rule addrs_sub)
    then have s: "set (addrs s) \<inter> (insert a (set (addrs l))) = {}" "set (addrs s) \<inter> set (addrs r) \<subseteq> set (addrs (sub r bs))"
      using 3 True by auto
    then have "distinct (addrs (replace r bs s))" using 3 True by auto
    then show ?thesis using 3 True s addrs_replace [of r bs s] by auto
  next
    case False
    have "set (addrs (sub l bs)) \<subseteq> set (addrs l)" by (rule addrs_sub)
    then have s: "set (addrs s) \<inter> (insert a (set (addrs r))) = {}" "set (addrs s) \<inter> set (addrs l) \<subseteq> set (addrs (sub l bs))"
      using 3 False by auto
    then have "distinct (addrs (replace l bs s))" using 3 False by auto
    then show ?thesis using 3 False s addrs_replace [of l bs s] by auto
  qed
qed auto

lemma sub_replace:
  "sub tr bs \<noteq> Tip \<Longrightarrow> sub (replace tr bs s) (bs @ cs) = sub s cs"
  by (induction tr bs s rule: replace.induct) auto

lemma vals_replace:
  assumes "sub tr bs = Nd a v l r"
  shows "vals (replace tr bs (Nd a w l' r')) cs =
    (if prefix bs cs then vals (Nd a w l' r') (drop (length bs) cs) else vals tr cs)"
  using assms
proof (induction tr bs "Nd a w l' r'" arbitrary: cs rule: replace.induct)
  case (3 a' v' l'' r'' b bs)
  then show ?case by (cases cs) (auto simp: vals_def)
qed (auto simp: vals_def)

lemma sub_replace_Tip:
  assumes "sub tr bs = Nd a v l r" "\<not> prefix bs cs"
  shows "sub (replace tr bs (Nd a w l' r')) cs = Tip \<longleftrightarrow> sub tr cs = Tip"
  using assms
proof (induction tr bs "Nd a w l' r'" arbitrary: cs rule: replace.induct)
  case (3 a' v' l'' r'' b bs)
  then show ?case by (cases cs) auto
qed auto

lemma shape_frame:
  "shape t p par tr \<Longrightarrow> (\<And>a. a \<in> set (addrs tr) \<Longrightarrow> node_at t' a = node_at t a) \<Longrightarrow> shape t' p par tr"
  by (induction tr arbitrary: p par) (auto split: option.splits)

lemma shape_alloc: "shape t p par tr \<Longrightarrow> a \<in> set (addrs tr) \<Longrightarrow> node_at t a \<noteq> None"
  by (induction tr arbitrary: p par) (auto split: option.splits)

lemma shape_NdE:
  assumes "shape t p par (Nd a v l r)"
  obtains n where "p = Some a" "node_at t a = Some n" "nvalue n = v" "nparent n = par"
    "shape t (nleft n) (Some a) l" "shape t (nright n) (Some a) r"
  using assms by (auto split: option.splits)

lemma shape_NdI:
  "node_at t a = Some n \<Longrightarrow> nvalue n = v \<Longrightarrow> nparent n = par \<Longrightarrow> shape t (nleft n) (Some a) l \<Longrightarrow>
     shape t (nright n) (Some a) r \<Longrightarrow> shape t (Some a) par (Nd a v l r)"
  by simp

lemma shape_sub_ex:
  "shape t p par tr \<Longrightarrow> \<exists>q par'. shape t q par' (sub tr bs)"
proof (induction tr bs arbitrary: p par rule: sub.induct)
  case (3 a v l r b bs)
  from 3(2) show ?case by (rule shape_NdE) (use 3(1) in auto)
qed auto

lemma shape_sub:
  assumes "shape t p par tr" "sub tr bs = Nd a v l r"
  obtains n where "node_at t a = Some n" "nvalue n = v"
    "shape t (nleft n) (Some a) l" "shape t (nright n) (Some a) r"
  using shape_sub_ex [OF assms(1), of bs] assms(2) by (auto elim: shape_NdE simp del: shape.simps(2))

text \<open>A change inside a subtree that keeps the address of its root.\<close>

lemma shape_replace:
  assumes "shape t p par tr" "sub tr bs = Nd a v l r" "distinct (addrs tr)"
    "\<And>b. b \<in> set (addrs tr) - set (addrs (sub tr bs)) \<Longrightarrow> node_at t' b = node_at t b"
    "\<And>par'. shape t (Some a) par' (Nd a v l r) \<Longrightarrow> shape t' (Some a) par' (Nd a w l' r')"
  shows "shape t' p par (replace tr bs (Nd a w l' r'))"
  using assms
proof (induction tr bs "Nd a w l' r'" arbitrary: p par rule: replace.induct)
  case (1 tr)
  then have "p = Some a" by (auto elim: shape_NdE simp del: shape.simps(2))
  then show ?case using 1 by (simp del: shape.simps(2))
next
  case (3 c x lc rc b bs)
  from 3(3) obtain n where n: "p = Some c" "node_at t c = Some n" "nvalue n = x" "nparent n = par"
    "shape t (nleft n) (Some c) lc" "shape t (nright n) (Some c) rc" by (rule shape_NdE)
  have st: "set (addrs (sub lc bs)) \<subseteq> set (addrs lc)" "set (addrs (sub rc bs)) \<subseteq> set (addrs rc)"
    by (rule addrs_sub)+
  have "node_at t' c = node_at t c" by (rule 3(6)) (use 3(5) st in \<open>cases b; auto\<close>)
  then have c: "node_at t' c = Some n" using n(2) by simp
  show ?case
  proof (cases b)
    case True
    have "shape t' (nright n) (Some c) (replace rc bs (Nd a w l' r'))"
      using 3(1) [OF True n(6)] 3(4-7) True by auto
    moreover have "shape t' (nleft n) (Some c) lc"
      using n(5) by (rule shape_frame) (use 3(5,6) True st in auto)
    ultimately show ?thesis using True n c by simp
  next
    case False
    have "shape t' (nleft n) (Some c) (replace lc bs (Nd a w l' r'))"
      using 3(2) [OF False n(5)] 3(4-7) False by auto
    moreover have "shape t' (nright n) (Some c) rc"
      using n(6) by (rule shape_frame) (use 3(5,6) False st in auto)
    ultimately show ?thesis using False n c by simp
  qed
qed auto

lemma spare_frame:
  assumes "spare t' x" "free t' = free t" "\<And>b. spare t b \<Longrightarrow> node_at t' b = node_at t b"
  shows "spare t x"
  using assms(1)
proof induction
  case (first a)
  then show ?case using assms(2) by (auto intro: spare.first)
next
  case (further a n b)
  then show ?case using assms(3) by (auto intro: spare.further)
qed

lemma free_chain_frame:
  "free_chain t p xs \<Longrightarrow> (\<And>a. a \<in> set xs \<Longrightarrow> node_at t' a = node_at t a) \<Longrightarrow> free_chain t' p xs"
  by (induction xs arbitrary: p) (auto split: option.splits)

lemma free_chain_next:
  "free_chain t p xs \<Longrightarrow> a \<in> set xs \<Longrightarrow> node_at t a = Some n \<Longrightarrow> nright n = Some b \<Longrightarrow> b \<in> set xs"
proof (induction xs arbitrary: p)
  case (Cons x xs)
  then show ?case by (cases xs) (auto split: option.splits)
qed simp

lemma spare_chain: "spare t x \<Longrightarrow> free_chain t (free t) xs \<Longrightarrow> x \<in> set xs"
proof (induction rule: spare.induct)
  case (first a)
  then show ?case by (cases xs) auto
next
  case (further a n b)
  then show ?case using free_chain_next by blast
qed

lemma chain_spare:
  "free_chain t p xs \<Longrightarrow> (\<And>a. p = Some a \<Longrightarrow> spare t a) \<Longrightarrow> x \<in> set xs \<Longrightarrow> spare t x"
proof (induction xs arbitrary: p)
  case (Cons a xs)
  then obtain n where n: "node_at t a = Some n" "free_chain t (nright n) xs" by (auto split: option.splits)
  have "spare t a" using Cons.prems by auto
  then show ?case using Cons.IH [OF n(2)] Cons.prems(3) n(1) by (auto intro: spare.further)
qed simp

lemma spare_iff: "free_chain t (free t) xs \<Longrightarrow> spare t x \<longleftrightarrow> x \<in> set xs"
  using spare_chain chain_spare [of t "free t" xs x] by (auto intro: spare.first)

lemma free_ok_frame:
  assumes "free_ok t" "free t' = free t" "\<And>b. spare t b \<Longrightarrow> node_at t' b = node_at t b"
  shows "free_ok t'"
  using assms free_chain_frame [of t "free t" _ t'] by (auto simp: free_ok_def spare_iff)

lemma wf_replace:
  assumes wf: "radix_wf t tr" and sb: "sub tr bs = Nd a v l r" and rt: "root t' = root t"
    and frame: "\<And>b. b \<in> set (addrs tr) - set (addrs (Nd a v l r)) \<Longrightarrow> node_at t' b = node_at t b"
    and local: "\<And>par'. shape t (Some a) par' (Nd a v l r) \<Longrightarrow> shape t' (Some a) par' (Nd a w l' r')"
    and dist: "distinct (addrs (Nd a w l' r'))"
      "set (addrs (Nd a w l' r')) \<inter> set (addrs tr) \<subseteq> set (addrs (Nd a v l r))"
    and sp: "\<And>x. x \<in> set (addrs tr) - set (addrs (Nd a v l r)) \<or> x \<in> set (addrs (Nd a w l' r')) \<Longrightarrow> \<not> spare t' x"
    and fok: "free_ok t'" and len: "\<And>cs. sub (Nd a w l' r') cs \<noteq> Tip \<Longrightarrow> length bs + length cs \<le> 32"
  shows "radix_wf t' (replace tr bs (Nd a w l' r'))"
proof -
  let ?tr = "replace tr bs (Nd a w l' r')"
  have d: "distinct (addrs tr)" and sh: "shape t (root t) None tr" using wf by (simp_all add: radix_wf_def)
  have "shape t' (root t') None ?tr"
    unfolding rt by (rule shape_replace [OF sh sb d]) (use frame local sb in auto)
  moreover have "?tr \<noteq> Tip" using sub_replace [of tr bs "Nd a w l' r'" "[]"] sb by auto
  moreover have "distinct (addrs ?tr)"
    by (rule distinct_replace [OF d _ dist(1)]) (use dist(2) sb in auto)
  moreover have "\<forall>x\<in>set (addrs ?tr). \<not> spare t' x"
    using addrs_replace_eq [OF d, of bs "Nd a w l' r'"] sp sb by auto
  moreover have "length cs \<le> 32" if "sub ?tr cs \<noteq> Tip" for cs
  proof (cases "prefix bs cs")
    case True
    then obtain ds where "cs = bs @ ds" by (auto simp: prefix_def)
    then show ?thesis using that len [of ds] sub_replace [of tr bs "Nd a w l' r'" ds] sb by auto
  next
    case False
    then show ?thesis using that wf sub_replace_Tip [OF sb False] by (auto simp: radix_wf_def)
  qed
  ultimately show ?thesis using fok by (simp add: radix_wf_def)
qed

lemma radix_node_at_set: "set_node a f t = Some t' \<Longrightarrow>
    node_at t' b = (if b = a then map_option f (node_at t a) else node_at t b)"
  by (auto simp: set_node_def node_at_def elim!: bind_SomeE split: if_splits)

lemma node_at_free [simp]: "node_at (t\<lparr>free := p\<rparr>) x = node_at t x"
  by (simp add: node_at_def)

lemma set_node_fields: "set_node a f t = Some t' \<Longrightarrow> root t' = root t \<and> free t' = free t"
  by (auto simp: set_node_def elim!: bind_SomeE)

lemma set_node_ok: "node_at t a \<noteq> None \<Longrightarrow> \<exists>t'. set_node a f t = Some t'"
  by (auto simp: set_node_def)

lemma addrs_mem_sub: "sub tr bs = Nd a v l r \<Longrightarrow> a \<in> set (addrs tr)"
  using addrs_sub [of tr bs] by auto

lemma wf_length: "radix_wf t tr \<Longrightarrow> sub tr bs \<noteq> Tip \<Longrightarrow> sub (sub tr bs) cs \<noteq> Tip \<Longrightarrow> length bs + length cs \<le> 32"
  by (metis length_append radix_wf_def sub_append)

text \<open>Writing the value of a node.\<close>

lemma wf_set_value:
  assumes wf: "radix_wf t tr" and sb: "sub tr bs = Nd a v l r" and t': "set_node a (\<lambda>n. n\<lparr>nvalue := w\<rparr>) t = Some t'"
  shows "radix_wf t' (replace tr bs (Nd a w l r))"
proof (rule wf_replace [OF wf sb])
  have d: "distinct (addrs (Nd a v l r))" using wf sb distinct_sub [of tr bs] by (simp add: radix_wf_def)
  then show "distinct (addrs (Nd a w l r))" by simp
  show "root t' = root t" using set_node_fields [OF t'] by simp
  have a: "\<not> spare t a" using wf addrs_mem_sub [OF sb] by (auto simp: radix_wf_def)
  have "free_ok t" using wf by (simp add: radix_wf_def)
  then show "free_ok t'"
    by (rule free_ok_frame) (use set_node_fields [OF t'] radix_node_at_set [OF t'] a in auto)
  show "\<not> spare t' x" if "x \<in> set (addrs tr) - set (addrs (Nd a v l r)) \<or> x \<in> set (addrs (Nd a w l r))" for x
  proof
    assume "spare t' x"
    then have "spare t x"
      by (rule spare_frame) (use set_node_fields [OF t'] radix_node_at_set [OF t'] a in auto)
    moreover have "x \<in> set (addrs tr)" using that sb addrs_sub [of tr bs] by auto
    ultimately show False using wf by (auto simp: radix_wf_def)
  qed
  show "length bs + length cs \<le> 32" if "sub (Nd a w l r) cs \<noteq> Tip" for cs
    by (rule wf_length [OF wf]) (use that sb in \<open>cases cs; auto\<close>)+
  show "shape t' (Some a) par (Nd a w l r)" if s: "shape t (Some a) par (Nd a v l r)" for par
    using s
  proof (rule shape_NdE)
    fix n assume n: "node_at t a = Some n" "nparent n = par"
      "shape t (nleft n) (Some a) l" "shape t (nright n) (Some a) r"
    have "shape t' (nleft n) (Some a) l" "shape t' (nright n) (Some a) r"
      using n(3,4) d by (auto intro!: shape_frame [of t] simp: radix_node_at_set [OF t'])
    then show ?thesis using n by (simp add: radix_node_at_set [OF t'])
  qed
qed (use radix_node_at_set [OF t'] in auto)

text \<open>Calling the allocator, and hanging a new leaf below a node.\<close>

lemma allocatorD:
  assumes "radix_allocator al" "radix_wf t tr" "al t = (p, t')"
  shows "root t' = root t" "free_ok t'" "\<And>b. spare t' b \<Longrightarrow> spare t b"
    "\<And>b. p \<noteq> Some b \<Longrightarrow> node_at t b \<noteq> None \<Longrightarrow> node_at t' b = node_at t b"
    "\<And>a. p = Some a \<Longrightarrow> node_at t' a \<noteq> None"
    "\<And>a. p = Some a \<Longrightarrow> node_at t a = None \<or> spare t a" "\<And>a. p = Some a \<Longrightarrow> \<not> spare t' a"
proof -
  have "free_ok t" using assms(2) by (simp add: radix_wf_def)
  note D = assms(1) [unfolded radix_allocator_def, rule_format, OF this assms(3)]
  show "root t' = root t" "free_ok t'" using D by blast+
  show "spare t b" if "spare t' b" for b using D that by blast
  show "node_at t' b = node_at t b" if "p \<noteq> Some b" "node_at t b \<noteq> None" for b using D that by blast
  show "node_at t' a \<noteq> None" "node_at t a = None \<or> spare t a" "\<not> spare t' a" if "p = Some a" for a
    using D that by blast+
qed

lemma allocator_wf:
  assumes "radix_allocator al" "al t = (None, t')" "radix_wf t tr"
  shows "radix_wf t' tr"
proof -
  note al = allocatorD [OF assms(1,3,2)]
  have sh: "shape t (root t) None tr" using assms(3) by (simp add: radix_wf_def)
  have "shape t' (root t') None tr"
    unfolding al(1) by (rule shape_frame [OF sh], rule al(4), simp, rule shape_alloc [OF sh])
  then show ?thesis using assms(3) al(2,3) by (auto simp: radix_wf_def)
qed

definition leaf :: "bool \<Rightarrow> nat \<Rightarrow> u64 \<Rightarrow> rtree \<Rightarrow> rtree \<Rightarrow> nat \<Rightarrow> rtree" where
  "leaf b a v l r c = (let n = Nd c STL_RADIX_NO_VALUE Tip Tip in if b then Nd a v l n else Nd a v n r)"

lemma wf_attach:
  assumes al: "radix_allocator al" "al t = (Some c, t1)" and wf: "radix_wf t tr" and sb: "sub tr bs = Nd a v l r"
    and tip: "(if b then r else l) = Tip" and len: "length bs < 32"
    and t2: "set_node c (\<lambda>n. n\<lparr>nright := None, nleft := None, nparent := Some a, nvalue := STL_RADIX_NO_VALUE\<rparr>) t1 = Some t2"
    and t3: "set_node a (\<lambda>n. if b then n\<lparr>nright := Some c\<rparr> else n\<lparr>nleft := Some c\<rparr>) t2 = Some t3"
  shows "radix_wf t3 (replace tr bs (leaf b a v l r c))"
proof -
  note D = allocatorD [OF al(1) wf al(2)]
  have a1: "root t1 = root t" "\<And>x. spare t1 x \<Longrightarrow> spare t x" "\<And>x. x \<noteq> c \<Longrightarrow> node_at t x \<noteq> None \<Longrightarrow> node_at t1 x = node_at t x"
    "node_at t1 c \<noteq> None" "node_at t c = None \<or> spare t c" "\<not> spare t1 c" "free_ok t1"
    using D(1) D(3) D(4) D(5) [of c] D(6) [of c] D(7) [of c] D(2) by auto
  have sh: "shape t (root t) None tr" using wf by (simp add: radix_wf_def)
  have live: "node_at t x \<noteq> None \<and> \<not> spare t x" if "x \<in> set (addrs tr)" for x
    using that wf shape_alloc [OF sh] by (auto simp: radix_wf_def)
  then have c: "c \<notin> set (addrs tr)" using a1(5) by blast
  have a: "a \<in> set (addrs tr)" "a \<noteq> c" using addrs_mem_sub [OF sb] c by auto
  have old: "node_at t3 x = node_at t x" if "x \<in> set (addrs tr)" "x \<noteq> a" for x
  proof -
    have "x \<noteq> c" using that c by auto
    then have "node_at t1 x = node_at t x" using a1(3) live that(1) by blast
    then show ?thesis using that(2) \<open>x \<noteq> c\<close> by (simp add: radix_node_at_set [OF t3] radix_node_at_set [OF t2])
  qed
  have d: "distinct (addrs (Nd a v l r))" using wf sb distinct_sub [of tr bs] by (simp add: radix_wf_def)
  have inside: "set (addrs (Nd a v l r)) \<subseteq> set (addrs tr)" using sb addrs_sub [of tr bs] by simp
  obtain w l' r' where lf: "leaf b a v l r c = Nd a w l' r'" "w = v" by (cases b) (auto simp: leaf_def)
  have la: "set (addrs (leaf b a v l r c)) = insert c (set (addrs (Nd a v l r)))"
    using tip by (cases b) (auto simp: leaf_def)
  have ca: "node_at t3 c = Some n \<Longrightarrow> nvalue n = STL_RADIX_NO_VALUE \<and> nparent n = Some a \<and> nleft n = None \<and> nright n = None"
    for n using a(2) by (auto simp: radix_node_at_set [OF t3] radix_node_at_set [OF t2])
  obtain nc where nc: "node_at t3 c = Some nc"
    using a1(4) a(2) by (auto simp: radix_node_at_set [OF t3] radix_node_at_set [OF t2])
  show ?thesis
    unfolding lf(1)
  proof (rule wf_replace [OF wf sb])
    show "root t3 = root t" using set_node_fields [OF t3] set_node_fields [OF t2] a1(1) by simp
    show "distinct (addrs (Nd a w l' r'))"
      using d tip c inside a(2) unfolding lf(1) [symmetric] by (cases b) (auto simp: leaf_def)
    show "set (addrs (Nd a w l' r')) \<inter> set (addrs tr) \<subseteq> set (addrs (Nd a v l r))"
      using la c unfolding lf(1) by auto
    have still: "node_at t3 y = node_at t1 y" if "spare t1 y" for y
    proof -
      have "y \<noteq> a" "y \<noteq> c" using that a1(2,6) live a(1) by auto
      then show ?thesis by (simp add: radix_node_at_set [OF t3] radix_node_at_set [OF t2])
    qed
    have fr: "free t3 = free t1" using set_node_fields [OF t3] set_node_fields [OF t2] by simp
    show "free_ok t3" by (rule free_ok_frame [OF a1(7) fr still])
    show "\<not> spare t3 x" if "x \<in> set (addrs tr) - set (addrs (Nd a v l r)) \<or> x \<in> set (addrs (Nd a w l' r'))" for x
    proof
      assume "spare t3 x"
      then have "spare t1 x" by (rule spare_frame [OF _ fr still])
      moreover have "x \<in> insert c (set (addrs tr))" using that la inside unfolding lf(1) by auto
      ultimately show False using a1(2,6) live by auto
    qed
    show "length bs + length cs \<le> 32" if "sub (Nd a w l' r') cs \<noteq> Tip" for cs
    proof (cases "sub (Nd a v l r) cs = Tip")
      case True
      then have "cs = [b]" using that tip unfolding lf(1) [symmetric]
        by (cases cs; cases "tl cs"; cases b) (auto simp: leaf_def split: if_splits)
      then show ?thesis using len by simp
    next
      case False
      then show ?thesis using wf_length [OF wf, of bs cs] sb by simp
    qed
    show "shape t3 (Some a) par (Nd a w l' r')" if s: "shape t (Some a) par (Nd a v l r)" for par
      using s
    proof (rule shape_NdE)
      fix n assume n: "node_at t a = Some n" "nvalue n = v" "nparent n = par"
        "shape t (nleft n) (Some a) l" "shape t (nright n) (Some a) r"
      have "shape t3 (nleft n) (Some a) l"
        using n(4) by (rule shape_frame) (rule old, use d inside in auto)
      moreover have "shape t3 (nright n) (Some a) r"
        using n(5) by (rule shape_frame) (rule old, use d inside in auto)
      moreover have "node_at t3 a = Some (if b then n\<lparr>nright := Some c\<rparr> else n\<lparr>nleft := Some c\<rparr>)"
        using n(1) a a1(3) [of a] by (simp add: radix_node_at_set [OF t3] radix_node_at_set [OF t2])
      ultimately show ?thesis
        using n ca nc unfolding lf(1) [symmetric] by (cases b) (simp_all add: leaf_def)
    qed
  qed (use old in auto)
qed

text \<open>Unlinking a leaf and putting it on the free list.\<close>

definition snip :: "bool \<Rightarrow> nat \<Rightarrow> u64 \<Rightarrow> rtree \<Rightarrow> rtree \<Rightarrow> rtree" where
  "snip b a v l r = (if b then Nd a v l Tip else Nd a v Tip r)"

lemma wf_detach:
  assumes wf: "radix_wf t tr" and sb: "sub tr bs = Nd a v l r"
    and tip: "(if b then r else l) = Nd c w Tip Tip"
    and t1: "set_node a (\<lambda>n. if b then n\<lparr>nright := None\<rparr> else n\<lparr>nleft := None\<rparr>) t = Some t1"
    and t2: "set_node c (\<lambda>n. n\<lparr>nright := free t1\<rparr>) t1 = Some t2"
  shows "radix_wf (t2\<lparr>free := Some c\<rparr>) (replace tr bs (snip b a v l r))"
proof -
  let ?t = "t2\<lparr>free := Some c\<rparr>"
  have sh: "shape t (root t) None tr" using wf by (simp add: radix_wf_def)
  have d: "distinct (addrs (Nd a v l r))" using wf sb distinct_sub [of tr bs] by (simp add: radix_wf_def)
  have inside: "set (addrs (Nd a v l r)) \<subseteq> set (addrs tr)" using sb addrs_sub [of tr bs] by simp
  have c: "c \<in> set (addrs (Nd a v l r))" "c \<noteq> a" using tip d by (cases b; auto)+
  obtain w' l' r' where lf: "snip b a v l r = Nd a w' l' r'" by (cases b) (auto simp: snip_def)
  have la: "set (addrs (snip b a v l r)) = set (addrs (Nd a v l r)) - {c}"
    using tip d by (cases b) (auto simp: snip_def)
  have old: "node_at ?t x = node_at t x" if "x \<noteq> a" "x \<noteq> c" for x
    using that by (simp add: radix_node_at_set [OF t2] radix_node_at_set [OF t1])
  have sp: "x = c \<or> spare t x" if "spare ?t x" for x
    using that
  proof induction
    case (first x)
    then show ?case by simp
  next
    case (further x n y)
    show ?case
    proof (cases "x = c")
      case True
      then have "nright n = free t" using further.hyps(2) c(2) set_node_fields [OF t1]
        by (auto simp: radix_node_at_set [OF t2] radix_node_at_set [OF t1])
      then show ?thesis using further.hyps(3) by (auto intro: spare.first)
    next
      case False
      then have "spare t x" using further.IH by simp
      then have "x \<noteq> a" using wf inside by (auto simp: radix_wf_def)
      then show ?thesis using False \<open>spare t x\<close> further.hyps old by (auto intro: spare.further)
    qed
  qed
  show ?thesis
    unfolding lf(1)
  proof (rule wf_replace [OF wf sb])
    show "root ?t = root t" using set_node_fields [OF t2] set_node_fields [OF t1] by simp
    show "free_ok ?t"
    proof -
      obtain xs where xs: "free_chain t (free t) xs" "distinct xs" using wf by (auto simp: radix_wf_def free_ok_def)
      have out: "x \<noteq> a \<and> x \<noteq> c" if "x \<in> set xs" for x
        using that spare_iff [OF xs(1)] wf inside c(1) by (auto simp: radix_wf_def)
      have "free_chain ?t (free t) xs" by (rule free_chain_frame [OF xs(1)], rule old) (use out in auto)
      moreover obtain n where "node_at ?t c = Some n" "nright n = free t"
        using t2 c(2) set_node_fields [OF t1] by (auto simp: radix_node_at_set [OF t2] set_node_def elim!: bind_SomeE)
      ultimately have "free_chain ?t (free ?t) (c # xs)" by simp
      moreover have "distinct (c # xs)" using xs(2) out by auto
      ultimately show ?thesis unfolding free_ok_def by blast
    qed
    show "distinct (addrs (Nd a w' l' r'))"
      using d unfolding lf(1) [symmetric] by (cases b) (auto simp: snip_def)
    show "set (addrs (Nd a w' l' r')) \<inter> set (addrs tr) \<subseteq> set (addrs (Nd a v l r))"
      using la unfolding lf(1) by auto
    show "node_at ?t x = node_at t x" if "x \<in> set (addrs tr) - set (addrs (Nd a v l r))" for x
      using that c by (intro old) auto
    show "\<not> spare ?t x" if "x \<in> set (addrs tr) - set (addrs (Nd a v l r)) \<or> x \<in> set (addrs (Nd a w' l' r'))" for x
    proof -
      have "x \<in> set (addrs tr)" "x \<noteq> c" using that la inside c unfolding lf(1) by auto
      then show ?thesis using sp [of x] wf by (auto simp: radix_wf_def)
    qed
    show "length bs + length cs \<le> 32" if "sub (Nd a w' l' r') cs \<noteq> Tip" for cs
    proof -
      have "sub (Nd a v l r) cs \<noteq> Tip"
        using that unfolding lf(1) [symmetric] by (cases cs; cases b) (auto simp: snip_def split: if_splits)
      then show ?thesis using wf_length [OF wf, of bs cs] sb by simp
    qed
    show "shape ?t (Some a) par (Nd a w' l' r')" if s: "shape t (Some a) par (Nd a v l r)" for par
      using s
    proof (rule shape_NdE)
      fix n assume n: "node_at t a = Some n" "nvalue n = v" "nparent n = par"
        "shape t (nleft n) (Some a) l" "shape t (nright n) (Some a) r"
      have na: "node_at ?t a = Some (if b then n\<lparr>nright := None\<rparr> else n\<lparr>nleft := None\<rparr>)"
        using n(1) c(2) by (simp add: radix_node_at_set [OF t2] radix_node_at_set [OF t1])
      show ?thesis
      proof (cases b)
        case True
        have "shape ?t (nleft n) (Some a) l"
          using n(4) by (rule shape_frame) (rule old, use d tip True in auto)
        then show ?thesis using True n na unfolding lf(1) [symmetric] by (simp add: snip_def)
      next
        case False
        have "shape ?t (nright n) (Some a) r"
          using n(5) by (rule shape_frame) (rule old, use d tip False in auto)
        then show ?thesis using False n na unfolding lf(1) [symmetric] by (simp add: snip_def)
      qed
    qed
  qed
qed

section \<open>Keys and masks as paths\<close>

text \<open>The loops hold a single bit; \<open>lvl k\<close> is the one they hold at depth \<open>k\<close>. A mask stands for the
  number of its leading ones, and with a key for the path \<open>trail key msk 0\<close>.\<close>

definition lvl :: "nat \<Rightarrow> u32" where
  "lvl k = drop_bit k 0x80000000"

definition kbit :: "u32 \<Rightarrow> nat \<Rightarrow> bool" where
  "kbit w k \<longleftrightarrow> k < 32 \<and> bit w (31 - k)"

function trail :: "u32 \<Rightarrow> u32 \<Rightarrow> nat \<Rightarrow> bool list" where
  "trail key msk k = (if kbit msk k then kbit key k # trail key msk (Suc k) else [])"
  by pat_completeness auto
termination
  by (relation "measure (\<lambda>(key, msk, k). 32 - k)") (auto simp: kbit_def)

declare trail.simps [simp del]

abbreviation path :: "u32 \<Rightarrow> u32 \<Rightarrow> bool list" where
  "path key msk \<equiv> trail key msk 0"

abbreviation key_bits :: "u32 \<Rightarrow> nat \<Rightarrow> bool list" where
  "key_bits key k \<equiv> map (kbit key) [k..<32]"

lemma lvl_0: "0x80000000 = lvl 0"
  by (simp add: lvl_def)

lemma lvl_Suc: "drop_bit (Suc 0) (lvl k) = lvl (Suc k)"
  by (simp add: lvl_def)

lemma bit_msb: "bit (0x80000000 :: u32) n \<longleftrightarrow> n = 31"
proof -
  have e: "(0x80000000 :: u32) = push_bit 31 1" by simp
  show ?thesis unfolding e bit_push_bit_iff bit_1_iff by auto
qed

lemma bit_lvl: "bit (lvl k) n \<longleftrightarrow> k + n = 31"
  by (simp only: lvl_def bit_drop_bit_eq comp_apply bit_msb)

lemma and_lvl: "w AND lvl k \<noteq> 0 \<longleftrightarrow> kbit w k"
proof
  assume "w AND lvl k \<noteq> 0"
  then obtain n where "bit (w AND lvl k) n" by (metis bit_0_eq bot_apply bot_bool_def bit_eq_iff)
  then have "bit w n" "k + n = 31" by (simp_all only: bit_and_iff bit_lvl)
  moreover have "31 - k = n" "k < 32" using \<open>k + n = 31\<close> by linarith+
  ultimately show "kbit w k" by (simp add: kbit_def)
next
  assume "kbit w k"
  then have "bit (w AND lvl k) (31 - k)" by (auto simp only: bit_and_iff bit_lvl kbit_def)
  then show "w AND lvl k \<noteq> 0" by (metis bit_0_eq bot_apply bot_bool_def)
qed

lemma lvl_and: "lvl k AND w \<noteq> 0 \<longleftrightarrow> kbit w k"
  using and_lvl by (simp add: and.commute)

lemma trail_length: "k \<le> 32 \<Longrightarrow> length (trail key msk k) + k \<le> 32"
proof (induction key msk k rule: trail.induct)
  case (1 key msk k)
  then show ?case by (subst trail.simps) (auto simp: kbit_def)
qed

section \<open>The loops\<close>

lemma insert_walk_ok:
  assumes "shape t (Some a) par (Nd a v l r)"
  shows "(\<exists>bt c w l' r'. insert_walk t key msk (lvl k) a (Some a) = Some (bt, c, Some c) \<and>
      sub (Nd a v l r) (trail key msk k) = Nd c w l' r') \<or>
    (\<exists>bs b cs c w l' r'. insert_walk t key msk (lvl k) a (Some a) = Some (lvl (k + length bs), c, None) \<and>
      trail key msk k = bs @ b # cs \<and> trail key msk (k + length bs) = b # cs \<and>
      sub (Nd a v l r) bs = Nd c w l' r' \<and> (if b then r' else l') = Tip)"
  using assms
proof (induction key msk k arbitrary: a par v l r rule: trail.induct)
  case (1 key msk k)
  from 1(2) obtain n where n: "node_at t a = Some n" "shape t (nleft n) (Some a) l" "shape t (nright n) (Some a) r"
    by (rule shape_NdE)
  note w = insert_walk.simps [of t key msk "lvl k" a]
  show ?case
  proof (cases "kbit msk k")
    case False
    then show ?thesis
      using trail.simps [of key msk k] by (auto simp: w lvl_and intro!: exI [of _ a])
  next
    case True
    let ?b = "kbit key k"
    let ?c = "if ?b then r else l"
    have tr: "trail key msk k = ?b # trail key msk (Suc k)" using True trail.simps by simp
    show ?thesis
    proof (cases ?c)
      case Tip
      then have "(if ?b then nright n else nleft n) = None" using n by (auto split: if_splits)
      then have "insert_walk t key msk (lvl k) a (Some a) = Some (lvl k, a, None)"
        using True n(1) by (simp add: w lvl_and and_lvl)
      then show ?thesis using tr Tip by (intro disjI2 exI [of _ "[]"]) auto
    next
      case (Nd a' v' l' r')
      have c: "shape t (if ?b then nright n else nleft n) (Some a) ?c" using n by simp
      then have p: "(if ?b then nright n else nleft n) = Some a'" using Nd by simp
      have sh: "shape t (Some a') (Some a) (Nd a' v' l' r')" using c unfolding p Nd .
      have "insert_walk t key msk (lvl k) a (Some a) = insert_walk t key msk (lvl (Suc k)) a' (Some a')"
        using True n(1) p by (simp add: w lvl_and and_lvl lvl_Suc)
      moreover have "sub (Nd a v l r) (?b # bs) = sub (Nd a' v' l' r') bs" for bs using Nd by simp
      ultimately show ?thesis
        using 1(1) [OF True sh] tr
        by (elim disjE) (metis, metis add_Suc_shift append_Cons length_Cons)
    qed
  qed
qed

lemma delete_walk_ok:
  "shape t p par tr \<Longrightarrow>
     delete_walk t key msk (lvl k) p = Some (case sub tr (trail key msk k) of Tip \<Rightarrow> None | Nd a v l r \<Rightarrow> Some a)"
proof (induction key msk k arbitrary: p par tr rule: trail.induct)
  case (1 key msk k)
  show ?case
  proof (cases tr)
    case Tip
    then show ?thesis using 1(2) by (simp add: delete_walk.simps)
  next
    case (Nd a v l r)
    then obtain n where n: "p = Some a" "node_at t a = Some n" "shape t (nleft n) (Some a) l" "shape t (nright n) (Some a) r"
      using 1(2) by (auto elim: shape_NdE simp del: shape.simps(2))
    show ?thesis
      using Nd n 1(1) [OF _ n(3)] 1(1) [OF _ n(4)]
      by (auto simp: delete_walk.simps [of t key msk "lvl k"] trail.simps [of key msk k] lvl_and and_lvl lvl_Suc)
  qed
qed

text \<open>The values after each kind of change.\<close>

lemma vals_Nd [simp]: "vals (Nd a v l r) [] = opt_value v" "vals (Nd a v l r) (b # bs) = vals (if b then r else l) bs"
  by (simp_all add: vals_def)

lemma vals_Tip [simp]: "vals Tip bs = None"
  by (simp add: vals_def)

lemma opt_value_none [simp]: "opt_value STL_RADIX_NO_VALUE = None"
  by (simp add: opt_value_def)

lemma vals_sub: "vals (sub tr bs) cs = vals tr (bs @ cs)"
  by (simp add: vals_def sub_append)

lemma vals_at: "sub tr bs = Nd a v l r \<Longrightarrow> vals tr bs = opt_value v"
  by (simp add: vals_def)

lemma vals_replace_same:
  assumes "sub tr bs = Nd a v l r" "\<And>cs. vals (Nd a w l' r') cs = vals (Nd a v l r) cs"
  shows "vals (replace tr bs (Nd a w l' r')) = vals tr"
proof
  fix cs
  show "vals (replace tr bs (Nd a w l' r')) cs = vals tr cs"
    unfolding vals_replace [OF assms(1)] assms(2)
    using assms(1) vals_sub [of tr bs] by (auto simp: prefix_def)
qed

lemma vals_set_value:
  assumes "sub tr bs = Nd a v l r"
  shows "vals (replace tr bs (Nd a w l r)) = (vals tr)(bs := opt_value w)"
proof
  fix cs
  show "vals (replace tr bs (Nd a w l r)) cs = ((vals tr)(bs := opt_value w)) cs"
  proof (cases "prefix bs cs")
    case True
    then obtain ds where ds: "cs = bs @ ds" by (auto simp: prefix_def)
    have "vals tr (bs @ ds) = vals (Nd a v l r) ds" using vals_sub [of tr bs ds] assms by simp
    then show ?thesis using ds by (cases ds) (auto simp: vals_replace [OF assms])
  qed (auto simp: vals_replace [OF assms])
qed

lemma vals_leaf:
  assumes "sub tr bs = Nd a v l r" "(if b then r else l) = Tip"
  shows "vals (replace tr bs (leaf b a v l r c)) = vals tr"
proof -
  have *: "vals (Nd c STL_RADIX_NO_VALUE Tip Tip) cs = None" for cs by (cases cs) auto
  have "vals (leaf b a v l r c) cs = vals (Nd a v l r) cs" for cs
    using assms(2) * by (cases cs; cases b) (auto simp: leaf_def)
  then show ?thesis
    using vals_replace_same [OF assms(1)] by (cases b) (auto simp: leaf_def)
qed

lemma vals_snip:
  assumes "sub tr bs = Nd a v l r" "(if b then r else l) = Nd c w Tip Tip"
  shows "vals (replace tr bs (snip b a v l r)) = (vals tr)(bs @ [b] := None)"
proof
  fix cs
  have leafv: "vals (Nd c w Tip Tip) ds = (if ds = [] then opt_value w else None)" for ds by (cases ds) auto
  have ct: "vals (snip b a v l r) ds = (if ds = [b] then None else vals (Nd a v l r) ds)" for ds
    using assms(2) leafv by (cases ds; cases b) (auto simp: snip_def)
  have "vals (replace tr bs (snip b a v l r)) cs =
      (if prefix bs cs then vals (snip b a v l r) (drop (length bs) cs) else vals tr cs)"
    using vals_replace [OF assms(1)] by (cases b) (auto simp: snip_def)
  then show "vals (replace tr bs (snip b a v l r)) cs = ((vals tr)(bs @ [b] := None)) cs"
    using vals_sub [of tr bs] assms(1) by (auto simp: prefix_def ct)
qed

text \<open>Growing the missing part of a path.\<close>

lemma insert_grow_ok:
  assumes "radix_allocator al" "radix_wf t tr" "sub tr bs = Nd a v l r" "length bs \<le> 32"
    "case trail key msk (length bs) of [] \<Rightarrow> opt_value v = None | b # cs \<Rightarrow> (if b then r else l) = Tip"
  shows "\<exists>ok c t' tr'. insert_grow al t key msk (lvl (length bs)) a = Some (ok, c, t') \<and>
    radix_wf t' tr' \<and> vals tr' = vals tr \<and>
    (ok \<longrightarrow> (\<exists>w l' r'. sub tr' (bs @ trail key msk (length bs)) = Nd c w l' r' \<and> opt_value w = None)) \<and>
    ((\<forall>t. fst (al t) \<noteq> None) \<longrightarrow> ok)"
  using assms(2-)
proof (induction key msk "length bs" arbitrary: bs t tr a v l r rule: trail.induct)
  case (1 key msk bs)
  note g = insert_grow.simps [of al t key msk "lvl (length bs)" a]
  note tl = trail.simps [of key msk "length bs"]
  show ?case
  proof (cases "kbit msk (length bs)")
    case False
    then have "trail key msk (length bs) = []" by (simp add: tl)
    moreover have "insert_grow al t key msk (lvl (length bs)) a = Some (True, a, t)"
      using False by (simp add: g lvl_and)
    moreover have "opt_value v = None" using 1(5) \<open>trail key msk (length bs) = []\<close> by simp
    ultimately show ?thesis using 1(2,3) by (metis append_Nil2)
  next
    case True
    let ?b = "kbit key (length bs)"
    have len: "length bs < 32" using True by (simp add: kbit_def)
    have tip: "(if ?b then r else l) = Tip" using 1(5) tl True by simp
    obtain p t1 where alt: "al t = (p, t1)" by (cases "al t")
    show ?thesis
    proof (cases p)
      case None
      then have "insert_grow al t key msk (lvl (length bs)) a = Some (False, a, t1)"
        using alt True by (simp add: g lvl_and)
      moreover have "radix_wf t1 tr" using allocator_wf [OF assms(1)] alt None 1(2) by blast
      moreover have "\<not> (\<forall>t. fst (al t) \<noteq> None)" using alt None by (metis fst_conv)
      ultimately show ?thesis by blast
    next
      case (Some c)
      let ?f = "\<lambda>n. n\<lparr>nright := None, nleft := None, nparent := Some a, nvalue := STL_RADIX_NO_VALUE\<rparr>"
      let ?g = "\<lambda>n. if ?b then n\<lparr>nright := Some c\<rparr> else n\<lparr>nleft := Some c\<rparr>"
      note D = allocatorD [OF assms(1) 1(2) alt]
      have nc: "node_at t1 c \<noteq> None" using D(5) Some .
      then obtain t2 where t2: "set_node c ?f t1 = Some t2" using set_node_ok by blast
      have sh: "shape t (root t) None tr" using 1(2) by (simp add: radix_wf_def)
      have na: "node_at t a \<noteq> None" using shape_alloc [OF sh] addrs_mem_sub [OF 1(3)] by simp
      have "node_at t1 a \<noteq> None"
      proof (cases "a = c")
        case False
        then have "p \<noteq> Some a" using Some by auto
        then have "node_at t1 a = node_at t a" using D(4) na by blast
        then show ?thesis using na by simp
      qed (use nc in simp)
      then have "node_at t2 a \<noteq> None" by (auto simp: radix_node_at_set [OF t2])
      then obtain t3 where t3: "set_node a ?g t2 = Some t3" using set_node_ok by blast
      let ?tr = "replace tr bs (leaf ?b a v l r c)"
      have wf: "radix_wf t3 ?tr"
        using wf_attach [OF assms(1) _ 1(2,3) tip len t2 t3] alt Some by simp
      have sb: "sub ?tr (bs @ [?b]) = Nd c STL_RADIX_NO_VALUE Tip Tip"
        using sub_replace [of tr bs "leaf ?b a v l r c" "[?b]"] 1(3) by (simp add: leaf_def Let_def)
      have tip': "case trail key msk (length (bs @ [?b])) of [] \<Rightarrow> opt_value STL_RADIX_NO_VALUE = None
          | b # cs \<Rightarrow> (if b then Tip else Tip) = Tip" by (simp split: list.split)
      have "insert_grow al t key msk (lvl (length bs)) a = insert_grow al t3 key msk (lvl (length (bs @ [?b]))) c"
        using True alt Some t2 t3 by (simp add: g lvl_and and_lvl lvl_Suc)
      moreover have "bs @ trail key msk (length bs) = (bs @ [?b]) @ trail key msk (length (bs @ [?b]))"
        using tl True by simp
      moreover have "vals ?tr = vals tr" using vals_leaf [OF 1(3) tip] .
      ultimately show ?thesis
        using 1(1) [OF True _ wf sb _ tip'] len by simp
    qed
  qed
qed

lemma insert_ok:
  assumes al: "radix_allocator al" and rp: "radix_repr t m"
  shows "\<exists>r t'. stl_radix32tree_insert al t key msk w = Some (r, t') \<and>
    (if m (path key msk) \<noteq> None then r = -3 \<and> t' = t
     else (r = 0 \<and> radix_repr t' (m(path key msk := opt_value w))) \<or>
       (r = -1 \<and> radix_repr t' m \<and> (\<exists>t. fst (al t) = None)))"
proof -
  obtain tr where wf: "radix_wf t tr" and m: "vals tr = m" using rp by (auto simp: radix_repr_def)
  have sh: "shape t (root t) None tr" using wf by (simp add: radix_wf_def)
  obtain a v l r where tr: "tr = Nd a v l r" using wf by (cases tr) (auto simp: radix_wf_def)
  then have rt: "root t = Some a" using sh by simp
  then have sh': "shape t (Some a) None (Nd a v l r)" using sh tr by simp
  note ins = stl_radix32tree_insert_def rt lvl_0
  from insert_walk_ok [OF sh', of key msk 0] show ?thesis
  proof (elim disjE exE conjE)
    fix bt c x l' r'
    assume wk: "insert_walk t key msk (lvl 0) a (Some a) = Some (bt, c, Some c)"
      and sb: "sub (Nd a v l r) (path key msk) = Nd c x l' r'"
    have sb: "sub tr (path key msk) = Nd c x l' r'" using sb tr by simp
    obtain n where n: "node_at t c = Some n" "nvalue n = x" using shape_sub [OF sh sb] by blast
    then obtain t' where t': "set_node c (\<lambda>n. n\<lparr>nvalue := w\<rparr>) t = Some t'"
      using set_node_ok [of t c] by blast
    have "m (path key msk) = opt_value x" using vals_at [OF sb] m by simp
    moreover have "radix_repr t' (m(path key msk := opt_value w))"
      using wf_set_value [OF wf sb t'] vals_set_value [OF sb, of w] m by (auto simp: radix_repr_def)
    ultimately show ?thesis using wk n t' by (auto simp: ins opt_value_def)
  next
    fix bs b cs c x l' r'
    assume wk: "insert_walk t key msk (lvl 0) a (Some a) = Some (lvl (0 + length bs), c, None)"
      and pt: "path key msk = bs @ b # cs" and tl: "trail key msk (0 + length bs) = b # cs"
      and sb: "sub (Nd a v l r) bs = Nd c x l' r'" and tip: "(if b then r' else l') = Tip"
    have sb: "sub tr bs = Nd c x l' r'" using sb tr by simp
    have len: "length bs \<le> 32" using trail_length [of 0 key msk] pt by simp
    have none: "m (path key msk) = None"
      using m vals_sub [of tr bs "b # cs"] sb tip pt by simp
    have "\<exists>ok d t1 tr1. insert_grow al t key msk (lvl (length bs)) c = Some (ok, d, t1) \<and>
        radix_wf t1 tr1 \<and> vals tr1 = vals tr \<and>
        (ok \<longrightarrow> (\<exists>w l' r'. sub tr1 (bs @ trail key msk (length bs)) = Nd d w l' r' \<and> opt_value w = None)) \<and>
        ((\<forall>t. fst (al t) \<noteq> None) \<longrightarrow> ok)"
      by (rule insert_grow_ok [OF al wf sb len]) (use tl tip in simp)
    moreover have "bs @ trail key msk (length bs) = path key msk" using tl pt by simp
    ultimately obtain ok d t1 tr1 where
      g: "insert_grow al t key msk (lvl (length bs)) c = Some (ok, d, t1)" "radix_wf t1 tr1" "vals tr1 = m"
        "ok \<longrightarrow> (\<exists>w l' r'. sub tr1 (path key msk) = Nd d w l' r' \<and> opt_value w = None)"
        "(\<forall>t. fst (al t) \<noteq> None) \<longrightarrow> ok"
      using m by metis
    show ?thesis
    proof (cases ok)
      case False
      then show ?thesis using wk g none by (auto simp: ins radix_repr_def)
    next
      case True
      then obtain y ld rd where sd: "sub tr1 (path key msk) = Nd d y ld rd" using g(4) by blast
      have sh1: "shape t1 (root t1) None tr1" using g(2) by (simp add: radix_wf_def)
      then have "node_at t1 d \<noteq> None" using shape_sub [OF sh1 sd] by auto
      then obtain t2 where t2: "set_node d (\<lambda>n. n\<lparr>nvalue := w\<rparr>) t1 = Some t2" using set_node_ok by blast
      have "radix_repr t2 (m(path key msk := opt_value w))"
        using wf_set_value [OF g(2) sd t2] vals_set_value [OF sd, of w] g(3) by (auto simp: radix_repr_def)
      then show ?thesis using wk g(1) True t2 none by (simp add: ins)
    qed
  qed
qed

text \<open>The lookup: the value of the longest prefix of the key that has one.\<close>

fun longest :: "(bool list \<Rightarrow> u64 option) \<Rightarrow> bool list \<Rightarrow> u64 option" where
  "longest m [] = m []"
| "longest m (b # bs) = (case longest (\<lambda>cs. m (b # cs)) bs of None \<Rightarrow> m [] | Some v \<Rightarrow> Some v)"

lemma longest_none: "longest (\<lambda>_. None) bs = None"
  by (induction bs) auto

lemma longest_NoneD: "longest m bs = None \<Longrightarrow> n \<le> length bs \<Longrightarrow> m (take n bs) = None"
proof (induction bs arbitrary: m n)
  case (Cons b bs)
  then show ?case by (cases n) (auto split: option.splits)
qed simp

lemma longest_SomeD:
  "longest m bs = Some v \<Longrightarrow>
     \<exists>n\<le>length bs. m (take n bs) = Some v \<and> (\<forall>j\<le>length bs. n < j \<longrightarrow> m (take j bs) = None)"
proof (induction bs arbitrary: m)
  case (Cons b bs)
  let ?m = "\<lambda>cs. m (b # cs)"
  show ?case
  proof (cases "longest ?m bs")
    case None
    have "m (take j (b # bs)) = None" if "j \<le> length (b # bs)" "0 < j" for j
      using that longest_NoneD [OF None, of "j - 1"] by (cases j) auto
    then show ?thesis using Cons.prems None by (intro exI [of _ 0]) auto
  next
    case (Some w)
    then obtain k where k: "k \<le> length bs" "?m (take k bs) = Some v" "\<forall>j\<le>length bs. k < j \<longrightarrow> ?m (take j bs) = None"
      using Cons by force
    have "m (take j (b # bs)) = None" if "j \<le> length (b # bs)" "Suc k < j" for j
      using that k(3) by (cases j) auto
    then show ?thesis using k by (intro exI [of _ "Suc k"]) auto
  qed
qed simp

lemma find_loop_ok:
  assumes "shape t p par tr" "\<And>bs. sub tr bs \<noteq> Tip \<Longrightarrow> length bs + k \<le> 32"
  shows "find_loop t key (lvl k) val p =
    Some (case longest (vals tr) (key_bits key k) of None \<Rightarrow> val | Some v \<Rightarrow> v)"
  using assms
proof (induction tr arbitrary: k p par val)
  case Tip
  have "vals Tip = (\<lambda>_. None)" by (rule ext) simp
  then show ?case using Tip by (simp add: find_loop.simps longest_none)
next
  case (Nd a v l r)
  from Nd.prems(1) obtain n where n: "p = Some a" "node_at t a = Some n" "nvalue n = v"
    "shape t (nleft n) (Some a) l" "shape t (nright n) (Some a) r" by (rule shape_NdE)
  let ?val = "if v \<noteq> STL_RADIX_NO_VALUE then v else val"
  have step: "find_loop t key (lvl k) val p =
      find_loop t key (lvl (Suc k)) ?val (if kbit key k then nright n else nleft n)"
    using n by (subst find_loop.simps) (simp add: and_lvl lvl_Suc)
  have d: "length bs + Suc k \<le> 32" if "sub (if kbit key k then r else l) bs \<noteq> Tip" for bs
    using Nd.prems(2) [of "kbit key k # bs"] that by simp
  have rec: "find_loop t key (lvl (Suc k)) ?val (if kbit key k then nright n else nleft n) =
      Some (case longest (vals (if kbit key k then r else l)) (key_bits key (Suc k)) of None \<Rightarrow> ?val | Some v \<Rightarrow> v)"
    using Nd.IH(1) [OF n(4), of "Suc k" ?val] Nd.IH(2) [OF n(5), of "Suc k" ?val] d by simp
  have "k \<le> 32" using Nd.prems(2) [of "[]"] by simp
  then consider "k = 32" | "k < 32" by linarith
  then show ?case
  proof cases
    case 1
    have "(if kbit key k then r else l) = Tip" by (rule ccontr) (use d [of "[]"] 1 in simp)
    then have "vals (if kbit key k then r else l) = (\<lambda>_. None)" by (auto simp: fun_eq_iff)
    then show ?thesis using 1 step rec by (simp add: longest_none opt_value_def)
  next
    case 2
    then have "key_bits key k = kbit key k # key_bits key (Suc k)" by (simp add: upt_conv_Cons)
    then show ?thesis using step rec by (auto simp: opt_value_def split: option.split)
  qed
qed

text \<open>Pruning.\<close>

lemma sub_snoc:
  assumes "sub tr (bs @ [b]) = Nd c w lc rc"
  obtains a v l r where "sub tr bs = Nd a v l r" "(if b then r else l) = Nd c w lc rc"
  using assms by (cases "sub tr bs") (auto simp: sub_append)

lemma child_parent:
  assumes "shape t p par tr" "sub tr bs = Nd a v l r" "(if b then r else l) = Nd c w lc rc"
  obtains pn n where "node_at t a = Some pn" "nvalue pn = v" "(if b then nright pn else nleft pn) = Some c"
    "node_at t c = Some n" "nparent n = Some a"
    "shape t (nleft pn) (Some a) l" "shape t (nright pn) (Some a) r"
proof -
  obtain pn where pn: "node_at t a = Some pn" "nvalue pn = v" "shape t (nleft pn) (Some a) l" "shape t (nright pn) (Some a) r"
    using assms(1,2) by (rule shape_sub)
  then have "shape t (if b then nright pn else nleft pn) (Some a) (Nd c w lc rc)" using assms(3) by (cases b) auto
  then show ?thesis by (rule shape_NdE) (use pn that in auto)
qed

lemma parent_iff:
  assumes "radix_wf t tr" "sub tr bs = Nd a v l r" "node_at t a = Some n"
  shows "nparent n = None \<longleftrightarrow> bs = []"
proof -
  have sh: "shape t (root t) None tr" using assms(1) by (simp add: radix_wf_def)
  show ?thesis
  proof (cases bs rule: rev_cases)
    case Nil
    then show ?thesis using sh assms(2,3) by simp
  next
    case (snoc ds d)
    then obtain a' v' l' r' where "sub tr ds = Nd a' v' l' r'" "(if d then r' else l') = Nd a v l r"
      using assms(2) by (auto elim: sub_snoc)
    then show ?thesis using snoc assms(3) by (auto elim!: child_parent [OF sh])
  qed
qed

lemma delete_prune_step:
  assumes wf: "radix_wf t tr" and sb: "sub tr bs = Nd a v l r" and ch: "(if b then r else l) = Nd c w Tip Tip"
  shows "\<exists>t'. radix_wf t' (replace tr bs (snip b a v l r)) \<and> delete_prune t c =
    (if snip b a v l r \<noteq> Nd a v Tip Tip \<or> v \<noteq> STL_RADIX_NO_VALUE \<or> bs = [] then Some t' else delete_prune t' a)"
proof -
  have sh: "shape t (root t) None tr" and d: "distinct (addrs (Nd a v l r))"
    using wf sb distinct_sub [of tr bs] by (simp_all add: radix_wf_def)
  obtain pn n where pn: "node_at t a = Some pn" "nvalue pn = v" "(if b then nright pn else nleft pn) = Some c"
    "node_at t c = Some n" "nparent n = Some a" "shape t (nleft pn) (Some a) l" "shape t (nright pn) (Some a) r"
    using child_parent [OF sh sb ch] by metis
  have right: "nright pn = Some c \<longleftrightarrow> b"
    using pn(3,7) d ch by (cases r; cases b) auto
  let ?f = "\<lambda>n. if b then n\<lparr>nright := None\<rparr> else n\<lparr>nleft := None\<rparr>"
  obtain t1 where t1: "set_node a ?f t = Some t1" using set_node_ok [of t a ?f] pn(1) by auto
  have ca: "c \<noteq> a" using ch d by (cases b) auto
  then have "node_at t1 c \<noteq> None" using pn(4) by (simp add: radix_node_at_set [OF t1])
  then obtain t2 where t2: "set_node c (\<lambda>n. n\<lparr>nright := free t1\<rparr>) t1 = Some t2" using set_node_ok by blast
  let ?t = "t2\<lparr>free := Some c\<rparr>"
  have wf': "radix_wf ?t (replace tr bs (snip b a v l r))" by (rule wf_detach [OF wf sb ch t1 t2])
  have pn': "node_at ?t a = Some (?f pn)"
    using radix_node_at_set [OF t2, of a] radix_node_at_set [OF t1, of a] pn(1) ca by simp
  have leafq: "(nright (?f pn) \<noteq> None \<or> nleft (?f pn) \<noteq> None) \<longleftrightarrow> snip b a v l r \<noteq> Nd a v Tip Tip"
    using pn(6,7) by (cases b; cases l; cases r) (auto simp: snip_def)
  have par: "nparent (?f pn) = None \<longleftrightarrow> bs = []" using parent_iff [OF wf sb pn(1)] by simp
  have "delete_prune t c = (if nright (?f pn) \<noteq> None \<or> nleft (?f pn) \<noteq> None then Some ?t
      else if nvalue (?f pn) \<noteq> STL_RADIX_NO_VALUE then Some ?t
      else if nparent (?f pn) = None then Some ?t else delete_prune ?t a)"
  proof -
    have "(if nright pn = Some c then set_node a (\<lambda>n. n\<lparr>nright := None\<rparr>) t
        else set_node a (\<lambda>n. n\<lparr>nleft := None\<rparr>) t) = Some t1"
      using t1 right by (cases b) simp_all
    then show ?thesis
      by (subst delete_prune.simps)
        (simp only: pn(1,4,5) t2 pn' Option.bind.bind_lunit Let_def)
  qed
  then show ?thesis using wf' leafq par pn(2) by (intro exI [of _ ?t]) auto
qed

lemma delete_prune_ok:
  assumes "radix_wf t tr" "sub tr (bs @ [b]) = Nd c w Tip Tip"
  shows "\<exists>t' tr'. delete_prune t c = Some t' \<and> radix_wf t' tr' \<and> vals tr' = (vals tr)(bs @ [b] := None)"
  using assms
proof (induction bs arbitrary: t tr b c w rule: rev_induct)
  case Nil
  obtain a v l r where s: "sub tr [] = Nd a v l r" "(if b then r else l) = Nd c w Tip Tip"
    using Nil.prems(2) by (rule sub_snoc)
  then show ?case using delete_prune_step [OF Nil.prems(1) s] vals_snip [OF s] by (metis append_Nil)
next
  case (snoc d bs)
  obtain a v l r where s: "sub tr (bs @ [d]) = Nd a v l r" "(if b then r else l) = Nd c w Tip Tip"
    using snoc.prems(2) by (rule sub_snoc)
  let ?tr = "replace tr (bs @ [d]) (snip b a v l r)"
  obtain t1 where t1: "radix_wf t1 ?tr" "delete_prune t c =
      (if snip b a v l r \<noteq> Nd a v Tip Tip \<or> v \<noteq> STL_RADIX_NO_VALUE then Some t1 else delete_prune t1 a)"
    using delete_prune_step [OF snoc.prems(1) s] by auto
  show ?case
  proof (cases "snip b a v l r \<noteq> Nd a v Tip Tip \<or> v \<noteq> STL_RADIX_NO_VALUE")
    case True
    then have "delete_prune t c = Some t1" using t1(2) by simp
    then show ?thesis using t1(1) vals_snip [OF s] by blast
  next
    case False
    have sb: "sub ?tr (bs @ [d]) = Nd a v Tip Tip"
      using sub_replace [of tr "bs @ [d]" "snip b a v l r" "[]"] s(1) False by auto
    then obtain t' tr' where r: "delete_prune t1 a = Some t'" "radix_wf t' tr'" "vals tr' = (vals ?tr)(bs @ [d] := None)"
      using snoc.IH [OF t1(1)] by blast
    have "vals ?tr (bs @ [d]) = None" using vals_at [OF sb] False by simp
    then have "vals tr' = vals ?tr" using r(3) by auto
    moreover have "delete_prune t c = Some t'" using t1(2) False r(1) by auto
    ultimately show ?thesis using r(2) vals_snip [OF s] by metis
  qed
qed

lemma delete_ok:
  assumes rp: "radix_repr t m" and ne: "path key msk \<noteq> []"
  shows "\<exists>r t'. stl_radix32tree_delete t key msk = Some (r, t') \<and>
    radix_repr t' (m(path key msk := None)) \<and> r \<in> {0, -1} \<and> (m (path key msk) \<noteq> None \<longrightarrow> r = 0)"
proof -
  obtain tr where wf: "radix_wf t tr" and m: "vals tr = m" using rp by (auto simp: radix_repr_def)
  have sh: "shape t (root t) None tr" using wf by (simp add: radix_wf_def)
  note w = delete_walk_ok [OF sh, of key msk 0]
  note del = stl_radix32tree_delete_def lvl_0
  show ?thesis
  proof (cases "sub tr (path key msk)")
    case Tip
    then have "m (path key msk) = None" using m by (auto simp: vals_def)
    then have "m(path key msk := None) = m" by auto
    then show ?thesis using w Tip rp \<open>m (path key msk) = None\<close> by (simp add: del)
  next
    case (Nd a v l r)
    obtain n where n: "node_at t a = Some n" "nvalue n = v" "shape t (nleft n) (Some a) l" "shape t (nright n) (Some a) r"
      using shape_sub [OF sh Nd] by blast
    have mv: "m (path key msk) = opt_value v" using vals_at [OF Nd] m by simp
    have leafq: "(nright n \<noteq> None \<or> nleft n \<noteq> None) \<longleftrightarrow> \<not> (l = Tip \<and> r = Tip)"
      using n(3,4) by (cases l; cases r) auto
    show ?thesis
    proof (cases "l = Tip \<and> r = Tip")
      case True
      obtain bs b where bs: "path key msk = bs @ [b]" using ne by (cases "path key msk" rule: rev_cases) auto
      obtain t' tr' where t': "delete_prune t a = Some t'" "radix_wf t' tr'" "vals tr' = (vals tr)(path key msk := None)"
        using delete_prune_ok [OF wf, of bs b a v] Nd True bs by auto
      then have "radix_repr t' (m(path key msk := None))" using m by (auto simp: radix_repr_def)
      then show ?thesis using w Nd n(1) leafq True t'(1) by (simp add: del)
    next
      case False
      obtain t' where t': "set_node a (\<lambda>n. n\<lparr>nvalue := STL_RADIX_NO_VALUE\<rparr>) t = Some t'"
        using set_node_ok [of t a] n(1) by blast
      have "radix_repr t' (m(path key msk := None))"
        using wf_set_value [OF wf Nd t'] vals_set_value [OF Nd, of STL_RADIX_NO_VALUE] m by (auto simp: radix_repr_def)
      moreover have "v = STL_RADIX_NO_VALUE \<Longrightarrow> m(path key msk := None) = m" using mv by auto
      ultimately show ?thesis
        using w Nd n leafq False t' rp mv by (auto simp: del opt_value_def)
    qed
  qed
qed

section \<open>Creating a tree\<close>

text \<open>The keys of one level: a multiple of the increment, until the sum wraps around to zero.\<close>

lemma prealloc_keys_ok:
  assumes al: "radix_allocator al" "\<And>t. fst (al t) \<noteq> None" and "radix_repr t Map.empty"
    and inc: "inc = 0 \<and> key = 0 \<or> unat inc dvd 2 ^ 32 \<and> unat inc dvd unat key"
  shows "\<exists>t'. prealloc_keys al t key msk inc = Some (Some t') \<and> radix_repr t' Map.empty"
  using assms(3) inc
proof (induction "2 ^ 32 - unat key" arbitrary: t key rule: less_induct)
  case less
  have "\<exists>t1. stl_radix32tree_insert al t key msk STL_RADIX_NO_VALUE = Some (0, t1) \<and> radix_repr t1 Map.empty"
    using insert_ok [OF al(1) less.prems(1), of key msk STL_RADIX_NO_VALUE] al(2) by auto
  then obtain t1 where t1: "stl_radix32tree_insert al t key msk STL_RADIX_NO_VALUE = Some (0, t1)"
    "radix_repr t1 Map.empty" by blast
  have step: "prealloc_keys al t key msk inc =
      (if key + inc \<noteq> 0 then prealloc_keys al t1 (key + inc) msk inc else Some (Some t1))"
    by (subst prealloc_keys.simps) (simp add: t1(1))
  show ?case
  proof (cases "key + inc = 0")
    case True
    then show ?thesis using step t1 by simp
  next
    case False
    then have i: "inc \<noteq> 0" "unat inc dvd 2 ^ 32" "unat inc dvd unat key" using less.prems(2) by auto
    have le: "unat key + unat inc \<le> 2 ^ 32"
    proof -
      have "unat inc dvd 2 ^ 32 - unat key" using i(2,3) by simp
      moreover have "unat key < 2 ^ 32" using unsigned_less [of key] by simp
      ultimately have "unat inc \<le> 2 ^ 32 - unat key" by (simp add: dvd_imp_le)
      then show ?thesis using \<open>unat key < 2 ^ 32\<close> by linarith
    qed
    have "unat key + unat inc \<noteq> 2 ^ 32"
    proof
      assume "unat key + unat inc = 2 ^ 32"
      then have "unat (key + inc) = 0" by (simp add: unat_word_ariths)
      then show False using False by (simp add: unat_eq_0)
    qed
    with le have u: "unat (key + inc) = unat key + unat inc" by (simp add: unat_word_ariths)
    have "0 < unat inc" using i(1) by (simp add: unat_gt_0)
    then have "2 ^ 32 - unat (key + inc) < 2 ^ 32 - unat key"
      using u le by simp
    then show ?thesis using less.hyps [of "key + inc" t1] t1(2) i step False u by simp
  qed
qed

lemma prealloc_levels_ok:
  assumes al: "radix_allocator al" "\<And>t. fst (al t) \<noteq> None" and "radix_repr t Map.empty" and "k + n \<le> 32"
  shows "\<exists>t'. prealloc_levels al t (int n) msk (lvl k) = Some (Some t') \<and> radix_repr t' Map.empty"
  using assms(3,4)
proof (induction n arbitrary: t k msk)
  case 0
  then show ?case by (simp add: prealloc_levels.simps)
next
  case (Suc n)
  have "unat (lvl k) = 2 ^ 31 div 2 ^ k" 
    by (simp only: lvl_def unat_drop_bit_eq) (simp add: drop_bit_eq_div)
  also have "\<dots> = 2 ^ (31 - k)" by (rule power_diff [symmetric]) (use Suc.prems(2) in simp_all)
  finally have "unat (lvl k) = 2 ^ (31 - k)" .
  then have "unat (lvl k) dvd 2 ^ 32" using le_imp_power_dvd [of "31 - k" 32 "2 :: nat"] by simp
  then obtain t1 where "prealloc_keys al t 0 (drop_bit 1 msk OR 0x80000000) (lvl k) = Some (Some t1)"
    "radix_repr t1 Map.empty"
    using prealloc_keys_ok [OF al Suc.prems(1), of "lvl k" 0] by auto
  then show ?case
    using Suc.IH [of t1 "Suc k"] Suc.prems(2)
    by (subst prealloc_levels.simps) (simp add: lvl_Suc Let_def)
qed

text \<open>A tree of one node without a value.\<close>

lemma single_repr:
  assumes "shape t (Some a) None (Nd a STL_RADIX_NO_VALUE Tip Tip)" "root t = Some a" "\<not> spare t a" "free_ok t"
  shows "radix_repr t Map.empty"
proof -
  let ?tr = "Nd a STL_RADIX_NO_VALUE Tip Tip"
  have "vals ?tr bs = None" for bs by (cases bs) auto
  then have "vals ?tr = Map.empty" by auto
  moreover have "sub ?tr bs \<noteq> Tip \<Longrightarrow> length bs \<le> 32" for bs by (cases bs) (auto split: if_splits)
  ultimately show ?thesis
    using assms by (auto simp: radix_repr_def radix_wf_def intro!: exI [of _ ?tr] simp del: shape.simps)
qed

section \<open>Properties\<close>

text \<open>An allocator that takes a node from the free list, or else a new one. It shows that the
  hypotheses on \<open>stl_radix_alloc\<close> can be met.\<close>

definition sample_alloc :: allocator where
  "sample_alloc t = (case Option.bind (free t) (node_at t) of
     Some n \<Rightarrow> (free t, t\<lparr>free := nright n\<rparr>)
   | None \<Rightarrow> (Some (length (nodes t)),
       t\<lparr>nodes := nodes t @ [Some \<lparr>nright = None, nleft = None, nparent = None, nvalue = 0\<rparr>]\<rparr>))"

lemma sample_alloc_total: "fst (sample_alloc t) \<noteq> None"
  by (cases "free t") (auto simp: sample_alloc_def split: option.splits)

lemma no_spare: "free t = None \<Longrightarrow> \<not> spare t b"
proof
  assume "spare t b" "free t = None"
  then show False by (induction rule: spare.induct) auto
qed

lemma sample_allocator: "radix_allocator sample_alloc"
  unfolding radix_allocator_def
proof (intro allI impI)
  fix t p t' assume ok: "free_ok t" and al: "sample_alloc t = (p, t')"
  obtain xs where xs: "free_chain t (free t) xs" "distinct xs" using ok by (auto simp: free_ok_def)
  show "root t' = root t \<and> free_ok t' \<and> (\<forall>b. spare t' b \<longrightarrow> spare t b) \<and>
    (\<forall>b. p \<noteq> Some b \<and> node_at t b \<noteq> None \<longrightarrow> node_at t' b = node_at t b) \<and>
    (\<forall>a. p = Some a \<longrightarrow> node_at t' a \<noteq> None \<and> (node_at t a = None \<or> spare t a) \<and> \<not> spare t' a)"
  proof (cases xs)
    case Nil
    then have f: "free t = None" using xs by simp
    then have t': "t' = t\<lparr>nodes := nodes t @ [Some \<lparr>nright = None, nleft = None, nparent = None, nvalue = 0\<rparr>]\<rparr>"
      "p = Some (length (nodes t))" using al by (auto simp: sample_alloc_def)
    have "free t' = None" using f t' by simp
    moreover have "free_ok t'" using \<open>free t' = None\<close> by (auto simp: free_ok_def intro!: exI [of _ "[]"])
    ultimately show ?thesis
      using t' no_spare [of t'] by (auto simp: node_at_def nth_append)
  next
    case (Cons a ys)
    then obtain n where n: "free t = Some a" "node_at t a = Some n" "free_chain t (nright n) ys"
      using xs(1) by (auto split: option.splits)
    then have t': "t' = t\<lparr>free := nright n\<rparr>" "p = Some a" using al by (auto simp: sample_alloc_def)
    have ch: "free_chain t' (free t') ys" using free_chain_frame [OF n(3), of t'] t'(1) by simp
    then have "free_ok t'" using xs(2) Cons by (auto simp: free_ok_def)
    then show ?thesis
      using t' n spare_iff [OF ch] spare_iff [OF xs(1)] Cons xs(2) by auto
  qed
qed

text \<open>A tree with the prefixes \<open>10\<close>, with value 7, and \<open>101\<close>, with value 9.\<close>

definition sample_tree :: stl_radix_tree where
  "sample_tree = \<lparr>root = Some 0, free = None, start = None, nfree = 0, nodes =
     [Some \<lparr>nright = Some 1, nleft = None, nparent = None, nvalue = -1\<rparr>,
      Some \<lparr>nright = None, nleft = Some 2, nparent = Some 0, nvalue = -1\<rparr>,
      Some \<lparr>nright = Some 3, nleft = None, nparent = Some 1, nvalue = 7\<rparr>,
      Some \<lparr>nright = None, nleft = None, nparent = Some 2, nvalue = 9\<rparr>]\<rparr>"

definition sample_shape :: rtree where
  "sample_shape = Nd 0 (-1) Tip (Nd 1 (-1) (Nd 2 7 Tip (Nd 3 9 Tip Tip)) Tip)"

lemma sample_repr: "radix_repr sample_tree (vals sample_shape)"
proof -
  have "length bs \<le> 3" if "sub sample_shape bs \<noteq> Tip" for bs
    using that unfolding sample_shape_def
    by (cases bs; cases "tl bs"; cases "tl (tl bs)"; cases "tl (tl (tl bs))") (auto split: if_splits)
  then have "length bs \<le> 32" if "sub sample_shape bs \<noteq> Tip" for bs using that by fastforce
  moreover have "free_ok sample_tree" by (auto simp: free_ok_def sample_tree_def intro!: exI [of _ "[]"])
  moreover have "\<not> spare sample_tree a" for a by (rule no_spare) (simp add: sample_tree_def)
  moreover have "shape sample_tree (root sample_tree) None sample_shape"
    by (simp add: sample_tree_def sample_shape_def node_at_def)
  ultimately have "radix_wf sample_tree sample_shape"
    by (simp add: radix_wf_def) (simp add: sample_shape_def)
  then show ?thesis by (auto simp: radix_repr_def)
qed

lemma sample_path: "path 0xA0000000 0xE0000000 = [True, False, True]"
  by code_simp

lemma sample_values:
  "vals sample_shape [True, False, True] = Some 9" "vals sample_shape [True, False] = Some 7"
  by (simp_all add: sample_shape_def opt_value_def STL_RADIX_NO_VALUE_def)

text \<open>C21: Insertion into a radix tree. On the map the tree stands for, a free prefix takes the value
  (or, when the allocator has no memory, the map stays and the result is -1), and a prefix in use is
  refused with -3 and nothing changes.\<close>

theorem radix_insert_updates_map:
  assumes "radix_allocator al" "radix_repr t m"
  shows "\<exists>r t'. stl_radix32tree_insert al t key msk w = Some (r, t') \<and>
    (if m (path key msk) \<noteq> None then r = -3 \<and> t' = t
     else (r = 0 \<and> radix_repr t' (m(path key msk := opt_value w))) \<or>
       (r = -1 \<and> radix_repr t' m \<and> (\<exists>t. fst (al t) = None)))"
  using assms by (rule insert_ok)

theorem radix_insert_updates_map_witness:
  "radix_allocator sample_alloc \<and>
   stl_radix32tree_insert sample_alloc sample_tree 0xA0000000 0xE0000000 5 = Some (-3, sample_tree)"
  using radix_insert_updates_map [OF sample_allocator sample_repr, of "0xA0000000" "0xE0000000" 5]
    sample_allocator sample_path sample_values by auto

text \<open>C22: Deletion from a radix tree of any prefix but the empty one returns, removes the prefix from
  the map and nothing else, and reports success when the prefix was there. It prunes the nodes that
  became useless without harm to the others.\<close>

theorem radix_delete_removes_prefix:
  assumes "radix_repr t m" "path key msk \<noteq> []"
  shows "\<exists>r t'. stl_radix32tree_delete t key msk = Some (r, t') \<and>
    radix_repr t' (m(path key msk := None)) \<and> r \<in> {0, -1} \<and> (m (path key msk) \<noteq> None \<longrightarrow> r = 0)"
  using assms by (rule delete_ok)

theorem radix_delete_removes_prefix_witness:
  "\<exists>t'. stl_radix32tree_delete sample_tree 0xA0000000 0xE0000000 = Some (0, t') \<and>
     radix_repr t' ((vals sample_shape)([True, False, True] := None))"
  using radix_delete_removes_prefix [OF sample_repr, of "0xA0000000" "0xE0000000"]
    sample_path sample_values by auto

text \<open>C23: A lookup in a radix tree is a longest prefix match: the value of the longest prefix of the
  key that is in the map, or the no-value mark when there is none.\<close>

theorem radix_find_longest_prefix:
  assumes "radix_repr t m"
  shows "\<exists>v. stl_radix32tree_find t key = Some v \<and>
    ((\<exists>n\<le>32. m (take n (key_bits key 0)) = Some v \<and>
        (\<forall>j\<le>32. n < j \<longrightarrow> m (take j (key_bits key 0)) = None)) \<or>
     (v = STL_RADIX_NO_VALUE \<and> (\<forall>n\<le>32. m (take n (key_bits key 0)) = None)))"
proof -
  obtain tr where wf: "radix_wf t tr" and m: "vals tr = m" using assms by (auto simp: radix_repr_def)
  have sh: "shape t (root t) None tr" using wf by (simp add: radix_wf_def)
  have f: "stl_radix32tree_find t key =
      Some (case longest m (key_bits key 0) of None \<Rightarrow> STL_RADIX_NO_VALUE | Some v \<Rightarrow> v)"
    using find_loop_ok [OF sh, of 0 key] wf m by (simp add: stl_radix32tree_find_def lvl_0 radix_wf_def)
  show ?thesis
    using f longest_SomeD [of m "key_bits key 0"] longest_NoneD [of m "key_bits key 0"]
    by (cases "longest m (key_bits key 0)") auto
qed

theorem radix_find_longest_prefix_witness:
  "radix_repr sample_tree (vals sample_shape) \<and> (\<exists>v. stl_radix32tree_find sample_tree 0xA5000000 = Some v \<and> v = 9)"
proof -
  have "stl_radix32tree_find sample_tree 0xA5000000 = Some 9"
    by (simp add: stl_radix32tree_find_def find_loop.simps sample_tree_def node_at_def STL_RADIX_NO_VALUE_def)
  then show ?thesis
    using radix_find_longest_prefix [OF sample_repr, of "0xA5000000"] sample_repr by auto
qed

text \<open>A new radix tree with up to 32 preallocated levels is empty: the preallocation loops end
  and no prefix has a value, as long as the allocator has memory.\<close>

theorem radix_alloc_empty:
  assumes "radix_allocator al" "\<And>t. fst (al t) \<noteq> None" "0 \<le> n" "n \<le> 32"
  shows "\<exists>t. stl_radix_tree_alloc al pagesize mem n = Some (Some t) \<and> radix_repr t Map.empty"
proof -
  let ?t0 = "\<lparr>root = None, free = None, start = None, nfree = 0, nodes = mem\<rparr>"
  let ?f = "\<lambda>n. n\<lparr>nright := None, nleft := None, nparent := None, nvalue := STL_RADIX_NO_VALUE\<rparr>"
  obtain a t1 where al: "al ?t0 = (Some a, t1)" using assms(2) [of ?t0] by (cases "al ?t0") auto
  have "free_ok ?t0" by (auto simp: free_ok_def intro!: exI [of _ "[]"])
  note D = assms(1) [unfolded radix_allocator_def, rule_format, OF this al]
  let ?t1 = "t1\<lparr>root := Some a\<rparr>"
  have [simp]: "node_at ?t1 x = node_at t1 x" "free ?t1 = free t1" for x by (simp_all add: node_at_def)
  obtain t2 where t2: "set_node a ?f ?t1 = Some t2" using D set_node_ok [of ?t1 a ?f] by auto
  have na: "\<not> spare t1 a" using D by blast
  have fr: "free t2 = free t1" "root t2 = Some a" using set_node_fields [OF t2] by simp_all
  have still: "node_at t2 b = node_at t1 b" if "spare t1 b" for b
    using that na by (auto simp: radix_node_at_set [OF t2])
  have "free_ok t1" using D by blast
  then have "free_ok t2" by (rule free_ok_frame [OF _ fr(1) still])
  moreover have "\<not> spare t2 a" using spare_frame [OF _ fr(1) still] na by blast
  moreover have "shape t2 (Some a) None (Nd a STL_RADIX_NO_VALUE Tip Tip)"
    using D by (auto simp: radix_node_at_set [OF t2])
  ultimately have e: "radix_repr t2 Map.empty" using fr(2) by (intro single_repr)
  obtain t' where "prealloc_levels al t2 (int (nat n)) 0 (lvl 0) = Some (Some t')" "radix_repr t' Map.empty"
    using prealloc_levels_ok [OF assms(1,2) e, of 0 "nat n" 0] assms(3,4) by fastforce
  then show ?thesis
    using e assms(3) al t2 by (auto simp: stl_radix_tree_alloc_def lvl_0)
qed

theorem radix_alloc_empty_witness:
  "\<exists>t. stl_radix_tree_alloc sample_alloc 4096 [] 6 = Some (Some t) \<and> radix_repr t Map.empty"
  using radix_alloc_empty [OF sample_allocator sample_alloc_total, of 6 4096 "[]"] by simp

text \<open>Deleting the empty prefix from a tree of one node follows the parent pointer of the root.\<close>

theorem radix_delete_root_crashes:
  "stl_radix32tree_delete \<lparr>root = Some 0, free = None, start = None, nfree = 0,
     nodes = [Some \<lparr>nright = None, nleft = None, nparent = None, nvalue = 7\<rparr>]\<rparr> 0 0 = None"
  by (simp add: stl_radix32tree_delete_def delete_walk.simps delete_prune.simps node_at_def)

end
