(* ===== verification/Rbtree.thy ===== *)
theory Rbtree
  imports C_Prelude
begin

text \<open>
  The red-black tree (\<open>module/stl/src/stl_rbtree.c\<close>), model. Nodes are objects of a heap, a map from
  addresses to nodes, with left, right and parent pointers; one node, the sentinel, stands for every leaf. The colour byte is only tested for
  zero, set to 0 or 1 and copied, so it is a truth value here (true is red).

  Keys are pointers the tree hands to the comparison function of its user, which is a field of the
  tree as in the code; a NULL key is \<open>None\<close>. \<open>stl_rbtree_min\<close> is called by the deletion and defined
  nowhere in the repository: it is a parameter.
\<close>

section \<open>Nodes and trees\<close>

record 'k stl_rbtree_node =
  rb_key :: "'k option"
  rb_left :: ptr
  rb_right :: ptr
  rb_parent :: ptr
  rb_color :: bool
  rb_data :: ptr

record 'k stl_rbtree =
  rb_root :: ptr
  rb_sentinel :: ptr
  rb_cmp :: "'k option \<Rightarrow> 'k option \<Rightarrow> int"
  rb_nodes :: "nat \<rightharpoonup> 'k stl_rbtree_node"

definition rb_at :: "'k stl_rbtree \<Rightarrow> nat \<Rightarrow> 'k stl_rbtree_node option" where
  "rb_at t a = rb_nodes t a"

definition rb_set :: "nat \<Rightarrow> ('k stl_rbtree_node \<Rightarrow> 'k stl_rbtree_node) \<Rightarrow> 'k stl_rbtree \<Rightarrow> 'k stl_rbtree option" where
  "rb_set a f t = do { n \<leftarrow> rb_at t a; Some (t\<lparr>rb_nodes := (rb_nodes t)(a \<mapsto> f n)\<rparr>) }"

text \<open>Reading a field through a pointer.\<close>

definition rb_get :: "('k stl_rbtree_node \<Rightarrow> 'b) \<Rightarrow> 'k stl_rbtree \<Rightarrow> ptr \<Rightarrow> 'b option" where
  "rb_get f t p = do { a \<leftarrow> p; n \<leftarrow> rb_at t a; Some (f n) }"

definition stl_rbt_red :: "ptr \<Rightarrow> 'k stl_rbtree \<Rightarrow> 'k stl_rbtree option" where
  "stl_rbt_red p t = do { a \<leftarrow> p; rb_set a (\<lambda>n. n\<lparr>rb_color := True\<rparr>) t }"

definition stl_rbt_black :: "ptr \<Rightarrow> 'k stl_rbtree \<Rightarrow> 'k stl_rbtree option" where
  "stl_rbt_black p t = do { a \<leftarrow> p; rb_set a (\<lambda>n. n\<lparr>rb_color := False\<rparr>) t }"

definition stl_rbt_is_red :: "'k stl_rbtree \<Rightarrow> ptr \<Rightarrow> bool option" where
  "stl_rbt_is_red t p = rb_get rb_color t p"

definition stl_rbt_copy_color :: "ptr \<Rightarrow> ptr \<Rightarrow> 'k stl_rbtree \<Rightarrow> 'k stl_rbtree option" where
  "stl_rbt_copy_color n1 n2 t = do {
     c \<leftarrow> rb_get rb_color t n2;
     a \<leftarrow> n1;
     rb_set a (\<lambda>n. n\<lparr>rb_color := c\<rparr>) t }"

section \<open>Rotations\<close>

definition stl_rbtree_left_rotate :: "nat \<Rightarrow> 'k stl_rbtree \<Rightarrow> 'k stl_rbtree option" where
  "stl_rbtree_left_rotate node t = do {
     temp \<leftarrow> rb_get rb_right t (Some node);
     tl \<leftarrow> rb_get rb_left t temp;
     t \<leftarrow> rb_set node (\<lambda>n. n\<lparr>rb_right := tl\<rparr>) t;
     tl \<leftarrow> rb_get rb_left t temp;
     t \<leftarrow> (if tl \<noteq> rb_sentinel t then do { l \<leftarrow> tl; rb_set l (\<lambda>n. n\<lparr>rb_parent := Some node\<rparr>) t } else Some t);
     par \<leftarrow> rb_get rb_parent t (Some node);
     tm \<leftarrow> temp;
     t \<leftarrow> rb_set tm (\<lambda>n. n\<lparr>rb_parent := par\<rparr>) t;
     t \<leftarrow> (if Some node = rb_root t then Some (t\<lparr>rb_root := temp\<rparr>)
       else do {
         par \<leftarrow> rb_get rb_parent t (Some node);
         pl \<leftarrow> rb_get rb_left t par;
         p \<leftarrow> par;
         if Some node = pl then rb_set p (\<lambda>n. n\<lparr>rb_left := temp\<rparr>) t
         else rb_set p (\<lambda>n. n\<lparr>rb_right := temp\<rparr>) t });
     t \<leftarrow> rb_set tm (\<lambda>n. n\<lparr>rb_left := Some node\<rparr>) t;
     rb_set node (\<lambda>n. n\<lparr>rb_parent := temp\<rparr>) t }"

definition stl_rbtree_right_rotate :: "nat \<Rightarrow> 'k stl_rbtree \<Rightarrow> 'k stl_rbtree option" where
  "stl_rbtree_right_rotate node t = do {
     temp \<leftarrow> rb_get rb_left t (Some node);
     tr \<leftarrow> rb_get rb_right t temp;
     t \<leftarrow> rb_set node (\<lambda>n. n\<lparr>rb_left := tr\<rparr>) t;
     tr \<leftarrow> rb_get rb_right t temp;
     t \<leftarrow> (if tr \<noteq> rb_sentinel t then do { r \<leftarrow> tr; rb_set r (\<lambda>n. n\<lparr>rb_parent := Some node\<rparr>) t } else Some t);
     par \<leftarrow> rb_get rb_parent t (Some node);
     tm \<leftarrow> temp;
     t \<leftarrow> rb_set tm (\<lambda>n. n\<lparr>rb_parent := par\<rparr>) t;
     t \<leftarrow> (if Some node = rb_root t then Some (t\<lparr>rb_root := temp\<rparr>)
       else do {
         par \<leftarrow> rb_get rb_parent t (Some node);
         pr \<leftarrow> rb_get rb_right t par;
         p \<leftarrow> par;
         if Some node = pr then rb_set p (\<lambda>n. n\<lparr>rb_right := temp\<rparr>) t
         else rb_set p (\<lambda>n. n\<lparr>rb_left := temp\<rparr>) t });
     t \<leftarrow> rb_set tm (\<lambda>n. n\<lparr>rb_right := Some node\<rparr>) t;
     rb_set node (\<lambda>n. n\<lparr>rb_parent := temp\<rparr>) t }"

section \<open>Creation\<close>

text \<open>\<open>calloc\<close> gives a node of zeros, at the address \<open>s\<close>. Both allocations succeed.\<close>

definition stl_rbtree_init :: "nat \<Rightarrow> 'k stl_rbtree option \<Rightarrow> ('k option \<Rightarrow> 'k option \<Rightarrow> int) \<Rightarrow>
    (int \<times> 'k stl_rbtree option) option" where
  "stl_rbtree_init s tree cmp = (case tree of None \<Rightarrow> Some (-1, None)
     | Some t \<Rightarrow> do {
         let t = t\<lparr>rb_root := None, rb_sentinel := Some s, rb_cmp := cmp, rb_nodes := (rb_nodes t)(s \<mapsto>
           \<lparr>rb_key = None, rb_left = None, rb_right = None, rb_parent = None, rb_color = False, rb_data = None\<rparr>)\<rparr>;
         t \<leftarrow> stl_rbt_black (rb_sentinel t) t;
         Some (0, Some t) })"

definition stl_rbtree_alloc :: "nat \<Rightarrow> (nat \<rightharpoonup> 'k stl_rbtree_node) \<Rightarrow> ('k option \<Rightarrow> 'k option \<Rightarrow> int) \<Rightarrow>
    'k stl_rbtree option option" where
  "stl_rbtree_alloc s heap cmp = do {
     (r, t) \<leftarrow> stl_rbtree_init s
       (Some \<lparr>rb_root = None, rb_sentinel = None, rb_cmp = (\<lambda>_ _. 0), rb_nodes = heap\<rparr>) cmp;
     if r \<noteq> 0 then Some None else Some t }"

section \<open>Insertion\<close>

text \<open>The place of a new node: the node above it, and whether it goes left.\<close>

partial_function (option) insert_place :: "'k stl_rbtree \<Rightarrow> nat \<Rightarrow> nat \<Rightarrow> (nat \<times> bool) option" where
  "insert_place t node temp = do {
     k \<leftarrow> rb_get rb_key t (Some node);
     kt \<leftarrow> rb_get rb_key t (Some temp);
     let lt = rb_cmp t k kt < 0;
     p \<leftarrow> rb_get (if lt then rb_left else rb_right) t (Some temp);
     if p = rb_sentinel t then Some (temp, lt)
     else do { q \<leftarrow> p; insert_place t node q } }"

definition stl_rbtree_insert_value :: "nat \<Rightarrow> nat \<Rightarrow> 'k stl_rbtree \<Rightarrow> 'k stl_rbtree option" where
  "stl_rbtree_insert_value temp node t = do {
     (temp, lt) \<leftarrow> insert_place t node temp;
     t \<leftarrow> rb_set temp (\<lambda>n. if lt then n\<lparr>rb_left := Some node\<rparr> else n\<lparr>rb_right := Some node\<rparr>) t;
     t \<leftarrow> rb_set node (\<lambda>n. n\<lparr>rb_parent := Some temp\<rparr>) t;
     t \<leftarrow> rb_set node (\<lambda>n. n\<lparr>rb_left := rb_sentinel t\<rparr>) t;
     t \<leftarrow> rb_set node (\<lambda>n. n\<lparr>rb_right := rb_sentinel t\<rparr>) t;
     stl_rbt_red (Some node) t }"

text \<open>The rebalancing loop.\<close>

partial_function (option) insert_fixup :: "nat \<Rightarrow> 'k stl_rbtree \<Rightarrow> 'k stl_rbtree option" where
  "insert_fixup node t =
     (if Some node = rb_root t then Some t
      else do {
        par \<leftarrow> rb_get rb_parent t (Some node);
        red \<leftarrow> stl_rbt_is_red t par;
        if \<not> red then Some t
        else do {
          gp \<leftarrow> rb_get rb_parent t par;
          gl \<leftarrow> rb_get rb_left t gp;
          if par = gl then do {
            temp \<leftarrow> rb_get rb_right t gp;
            red \<leftarrow> stl_rbt_is_red t temp;
            if red then do {
              t \<leftarrow> stl_rbt_black par t;
              t \<leftarrow> stl_rbt_black temp t;
              t \<leftarrow> stl_rbt_red gp t;
              g \<leftarrow> gp;
              insert_fixup g t }
            else do {
              pr \<leftarrow> rb_get rb_right t par;
              (node, t) \<leftarrow> (if Some node = pr then do {
                  node \<leftarrow> par;
                  t \<leftarrow> stl_rbtree_left_rotate node t;
                  Some (node, t) }
                else Some (node, t));
              par \<leftarrow> rb_get rb_parent t (Some node);
              t \<leftarrow> stl_rbt_black par t;
              gp \<leftarrow> rb_get rb_parent t par;
              t \<leftarrow> stl_rbt_red gp t;
              g \<leftarrow> gp;
              t \<leftarrow> stl_rbtree_right_rotate g t;
              insert_fixup node t } }
          else do {
            temp \<leftarrow> rb_get rb_left t gp;
            red \<leftarrow> stl_rbt_is_red t temp;
            if red then do {
              t \<leftarrow> stl_rbt_black par t;
              t \<leftarrow> stl_rbt_black temp t;
              t \<leftarrow> stl_rbt_red gp t;
              g \<leftarrow> gp;
              insert_fixup g t }
            else do {
              pl \<leftarrow> rb_get rb_left t par;
              (node, t) \<leftarrow> (if Some node = pl then do {
                  node \<leftarrow> par;
                  t \<leftarrow> stl_rbtree_right_rotate node t;
                  Some (node, t) }
                else Some (node, t));
              par \<leftarrow> rb_get rb_parent t (Some node);
              t \<leftarrow> stl_rbt_black par t;
              gp \<leftarrow> rb_get rb_parent t par;
              t \<leftarrow> stl_rbt_red gp t;
              g \<leftarrow> gp;
              t \<leftarrow> stl_rbtree_left_rotate g t;
              insert_fixup node t } } } })"

definition stl_rbtree_insert :: "'k stl_rbtree \<Rightarrow> nat \<Rightarrow> (int \<times> 'k stl_rbtree) option" where
  "stl_rbtree_insert t node =
     (if rb_root t = rb_sentinel t then do {
        t \<leftarrow> rb_set node (\<lambda>n. n\<lparr>rb_parent := None\<rparr>) t;
        t \<leftarrow> rb_set node (\<lambda>n. n\<lparr>rb_left := rb_sentinel t\<rparr>) t;
        t \<leftarrow> rb_set node (\<lambda>n. n\<lparr>rb_right := rb_sentinel t\<rparr>) t;
        t \<leftarrow> stl_rbt_black (Some node) t;
        Some (0, t\<lparr>rb_root := Some node\<rparr>) }
      else do {
        r \<leftarrow> rb_root t;
        t \<leftarrow> stl_rbtree_insert_value r node t;
        t \<leftarrow> insert_fixup node t;
        t \<leftarrow> stl_rbt_black (rb_root t) t;
        Some (0, t) })"

section \<open>Deletion\<close>

text \<open>The node that leaves its place in the tree (\<open>subst\<close>) and the one that moves up (\<open>temp\<close>).\<close>

definition delete_choose ::
    "('k stl_rbtree \<Rightarrow> ptr \<Rightarrow> ptr option) \<Rightarrow> 'k stl_rbtree \<Rightarrow> nat \<Rightarrow> (ptr \<times> ptr) option" where
  "delete_choose stl_rbtree_min t node = do {
     l \<leftarrow> rb_get rb_left t (Some node);
     r \<leftarrow> rb_get rb_right t (Some node);
     if l = rb_sentinel t then Some (Some node, r)
     else if r = rb_sentinel t then Some (Some node, l)
     else do {
       subst \<leftarrow> stl_rbtree_min t r;
       temp \<leftarrow> rb_get rb_right t subst;
       Some (subst, temp) } }"

definition set_field :: "('k stl_rbtree_node \<Rightarrow> 'k stl_rbtree_node) \<Rightarrow> ptr \<Rightarrow> 'k stl_rbtree \<Rightarrow> 'k stl_rbtree option" where
  "set_field f p t = do { a \<leftarrow> p; rb_set a f t }"

text \<open>The lines marked \<open>DEBUG stuff\<close>: the removed node forgets its links and its key.\<close>

definition delete_clear :: "nat \<Rightarrow> 'k stl_rbtree \<Rightarrow> 'k stl_rbtree option" where
  "delete_clear node t =
     rb_set node (\<lambda>n. n\<lparr>rb_left := None, rb_right := None, rb_parent := None, rb_key := None\<rparr>) t"

text \<open>\<open>subst\<close> takes the place of \<open>node\<close>.\<close>

definition delete_replace :: "nat \<Rightarrow> ptr \<Rightarrow> ptr \<Rightarrow> 'k stl_rbtree \<Rightarrow> 'k stl_rbtree option" where
  "delete_replace node subst temp t = do {
     sp \<leftarrow> rb_get rb_parent t subst;
     t \<leftarrow> (if sp = Some node then set_field (\<lambda>n. n\<lparr>rb_parent := subst\<rparr>) temp t
           else set_field (\<lambda>n. n\<lparr>rb_parent := sp\<rparr>) temp t);
     l \<leftarrow> rb_get rb_left t (Some node);
     t \<leftarrow> set_field (\<lambda>n. n\<lparr>rb_left := l\<rparr>) subst t;
     r \<leftarrow> rb_get rb_right t (Some node);
     t \<leftarrow> set_field (\<lambda>n. n\<lparr>rb_right := r\<rparr>) subst t;
     p \<leftarrow> rb_get rb_parent t (Some node);
     t \<leftarrow> set_field (\<lambda>n. n\<lparr>rb_parent := p\<rparr>) subst t;
     t \<leftarrow> stl_rbt_copy_color subst (Some node) t;
     t \<leftarrow> (if Some node = rb_root t then Some (t\<lparr>rb_root := subst\<rparr>)
       else do {
         p \<leftarrow> rb_get rb_parent t (Some node);
         pl \<leftarrow> rb_get rb_left t p;
         if Some node = pl then set_field (\<lambda>n. n\<lparr>rb_left := subst\<rparr>) p t
         else set_field (\<lambda>n. n\<lparr>rb_right := subst\<rparr>) p t });
     l \<leftarrow> rb_get rb_left t subst;
     t \<leftarrow> (if l \<noteq> rb_sentinel t then set_field (\<lambda>n. n\<lparr>rb_parent := subst\<rparr>) l t else Some t);
     r \<leftarrow> rb_get rb_right t subst;
     (if r \<noteq> rb_sentinel t then set_field (\<lambda>n. n\<lparr>rb_parent := subst\<rparr>) r t else Some t) }"

text \<open>The loop that restores the black heights, and the colouring after it.\<close>

partial_function (option) delete_fixup :: "ptr \<Rightarrow> 'k stl_rbtree \<Rightarrow> 'k stl_rbtree option" where
  "delete_fixup temp t = do {
     red \<leftarrow> (if temp = rb_root t then Some True else stl_rbt_is_red t temp);
     if red then stl_rbt_black temp t
     else do {
       par \<leftarrow> rb_get rb_parent t temp;
       pl \<leftarrow> rb_get rb_left t par;
       if temp = pl then do {
         w \<leftarrow> rb_get rb_right t par;
         red \<leftarrow> stl_rbt_is_red t w;
         (w, t) \<leftarrow> (if red then do {
             t \<leftarrow> stl_rbt_black w t;
             t \<leftarrow> stl_rbt_red par t;
             p \<leftarrow> par;
             t \<leftarrow> stl_rbtree_left_rotate p t;
             par \<leftarrow> rb_get rb_parent t temp;
             w \<leftarrow> rb_get rb_right t par;
             Some (w, t) }
           else Some (w, t));
         wl \<leftarrow> rb_get rb_left t w;
         wr \<leftarrow> rb_get rb_right t w;
         lred \<leftarrow> stl_rbt_is_red t wl;
         rred \<leftarrow> (if lred then Some True else stl_rbt_is_red t wr);
         if \<not> lred \<and> \<not> rred then do {
           t \<leftarrow> stl_rbt_red w t;
           par \<leftarrow> rb_get rb_parent t temp;
           delete_fixup par t }
         else do {
           rred \<leftarrow> stl_rbt_is_red t wr;
           (w, t) \<leftarrow> (if \<not> rred then do {
               t \<leftarrow> stl_rbt_black wl t;
               t \<leftarrow> stl_rbt_red w t;
               wn \<leftarrow> w;
               t \<leftarrow> stl_rbtree_right_rotate wn t;
               par \<leftarrow> rb_get rb_parent t temp;
               w \<leftarrow> rb_get rb_right t par;
               Some (w, t) }
             else Some (w, t));
           par \<leftarrow> rb_get rb_parent t temp;
           t \<leftarrow> stl_rbt_copy_color w par t;
           t \<leftarrow> stl_rbt_black par t;
           wr \<leftarrow> rb_get rb_right t w;
           t \<leftarrow> stl_rbt_black wr t;
           p \<leftarrow> par;
           t \<leftarrow> stl_rbtree_left_rotate p t;
           delete_fixup (rb_root t) t } }
       else do {
         w \<leftarrow> rb_get rb_left t par;
         red \<leftarrow> stl_rbt_is_red t w;
         (w, t) \<leftarrow> (if red then do {
             t \<leftarrow> stl_rbt_black w t;
             t \<leftarrow> stl_rbt_red par t;
             p \<leftarrow> par;
             t \<leftarrow> stl_rbtree_right_rotate p t;
             par \<leftarrow> rb_get rb_parent t temp;
             w \<leftarrow> rb_get rb_left t par;
             Some (w, t) }
           else Some (w, t));
         wl \<leftarrow> rb_get rb_left t w;
         wr \<leftarrow> rb_get rb_right t w;
         lred \<leftarrow> stl_rbt_is_red t wl;
         rred \<leftarrow> (if lred then Some True else stl_rbt_is_red t wr);
         if \<not> lred \<and> \<not> rred then do {
           t \<leftarrow> stl_rbt_red w t;
           par \<leftarrow> rb_get rb_parent t temp;
           delete_fixup par t }
         else do {
           lred \<leftarrow> stl_rbt_is_red t wl;
           (w, t) \<leftarrow> (if \<not> lred then do {
               t \<leftarrow> stl_rbt_black wr t;
               t \<leftarrow> stl_rbt_red w t;
               wn \<leftarrow> w;
               t \<leftarrow> stl_rbtree_left_rotate wn t;
               par \<leftarrow> rb_get rb_parent t temp;
               w \<leftarrow> rb_get rb_left t par;
               Some (w, t) }
             else Some (w, t));
           par \<leftarrow> rb_get rb_parent t temp;
           t \<leftarrow> stl_rbt_copy_color w par t;
           t \<leftarrow> stl_rbt_black par t;
           wl \<leftarrow> rb_get rb_left t w;
           t \<leftarrow> stl_rbt_black wl t;
           p \<leftarrow> par;
           t \<leftarrow> stl_rbtree_right_rotate p t;
           delete_fixup (rb_root t) t } } } }"

text \<open>The result code is \<open>None\<close> where the code leaves with a bare \<open>return\<close>.\<close>

definition stl_rbtree_delete ::
    "('k stl_rbtree \<Rightarrow> ptr \<Rightarrow> ptr option) \<Rightarrow> 'k stl_rbtree \<Rightarrow> nat \<Rightarrow> (int option \<times> 'k stl_rbtree) option" where
  "stl_rbtree_delete stl_rbtree_min t node = do {
     (subst, temp) \<leftarrow> delete_choose stl_rbtree_min t node;
     if subst = rb_root t then do {
       t \<leftarrow> stl_rbt_black temp (t\<lparr>rb_root := temp\<rparr>);
       t \<leftarrow> delete_clear node t;
       Some (Some 0, t) }
     else do {
       red \<leftarrow> stl_rbt_is_red t subst;
       sp \<leftarrow> rb_get rb_parent t subst;
       spl \<leftarrow> rb_get rb_left t sp;
       t \<leftarrow> (if subst = spl then set_field (\<lambda>n. n\<lparr>rb_left := temp\<rparr>) sp t
             else set_field (\<lambda>n. n\<lparr>rb_right := temp\<rparr>) sp t);
       t \<leftarrow> (if subst = Some node then do {
           sp \<leftarrow> rb_get rb_parent t subst;
           set_field (\<lambda>n. n\<lparr>rb_parent := sp\<rparr>) temp t }
         else delete_replace node subst temp t);
       t \<leftarrow> delete_clear node t;
       if red then Some (None, t)
       else do {
         t \<leftarrow> delete_fixup temp t;
         Some (Some 0, t) } } }"

section \<open>Search\<close>

partial_function (option) search_loop :: "'k stl_rbtree \<Rightarrow> 'k option \<Rightarrow> ptr \<Rightarrow> ptr option" where
  "search_loop t key tmp = (case tmp of None \<Rightarrow> Some None
     | Some a \<Rightarrow> do {
         n \<leftarrow> rb_at t a;
         if rb_cmp t (rb_key n) key = 0 then Some tmp
         else if rb_cmp t key (rb_key n) > 0 then search_loop t key (rb_right n)
         else search_loop t key (rb_left n) })"

definition stl_btree_search :: "'k stl_rbtree option \<Rightarrow> 'k option \<Rightarrow> ptr option" where
  "stl_btree_search tree key = (case tree of None \<Rightarrow> Some None | Some t \<Rightarrow> search_loop t key (rb_root t))"

section \<open>Release\<close>

text \<open>\<open>stl_rbtree_deinit\<close> has an empty body and returns -1, so nothing is ever released.\<close>

definition stl_rbtree_deinit :: "'k stl_rbtree option \<Rightarrow> int" where
  "stl_rbtree_deinit tree = -1"

definition stl_rbtree_destroy :: "'k stl_rbtree option \<Rightarrow> 'k stl_rbtree option" where
  "stl_rbtree_destroy tree = (if tree \<noteq> None \<and> stl_rbtree_deinit tree \<noteq> -1 then None else tree)"

end
