(* ===== verification/Rbtree_Shape.thy ===== *)
theory Rbtree_Shape
  imports Rbtree "HOL-Library.Multiset"
begin

text \<open>
  Red-black trees in the heap. \<open>shape\<close> relates a pointer to the tree it leads to; \<open>around\<close> relates a
  position in the tree to the path above it, a list of crumbs from the position up to the root. The
  rotations are shown to do, on a subtree and with any path above it, what rotations of trees do.
\<close>

section \<open>Trees and paths\<close>

datatype 'k rbt = Lf | Br nat bool "'k option" "'k rbt" "'k rbt"

text \<open>A crumb: whether the position is to the left, the node above and its other subtree.\<close>

datatype 'k crumb = Crumb bool nat bool "'k option" "'k rbt"

type_synonym 'k heap = "nat \<rightharpoonup> 'k stl_rbtree_node"

fun addrs :: "'k rbt \<Rightarrow> nat list" where
  "addrs Lf = []"
| "addrs (Br a c k l r) = a # addrs l @ addrs r"

fun crumb_addrs :: "'k crumb list \<Rightarrow> nat list" where
  "crumb_addrs [] = []"
| "crumb_addrs (Crumb b a c k s # cs) = a # addrs s @ crumb_addrs cs"

fun plug :: "'k crumb list \<Rightarrow> 'k rbt \<Rightarrow> 'k rbt" where
  "plug [] f = f"
| "plug (Crumb b a c k s # cs) f = plug cs (if b then Br a c k f s else Br a c k s f)"

fun shape :: "'k heap \<Rightarrow> ptr \<Rightarrow> ptr \<Rightarrow> ptr \<Rightarrow> 'k rbt \<Rightarrow> bool" where
  "shape h S p par Lf = (p = S)"
| "shape h S p par (Br a c k l r) = (p = Some a \<and> p \<noteq> S \<and> (case h a of None \<Rightarrow> False | Some n \<Rightarrow>
     rb_color n = c \<and> rb_key n = k \<and> rb_parent n = par \<and>
     shape h S (rb_left n) (Some a) l \<and> shape h S (rb_right n) (Some a) r))"

fun around :: "'k heap \<Rightarrow> ptr \<Rightarrow> ptr \<Rightarrow> ptr \<Rightarrow> ptr \<Rightarrow> 'k crumb list \<Rightarrow> bool" where
  "around h S rt p par [] = (p = rt)"
| "around h S rt p par (Crumb b a c k s # cs) = (par = Some a \<and> par \<noteq> S \<and> (case h a of None \<Rightarrow> False | Some n \<Rightarrow>
     rb_color n = c \<and> rb_key n = k \<and>
     (if b then rb_left n = p \<and> shape h S (rb_right n) (Some a) s
      else rb_right n = p \<and> shape h S (rb_left n) (Some a) s) \<and>
     around h S rt (Some a) (rb_parent n) cs))"

text \<open>The parent pointer of the root is free: no operation reads it, and deletion leaves it stale.\<close>

text \<open>A position in a tree whose nodes are all different.\<close>

definition at_pos :: "'k stl_rbtree \<Rightarrow> 'k crumb list \<Rightarrow> 'k rbt \<Rightarrow> bool" where
  "at_pos t cs f \<longleftrightarrow> (\<exists>p par. around (rb_nodes t) (rb_sentinel t) (rb_root t) p par cs \<and>
     shape (rb_nodes t) (rb_sentinel t) p par f) \<and> distinct (crumb_addrs cs @ addrs f)"

lemma shape_upd [simp]: "a \<notin> set (addrs tr) \<Longrightarrow> shape (h(a \<mapsto> n)) S p par tr = shape h S p par tr"
  by (induction tr arbitrary: p par) (auto split: option.splits)

lemma around_upd [simp]:
  "a \<notin> set (crumb_addrs cs) \<Longrightarrow> around (h(a \<mapsto> n)) S rt p par cs = around h S rt p par cs"
  by (induction cs arbitrary: p par rule: crumb_addrs.induct) (auto split: option.splits)

lemma shape_Br:
  "shape h S p par (Br a c k l r) \<longleftrightarrow> p = Some a \<and> S \<noteq> Some a \<and> (\<exists>n. h a = Some n \<and>
     rb_color n = c \<and> rb_key n = k \<and> rb_parent n = par \<and>
     shape h S (rb_left n) (Some a) l \<and> shape h S (rb_right n) (Some a) r)"
  by (auto split: option.splits)

lemma around_Cons:
  "around h S rt p par (Crumb b a c k s # cs) \<longleftrightarrow> par = Some a \<and> S \<noteq> Some a \<and> (\<exists>n. h a = Some n \<and>
     rb_color n = c \<and> rb_key n = k \<and>
     (if b then rb_left n = p \<and> shape h S (rb_right n) (Some a) s
      else rb_right n = p \<and> shape h S (rb_left n) (Some a) s) \<and>
     around h S rt (Some a) (rb_parent n) cs)"
  by (auto split: option.splits)

declare shape.simps(2) [simp del] around.simps(2) [simp del]

text \<open>The parent of a subtree is written in its root only.\<close>

lemma shape_reparent:
  assumes "shape h S p par tr" "distinct (addrs tr)"
  shows "shape (case tr of Lf \<Rightarrow> h | Br a c k l r \<Rightarrow> h(a \<mapsto> (the (h a))\<lparr>rb_parent := par'\<rparr>)) S p par' tr"
  using assms by (cases tr) (auto simp: shape_Br)

lemma plug_at:
  "(\<exists>p par. around h S rt p par cs \<and> shape h S p par f) \<longleftrightarrow> (\<exists>par. shape h S rt par (plug cs f))"
proof (induction cs f rule: plug.induct)
  case (2 b a c k s cs f)
  then show ?case by (cases b) (auto simp: shape_Br around_Cons; blast)+
qed simp

lemma addrs_plug: "mset (addrs (plug cs f)) = mset (crumb_addrs cs @ addrs f)"
  by (induction cs f rule: plug.induct) auto

lemma at_pos_plug: "at_pos t cs f \<longleftrightarrow> at_pos t [] (plug cs f)"
proof -
  have "distinct (addrs (plug cs f)) \<longleftrightarrow> distinct (crumb_addrs cs @ addrs f)"
    by (rule mset_eq_imp_distinct_iff) (rule addrs_plug)
  then show ?thesis unfolding at_pos_def plug_at by (simp add: plug_at [of _ _ _ "[]"])
qed

section \<open>Rotations\<close>

text \<open>What an operation leaves alone: the sentinel and the comparison function of the tree, and every
  object that is not a node of it.\<close>

definition keeps :: "nat set \<Rightarrow> 'k stl_rbtree \<Rightarrow> 'k stl_rbtree \<Rightarrow> bool" where
  "keeps A t t' \<longleftrightarrow> rb_sentinel t' = rb_sentinel t \<and> rb_cmp t' = rb_cmp t \<and>
     (\<forall>z. z \<notin> A \<longrightarrow> rb_nodes t' z = rb_nodes t z)"

lemma keeps_refl [simp]: "keeps A t t"
  by (simp add: keeps_def)

lemma keeps_trans: "keeps A t u \<Longrightarrow> keeps A u v \<Longrightarrow> keeps A t v"
  by (simp add: keeps_def)

abbreviation pos_addrs :: "'k crumb list \<Rightarrow> 'k rbt \<Rightarrow> nat set" where
  "pos_addrs cs f \<equiv> set (crumb_addrs cs) \<union> set (addrs f)"

lemmas rb_ops = rb_get_def rb_set_def rb_at_def stl_rbt_red_def stl_rbt_black_def stl_rbt_is_red_def

lemma at_posE:
  assumes "at_pos t cs (Br a c k l r)"
  obtains n where "rb_nodes t a = Some n" "rb_color n = c" "rb_key n = k" "rb_sentinel t \<noteq> Some a"
    "around (rb_nodes t) (rb_sentinel t) (rb_root t) (Some a) (rb_parent n) cs"
    "shape (rb_nodes t) (rb_sentinel t) (rb_left n) (Some a) l"
    "shape (rb_nodes t) (rb_sentinel t) (rb_right n) (Some a) r"
    "distinct (crumb_addrs cs @ addrs (Br a c k l r))"
  using assms by (auto simp: at_pos_def shape_Br)

text \<open>The link from above to a subtree whose root changes.\<close>

definition relink :: "'k crumb list \<Rightarrow> nat \<Rightarrow> 'k stl_rbtree \<Rightarrow> 'k stl_rbtree" where
  "relink cs y t = (case cs of [] \<Rightarrow> t\<lparr>rb_root := Some y\<rparr>
     | Crumb b a c k s # _ \<Rightarrow> t\<lparr>rb_nodes := (rb_nodes t)(a \<mapsto>
         (if b then (the (rb_nodes t a))\<lparr>rb_left := Some y\<rparr> else (the (rb_nodes t a))\<lparr>rb_right := Some y\<rparr>))\<rparr>)"

lemma around_relink:
  assumes "around (rb_nodes t) (rb_sentinel t) (rb_root t) p par cs" "distinct (crumb_addrs cs)"
  shows "around (rb_nodes (relink cs y t)) (rb_sentinel t) (rb_root (relink cs y t)) (Some y) par cs"
  using assms by (cases cs rule: crumb_addrs.cases) (auto simp: relink_def around_Cons)

text \<open>Where the root pointer leads, and the side of the parent a node is on.\<close>

lemma around_root:
  "around h S rt p par cs \<Longrightarrow> cs \<noteq> [] \<Longrightarrow> \<exists>a\<in>set (crumb_addrs cs). rt = Some a"
proof (induction cs arbitrary: p par rule: crumb_addrs.induct)
  case (2 b a c k s cs)
  then show ?case by (cases cs) (force simp: around_Cons)+
qed simp

lemma shape_ptr: "shape h S p par s \<Longrightarrow> x \<notin> set (addrs s) \<Longrightarrow> S \<noteq> Some x \<Longrightarrow> p \<noteq> Some x"
  by (cases s) (auto simp: shape_Br)

text \<open>The facts about the place above a node: the root pointer, or the fields of its parent.\<close>

lemma aboveE:
  assumes "around (rb_nodes t) (rb_sentinel t) (rb_root t) (Some x) par cs" "x \<notin> set (crumb_addrs cs)"
    "rb_sentinel t \<noteq> Some x"
  obtains (top) "cs = []" "rb_root t = Some x"
  | (left) p cp kp s cs' np where "cs = Crumb True p cp kp s # cs'" "rb_root t \<noteq> Some x" "par = Some p"
      "rb_nodes t p = Some np" "rb_color np = cp" "rb_key np = kp" "rb_sentinel t \<noteq> Some p"
      "rb_left np = Some x" "rb_right np \<noteq> Some x" "shape (rb_nodes t) (rb_sentinel t) (rb_right np) (Some p) s"
      "around (rb_nodes t) (rb_sentinel t) (rb_root t) (Some p) (rb_parent np) cs'"
  | (right) p cp kp s cs' np where "cs = Crumb False p cp kp s # cs'" "rb_root t \<noteq> Some x" "par = Some p"
      "rb_nodes t p = Some np" "rb_color np = cp" "rb_key np = kp" "rb_sentinel t \<noteq> Some p"
      "rb_right np = Some x" "rb_left np \<noteq> Some x" "shape (rb_nodes t) (rb_sentinel t) (rb_left np) (Some p) s"
      "around (rb_nodes t) (rb_sentinel t) (rb_root t) (Some p) (rb_parent np) cs'"
proof (cases cs rule: crumb_addrs.cases)
  case 1
  then show ?thesis using assms by (intro top) auto
next
  case (2 dir p cp kp s cs')
  have rt: "rb_root t \<noteq> Some x" using around_root [OF assms(1)] 2 assms(2) by auto
  show ?thesis
  proof (cases dir)
    case True
    then show ?thesis
      using assms(1) 2 rt left assms(2,3) by (auto simp: around_Cons dest: shape_ptr [of _ _ _ _ _ x])
  next
    case False
    then show ?thesis
      using assms(1) 2 rt right assms(2,3) by (auto simp: around_Cons dest: shape_ptr [of _ _ _ _ _ x])
  qed
qed

lemma left_rotate_ok:
  assumes pos: "at_pos t cs (Br x cx kx a (Br y cy ky b c))"
  shows "\<exists>t'. stl_rbtree_left_rotate x t = Some t' \<and> at_pos t' cs (Br y cy ky (Br x cx kx a b) c) \<and>
    keeps (pos_addrs cs (Br x cx kx a (Br y cy ky b c))) t t'"
proof -
  obtain nx where nx: "rb_nodes t x = Some nx" "rb_color nx = cx" "rb_key nx = kx" "rb_sentinel t \<noteq> Some x"
    "around (rb_nodes t) (rb_sentinel t) (rb_root t) (Some x) (rb_parent nx) cs"
    "shape (rb_nodes t) (rb_sentinel t) (rb_left nx) (Some x) a"
    "shape (rb_nodes t) (rb_sentinel t) (rb_right nx) (Some x) (Br y cy ky b c)"
    and d: "distinct (crumb_addrs cs @ addrs (Br x cx kx a (Br y cy ky b c)))" using pos by (rule at_posE)
  from nx(7) obtain ny where ny: "rb_right nx = Some y" "rb_nodes t y = Some ny" "rb_color ny = cy" "rb_key ny = ky"
    "rb_sentinel t \<noteq> Some y" "rb_parent ny = Some x"
    "shape (rb_nodes t) (rb_sentinel t) (rb_left ny) (Some y) b"
    "shape (rb_nodes t) (rb_sentinel t) (rb_right ny) (Some y) c" by (auto simp: shape_Br)
  have xy: "x \<noteq> y" and xc: "x \<notin> set (crumb_addrs cs)" using d by auto
  note base = nx(1-4,6) ny(1-6,8) d xy
  have b: thesis if "\<And>bn. b = Lf \<Longrightarrow> rb_left ny = rb_sentinel t \<Longrightarrow> thesis"
    "\<And>z cz kz zl zr nz. b = Br z cz kz zl zr \<Longrightarrow> rb_left ny = Some z \<Longrightarrow> rb_nodes t z = Some nz \<Longrightarrow>
       rb_color nz = cz \<Longrightarrow> rb_key nz = kz \<Longrightarrow> rb_sentinel t \<noteq> Some z \<Longrightarrow>
       shape (rb_nodes t) (rb_sentinel t) (rb_left nz) (Some z) zl \<Longrightarrow>
       shape (rb_nodes t) (rb_sentinel t) (rb_right nz) (Some z) zr \<Longrightarrow> thesis" for thesis
    using ny(7) that by (cases b) (auto simp: shape_Br)
  from nx(5) xc nx(4) show ?thesis
  proof (cases rule: aboveE)
    case top
    show ?thesis
      by (rule b) (use base top in \<open>simp_all add: stl_rbtree_left_rotate_def rb_ops at_pos_def shape_Br keeps_def\<close>)
  next
    case left
    show ?thesis
      by (rule b) (use base left in \<open>simp_all add: stl_rbtree_left_rotate_def rb_ops at_pos_def shape_Br around_Cons keeps_def\<close>)
  next
    case right
    show ?thesis
      by (rule b) (use base right in \<open>simp_all add: stl_rbtree_left_rotate_def rb_ops at_pos_def shape_Br around_Cons keeps_def\<close>)
  qed
qed

lemma right_rotate_ok:
  assumes pos: "at_pos t cs (Br x cx kx (Br y cy ky c b) a)"
  shows "\<exists>t'. stl_rbtree_right_rotate x t = Some t' \<and> at_pos t' cs (Br y cy ky c (Br x cx kx b a)) \<and>
    keeps (pos_addrs cs (Br x cx kx (Br y cy ky c b) a)) t t'"
proof -
  obtain nx where nx: "rb_nodes t x = Some nx" "rb_color nx = cx" "rb_key nx = kx" "rb_sentinel t \<noteq> Some x"
    "around (rb_nodes t) (rb_sentinel t) (rb_root t) (Some x) (rb_parent nx) cs"
    "shape (rb_nodes t) (rb_sentinel t) (rb_left nx) (Some x) (Br y cy ky c b)"
    "shape (rb_nodes t) (rb_sentinel t) (rb_right nx) (Some x) a"
    and d: "distinct (crumb_addrs cs @ addrs (Br x cx kx (Br y cy ky c b) a))" using pos by (rule at_posE)
  from nx(6) obtain ny where ny: "rb_left nx = Some y" "rb_nodes t y = Some ny" "rb_color ny = cy" "rb_key ny = ky"
    "rb_sentinel t \<noteq> Some y" "rb_parent ny = Some x"
    "shape (rb_nodes t) (rb_sentinel t) (rb_right ny) (Some y) b"
    "shape (rb_nodes t) (rb_sentinel t) (rb_left ny) (Some y) c" by (auto simp: shape_Br)
  have xy: "x \<noteq> y" and xc: "x \<notin> set (crumb_addrs cs)" using d by auto
  note base = nx(1-4,7) ny(1-6,8) d xy
  have b: thesis if "\<And>bn. b = Lf \<Longrightarrow> rb_right ny = rb_sentinel t \<Longrightarrow> thesis"
    "\<And>z cz kz zl zr nz. b = Br z cz kz zl zr \<Longrightarrow> rb_right ny = Some z \<Longrightarrow> rb_nodes t z = Some nz \<Longrightarrow>
       rb_color nz = cz \<Longrightarrow> rb_key nz = kz \<Longrightarrow> rb_sentinel t \<noteq> Some z \<Longrightarrow>
       shape (rb_nodes t) (rb_sentinel t) (rb_left nz) (Some z) zl \<Longrightarrow>
       shape (rb_nodes t) (rb_sentinel t) (rb_right nz) (Some z) zr \<Longrightarrow> thesis" for thesis
    using ny(7) that by (cases b) (auto simp: shape_Br)
  from nx(5) xc nx(4) show ?thesis
  proof (cases rule: aboveE)
    case top
    show ?thesis
      by (rule b) (use base top in \<open>simp_all add: stl_rbtree_right_rotate_def rb_ops at_pos_def shape_Br keeps_def\<close>)
  next
    case left
    show ?thesis
      by (rule b) (use base left in \<open>simp_all add: stl_rbtree_right_rotate_def rb_ops at_pos_def shape_Br around_Cons keeps_def\<close>)
  next
    case right
    show ?thesis
      by (rule b) (use base right in \<open>simp_all add: stl_rbtree_right_rotate_def rb_ops at_pos_def shape_Br around_Cons keeps_def\<close>)
  qed
qed

section \<open>Reading and colouring at a position\<close>

lemma move_left: "at_pos t cs (Br a c k l r) = at_pos t (Crumb True a c k r # cs) l"
  by (simp add: at_pos_plug [of t cs] at_pos_plug [of t "Crumb True a c k r # cs"])

lemma move_right: "at_pos t cs (Br a c k l r) = at_pos t (Crumb False a c k l # cs) r"
  by (simp add: at_pos_plug [of t cs] at_pos_plug [of t "Crumb False a c k l # cs"])

definition ptr_of :: "'k stl_rbtree \<Rightarrow> 'k rbt \<Rightarrow> ptr" where
  "ptr_of t f = (case f of Lf \<Rightarrow> rb_sentinel t | Br a c k l r \<Rightarrow> Some a)"

lemma ptr_of_simps [simp]: "ptr_of t Lf = rb_sentinel t" "ptr_of t (Br a c k l r) = Some a"
  by (simp_all add: ptr_of_def)

fun col :: "'k rbt \<Rightarrow> bool" where
  "col Lf = False"
| "col (Br a c k l r) = c"

text \<open>The sentinel: black, with no links and no key.\<close>

definition sentinel_ok :: "'k stl_rbtree \<Rightarrow> bool" where
  "sentinel_ok t \<longleftrightarrow> (\<exists>s n. rb_sentinel t = Some s \<and> rb_nodes t s = Some n \<and> \<not> rb_color n \<and>
     rb_key n = None \<and> rb_left n = None \<and> rb_right n = None)"

lemma shape_not_sentinel: "shape h S p par f \<Longrightarrow> x \<in> set (addrs f) \<Longrightarrow> S \<noteq> Some x"
  by (induction f arbitrary: p par) (auto simp: shape_Br)

lemma around_not_sentinel: "around h S rt p par cs \<Longrightarrow> x \<in> set (crumb_addrs cs) \<Longrightarrow> S \<noteq> Some x"
proof (induction cs arbitrary: p par rule: crumb_addrs.induct)
  case (2 b a c k s cs)
  then show ?case by (auto simp: around_Cons dest: shape_not_sentinel split: if_splits)
qed simp

lemma keeps_sentinel:
  assumes "keeps (pos_addrs cs f) t t'" "at_pos t cs f" "sentinel_ok t"
  shows "sentinel_ok t'"
proof -
  obtain s n where s: "rb_sentinel t = Some s" "rb_nodes t s = Some n" "\<not> rb_color n" "rb_key n = None"
    "rb_left n = None" "rb_right n = None" using assms(3) by (auto simp: sentinel_ok_def)
  have "s \<notin> pos_addrs cs f"
    using assms(2) s(1) shape_not_sentinel around_not_sentinel by (fastforce simp: at_pos_def)
  then show ?thesis using assms(1) s by (auto simp: sentinel_ok_def keeps_def)
qed

lemma shape_ptr_of: "shape (rb_nodes t) (rb_sentinel t) p par f \<Longrightarrow> p = ptr_of t f"
  by (cases f) (auto simp: shape_Br)

lemma get_children:
  assumes "at_pos t cs (Br a c k l r)"
  shows "rb_get rb_left t (Some a) = Some (ptr_of t l)" "rb_get rb_right t (Some a) = Some (ptr_of t r)"
    "rb_get rb_key t (Some a) = Some k" "rb_get rb_color t (Some a) = Some c"
  using assms by (auto simp: rb_ops elim!: at_posE dest: shape_ptr_of)

lemma get_parent:
  assumes "at_pos t (Crumb b p c k s # cs) (Br x cx kx l r)"
  shows "rb_get rb_parent t (Some x) = Some (Some p)"
  using assms by (auto simp: at_pos_def shape_Br around_Cons rb_ops)

lemma is_red_at:
  assumes "at_pos t cs f" "sentinel_ok t"
  shows "stl_rbt_is_red t (ptr_of t f) = Some (col f)"
proof (cases f)
  case Lf
  then show ?thesis using assms(2) by (auto simp: sentinel_ok_def rb_ops)
next
  case (Br a c k l r)
  then show ?thesis using get_children(4) assms(1) by (simp add: stl_rbt_is_red_def)
qed

lemma root_at:
  assumes "at_pos t cs (Br x c k l r)"
  shows "Some x = rb_root t \<longleftrightarrow> cs = []"
proof
  assume "Some x = rb_root t"
  then show "cs = []"
    using assms around_root [of "rb_nodes t" "rb_sentinel t" "rb_root t" _ _ cs] by (force simp: at_pos_def shape_Br)
next
  assume "cs = []"
  then show "Some x = rb_root t" using assms by (auto simp: at_pos_def shape_Br)
qed

definition paint :: "bool \<Rightarrow> ptr \<Rightarrow> 'k stl_rbtree \<Rightarrow> 'k stl_rbtree option" where
  "paint c p t = (if c then stl_rbt_red p t else stl_rbt_black p t)"

lemma paint_ok:
  assumes "at_pos t cs (Br a c k l r)"
  shows "\<exists>t'. paint c' (Some a) t = Some t' \<and> at_pos t' cs (Br a c' k l r) \<and>
    keeps (pos_addrs cs (Br a c k l r)) t t'"
  using assms
proof (rule at_posE)
  fix n
  assume "rb_nodes t a = Some n" "rb_color n = c" "rb_key n = k" "rb_sentinel t \<noteq> Some a"
    "around (rb_nodes t) (rb_sentinel t) (rb_root t) (Some a) (rb_parent n) cs"
    "shape (rb_nodes t) (rb_sentinel t) (rb_left n) (Some a) l"
    "shape (rb_nodes t) (rb_sentinel t) (rb_right n) (Some a) r"
    "distinct (crumb_addrs cs @ addrs (Br a c k l r))"
  then show ?thesis by (cases c') (simp_all add: paint_def rb_ops at_pos_def shape_Br keeps_def)
qed

lemma black_ok:
  assumes "at_pos t cs (Br a c k l r)"
  shows "\<exists>t'. stl_rbt_black (Some a) t = Some t' \<and> at_pos t' cs (Br a False k l r) \<and>
    keeps (pos_addrs cs (Br a c k l r)) t t'"
  using paint_ok [OF assms, of False] by (simp add: paint_def)

lemma red_ok:
  assumes "at_pos t cs (Br a c k l r)"
  shows "\<exists>t'. stl_rbt_red (Some a) t = Some t' \<and> at_pos t' cs (Br a True k l r) \<and>
    keeps (pos_addrs cs (Br a c k l r)) t t'"
  using paint_ok [OF assms, of True] by (simp add: paint_def)

end
