(* ===== verification/Rbtree_Insert.thy ===== *)
theory Rbtree_Insert
  imports Rbtree_Shape
begin

text \<open>
  Insertion into the red-black tree. The tree a state represents is carried through the
  rebalancing loop as a position (a subtree and the path above it); each lemma says what one
  stretch of the code does to it, for both directions at once.
\<close>

section \<open>Red-black trees\<close>

fun inorder :: "'k rbt \<Rightarrow> (nat \<times> 'k option) list" where
  "inorder Lf = []"
| "inorder (Br a c k l r) = inorder l @ (a, k) # inorder r"

fun bheight :: "'k rbt \<Rightarrow> nat" where
  "bheight Lf = 0"
| "bheight (Br a c k l r) = bheight l + (if c then 0 else 1)"

fun invh :: "'k rbt \<Rightarrow> bool" where
  "invh Lf = True"
| "invh (Br a c k l r) = (invh l \<and> invh r \<and> bheight l = bheight r)"

fun invc :: "'k rbt \<Rightarrow> bool" where
  "invc Lf = True"
| "invc (Br a c k l r) = ((c \<longrightarrow> \<not> col l \<and> \<not> col r) \<and> invc l \<and> invc r)"

text \<open>The colours below the root are right.\<close>

fun invc2 :: "'k rbt \<Rightarrow> bool" where
  "invc2 Lf = True"
| "invc2 (Br a c k l r) = (invc l \<and> invc r)"

lemma invc2I: "invc f \<Longrightarrow> invc2 f"
  by (cases f) auto

text \<open>A node given the side its first subtree is on.\<close>

definition mk :: "bool \<Rightarrow> nat \<Rightarrow> bool \<Rightarrow> 'k option \<Rightarrow> 'k rbt \<Rightarrow> 'k rbt \<Rightarrow> 'k rbt" where
  "mk b a c k f s = (if b then Br a c k f s else Br a c k s f)"

lemma mk_simps [simp]:
  "col (mk b a c k f s) = c" "ptr_of t (mk b a c k f s) = Some a"
  "invh (mk b a c k f s) \<longleftrightarrow> invh f \<and> invh s \<and> bheight f = bheight s"
  "invc (mk b a c k f s) \<longleftrightarrow> (c \<longrightarrow> \<not> col f \<and> \<not> col s) \<and> invc f \<and> invc s"
  "mk b a c k f s \<noteq> Lf"
  "invc2 (mk b a c k f s) \<longleftrightarrow> invc f \<and> invc s"
  by (auto simp: mk_def)

lemma bheight_mk [simp]: "bheight f = bheight s \<Longrightarrow> bheight (mk b a c k f s) = bheight f + (if c then 0 else 1)"
  by (simp add: mk_def)

lemma mk_flip: "mk (\<not> b) a c k f s = mk b a c k s f"
  by (simp add: mk_def)

lemma plug_mk [simp]: "plug (Crumb b a c k s # cs) f = plug cs (mk b a c k f s)"
  by (simp add: mk_def)

declare plug.simps(2) [simp del]

section \<open>The invariants along a path\<close>

text \<open>A red node on the path has a black node above it.\<close>

definition black_above :: "'k crumb list \<Rightarrow> bool" where
  "black_above cs = (case cs of [] \<Rightarrow> False | Crumb b a c k s # _ \<Rightarrow> \<not> c)"

lemma black_above_simps [simp]: "\<not> black_above []" "black_above (Crumb b a c k s # cs) = (\<not> c)"
  by (simp_all add: black_above_def)

fun ctxc :: "'k crumb list \<Rightarrow> bool" where
  "ctxc [] = True"
| "ctxc (Crumb b a c k s # cs) = (invc s \<and> (c \<longrightarrow> \<not> col s \<and> black_above cs) \<and> ctxc cs)"

fun ctxh :: "'k crumb list \<Rightarrow> nat \<Rightarrow> bool" where
  "ctxh [] n = True"
| "ctxh (Crumb b a c k s # cs) n = (invh s \<and> bheight s = n \<and> ctxh cs (n + (if c then 0 else 1)))"

lemma invh_plug: "invh (plug cs f) \<longleftrightarrow> invh f \<and> ctxh cs (bheight f)"
proof (induction cs arbitrary: f)
  case (Cons c cs)
  obtain b a d k s where c: "c = Crumb b a d k s" by (cases c)
  show ?case unfolding c plug_mk Cons.IH by (cases "bheight f = bheight s") auto
qed simp

lemma invc_plug:
  "ctxc cs \<Longrightarrow> invc f \<Longrightarrow> (col f \<Longrightarrow> cs = [] \<or> black_above cs) \<Longrightarrow> invc (plug cs f)"
proof (induction cs arbitrary: f)
  case (Cons c cs)
  obtain b a d k s where c: "c = Crumb b a d k s" by (cases c)
  have "invc (plug cs (mk b a d k f s))" by (rule Cons.IH) (use Cons.prems c in auto)
  then show ?case by (simp add: c)
qed simp

lemma invc_plugD:
  "invc (plug cs f) \<Longrightarrow> \<not> col (plug cs f) \<Longrightarrow> ctxc cs \<and> invc f \<and> (col f \<longrightarrow> black_above cs)"
proof (induction cs arbitrary: f)
  case (Cons c cs)
  show ?case by (cases c) (use Cons in \<open>force simp: black_above_def\<close>)
qed simp

fun before :: "'k crumb list \<Rightarrow> (nat \<times> 'k option) list" where
  "before [] = []"
| "before (Crumb b a c k s # cs) = before cs @ (if b then [] else inorder s @ [(a, k)])"

fun behind :: "'k crumb list \<Rightarrow> (nat \<times> 'k option) list" where
  "behind [] = []"
| "behind (Crumb b a c k s # cs) = (if b then (a, k) # inorder s else []) @ behind cs"

lemma inorder_plug: "inorder (plug cs f) = before cs @ inorder f @ behind cs"
proof (induction cs arbitrary: f)
  case (Cons c cs)
  show ?case by (cases c) (use Cons in \<open>auto simp: mk_def\<close>)
qed simp

lemma inorder_plug_cong: "inorder f = inorder g \<Longrightarrow> inorder (plug cs f) = inorder (plug cs g)"
  by (simp add: inorder_plug)

lemma addrs_inorder: "set (addrs f) = fst ` set (inorder f)"
  by (induction f) auto

lemma pos_addrs_inorder: "pos_addrs cs f = fst ` set (inorder (plug cs f))"
proof -
  have "pos_addrs cs f = set (addrs (plug cs f))"
    using mset_eq_setD [OF addrs_plug [of cs f]] by simp
  then show ?thesis by (simp add: addrs_inorder)
qed

section \<open>Positions during an operation\<close>

text \<open>The tree \<open>t\<close> reached from \<open>t0\<close> is at the position \<open>cs\<close>, \<open>f\<close>; its nodes and keys in order are \<open>io\<close>.\<close>

definition here ::
    "'k stl_rbtree \<Rightarrow> 'k stl_rbtree \<Rightarrow> 'k crumb list \<Rightarrow> 'k rbt \<Rightarrow> (nat \<times> 'k option) list \<Rightarrow> bool" where
  "here t0 t cs f io \<longleftrightarrow> at_pos t cs f \<and> sentinel_ok t \<and> inorder (plug cs f) = io \<and> keeps (fst ` set io) t0 t"

lemma here_up: "here t0 t (Crumb b a c k s # cs) f io = here t0 t cs (mk b a c k f s) io"
proof -
  have "at_pos t (Crumb b a c k s # cs) f = at_pos t cs (mk b a c k f s)"
    by (cases b) (simp_all add: mk_def move_left [symmetric] move_right [symmetric])
  then show ?thesis by (simp add: here_def)
qed

lemma here_step:
  assumes h: "here t0 t cs f io" and p: "at_pos t' cs f'" and kp: "keeps (pos_addrs cs f) t t'"
    and i: "inorder f' = inorder f"
  shows "here t0 t' cs f' io"
  using h p kp keeps_sentinel [OF kp] inorder_plug_cong [OF i, of cs] keeps_trans
  by (auto simp: here_def pos_addrs_inorder)

definition rotate :: "bool \<Rightarrow> nat \<Rightarrow> 'k stl_rbtree \<Rightarrow> 'k stl_rbtree option" where
  "rotate b = (if b then stl_rbtree_left_rotate else stl_rbtree_right_rotate)"

lemma here_rotate:
  assumes h: "here t0 t cs (mk b x cx kx a (mk (\<not> b) y cy ky c d)) io"
  shows "\<exists>t'. rotate b x t = Some t' \<and> here t0 t' cs (mk (\<not> b) y cy ky c (mk b x cx kx a d)) io"
proof (cases b)
  case True
  then have pos: "at_pos t cs (Br x cx kx a (Br y cy ky d c))" using h by (simp add: here_def mk_def)
  show ?thesis using left_rotate_ok [OF pos] here_step [OF h] True by (auto simp: rotate_def mk_def)
next
  case False
  then have pos: "at_pos t cs (Br x cx kx (Br y cy ky c d) a)" using h by (simp add: here_def mk_def)
  show ?thesis using right_rotate_ok [OF pos] here_step [OF h] False by (auto simp: rotate_def mk_def)
qed

lemma here_black:
  assumes h: "here t0 t cs (mk b a c k l r) io"
  shows "\<exists>t'. stl_rbt_black (Some a) t = Some t' \<and> here t0 t' cs (mk b a False k l r) io"
proof -
  have "\<exists>l' r'. \<forall>c. mk b a c k l r = Br a c k l' r'" by (auto simp: mk_def)
  then obtain l' r' where m: "\<And>c. mk b a c k l r = Br a c k l' r'" by blast
  have "at_pos t cs (Br a c k l' r')" using h by (simp add: here_def m)
  from black_ok [OF this] obtain t' where "stl_rbt_black (Some a) t = Some t'"
    "at_pos t' cs (Br a False k l' r')" "keeps (pos_addrs cs (mk b a c k l r)) t t'" unfolding m by blast
  then show ?thesis using here_step [OF h, of t' "mk b a False k l r"] by (simp add: m)
qed

lemma here_red:
  assumes h: "here t0 t cs (mk b a c k l r) io"
  shows "\<exists>t'. stl_rbt_red (Some a) t = Some t' \<and> here t0 t' cs (mk b a True k l r) io"
proof -
  have "\<exists>l' r'. \<forall>c. mk b a c k l r = Br a c k l' r'" by (auto simp: mk_def)
  then obtain l' r' where m: "\<And>c. mk b a c k l r = Br a c k l' r'" by blast
  have "at_pos t cs (Br a c k l' r')" using h by (simp add: here_def m)
  from red_ok [OF this] obtain t' where "stl_rbt_red (Some a) t = Some t'"
    "at_pos t' cs (Br a True k l' r')" "keeps (pos_addrs cs (mk b a c k l r)) t t'" unfolding m by blast
  then show ?thesis using here_step [OF h, of t' "mk b a True k l r"] by (simp add: m)
qed

text \<open>What the code reads at a position.\<close>

definition child :: "bool \<Rightarrow> 'k stl_rbtree_node \<Rightarrow> ptr" where
  "child b = (if b then rb_left else rb_right)"

lemma here_sibling: "here t0 t (Crumb b a c k s # cs) f io = here t0 t (Crumb (\<not> b) a c k f # cs) s io"
  by (simp add: here_up mk_def)

lemma here_child:
  assumes "here t0 t cs (mk b a c k l r) io"
  shows "rb_get (child b) t (Some a) = Some (ptr_of t l)" "rb_get (child (\<not> b)) t (Some a) = Some (ptr_of t r)"
  using assms get_children [of t cs a c k] by (auto simp: here_def mk_def child_def split: if_splits)

lemma here_parent:
  assumes "here t0 t (Crumb b' p cp kp s # cs) (mk b a c k l r) io"
  shows "rb_get rb_parent t (Some a) = Some (Some p)"
  using assms get_parent [of t b' p cp kp s cs a c k] by (auto simp: here_def mk_def split: if_splits)

lemma here_red_at: "here t0 t cs f io \<Longrightarrow> stl_rbt_is_red t (ptr_of t f) = Some (col f)"
  unfolding here_def by (elim conjE) (rule is_red_at)

lemma here_red_parent: "here t0 t (Crumb b p cp kp s # cs) f io \<Longrightarrow> stl_rbt_is_red t (Some p) = Some cp"
  using here_red_at [of t0 t cs "mk b p cp kp f s" io] by (simp add: here_up)

lemma here_root: "here t0 t cs (mk b a c k l r) io \<Longrightarrow> Some a = rb_root t \<longleftrightarrow> cs = []"
  using root_at [of t cs a c k] by (auto simp: here_def mk_def split: if_splits)

lemma here_sides:
  assumes "here t0 t cs (mk b a c k l r) io"
  shows "ptr_of t l \<noteq> ptr_of t r \<or> l = Lf \<and> r = Lf"
  using assms
  by (cases l; cases r) (auto simp: here_def at_pos_def mk_def shape_Br split: if_splits)

lemma mk_cases: "f \<noteq> Lf \<Longrightarrow> \<exists>a k l r. f = mk b a (col f) k l r"
  by (cases f; cases b) (auto simp: mk_def)

lemma here_black_child:
  assumes h: "here t0 t cs f io" and f: "f \<noteq> Lf"
  shows "\<exists>t'. stl_rbt_black (ptr_of t f) t = Some t' \<and>
    (\<exists>f'. here t0 t' cs f' io \<and> \<not> col f' \<and> f' \<noteq> Lf \<and>
      (invc2 f \<longrightarrow> invc f') \<and> (invh f \<longrightarrow> invh f') \<and> (col f \<longrightarrow> bheight f' = Suc (bheight f)))"
proof -
  obtain a' k' l r where m: "f = mk True a' (col f) k' l r" using mk_cases [OF f] by blast
  obtain t' where "stl_rbt_black (ptr_of t f) t = Some t'" "here t0 t' cs (mk True a' False k' l r) io"
    using here_black h m mk_simps(2) by metis
  moreover have "invc2 f \<longrightarrow> invc (mk True a' False k' l r)" "invh f \<longrightarrow> invh (mk True a' False k' l r)"
    by (subst m, simp)+
  moreover have "col f \<longrightarrow> bheight (mk True a' False k' l r) = Suc (bheight f)" by (subst m) (simp add: mk_def)
  ultimately show ?thesis by (intro exI conjI) (auto simp del: mk_simps(3,4,6))
qed

section \<open>The rebalancing loop\<close>

lemma fixup_stop:
  assumes "here t0 t cs (mk b x c k l r) io" "cs = [] \<or> black_above cs"
  shows "insert_fixup x t = Some t"
proof (cases cs rule: crumb_addrs.cases)
  case 1
  then show ?thesis using here_root [OF assms(1)] by (subst insert_fixup.simps) simp
next
  case (2 b' p cp kp s cs')
  note h = assms(1) [unfolded 2]
  have "rb_get rb_parent t (Some x) = Some (Some p)" "stl_rbt_is_red t (Some p) = Some cp" "Some x \<noteq> rb_root t"
    using here_parent [OF h] here_red_parent [OF h] here_root [OF h] by simp_all
  then show ?thesis using assms(2) 2 by (subst insert_fixup.simps) simp
qed

text \<open>A red uncle: the parent and the uncle become black, the grandparent red.\<close>

lemma recolour:
  assumes h: "here t0 t (Crumb bx p True kp s # Crumb b g cg kg u # cs) f io" and u: "u \<noteq> Lf"
  shows "\<exists>t1 t2 t3 u'. stl_rbt_black (Some p) t = Some t1 \<and> stl_rbt_black (ptr_of t u) t1 = Some t2 \<and>
    stl_rbt_red (Some g) t2 = Some t3 \<and> here t0 t3 cs (mk b g True kg (mk bx p False kp f s) u') io \<and>
    \<not> col u' \<and> (invc u \<longrightarrow> invc u') \<and> (invh u \<longrightarrow> invh u') \<and> (col u \<longrightarrow> bheight u' = Suc (bheight u))"
proof -
  obtain t1 where t1: "stl_rbt_black (Some p) t = Some t1"
    "here t0 t1 (Crumb b g cg kg u # cs) (mk bx p False kp f s) io"
    using here_black h unfolding here_up [of _ _ bx] by blast
  have S: "ptr_of t1 u = ptr_of t u" using h t1(2) by (cases u) (auto simp: here_def keeps_def)
  obtain t2 u' where t2: "stl_rbt_black (ptr_of t u) t1 = Some t2"
    "here t0 t2 (Crumb (\<not> b) g cg kg (mk bx p False kp f s) # cs) u' io" and u': "\<not> col u'" "invc u \<longrightarrow> invc u'"
    "invh u \<longrightarrow> invh u'" "col u \<longrightarrow> bheight u' = Suc (bheight u)"
    using here_black_child [OF t1(2) [unfolded here_sibling [of _ _ b]] u] invc2I unfolding S by blast
  have "here t0 t2 cs (mk b g cg kg (mk bx p False kp f s) u') io"
    using t2(2) unfolding here_up mk_flip .
  then show ?thesis using here_red t1(1) t2(1) u' by blast
qed

text \<open>A black uncle, the node on the outer side: the parent becomes black, the grandparent red and is
  rotated down.\<close>

lemma outer:
  assumes h: "here t0 t (Crumb b p cp kp s # Crumb b g cg kg u # cs) f io"
  shows "\<exists>t1 t2 t3. stl_rbt_black (Some p) t = Some t1 \<and> stl_rbt_red (Some g) t1 = Some t2 \<and>
    rotate (\<not> b) g t2 = Some t3 \<and> here t0 t3 cs (mk b p False kp f (mk b g True kg s u)) io"
proof -
  obtain t1 where t1: "stl_rbt_black (Some p) t = Some t1" "here t0 t1 (Crumb b g cg kg u # cs) (mk b p False kp f s) io"
    using here_black h unfolding here_up [of _ _ b _ _ _ _ "_ # _"] by blast
  obtain t2 where t2: "stl_rbt_red (Some g) t1 = Some t2" "here t0 t2 cs (mk b g True kg (mk b p False kp f s) u) io"
    using here_red t1(2) unfolding here_up by blast
  have m: "mk b g True kg v u = mk (\<not> b) g True kg u v" for v by (simp add: mk_def)
  show ?thesis
    using here_rotate [of t0 t2 cs "\<not> b" g True kg u p False kp f s io] t1(1) t2 unfolding m by simp
qed

text \<open>The node on the inner side: a rotation at the parent brings it to the outer side.\<close>

lemma inner:
  assumes h: "here t0 t (Crumb (\<not> b) p cp kp s # cs) (mk b x c k l r) io"
  shows "\<exists>t'. rotate b p t = Some t' \<and> here t0 t' (Crumb b x c k r # cs) (mk b p cp kp s l) io"
proof -
  have m: "mk (\<not> b) p cp kp (mk b x c k l r) s = mk b p cp kp s (mk (\<not> b) x c k r l)" by (simp add: mk_def)
  have m': "mk (\<not> b) x c k r v = mk b x c k v r" for v by (simp add: mk_def)
  show ?thesis using here_rotate [of t0 t cs b p cp kp s x c k r l io] h unfolding here_up m m' by simp
qed

text \<open>One round of the loop below a red parent, with the direction as an argument.\<close>

lemma fixup_red_uncle:
  assumes h: "here t0 t (Crumb bx p True kp s # Crumb b g cg kg u # cs) (mk b' x c k l r) io" and u: "col u"
  shows "\<exists>t3 u'. insert_fixup x t = insert_fixup g t3 \<and>
    here t0 t3 cs (mk b g True kg (mk bx p False kp (mk b' x c k l r) s) u') io \<and>
    \<not> col u' \<and> (invc u \<longrightarrow> invc u') \<and> (invh u \<longrightarrow> invh u') \<and> bheight u' = Suc (bheight u)"
proof -
  have "u \<noteq> Lf" using u by auto
  from recolour [OF h this] obtain t1 t2 t3 u' where s: "stl_rbt_black (Some p) t = Some t1"
    "stl_rbt_black (ptr_of t u) t1 = Some t2" "stl_rbt_red (Some g) t2 = Some t3"
    and r: "here t0 t3 cs (mk b g True kg (mk bx p False kp (mk b' x c k l r) s) u') io"
    "\<not> col u'" "invc u \<longrightarrow> invc u'" "invh u \<longrightarrow> invh u'" "col u \<longrightarrow> bheight u' = Suc (bheight u)" by blast
  note hg = h [unfolded here_up [of _ _ bx]] h [unfolded here_up]
  have reads: "rb_get rb_parent t (Some x) = Some (Some p)" "stl_rbt_is_red t (Some p) = Some True"
    "rb_get rb_parent t (Some p) = Some (Some g)" "rb_get (child b) t (Some g) = Some (Some p)"
    "rb_get (child (\<not> b)) t (Some g) = Some (ptr_of t u)" "stl_rbt_is_red t (ptr_of t u) = Some True"
    "rb_root t \<noteq> Some x" "ptr_of t u \<noteq> Some p"
    using here_parent [OF h] here_red_parent [OF h] here_parent [OF hg(1)] here_child [OF hg(2)]
      here_red_at [OF hg(1) [unfolded here_sibling [of _ _ b]]] u here_root [OF h] here_sides [OF hg(2)] by auto
  have "insert_fixup x t = insert_fixup g t3"
    by (subst insert_fixup.simps) (use reads s in \<open>cases b; simp add: child_def\<close>)
  then show ?thesis using r u by blast
qed

text \<open>A black uncle: the rotations restore the invariants and the loop ends.\<close>

lemma fixup_outer:
  assumes h: "here t0 t (Crumb b p True kp s # Crumb b g cg kg u # cs) (mk b' x c k l r) io" and u: "\<not> col u"
  shows "\<exists>t3. insert_fixup x t = Some t3 \<and> here t0 t3 cs (mk b p False kp (mk b' x c k l r) (mk b g True kg s u)) io"
proof -
  from outer [OF h] obtain t1 t2 t3 where s: "stl_rbt_black (Some p) t = Some t1" "stl_rbt_red (Some g) t1 = Some t2"
    "rotate (\<not> b) g t2 = Some t3"
    and r: "here t0 t3 cs (mk b p False kp (mk b' x c k l r) (mk b g True kg s u)) io" by blast
  note hp = h [unfolded here_up [of _ _ b _ _ _ _ "_ # _"]] and hg = h [unfolded here_up]
  have p1: "rb_get rb_parent t1 (Some p) = Some (Some g)"
    using here_black [OF hp] s(1) here_parent by fastforce
  have reads: "rb_get rb_parent t (Some x) = Some (Some p)" "stl_rbt_is_red t (Some p) = Some True"
    "rb_get rb_parent t (Some p) = Some (Some g)" "rb_get (child b) t (Some g) = Some (Some p)"
    "rb_get (child (\<not> b)) t (Some g) = Some (ptr_of t u)" "stl_rbt_is_red t (ptr_of t u) = Some False"
    "rb_root t \<noteq> Some x" "ptr_of t u \<noteq> Some p" "rb_get (child (\<not> b)) t (Some p) = Some (ptr_of t s)"
    "ptr_of t s \<noteq> Some x"
    using here_parent [OF h] here_red_parent [OF h] here_parent [OF hp] here_child [OF hg] here_child [OF hp]
      here_red_at [OF hp [unfolded here_sibling [of _ _ b]]] u here_root [OF h] here_sides [OF hg] here_sides [OF hp] by auto
  have "insert_fixup x t3 = Some t3" using fixup_stop r unfolding here_up [symmetric] by fastforce
  then have "insert_fixup x t = Some t3"
    by (subst insert_fixup.simps) (use reads s p1 in \<open>cases b; simp add: child_def rotate_def\<close>)
  then show ?thesis using r by blast
qed

lemma fixup_inner:
  assumes h: "here t0 t (Crumb (\<not> b) p True kp s # Crumb b g cg kg u # cs) (mk b x c k l r) io" and u: "\<not> col u"
  shows "\<exists>t3. insert_fixup x t = Some t3 \<and>
    here t0 t3 cs (mk b x False k (mk b p True kp s l) (mk b g True kg r u)) io"
proof -
  from inner [OF h] obtain t' where i: "rotate b p t = Some t'"
    and h': "here t0 t' (Crumb b x c k r # Crumb b g cg kg u # cs) (mk b p True kp s l) io" by blast
  from outer [OF h'] obtain t1 t2 t3 where s: "stl_rbt_black (Some x) t' = Some t1" "stl_rbt_red (Some g) t1 = Some t2"
    "rotate (\<not> b) g t2 = Some t3" and r: "here t0 t3 cs (mk b x False k (mk b p True kp s l) (mk b g True kg r u)) io"
    by blast
  note hp = h [unfolded here_up [of _ _ "\<not> b"]] and hg = h [unfolded here_up]
    and hx = h' [unfolded here_up [of _ _ b _ _ _ _ "_ # _"]]
  have p1: "rb_get rb_parent t1 (Some x) = Some (Some g)"
    using here_black [OF hx] s(1) here_parent by fastforce
  have reads: "rb_get rb_parent t (Some x) = Some (Some p)" "stl_rbt_is_red t (Some p) = Some True"
    "rb_get rb_parent t (Some p) = Some (Some g)" "rb_get (child b) t (Some g) = Some (Some p)"
    "rb_get (child (\<not> b)) t (Some g) = Some (ptr_of t u)" "stl_rbt_is_red t (ptr_of t u) = Some False"
    "rb_root t \<noteq> Some x" "ptr_of t u \<noteq> Some p" "rb_get (child (\<not> b)) t (Some p) = Some (Some x)"
    "rb_get rb_parent t' (Some p) = Some (Some x)"
    using here_parent [OF h] here_red_parent [OF h] here_parent [OF hp] here_child [OF hg] here_child [OF hp]
      here_red_at [OF hp [unfolded here_sibling [of _ _ b]]] u here_root [OF h] here_sides [OF hg] here_parent [OF h'] by auto
  have "insert_fixup p t3 = Some t3" using fixup_stop r unfolding here_up [symmetric] by fastforce
  then have "insert_fixup x t = Some t3"
    by (subst insert_fixup.simps) (use reads s p1 i in \<open>cases b; simp add: child_def rotate_def\<close>)
  then show ?thesis using r by blast
qed

lemma here_plug: "here t0 t cs f io \<longleftrightarrow> here t0 t [] (plug cs f) io"
  by (simp add: here_def at_pos_plug [of t cs])

lemma plug_Lf [simp]: "f \<noteq> Lf \<Longrightarrow> plug cs f \<noteq> Lf"
proof (induction cs arbitrary: f)
  case (Cons c cs)
  then show ?case by (cases c) simp
qed simp

text \<open>The tree the loop leaves: no red node below a red one, equal black heights, the same nodes in order.\<close>

definition balanced :: "'k stl_rbtree \<Rightarrow> 'k stl_rbtree \<Rightarrow> (nat \<times> 'k option) list \<Rightarrow> bool" where
  "balanced t0 t io \<longleftrightarrow> (\<exists>tr. here t0 t [] tr io \<and> invc tr \<and> invh tr \<and> tr \<noteq> Lf)"

lemma balanced_plug:
  assumes "here t0 t cs f io" "ctxc cs" "ctxh cs (bheight f)" "invc f" "invh f" "f \<noteq> Lf"
    "col f \<Longrightarrow> cs = [] \<or> black_above cs"
  shows "balanced t0 t io"
  unfolding balanced_def
  by (intro exI [of _ "plug cs f"]) (use assms in \<open>simp add: here_plug [symmetric] invh_plug invc_plug\<close>)

lemma insert_fixup_ok:
  assumes "here t0 t cs (mk b x True k l r) io" "invc (mk b x True k l r)" "invh (mk b x True k l r)"
    "ctxc cs" "ctxh cs (bheight (mk b x True k l r))"
  shows "\<exists>t'. insert_fixup x t = Some t' \<and> balanced t0 t' io"
  using assms
proof (induction "length cs" arbitrary: t cs b x k l r rule: less_induct)
  case less
  note h = less.prems(1) and f = less.prems(2,3) and cx = less.prems(4,5)
  show ?case
  proof (cases "cs = [] \<or> black_above cs")
    case True
    then show ?thesis using fixup_stop [OF h True] balanced_plug [OF h cx(1,2) f] by auto
  next
    case False
    then obtain bx p kp s cs1 where c1: "cs = Crumb bx p True kp s # cs1"
      by (cases cs rule: crumb_addrs.cases) auto
    then have "black_above cs1" using cx by simp
    then obtain bg g kg u cs2 where c2: "cs1 = Crumb bg g False kg u # cs2"
      by (cases cs1 rule: crumb_addrs.cases) auto
    note h2 = h [unfolded c1 c2]
    have hs: "bheight l = bheight r" "bheight s = bheight l" "bheight u = bheight l" "invh u" "invh s" "invc u" "invc s"
      "\<not> col s" "ctxc cs2" "ctxh cs2 (Suc (bheight l))" "\<not> col l" "\<not> col r" "invc l" "invc r" "invh l" "invh r"
      using cx f c1 c2 by auto
    show ?thesis
    proof (cases "col u")
      case True
      from fixup_red_uncle [OF h2 True] obtain t3 u' where n: "insert_fixup x t = insert_fixup g t3"
        "here t0 t3 cs2 (mk bg g True kg (mk bx p False kp (mk b x True k l r) s) u') io"
        "\<not> col u'" "invc u'" "invh u'" "bheight u' = Suc (bheight u)" using hs by blast
      show ?thesis unfolding n(1)
        by (rule less.hyps [OF _ n(2)]) (use n(3-) hs c1 c2 in auto)
    next
      case False
      show ?thesis
      proof (cases "bx = bg")
        case True
        from fixup_outer [OF h2 [unfolded True] False] obtain t3 where n: "insert_fixup x t = Some t3"
          "here t0 t3 cs2 (mk bg p False kp (mk b x True k l r) (mk bg g True kg s u)) io" by blast
        show ?thesis using n(1) balanced_plug [OF n(2)] hs False by simp
      next
        case ne: False
        then have bx: "bx = (\<not> bg)" by simp
        have "\<exists>l' r'. mk b x True k l r = mk bg x True k l' r' \<and> {l', r'} = {l, r}"
          by (cases "b = bg") (auto simp: mk_def)
        then obtain l' r' where m: "mk b x True k l r = mk bg x True k l' r'" and lr: "{l', r'} = {l, r}" by blast
        from fixup_inner [OF h2 [unfolded bx m] False] obtain t3 where n: "insert_fixup x t = Some t3"
          "here t0 t3 cs2 (mk bg x False k (mk bg p True kp s l') (mk bg g True kg r' u)) io" by blast
        have "l' = l \<and> r' = r \<or> l' = r \<and> r' = l" using lr by (auto simp: doubleton_eq_iff)
        then show ?thesis using n(1) balanced_plug [OF n(2)] hs False by (elim disjE conjE) simp_all
      qed
    qed
  qed
qed

end
