(* ===== verification/Rbtree_Map.thy ===== *)
theory Rbtree_Map
  imports Rbtree_Insert
begin

text \<open>
  The red-black tree as an ordered collection: what insertion and search do for a comparison function
  that orders the keys.
\<close>

section \<open>Trees in the heap and the order of keys\<close>

text \<open>A tree of the code: nodes linked consistently, a sentinel, a black root, no red node below a
  red one and the same number of black nodes on every path.\<close>

definition rb_repr :: "'k stl_rbtree \<Rightarrow> 'k rbt \<Rightarrow> bool" where
  "rb_repr t tr \<longleftrightarrow> at_pos t [] tr \<and> sentinel_ok t \<and> invc tr \<and> invh tr \<and> \<not> col tr"

text \<open>What the tree relies on from its user: the comparison of keys that are not NULL is a total preorder.\<close>

definition orders :: "('k option \<Rightarrow> 'k option \<Rightarrow> int) \<Rightarrow> bool" where
  "orders cmp \<longleftrightarrow> (\<forall>a b. cmp (Some a) (Some b) < 0 \<longleftrightarrow> cmp (Some b) (Some a) > 0) \<and>
     (\<forall>a b c. cmp (Some a) (Some b) \<le> 0 \<longrightarrow> cmp (Some b) (Some c) \<le> 0 \<longrightarrow> cmp (Some a) (Some c) \<le> 0)"

definition in_order :: "('k option \<Rightarrow> 'k option \<Rightarrow> int) \<Rightarrow> (nat \<times> 'k option) list \<Rightarrow> bool" where
  "in_order cmp io \<longleftrightarrow> (\<forall>e\<in>set io. snd e \<noteq> None) \<and> sorted_wrt (\<lambda>e e'. cmp (snd e) (snd e') \<le> 0) io"

text \<open>The place of a new entry: before the first larger key.\<close>

fun put :: "('k option \<Rightarrow> 'k option \<Rightarrow> int) \<Rightarrow> nat \<times> 'k option \<Rightarrow> (nat \<times> 'k option) list \<Rightarrow> (nat \<times> 'k option) list" where
  "put cmp e [] = [e]"
| "put cmp e (y # ys) = (if cmp (snd e) (snd y) < 0 then e # y # ys else y # put cmp e ys)"

lemma set_put [simp]: "set (put cmp e io) = insert e (set io)"
  by (induction io) auto

lemma put_append:
  assumes "\<forall>y\<in>set xs. \<not> cmp (snd e) (snd y) < 0" "\<forall>y\<in>set ys. cmp (snd e) (snd y) < 0"
  shows "put cmp e (xs @ ys) = xs @ e # ys"
  using assms by (induction xs) (cases ys; simp)+

lemma cmp_flip: "orders cmp \<Longrightarrow> cmp (Some a) (Some b) \<le> 0 \<longleftrightarrow> \<not> cmp (Some b) (Some a) < 0"
  unfolding orders_def by (metis not_less)

lemma cmp_trans: "orders cmp \<Longrightarrow> cmp (Some a) (Some b) \<le> 0 \<Longrightarrow> cmp (Some b) (Some c) \<le> 0 \<Longrightarrow> cmp (Some a) (Some c) \<le> 0"
  unfolding orders_def by blast

lemma cmp_less_trans:
  "orders cmp \<Longrightarrow> cmp (Some a) (Some b) < 0 \<Longrightarrow> cmp (Some b) (Some c) \<le> 0 \<Longrightarrow> cmp (Some a) (Some c) < 0"
  using cmp_flip cmp_trans by (metis linorder_not_less)

lemma in_order_put:
  assumes "orders cmp" "in_order cmp io"
  shows "in_order cmp (put cmp (x, Some k) io)"
  using assms(2)
proof (induction io)
  case (Cons y ys)
  obtain ay ky where y: "y = (ay, Some ky)" using Cons.prems by (cases y) (auto simp: in_order_def)
  have rest: "\<exists>ke. snd e = Some ke \<and> cmp (Some ky) (Some ke) \<le> 0" if "e \<in> set ys" for e
    using Cons.prems that y by (fastforce simp: in_order_def)
  have IH: "in_order cmp (put cmp (x, Some k) ys)" using Cons by (simp add: in_order_def)
  show ?case
  proof (cases "cmp (Some k) (Some ky) < 0")
    case True
    then have "cmp (Some k) (snd e) \<le> 0" if "e \<in> set ys" for e
      using rest [OF that] cmp_trans [OF assms(1)] by (auto simp: order.strict_iff_order)
    then show ?thesis using True Cons.prems y by (auto simp: in_order_def)
  next
    case False
    then have "cmp (Some ky) (Some k) \<le> 0" using cmp_flip [OF assms(1)] by blast
    then show ?thesis using False Cons.prems y IH by (auto simp: in_order_def)
  qed
qed (simp add: in_order_def)

text \<open>Where a key belongs, seen from a position.\<close>

lemma in_order_split:
  assumes o: "orders cmp" "in_order cmp (xs @ (a, Some ka) # ys)"
  shows "cmp (Some k) (Some ka) < 0 \<Longrightarrow> y \<in> set ys \<Longrightarrow> cmp (Some k) (snd y) < 0"
    "\<not> cmp (Some k) (Some ka) < 0 \<Longrightarrow> y \<in> set xs \<Longrightarrow> \<not> cmp (Some k) (snd y) < 0"
proof -
  assume l: "cmp (Some k) (Some ka) < 0" "y \<in> set ys"
  then have "\<exists>ky. snd y = Some ky \<and> cmp (Some ka) (Some ky) \<le> 0"
    using o(2) by (fastforce simp: in_order_def sorted_wrt_append)
  then show "cmp (Some k) (snd y) < 0" using cmp_less_trans [OF o(1) l(1)] by auto
next
  assume l: "\<not> cmp (Some k) (Some ka) < 0" "y \<in> set xs"
  then have "\<exists>ky. snd y = Some ky \<and> cmp (Some ky) (Some ka) \<le> 0"
    using o(2) by (fastforce simp: in_order_def sorted_wrt_append)
  then show "\<not> cmp (Some k) (snd y) < 0" using cmp_less_trans [OF o(1), of k _ ka] l(1) by auto
qed

section \<open>The descent to a leaf\<close>

definition leaf_place :: "'k stl_rbtree \<Rightarrow> nat \<Rightarrow> 'k \<Rightarrow> nat \<Rightarrow> 'k rbt \<Rightarrow> bool" where
  "leaf_place t x k a tr \<longleftrightarrow> (\<exists>p lt c kp s cs. insert_place t x a = Some (p, lt) \<and> at_pos t (Crumb lt p c kp s # cs) Lf \<and>
    plug (Crumb lt p c kp s # cs) Lf = tr \<and>
    (\<forall>y\<in>set (before (Crumb lt p c kp s # cs)). \<not> rb_cmp t (Some k) (snd y) < 0) \<and>
    (\<forall>y\<in>set (behind (Crumb lt p c kp s # cs)). rb_cmp t (Some k) (snd y) < 0))"

lemma insert_place_ok:
  assumes "at_pos t cs (Br a c ka l r)" "rb_nodes t x = Some n" "rb_key n = Some k"
    "orders (rb_cmp t)" "in_order (rb_cmp t) (inorder (plug cs (Br a c ka l r)))"
    "\<forall>y\<in>set (before cs). \<not> rb_cmp t (Some k) (snd y) < 0" "\<forall>y\<in>set (behind cs). rb_cmp t (Some k) (snd y) < 0"
  shows "leaf_place t x k a (plug cs (Br a c ka l r))"
  using assms
proof (induction "Br a c ka l r" arbitrary: cs a c ka l r)
  case (Br a c ka l r)
  note pos = Br.prems(1) and srt = Br.prems(4,5)
  define lt where "lt \<longleftrightarrow> rb_cmp t (Some k) ka < 0"
  define d where "d = (if lt then l else r)"
  define cs' where "cs' = Crumb lt a c ka (if lt then r else l) # cs"
  have io: "inorder (plug cs (Br a c ka l r)) = (before cs @ inorder l) @ (a, ka) # inorder r @ behind cs"
    by (simp add: inorder_plug)
  obtain ka' where ka: "ka = Some ka'" using srt(2) unfolding io by (cases ka) (auto simp: in_order_def)
  have srt': "in_order (rb_cmp t) ((before cs @ inorder l) @ (a, Some ka') # inorder r @ behind cs)"
    using srt(2) io ka by simp
  note sp = in_order_split [OF srt(1) srt', of k, folded ka, folded lt_def]
  have pos': "at_pos t cs' d" using pos by (auto simp: cs'_def d_def move_left [symmetric] move_right [symmetric])
  have pl: "plug cs' d = plug cs (Br a c ka l r)" by (simp add: cs'_def d_def mk_def)
  have bb: "\<forall>y\<in>set (before cs'). \<not> rb_cmp t (Some k) (snd y) < 0" "\<forall>y\<in>set (behind cs'). rb_cmp t (Some k) (snd y) < 0"
    using sp Br.prems(6,7) lt_def by (auto simp: cs'_def)
  have kx: "rb_get rb_key t (Some x) = Some (Some k)" using Br.prems(2,3) by (simp add: rb_ops)
  have step: "insert_place t x a = (if ptr_of t d = rb_sentinel t then Some (a, lt)
      else Option.bind (ptr_of t d) (insert_place t x))"
    by (subst insert_place.simps) (use kx get_children [OF pos] in \<open>simp add: lt_def d_def Let_def\<close>)
  show ?case
  proof (cases d)
    case Lf
    then have "insert_place t x a = Some (a, lt)" using step by simp
    then show ?thesis using pos' pl bb unfolding Lf cs'_def leaf_place_def by blast
  next
    case d: (Br a' c' k' l' r')
    have "leaf_place t x k a' (plug cs' d)"
    proof (cases "lt")
      case True
      then have "l = Br a' c' k' l' r'" using d by (simp add: d_def)
      then show ?thesis using Br.hyps(1) [of a' c' k' l' r' cs'] Br.prems(2-5) d pos' pl bb by simp
    next
      case False
      then have "r = Br a' c' k' l' r'" using d by (simp add: d_def)
      then show ?thesis using Br.hyps(2) [of a' c' k' l' r' cs'] Br.prems(2-5) d pos' pl bb by simp
    qed
    moreover have "insert_place t x a = insert_place t x a'"
      using step pos' d by (auto simp: at_pos_def shape_Br)
    ultimately show ?thesis unfolding pl leaf_place_def by simp
  qed
qed

section \<open>Insertion\<close>

lemma link_ok:
  assumes pos: "at_pos t (Crumb b p c k s # cs) Lf" and x: "rb_nodes t x = Some n" "rb_key n = kx"
    "x \<notin> pos_addrs (Crumb b p c k s # cs) Lf" "rb_sentinel t \<noteq> Some x"
    and ip: "insert_place t x a = Some (p, b)"
  shows "\<exists>t'. stl_rbtree_insert_value a x t = Some t' \<and> at_pos t' (Crumb b p c k s # cs) (Br x True kx Lf Lf) \<and>
    keeps (insert x (pos_addrs (Crumb b p c k s # cs) Lf)) t t'"
proof -
  obtain np where np: "rb_nodes t p = Some np" "rb_color np = c" "rb_key np = k" "rb_sentinel t \<noteq> Some p"
    "(if b then rb_left np = rb_sentinel t \<and> shape (rb_nodes t) (rb_sentinel t) (rb_right np) (Some p) s
      else rb_right np = rb_sentinel t \<and> shape (rb_nodes t) (rb_sentinel t) (rb_left np) (Some p) s)"
    "around (rb_nodes t) (rb_sentinel t) (rb_root t) (Some p) (rb_parent np) cs"
    "distinct (crumb_addrs (Crumb b p c k s # cs))"
    using pos by (auto simp: at_pos_def around_Cons)
  show ?thesis
    by (cases b) (use np x ip in \<open>simp_all add: stl_rbtree_insert_value_def rb_ops at_pos_def shape_Br around_Cons keeps_def\<close>)
qed

lemma sentinel_not_node: "at_pos t cs f \<Longrightarrow> x \<in> pos_addrs cs f \<Longrightarrow> rb_sentinel t \<noteq> Some x"
  unfolding at_pos_def using shape_not_sentinel around_not_sentinel by (metis Un_iff)

lemma keeps_sentinel_ok:
  "keeps A t t' \<Longrightarrow> sentinel_ok t \<Longrightarrow> (\<And>x. x \<in> A \<Longrightarrow> rb_sentinel t \<noteq> Some x) \<Longrightarrow> sentinel_ok t'"
  unfolding keeps_def sentinel_ok_def by metis

lemma insert_value_ok:
  assumes r: "rb_repr t (Br a c ka l r)" and x: "rb_nodes t x = Some n" "rb_key n = Some k"
    "x \<notin> fst ` set (inorder (Br a c ka l r))" "rb_sentinel t \<noteq> Some x"
    and o: "orders (rb_cmp t)" "in_order (rb_cmp t) (inorder (Br a c ka l r))"
  shows "\<exists>t' cs. stl_rbtree_insert_value a x t = Some t' \<and> ctxc cs \<and> ctxh cs 0 \<and>
    here t t' cs (Br x True (Some k) Lf Lf) (put (rb_cmp t) (x, Some k) (inorder (Br a c ka l r)))"
proof -
  have pos: "at_pos t [] (Br a c ka l r)" using r unfolding rb_repr_def by blast
  from insert_place_ok [OF pos x(1,2) o(1)] o(2) have "leaf_place t x k a (Br a c ka l r)" by simp
  then obtain p lt c' kp s cs' where
    ip: "insert_place t x a = Some (p, lt)" and at: "at_pos t (Crumb lt p c' kp s # cs') Lf"
    and pl: "plug (Crumb lt p c' kp s # cs') Lf = Br a c ka l r"
    and bb: "\<forall>y\<in>set (before (Crumb lt p c' kp s # cs')). \<not> rb_cmp t (Some k) (snd y) < 0"
    "\<forall>y\<in>set (behind (Crumb lt p c' kp s # cs')). rb_cmp t (Some k) (snd y) < 0"
    unfolding leaf_place_def by blast
  let ?cs = "Crumb lt p c' kp s # cs'"
  have A: "pos_addrs ?cs Lf = fst ` set (inorder (Br a c ka l r))" unfolding pos_addrs_inorder pl ..
  from link_ok [OF at x(1,2) x(3) [folded A] x(4) ip] obtain t' where
    t': "stl_rbtree_insert_value a x t = Some t'" "at_pos t' ?cs (Br x True (Some k) Lf Lf)"
    "keeps (insert x (pos_addrs ?cs Lf)) t t'" by blast
  have s: "sentinel_ok t'"
    using keeps_sentinel_ok [OF t'(3)] r sentinel_not_node [OF at] x(4) by (auto simp: rb_repr_def)
  have "inorder (Br a c ka l r) = before ?cs @ behind ?cs" using inorder_plug [of ?cs Lf] unfolding pl by simp
  then have io: "put (rb_cmp t) (x, Some k) (inorder (Br a c ka l r)) = inorder (plug ?cs (Br x True (Some k) Lf Lf))"
    unfolding inorder_plug using put_append [of "before ?cs" "rb_cmp t" "(x, Some k)" "behind ?cs"] bb by simp
  have h: "here t t' ?cs (Br x True (Some k) Lf Lf) (put (rb_cmp t) (x, Some k) (inorder (Br a c ka l r)))"
    unfolding here_def using t'(2,3) s io [symmetric] A by simp
  have "ctxc ?cs" "ctxh ?cs 0"
    using r invc_plugD [of ?cs Lf] invh_plug [of ?cs Lf] unfolding pl rb_repr_def by auto
  then show ?thesis using t'(1) h by blast
qed

lemma insert_represents:
  assumes r: "rb_repr t tr" and x: "rb_nodes t x = Some n" "rb_key n = Some k"
    "x \<notin> fst ` set (inorder tr)" "rb_sentinel t \<noteq> Some x"
    and o: "orders (rb_cmp t)" "in_order (rb_cmp t) (inorder tr)"
  shows "\<exists>t' tr'. stl_rbtree_insert t x = Some (0, t') \<and> rb_repr t' tr' \<and>
    inorder tr' = put (rb_cmp t) (x, Some k) (inorder tr) \<and> keeps (insert x (fst ` set (inorder tr))) t t'"
proof (cases tr)
  case Lf
  define tr' where "tr' = Br x False (Some k) Lf (Lf :: 'a rbt)"
  have rt: "rb_root t = rb_sentinel t" using r Lf by (simp add: rb_repr_def at_pos_def)
  define t' where "t' = t\<lparr>rb_root := Some x, rb_nodes := (rb_nodes t)(x \<mapsto>
    n\<lparr>rb_parent := None, rb_left := rb_sentinel t, rb_right := rb_sentinel t, rb_color := False\<rparr>)\<rparr>"
  have "stl_rbtree_insert t x = Some (0, t')" using x(1) rt by (simp add: stl_rbtree_insert_def rb_ops t'_def)
  moreover have "keeps {x} t t'" by (simp add: keeps_def t'_def)
  moreover have "rb_repr t' tr'"
    using x keeps_sentinel_ok [OF calculation(2)] r by (simp add: rb_repr_def at_pos_def shape_Br t'_def tr'_def)
  ultimately show ?thesis using Lf by (intro exI [of _ t'] exI [of _ tr']) (simp add: tr'_def)
next
  case (Br a c ka l r')
  note tr = Br
  let ?io = "put (rb_cmp t) (x, Some k) (inorder tr)"
  have rt: "rb_root t = Some a" "rb_root t \<noteq> rb_sentinel t" using r tr by (auto simp: rb_repr_def at_pos_def shape_Br)
  obtain t1 cs where t1: "stl_rbtree_insert_value a x t = Some t1" "ctxc cs" "ctxh cs 0"
    "here t t1 cs (mk True x True (Some k) Lf Lf) ?io"
    using insert_value_ok r x o unfolding tr mk_def by (metis (full_types))
  obtain t2 tr2 where t2: "insert_fixup x t1 = Some t2" and b: "here t t2 [] tr2 ?io" "invc tr2" "invh tr2" "tr2 \<noteq> Lf"
    using insert_fixup_ok [OF t1(4)] t1(2,3) by (auto simp: balanced_def mk_def)
  obtain g kg lg rg where m: "tr2 = mk True g (col tr2) kg lg rg" using mk_cases [OF b(4)] by blast
  obtain t3 where t3: "stl_rbt_black (Some g) t2 = Some t3" "here t t3 [] (mk True g False kg lg rg) ?io"
    using here_black b(1) m by metis
  have root: "rb_root t2 = Some g" using here_root [of t t2 "[]" True g] b(1) m by metis
  have inv: "invc (mk True g False kg lg rg)" "invh (mk True g False kg lg rg)"
    using b(2,3) unfolding m [symmetric] by (metis m mk_simps(4), metis m mk_simps(3))
  have "stl_rbtree_insert t x = Some (0, t3)" using t1(1) t2 t3(1) rt root by (simp add: stl_rbtree_insert_def)
  moreover have "keeps (insert x (fst ` set (inorder tr))) t t3" using t3(2) by (simp add: here_def)
  ultimately show ?thesis
    using t3(2) inv by (intro exI [of _ t3] exI [of _ "mk True g False kg lg rg"]) (simp add: rb_repr_def here_def)
qed

section \<open>Search\<close>

text \<open>The answer to a search: a node with an equal key, or none when there is no such node.\<close>

definition answers :: "('k option \<Rightarrow> 'k option \<Rightarrow> int) \<Rightarrow> 'k option \<Rightarrow> (nat \<times> 'k option) list \<Rightarrow> ptr \<Rightarrow> bool" where
  "answers cmp key io q = (case q of None \<Rightarrow> \<forall>e\<in>set io. cmp (snd e) key \<noteq> 0
     | Some a \<Rightarrow> \<exists>e\<in>set io. fst e = a \<and> cmp (snd e) key = 0)"

lemma answers_cong: "set xs = set ys \<Longrightarrow> answers cmp key xs q = answers cmp key ys q"
  by (cases q) (simp_all add: answers_def)

lemma answers_part:
  assumes "answers cmp key ys q" "set ys \<subseteq> set io" "\<And>e. e \<in> set io \<Longrightarrow> e \<notin> set ys \<Longrightarrow> cmp (snd e) key \<noteq> 0"
  shows "answers cmp key io q"
  using assms by (cases q) (auto simp: answers_def)

lemma search_ok:
  assumes "shape (rb_nodes t) (rb_sentinel t) p par f" "sentinel_ok t" "orders (rb_cmp t)"
    "in_order (rb_cmp t) (inorder f)" "rb_cmp t None (Some k) \<noteq> 0"
  shows "\<exists>q. search_loop t (Some k) p = Some q \<and> answers (rb_cmp t) (Some k) (inorder f) q"
  using assms(1,4)
proof (induction f arbitrary: p par)
  case Lf
  obtain s n where s: "p = Some s" "rb_nodes t s = Some n" "rb_key n = None" "rb_left n = None" "rb_right n = None"
    using assms(2) Lf.prems(1) by (auto simp: sentinel_ok_def)
  have none: "search_loop t (Some k) None = Some None" by (subst search_loop.simps) simp
  have "search_loop t (Some k) p = Some None"
    by (subst search_loop.simps) (use s none assms(5) in \<open>simp add: rb_at_def\<close>)
  then show ?case by (simp add: answers_def)
next
  case (Br a c ka l r)
  note cmp = cmp_flip [OF assms(3)] cmp_trans [OF assms(3)] cmp_less_trans [OF assms(3)]
  obtain n where n: "p = Some a" "rb_nodes t a = Some n" "rb_key n = ka"
    "shape (rb_nodes t) (rb_sentinel t) (rb_left n) (Some a) l" "shape (rb_nodes t) (rb_sentinel t) (rb_right n) (Some a) r"
    using Br.prems(1) by (auto simp: shape_Br)
  obtain ka' where ka: "ka = Some ka'" using Br.prems(2) by (cases ka) (auto simp: in_order_def)
  have io12: "in_order (rb_cmp t) (inorder l)" "in_order (rb_cmp t) (inorder r)"
    and le: "\<And>e. e \<in> set (inorder l) \<Longrightarrow> snd e \<noteq> None \<and> rb_cmp t (snd e) (Some ka') \<le> 0"
    "\<And>e. e \<in> set (inorder r) \<Longrightarrow> snd e \<noteq> None \<and> rb_cmp t (Some ka') (snd e) \<le> 0"
    using Br.prems(2) ka by (auto simp: in_order_def sorted_wrt_append)
  have io: "in_order (rb_cmp t) (inorder l)" "in_order (rb_cmp t) (inorder r)"
    "\<And>e. e \<in> set (inorder l) \<Longrightarrow> \<exists>ke. snd e = Some ke \<and> rb_cmp t (Some ke) (Some ka') \<le> 0"
    "\<And>e. e \<in> set (inorder r) \<Longrightarrow> \<exists>ke. snd e = Some ke \<and> rb_cmp t (Some ka') (Some ke) \<le> 0"
    using io12 le by (metis not_None_eq)+
  have step: "search_loop t (Some k) p = (if rb_cmp t ka (Some k) = 0 then Some p
      else if rb_cmp t (Some k) ka > 0 then search_loop t (Some k) (rb_right n) else search_loop t (Some k) (rb_left n))"
    by (subst search_loop.simps) (use n in \<open>simp add: rb_at_def\<close>)
  consider "rb_cmp t ka (Some k) = 0" | "rb_cmp t ka (Some k) < 0" "rb_cmp t (Some k) ka > 0"
    | "rb_cmp t ka (Some k) \<noteq> 0" "rb_cmp t (Some k) ka < 0"
    using assms(3) ka unfolding orders_def by (metis linorder_less_linear not_less_iff_gr_or_eq)
  then show ?case
  proof cases
    case 1
    then show ?thesis using step n(1) by (auto simp: answers_def)
  next
    case 2
    have "rb_cmp t (snd e) (Some k) \<noteq> 0" if e: "e \<in> set (inorder l)" for e
    proof -
      obtain ke where "snd e = Some ke" "rb_cmp t (Some ke) (Some ka') \<le> 0" using io(3) [OF e] by blast
      then show ?thesis using cmp(1) [of k ka'] cmp(1) [of k ke] cmp(2) [of k ke ka'] 2 ka by auto
    qed
    then have "answers (rb_cmp t) (Some k) (inorder (Br a c ka l r)) q"
      if "answers (rb_cmp t) (Some k) (inorder r) q" for q
      by (intro answers_part [OF that]) (use 2 in auto)
    then show ?thesis using Br.IH(2) [OF n(5) io(2)] step 2 by (auto simp del: inorder.simps)
  next
    case 3
    have "rb_cmp t (snd e) (Some k) \<noteq> 0" if e: "e \<in> set (inorder r)" for e
    proof -
      obtain ke where "snd e = Some ke" "rb_cmp t (Some ka') (Some ke) \<le> 0" using io(4) [OF e] by blast
      then show ?thesis using cmp(3) [of k ka' ke] cmp(1) [of ke k] 3(2) ka by auto
    qed
    then have "answers (rb_cmp t) (Some k) (inorder (Br a c ka l r)) q"
      if "answers (rb_cmp t) (Some k) (inorder l) q" for q
      by (intro answers_part [OF that]) (use 3 in auto)
    then show ?thesis using Br.IH(1) [OF n(4) io(1)] step 3 by (auto simp del: inorder.simps)
  qed
qed

section \<open>Height\<close>

fun rb_height :: "'k rbt \<Rightarrow> nat" where
  "rb_height Lf = 0"
| "rb_height (Br a c k l r) = Suc (max (rb_height l) (rb_height r))"

lemma height_bheight: "invc f \<Longrightarrow> invh f \<Longrightarrow> rb_height f \<le> 2 * bheight f + (if col f then 1 else 0)"
  by (induction f) (auto split: if_splits)

lemma bheight_size: "invh f \<Longrightarrow> 2 ^ bheight f \<le> length (inorder f) + 1"
proof (induction f)
  case (Br a c k l r)
  have "(2 :: nat) ^ bheight r \<le> 2 ^ bheight r + 2 ^ bheight r" by simp
  then show ?case using Br by auto
qed simp

lemma rb_height_bound:
  assumes "rb_repr t f"
  shows "2 ^ ((rb_height f + 1) div 2) \<le> length (inorder f) + 1"
proof -
  have "(rb_height f + 1) div 2 \<le> bheight f" using height_bheight [of f] assms by (auto simp: rb_repr_def)
  then have "(2 :: nat) ^ ((rb_height f + 1) div 2) \<le> 2 ^ bheight f" by (rule power_increasing) simp
  also have "\<dots> \<le> length (inorder f) + 1" using bheight_size [of f] assms unfolding rb_repr_def by blast
  finally show ?thesis .
qed

section \<open>A sequence of insertions\<close>

fun insert_all :: "'k stl_rbtree \<Rightarrow> nat list \<Rightarrow> 'k stl_rbtree option" where
  "insert_all t [] = Some t"
| "insert_all t (x # xs) = do { (r, t) \<leftarrow> stl_rbtree_insert t x; insert_all t xs }"

text \<open>The entry of a node that is still outside the tree.\<close>

definition entry :: "'k stl_rbtree \<Rightarrow> nat \<Rightarrow> nat \<times> 'k option" where
  "entry t x = (x, case rb_nodes t x of None \<Rightarrow> None | Some n \<Rightarrow> rb_key n)"

lemma insert_all_ok:
  assumes "rb_repr t tr" "orders (rb_cmp t)" "in_order (rb_cmp t) (inorder tr)" "distinct xs"
    "\<And>x. x \<in> set xs \<Longrightarrow> snd (entry t x) \<noteq> None \<and> x \<notin> fst ` set (inorder tr) \<and> rb_sentinel t \<noteq> Some x"
  shows "\<exists>t' tr'. insert_all t xs = Some t' \<and> rb_repr t' tr' \<and> rb_cmp t' = rb_cmp t \<and>
    inorder tr' = fold (\<lambda>x. put (rb_cmp t) (entry t x)) xs (inorder tr) \<and> in_order (rb_cmp t) (inorder tr')"
  using assms
proof (induction xs arbitrary: t tr)
  case (Cons x xs)
  obtain n k where n: "rb_nodes t x = Some n" "rb_key n = Some k" and e: "entry t x = (x, Some k)"
    using Cons.prems(5) [of x] by (auto simp: entry_def split: option.splits)
  from insert_represents [OF Cons.prems(1) n _ _ Cons.prems(2,3)] Cons.prems(5) [of x] obtain t1 tr1 where
    t1: "stl_rbtree_insert t x = Some (0, t1)" "rb_repr t1 tr1" "inorder tr1 = put (rb_cmp t) (x, Some k) (inorder tr)"
    "keeps (insert x (fst ` set (inorder tr))) t t1" by auto
  have c: "rb_cmp t1 = rb_cmp t" "rb_sentinel t1 = rb_sentinel t" using t1(4) by (auto simp: keeps_def)
  have other: "entry t1 y = entry t y" if "y \<in> set xs" for y
    using t1(4) Cons.prems(4,5) that by (fastforce simp: keeps_def entry_def)
  have f: "fold (\<lambda>x. put (rb_cmp t) (entry t1 x)) xs io = fold (\<lambda>x. put (rb_cmp t) (entry t x)) xs io" for io
    by (rule fold_cong) (simp_all add: other)
  have "\<exists>t' tr'. insert_all t1 xs = Some t' \<and> rb_repr t' tr' \<and> rb_cmp t' = rb_cmp t1 \<and>
    inorder tr' = fold (\<lambda>x. put (rb_cmp t1) (entry t1 x)) xs (inorder tr1) \<and> in_order (rb_cmp t1) (inorder tr')"
    using Cons.prems(2-5) other t1(3) c in_order_put [OF Cons.prems(2,3), of x k]
    by (intro Cons.IH t1(2)) (auto simp: image_iff)
  then show ?case unfolding c f by (simp add: t1(1,3) e)
qed auto

lemma set_fold_put: "mset (fold (\<lambda>x. put cmp (g x)) xs io) = mset (map g xs) + mset io"
proof (induction xs arbitrary: io)
  case (Cons x xs)
  have "mset (put cmp e ys) = add_mset e (mset ys)" for e ys by (induction ys) auto
  then show ?case using Cons by simp
qed simp

section \<open>Deletion of a red leaf\<close>

lemma col_plug: "cs \<noteq> [] \<Longrightarrow> col (plug cs f) = col (plug cs g)"
proof (induction cs arbitrary: f g)
  case (Cons c cs)
  obtain b a d k s where c: "c = Crumb b a d k s" by (cases c)
  show ?case using Cons.IH by (cases "cs = []") (simp_all add: c)
qed simp

lemma delete_red_leaf:
  assumes pos: "at_pos t (Crumb b p c k s # cs) (Br x True kx Lf Lf)" and so: "sentinel_ok t"
  shows "\<exists>t'. stl_rbtree_delete mn t x = Some (None, t') \<and> at_pos t' (Crumb b p c k s # cs) Lf \<and> sentinel_ok t'"
proof -
  obtain sn ns where sn: "rb_sentinel t = Some sn" "rb_nodes t sn = Some ns" "\<not> rb_color ns" "rb_key ns = None"
    "rb_left ns = None" "rb_right ns = None" using so by (auto simp: sentinel_ok_def)
  obtain np nx where np: "rb_nodes t p = Some np" "rb_color np = c" "rb_key np = k" "rb_sentinel t \<noteq> Some p"
    "(if b then rb_left np = Some x \<and> shape (rb_nodes t) (rb_sentinel t) (rb_right np) (Some p) s
      else rb_right np = Some x \<and> shape (rb_nodes t) (rb_sentinel t) (rb_left np) (Some p) s)"
    "around (rb_nodes t) (rb_sentinel t) (rb_root t) (Some p) (rb_parent np) cs"
    and nx: "rb_nodes t x = Some nx" "rb_color nx" "rb_key nx = kx" "rb_parent nx = Some p" "rb_sentinel t \<noteq> Some x"
    "rb_left nx = rb_sentinel t" "rb_right nx = rb_sentinel t"
    and d: "distinct (crumb_addrs (Crumb b p c k s # cs) @ addrs (Br x True kx Lf Lf))"
    using pos by (auto simp: at_pos_def around_Cons shape_Br)
  have rt: "rb_root t \<noteq> Some x" using root_at [OF pos] by auto
  have S: "sn \<notin> pos_addrs (Crumb b p c k s # cs) (Br x True kx Lf Lf)" using sentinel_not_node [OF pos] sn(1) by blast
  have side: "b = False \<Longrightarrow> rb_left np \<noteq> Some x" using np(5) nx(5) d by (auto dest: shape_ptr [of _ _ _ _ _ x])
  show ?thesis
  proof (cases b)
    case True
    then show ?thesis
      using np nx d rt S sn by (simp add: stl_rbtree_delete_def delete_choose_def rb_ops set_field_def
        delete_clear_def at_pos_def around_Cons sentinel_ok_def)
  next
    case False
    then show ?thesis
      using np nx d rt S sn side by (simp add: stl_rbtree_delete_def delete_choose_def rb_ops set_field_def
        delete_clear_def at_pos_def around_Cons sentinel_ok_def)
  qed
qed

section \<open>What the tree promises\<close>

text \<open>C24: Insertion into a red-black tree returns 0 and gives a red-black tree again (consistent links, black root,
  no red node below a red one, equal black heights), with the new node at its place in the order of the
  keys, after the nodes with an equal key.\<close>

theorem rbtree_insert_correct:
  assumes "rb_repr t tr" "orders (rb_cmp t)" "in_order (rb_cmp t) (inorder tr)"
    "rb_nodes t x = Some n" "rb_key n = Some k" "x \<notin> fst ` set (inorder tr)" "rb_sentinel t \<noteq> Some x"
  shows "\<exists>t' tr'. stl_rbtree_insert t x = Some (0, t') \<and> rb_repr t' tr' \<and>
    inorder tr' = put (rb_cmp t) (x, Some k) (inorder tr) \<and> in_order (rb_cmp t) (inorder tr')"
  using insert_represents [OF assms(1,4-7,2,3)] in_order_put [OF assms(2,3)] by metis

definition int_cmp :: "int option \<Rightarrow> int option \<Rightarrow> int" where
  "int_cmp a b = (case a of None \<Rightarrow> (case b of None \<Rightarrow> 0 | Some y \<Rightarrow> -1)
     | Some x \<Rightarrow> (case b of None \<Rightarrow> 1 | Some y \<Rightarrow> x - y))"

lemma orders_int_cmp [simp]: "orders int_cmp"
  by (auto simp: orders_def int_cmp_def)

definition loose :: "int \<Rightarrow> int stl_rbtree_node" where
  "loose k = \<lparr>rb_key = Some k, rb_left = None, rb_right = None, rb_parent = None, rb_color = False, rb_data = None\<rparr>"

definition sample_tree :: "int stl_rbtree" where
  "sample_tree = \<lparr>rb_root = Some 0, rb_sentinel = Some 0, rb_cmp = int_cmp, rb_nodes = [
     0 \<mapsto> \<lparr>rb_key = None, rb_left = None, rb_right = None, rb_parent = None, rb_color = False, rb_data = None\<rparr>,
     1 \<mapsto> loose 10, 2 \<mapsto> loose 20, 3 \<mapsto> loose 30, 4 \<mapsto> loose 15]\<rparr>"

lemma sample_tree_repr: "rb_repr sample_tree Lf"
  by (simp add: rb_repr_def at_pos_def sentinel_ok_def sample_tree_def)

lemma sample_tree_simps [simp]: "rb_cmp sample_tree = int_cmp" "rb_sentinel sample_tree = Some 0"
  "rb_nodes sample_tree 1 = Some (loose 10)" "rb_nodes sample_tree (Suc 0) = Some (loose 10)"
  "rb_nodes sample_tree 2 = Some (loose 20)"
  "rb_nodes sample_tree 3 = Some (loose 30)" "rb_nodes sample_tree 4 = Some (loose 15)" "rb_key (loose k) = Some k"
  by (simp_all add: sample_tree_def loose_def)

theorem rbtree_insert_correct_witness:
  "\<exists>t' tr'. stl_rbtree_insert sample_tree 1 = Some (0, t') \<and> rb_repr t' tr' \<and>
    inorder tr' = put int_cmp (1, Some 10) [] \<and> in_order int_cmp (inorder tr')"
  using rbtree_insert_correct [OF sample_tree_repr, of 1 "loose 10" 10] by (simp add: in_order_def)

text \<open>The library creates a tree with a NULL root and never sets it; a user who makes the sentinel the root
  has an empty tree.\<close>

lemma rbtree_alloc_then_root:
  assumes "stl_rbtree_alloc s heap cmp = Some (Some t)"
  shows "rb_repr (t\<lparr>rb_root := rb_sentinel t\<rparr>) Lf" "rb_cmp t = cmp" "rb_sentinel t = Some s"
    "x \<noteq> s \<Longrightarrow> rb_nodes t x = heap x"
  using assms by (auto simp: stl_rbtree_alloc_def stl_rbtree_init_def rb_ops rb_repr_def at_pos_def sentinel_ok_def)

text \<open>C26: Insertions into an empty tree whose root is the sentinel. The caller must have set the root so: the
  library creates trees with a NULL root, and the first insertion into one crashes
  (\<open>rbtree_fresh_insert_crashes\<close>). For nodes that have a key and are inserted once each, and a comparison that is
  a total preorder of keys, the tree holds exactly the inserted nodes, in the order of
  their keys; its height is at most twice the logarithm of their number (a tree of height \<open>h\<close> has
  at least \<open>2 ^ (h / 2) - 1\<close> nodes, the half rounded up); and a search for a key that the comparison does not
  take for equal to NULL, the key of the sentinel, returns a node with an equal key
  if one was inserted, and NULL otherwise.\<close>

theorem rbtree_build_search:
  assumes "rb_repr t Lf" "orders (rb_cmp t)" "distinct xs"
    "\<forall>x\<in>set xs. snd (entry t x) \<noteq> None \<and> rb_sentinel t \<noteq> Some x"
  shows "\<exists>t' tr'. insert_all t xs = Some t' \<and> rb_repr t' tr' \<and> in_order (rb_cmp t) (inorder tr') \<and>
    mset (inorder tr') = mset (map (entry t) xs) \<and> 2 ^ ((rb_height tr' + 1) div 2) \<le> length xs + 1 \<and>
    (\<forall>k. rb_cmp t None (Some k) \<noteq> 0 \<longrightarrow> (\<exists>q. stl_btree_search (Some t') (Some k) = Some q \<and>
       answers (rb_cmp t) (Some k) (map (entry t) xs) q))"
proof -
  from insert_all_ok [OF assms(1,2) _ assms(3)] assms(4) obtain t' tr' where
    b: "insert_all t xs = Some t'" "rb_repr t' tr'" "rb_cmp t' = rb_cmp t" "in_order (rb_cmp t) (inorder tr')"
    "inorder tr' = fold (\<lambda>x. put (rb_cmp t) (entry t x)) xs []" by (auto simp: in_order_def)
  have m: "mset (inorder tr') = mset (map (entry t) xs)" using b(5) set_fold_put [of "rb_cmp t" "entry t" xs "[]"] by simp
  have l: "length (inorder tr') = length xs" using arg_cong [OF m, of size] by simp
  have s: "set (inorder tr') = set (map (entry t) xs)" using mset_eq_setD [OF m] .
  obtain par where sh: "shape (rb_nodes t') (rb_sentinel t') (rb_root t') par tr'" "sentinel_ok t'"
    using b(2) by (auto simp: rb_repr_def at_pos_def)
  have "\<exists>q. stl_btree_search (Some t') (Some k) = Some q \<and> answers (rb_cmp t) (Some k) (map (entry t) xs) q"
    if "rb_cmp t None (Some k) \<noteq> 0" for k
    using search_ok [OF sh] assms(2) b(3,4) answers_cong [OF s] that by (simp add: stl_btree_search_def)
  then show ?thesis using b m rb_height_bound [OF b(2)] l by auto
qed

theorem rbtree_build_search_witness:
  "\<exists>t' tr'. insert_all sample_tree [1, 2, 3, 4] = Some t' \<and> rb_repr t' tr' \<and> rb_height tr' \<le> 4 \<and>
    stl_btree_search (Some t') (Some 30) = Some (Some 3)"
proof -
  have e: "\<forall>x\<in>set [1, 2, 3, 4]. snd (entry sample_tree x) \<noteq> None \<and> rb_sentinel sample_tree \<noteq> Some x"
    by (simp add: entry_def)
  obtain t' tr' where b: "insert_all sample_tree [1, 2, 3, 4] = Some t'" "rb_repr t' tr'"
    "2 ^ ((rb_height tr' + 1) div 2) \<le> length [1 :: nat, 2, 3, 4] + 1"
    and q: "\<forall>k. int_cmp None (Some k) \<noteq> 0 \<longrightarrow> (\<exists>q. stl_btree_search (Some t') (Some k) = Some q \<and>
       answers int_cmp (Some k) (map (entry sample_tree) [1, 2, 3, 4]) q)"
    using rbtree_build_search [OF sample_tree_repr, of "[1, 2, 3, 4]"] e by auto
  obtain q where q: "stl_btree_search (Some t') (Some 30) = Some q"
    "answers int_cmp (Some 30) (map (entry sample_tree) [1, 2, 3, 4]) q" using q by (auto simp: int_cmp_def)
  have "q = Some 3" using q(2) by (cases q) (auto simp: answers_def entry_def int_cmp_def)
  moreover have "rb_height tr' \<le> 4"
  proof (rule ccontr)
    assume "\<not> rb_height tr' \<le> 4"
    then have "(2 :: nat) ^ 3 \<le> 2 ^ ((rb_height tr' + 1) div 2)" by (intro power_increasing) auto
    then show False using b(3) by simp
  qed
  ultimately show ?thesis using b q(1) by auto
qed

text \<open>A tree as the library creates it cannot be inserted into: its root is NULL, the test for an empty tree
  compares the root with the sentinel, and the descent starts at the NULL root.\<close>

theorem rbtree_fresh_insert_crashes:
  "do { made \<leftarrow> stl_rbtree_alloc s heap cmp; t \<leftarrow> made; stl_rbtree_insert t x } = None"
  by (simp add: stl_rbtree_alloc_def stl_rbtree_init_def rb_ops stl_rbtree_insert_def Let_def)

text \<open>Deleting a red leaf unlinks it and leaves the rest of the red-black tree as it was, but
  the function leaves without a return value.\<close>

theorem rbtree_delete_red_leaf:
  assumes "rb_repr t (plug (Crumb b p c k s # cs) (Br x True kx Lf Lf))"
  shows "\<exists>t'. stl_rbtree_delete mn t x = Some (None, t') \<and> rb_repr t' (plug (Crumb b p c k s # cs) Lf)"
proof -
  let ?cs = "Crumb b p c k s # cs"
  have r: "at_pos t ?cs (Br x True kx Lf Lf)" "sentinel_ok t" "invc (plug ?cs (Br x True kx Lf Lf))"
    "invh (plug ?cs (Br x True kx Lf Lf))" "\<not> col (plug ?cs (Br x True kx Lf Lf))"
    using assms at_pos_plug [of t ?cs] unfolding rb_repr_def by auto
  have "ctxc ?cs" "ctxh ?cs 0" using invc_plugD [OF r(3,5)] r(4) invh_plug [of ?cs] by auto
  then have "invc (plug ?cs Lf)" "invh (plug ?cs Lf)" using invc_plug [of ?cs Lf] invh_plug [of ?cs Lf] by auto
  moreover have "col (plug ?cs Lf) = col (plug ?cs (Br x True kx Lf Lf))"
    by (rule col_plug) simp
  ultimately show ?thesis using delete_red_leaf [OF r(1,2), of mn] r(5) at_pos_plug [of _ ?cs] unfolding rb_repr_def by blast
qed

definition sample_two :: "int stl_rbtree" where
  "sample_two = \<lparr>rb_root = Some 1, rb_sentinel = Some 0, rb_cmp = int_cmp, rb_nodes = [
     0 \<mapsto> \<lparr>rb_key = None, rb_left = None, rb_right = None, rb_parent = None, rb_color = False, rb_data = None\<rparr>,
     1 \<mapsto> \<lparr>rb_key = Some 10, rb_left = Some 0, rb_right = Some 2, rb_parent = None, rb_color = False, rb_data = None\<rparr>,
     2 \<mapsto> \<lparr>rb_key = Some 20, rb_left = Some 0, rb_right = Some 0, rb_parent = Some 1, rb_color = True, rb_data = None\<rparr>]\<rparr>"

theorem rbtree_delete_red_leaf_witness:
  "\<exists>t'. stl_rbtree_delete (\<lambda>t p. None) sample_two 2 = Some (None, t') \<and>
    rb_repr t' (Br 1 False (Some 10) Lf Lf)"
  using rbtree_delete_red_leaf [of sample_two False 1 False "Some 10" Lf "[]" 2 "Some 20" "\<lambda>t p. None"]
  by (simp add: rb_repr_def at_pos_def sentinel_ok_def sample_two_def shape_Br mk_def)

end
