(* ===== verification/Rbtree_Delete.thy ===== *)
theory Rbtree_Delete
  imports Rbtree_Map
begin

text \<open>
  Deletion from the red-black tree: the loop that restores the black heights, for both directions at
  once, and the unlinking of a node before it.
\<close>

section \<open>The loop with the direction as an argument\<close>

definition fix_sibling :: "bool \<Rightarrow> ptr \<Rightarrow> ptr \<Rightarrow> 'k stl_rbtree \<Rightarrow> (ptr \<times> 'k stl_rbtree) option" where
  "fix_sibling b temp par t = do {
     w \<leftarrow> rb_get (child (\<not> b)) t par;
     red \<leftarrow> stl_rbt_is_red t w;
     (if red then do {
         t \<leftarrow> stl_rbt_black w t;
         t \<leftarrow> stl_rbt_red par t;
         p \<leftarrow> par;
         t \<leftarrow> rotate b p t;
         par \<leftarrow> rb_get rb_parent t temp;
         w \<leftarrow> rb_get (child (\<not> b)) t par;
         Some (w, t) }
       else Some (w, t)) }"

definition fix_rest :: "bool \<Rightarrow> ptr \<Rightarrow> ptr \<Rightarrow> 'k stl_rbtree \<Rightarrow> 'k stl_rbtree option" where
  "fix_rest b temp w t = do {
     wl \<leftarrow> rb_get rb_left t w;
     wr \<leftarrow> rb_get rb_right t w;
     lred \<leftarrow> stl_rbt_is_red t wl;
     rred \<leftarrow> (if lred then Some True else stl_rbt_is_red t wr);
     if \<not> lred \<and> \<not> rred then do {
       t \<leftarrow> stl_rbt_red w t;
       par \<leftarrow> rb_get rb_parent t temp;
       delete_fixup par t }
     else do {
       fred \<leftarrow> stl_rbt_is_red t (if b then wr else wl);
       (w, t) \<leftarrow> (if \<not> fred then do {
           t \<leftarrow> stl_rbt_black (if b then wl else wr) t;
           t \<leftarrow> stl_rbt_red w t;
           wn \<leftarrow> w;
           t \<leftarrow> rotate (\<not> b) wn t;
           par \<leftarrow> rb_get rb_parent t temp;
           w \<leftarrow> rb_get (child (\<not> b)) t par;
           Some (w, t) }
         else Some (w, t));
       par \<leftarrow> rb_get rb_parent t temp;
       t \<leftarrow> stl_rbt_copy_color w par t;
       t \<leftarrow> stl_rbt_black par t;
       f \<leftarrow> rb_get (child (\<not> b)) t w;
       t \<leftarrow> stl_rbt_black f t;
       p \<leftarrow> par;
       t \<leftarrow> rotate b p t;
       delete_fixup (rb_root t) t } }"

lemma delete_fixup_split:
  "delete_fixup temp t = do {
     red \<leftarrow> (if temp = rb_root t then Some True else stl_rbt_is_red t temp);
     if red then stl_rbt_black temp t
     else do {
       par \<leftarrow> rb_get rb_parent t temp;
       pl \<leftarrow> rb_get rb_left t par;
       (w, t) \<leftarrow> fix_sibling (temp = pl) temp par t;
       fix_rest (temp = pl) temp w t } }"
  unfolding fix_sibling_def fix_rest_def child_def rotate_def
  by (subst delete_fixup.simps, intro Option.bind_cong refl if_cong)
    (rename_tac a par pl, case_tac "temp = pl"; simp add: case_prod_beta cong: if_cong)

text \<open>The parent pointer of the node the loop is at, which may be the sentinel.\<close>

definition up :: "'k stl_rbtree \<Rightarrow> 'k rbt \<Rightarrow> nat \<Rightarrow> bool" where
  "up t f p \<longleftrightarrow> rb_get rb_parent t (ptr_of t f) = Some (Some p)"

lemma ptr_of_here: "here t0 t cs f io \<Longrightarrow> ptr_of t g = ptr_of t0 g"
  by (cases g) (auto simp: here_def keeps_def)

lemma up_keep:
  assumes "here t0 t (Crumb b p c k s # cs) f io" "up t f p" "here t0 t' (Crumb b' p c' k' s' # cs') f io"
  shows "up t' f p"
proof (cases f)
  case Lf
  obtain sn where sn: "rb_sentinel t0 = Some sn" using assms(1) by (auto simp: here_def sentinel_ok_def keeps_def)
  then have "sn \<notin> fst ` set io"
    using assms(1) sentinel_not_node [of t "Crumb b p c k s # cs" f sn] unfolding pos_addrs_inorder
    by (auto simp: here_def keeps_def)
  then have "rb_nodes t' sn = rb_nodes t sn" using assms(1,3) by (simp add: here_def keeps_def)
  then show ?thesis using assms sn Lf by (auto simp: up_def rb_ops here_def keeps_def)
next
  case (Br a ca ka l r)
  then show ?thesis using here_parent [of t0 t' b' p c' k' s' cs' True a ca ka l r io] assms(3)
    by (simp add: up_def mk_def)
qed

lemma up_Br: "here t0 t (Crumb b' p cp kp s # cs) (mk b a c k l r) io \<Longrightarrow> up t (mk b a c k l r) p"
  by (simp add: up_def here_parent)

lemma here_copy:
  assumes h: "here t0 t cs (mk b a c k l r) io" and c: "rb_get rb_color t p = Some c'"
  shows "\<exists>t'. stl_rbt_copy_color (Some a) p t = Some t' \<and> here t0 t' cs (mk b a c' k l r) io"
proof -
  have "stl_rbt_copy_color (Some a) p t = (if c' then stl_rbt_red (Some a) t else stl_rbt_black (Some a) t)"
    using c by (simp add: stl_rbt_copy_color_def stl_rbt_red_def stl_rbt_black_def)
  then show ?thesis using here_red [OF h] here_black [OF h] by simp
qed

section \<open>The cases of the loop\<close>

lemma sibling_black:
  assumes h: "here t0 t (Crumb b p cp kp w # cs) f io" and w: "\<not> col w"
  shows "fix_sibling b (ptr_of t f) (Some p) t = Some (ptr_of t w, t)"
  using here_child [OF h [unfolded here_up]] here_red_at [OF h [unfolded here_sibling [of _ _ b]]] w
  by (simp add: fix_sibling_def)

lemma sibling_red:
  assumes h: "here t0 t (Crumb b p cp kp (mk b wa True kw w1 w2) # cs) f io" and u: "up t f p"
  shows "\<exists>t'. fix_sibling b (ptr_of t f) (Some p) t = Some (ptr_of t' w1, t') \<and>
    here t0 t' (Crumb b p True kp w1 # Crumb b wa False kw w2 # cs) f io"
proof -
  note hw = h [unfolded here_sibling [of _ _ b]]
  obtain t1 where t1: "stl_rbt_black (Some wa) t = Some t1" "here t0 t1 cs (mk b p cp kp f (mk b wa False kw w1 w2)) io"
    using here_black [OF hw] unfolding here_up mk_flip by blast
  obtain t2 where t2: "stl_rbt_red (Some p) t1 = Some t2" "here t0 t2 cs (mk b p True kp f (mk b wa False kw w1 w2)) io"
    using here_red [OF t1(2)] by blast
  have "here t0 t2 cs (mk b p True kp f (mk (\<not> b) wa False kw w2 w1)) io" using t2(2) by (simp add: mk_flip)
  from here_rotate [OF this] obtain t3 where t3: "rotate b p t2 = Some t3"
    "here t0 t3 (Crumb b p True kp w1 # Crumb b wa False kw w2 # cs) f io" unfolding here_up mk_flip by blast
  have "rb_get rb_parent t3 (ptr_of t f) = Some (Some p)"
    using up_keep [OF h u t3(2)] ptr_of_here [OF t3(2), of f] ptr_of_here [OF h, of f] by (simp add: up_def)
  moreover have "rb_get (child (\<not> b)) t3 (Some p) = Some (ptr_of t3 w1)"
    using here_child [OF t3(2) [unfolded here_up [of _ _ b _ _ _ _ "_ # _"]]] by simp
  moreover have "rb_get (child (\<not> b)) t (Some p) = Some (Some wa)" "stl_rbt_is_red t (Some wa) = Some True"
    using here_child [OF h [unfolded here_up]] here_red_at [OF hw] by simp_all
  ultimately show ?thesis using t1(1) t2(1) t3 by (simp add: fix_sibling_def)
qed

lemma children_black:
  assumes h: "here t0 t (Crumb b p cp kp (mk b wa cw kw w1 w2) # cs) f io" and u: "up t f p"
    and bl: "\<not> col w1" "\<not> col w2"
  shows "\<exists>t'. fix_rest b (ptr_of t f) (Some wa) t = delete_fixup (Some p) t' \<and>
    here t0 t' cs (mk b p cp kp f (mk b wa True kw w1 w2)) io"
proof -
  note hw = h [unfolded here_sibling [of _ _ b]]
  obtain t1 where t1: "stl_rbt_red (Some wa) t = Some t1" "here t0 t1 (Crumb b p cp kp (mk b wa True kw w1 w2) # cs) f io"
    using here_red [OF hw] unfolding here_up mk_flip by blast
  have "rb_get rb_parent t1 (ptr_of t f) = Some (Some p)"
    using up_keep [OF h u t1(2)] ptr_of_here [OF t1(2), of f] ptr_of_here [OF h, of f] by (simp add: up_def)
  moreover have "rb_get (child b) t (Some wa) = Some (ptr_of t w1)" "rb_get (child (\<not> b)) t (Some wa) = Some (ptr_of t w2)"
    using here_child [OF hw] by simp_all
  moreover have "stl_rbt_is_red t (ptr_of t w1) = Some False" "stl_rbt_is_red t (ptr_of t w2) = Some False"
    using here_red_at [OF hw [folded here_up]] here_red_at [OF hw [folded here_up, unfolded here_sibling [of _ _ b]]] bl by simp_all
  ultimately show ?thesis
    using t1 by (intro exI [of _ t1]) (cases b; simp add: fix_rest_def child_def here_up)
qed

lemma near_red:
  assumes h: "here t0 t (Crumb b p cp kp (mk b wa False kw (mk b na True kn n1 n2) w2) # cs) f io" and u: "up t f p"
    and bl: "\<not> col w2"
  shows "\<exists>t'. fix_rest b (ptr_of t f) (Some wa) t = fix_rest b (ptr_of t f) (Some na) t' \<and>
    here t0 t' (Crumb b p cp kp (mk b na False kn n1 (mk b wa True kw n2 w2)) # cs) f io"
proof -
  note hw = h [unfolded here_sibling [of _ _ b]]
  obtain t1 where t1: "stl_rbt_black (Some na) t = Some t1"
    "here t0 t1 (Crumb (\<not> b) p cp kp f # cs) (mk b wa False kw (mk b na False kn n1 n2) w2) io"
    using here_black [OF hw [folded here_up [of _ _ _ wa]]] unfolding here_up by blast
  obtain t2 where t2: "stl_rbt_red (Some wa) t1 = Some t2"
    "here t0 t2 (Crumb (\<not> b) p cp kp f # cs) (mk b wa True kw (mk b na False kn n1 n2) w2) io"
    using here_red [OF t1(2)] by blast
  have "here t0 t2 (Crumb (\<not> b) p cp kp f # cs) (mk (\<not> b) wa True kw w2 (mk (\<not> \<not> b) na False kn n1 n2)) io"
    using t2(2) by (simp add: mk_flip)
  from here_rotate [OF this] obtain t3 where t3: "rotate (\<not> b) wa t2 = Some t3"
    "here t0 t3 (Crumb (\<not> b) p cp kp f # cs) (mk b na False kn n1 (mk b wa True kw n2 w2)) io"
    unfolding mk_flip not_not by blast
  have h3: "here t0 t3 (Crumb b p cp kp (mk b na False kn n1 (mk b wa True kw n2 w2)) # cs) f io"
    using t3(2) by (simp add: here_sibling [of _ _ b])
  have p3: "rb_get rb_parent t3 (ptr_of t f) = Some (Some p)" "ptr_of t3 f = ptr_of t f"
    using up_keep [OF h u h3] ptr_of_here [OF h3, of f] ptr_of_here [OF h, of f] by (simp_all add: up_def)
  have w3: "rb_get (child (\<not> b)) t3 (Some p) = Some (Some na)" using here_child [OF h3 [unfolded here_up]] by simp
  have kids: "rb_get (child b) t (Some wa) = Some (Some na)" "rb_get (child (\<not> b)) t (Some wa) = Some (ptr_of t w2)"
    "rb_get (child b) t3 (Some na) = Some (ptr_of t3 n1)" "rb_get (child (\<not> b)) t3 (Some na) = Some (Some wa)"
    using here_child [OF hw] here_child [OF t3(2)] by simp_all
  have c: "stl_rbt_is_red t (Some na) = Some True" "stl_rbt_is_red t (ptr_of t w2) = Some False"
    "stl_rbt_is_red t3 (Some wa) = Some True" "stl_rbt_is_red t3 (ptr_of t3 n1) = Some (col n1)"
    using here_red_at [OF hw [folded here_up [of _ _ _ wa]]] here_red_at [OF hw [folded here_up [of _ _ _ wa], unfolded here_sibling [of _ _ b wa]]] bl
      here_red_at [OF t3(2) [folded here_up [of _ _ _ na]]] here_red_at [OF t3(2) [folded here_up [of _ _ _ na], unfolded here_sibling [of _ _ b na]]]
    by simp_all
  have "fix_rest b (ptr_of t f) (Some wa) t = fix_rest b (ptr_of t f) (Some na) t3"
    using t1(1) t2(1) t3(1) p3 w3 kids c by (cases b) (simp_all add: fix_rest_def child_def)
  then show ?thesis using h3 by blast
qed

lemma far_red:
  assumes h: "here t0 t (Crumb b p cp kp (mk b wa cw kw w1 w2) # cs) f io" and u: "up t f p" and r: "col w2"
  shows "\<exists>t' f2. fix_rest b (ptr_of t f) (Some wa) t = delete_fixup (rb_root t') t' \<and>
    here t0 t' cs (mk b wa cp kw (mk b p False kp f w1) f2) io \<and>
    \<not> col f2 \<and> (invc w2 \<longrightarrow> invc f2) \<and> (invh w2 \<longrightarrow> invh f2) \<and> bheight f2 = Suc (bheight w2)"
proof -
  note hw = h [unfolded here_sibling [of _ _ b]]
  have cp: "rb_get rb_color t (Some p) = Some cp" using here_red_parent [OF h] by (simp add: stl_rbt_is_red_def)
  obtain t1 where t1: "stl_rbt_copy_color (Some wa) (Some p) t = Some t1"
    "here t0 t1 cs (mk b p cp kp f (mk b wa cp kw w1 w2)) io"
    using here_copy [OF hw cp] unfolding here_up mk_flip by blast
  obtain t2 where t2: "stl_rbt_black (Some p) t1 = Some t2" "here t0 t2 cs (mk b p False kp f (mk b wa cp kw w1 w2)) io"
    using here_black [OF t1(2)] by blast
  have h2: "here t0 t2 (Crumb (\<not> b) wa cp kw w1 # Crumb (\<not> b) p False kp f # cs) w2 io"
    using t2(2) unfolding here_up mk_flip .
  have "w2 \<noteq> Lf" using r by auto
  from here_black_child [OF h2 this] invc2I obtain t3 f2 where t3: "stl_rbt_black (ptr_of t2 w2) t2 = Some t3"
    "here t0 t3 (Crumb (\<not> b) wa cp kw w1 # Crumb (\<not> b) p False kp f # cs) f2 io"
    and f2: "\<not> col f2" "invc w2 \<longrightarrow> invc f2" "invh w2 \<longrightarrow> invh f2" "bheight f2 = Suc (bheight w2)" using r by blast
  have "here t0 t3 cs (mk b p False kp f (mk (\<not> b) wa cp kw f2 w1)) io" using t3(2) unfolding here_up mk_flip by simp
  from here_rotate [OF this] obtain t4 where t4: "rotate b p t3 = Some t4"
    "here t0 t4 cs (mk b wa cp kw (mk b p False kp f w1) f2) io" unfolding mk_flip by blast
  have kids: "rb_get (child b) t (Some wa) = Some (ptr_of t w1)" "rb_get (child (\<not> b)) t (Some wa) = Some (ptr_of t w2)"
    "rb_get (child (\<not> b)) t2 (Some wa) = Some (ptr_of t2 w2)"
    using here_child [OF hw] here_child [OF h2 [unfolded here_up [of _ _ _ _ _ _ _ "_ # _"]]] by simp_all
  have c: "stl_rbt_is_red t (ptr_of t w2) = Some True" "stl_rbt_is_red t (ptr_of t w1) = Some (col w1)"
    using here_red_at [OF hw [folded here_up]] here_red_at [OF hw [folded here_up, unfolded here_sibling [of _ _ b]]] r
    by simp_all
  have "fix_rest b (ptr_of t f) (Some wa) t = delete_fixup (rb_root t4) t4"
    using t1(1) t2(1) t3(1) t4(1) u kids c by (cases b; cases "col w1") (simp_all add: fix_rest_def child_def up_def)
  then show ?thesis using t4(2) f2 by blast
qed

section \<open>The whole loop\<close>

definition settled :: "'k stl_rbtree \<Rightarrow> 'k stl_rbtree \<Rightarrow> (nat \<times> 'k option) list \<Rightarrow> bool" where
  "settled t0 t io \<longleftrightarrow> (\<exists>tr. here t0 t [] tr io \<and> invc tr \<and> invh tr \<and> \<not> col tr)"

lemma root_black: "ctxc cs \<Longrightarrow> cs \<noteq> [] \<Longrightarrow> \<not> col (plug cs f)"
proof (induction cs arbitrary: f)
  case (Cons c cs)
  obtain b a d k s where c: "c = Crumb b a d k s" by (cases c)
  show ?case using Cons by (cases "cs = []") (auto simp: c)
qed simp

lemma settled_plug:
  assumes "here t0 t cs f io" "ctxc cs" "ctxh cs (bheight f)" "invc f" "invh f" "\<not> col f"
  shows "settled t0 t io"
  unfolding settled_def
proof (intro exI conjI)
  show "here t0 t [] (plug cs f) io" using assms(1) here_plug by blast
  show "invc (plug cs f)" by (rule invc_plug) (use assms in auto)
  show "invh (plug cs f)" using assms by (simp add: invh_plug)
  show "\<not> col (plug cs f)" using root_black assms(2,6) by (cases "cs = []") auto
qed

lemma ptr_root: "here t0 t [] f io \<Longrightarrow> ptr_of t f = rb_root t"
  by (auto simp: here_def at_pos_def dest: shape_ptr_of)

lemma here_not_root:
  assumes "here t0 t (Crumb b p c k s # cs) f io"
  shows "ptr_of t f \<noteq> rb_root t"
proof (cases f)
  case Lf
  obtain q par where "around (rb_nodes t) (rb_sentinel t) (rb_root t) q par (Crumb b p c k s # cs)"
    using assms unfolding here_def at_pos_def by blast
  from around_root [OF this] obtain a where "a \<in> set (crumb_addrs (Crumb b p c k s # cs))" "rb_root t = Some a" by blast
  moreover have "rb_sentinel t \<noteq> Some a"
    using calculation(1) assms sentinel_not_node [of t "Crumb b p c k s # cs" f a] unfolding here_def by blast
  ultimately show ?thesis using Lf by simp
next
  case (Br a ca ka l r)
  then show ?thesis using here_root [of t0 t "Crumb b p c k s # cs" True a ca ka l r io] assms by (simp add: mk_def)
qed

lemma fixup_done:
  assumes h: "here t0 t cs f io" and e: "cs = [] \<or> col f" and c: "ctxc cs" "ctxh cs (Suc (bheight f))" "invc2 f" "invh f"
  shows "\<exists>t'. delete_fixup (ptr_of t f) t = Some t' \<and> settled t0 t' io"
proof -
  have s: "delete_fixup (ptr_of t f) t = stl_rbt_black (ptr_of t f) t"
  proof (cases "cs = []")
    case True
    then have "ptr_of t f = rb_root t" using h ptr_root by blast
    then show ?thesis by (subst delete_fixup_split) simp
  next
    case False
    then show ?thesis using e here_red_at [OF h] by (subst delete_fixup_split) simp
  qed
  show ?thesis
  proof (cases "f = Lf")
    case True
    obtain sn n where "rb_sentinel t = Some sn" "rb_nodes t sn = Some n" "\<not> rb_color n"
      using h by (auto simp: here_def sentinel_ok_def)
    moreover have "n\<lparr>rb_color := False\<rparr> = n" using calculation(3) by (cases n) simp
    ultimately have "stl_rbt_black (ptr_of t f) t = Some t" using True by (simp add: rb_ops fun_upd_idem)
    moreover have "settled t0 t io" using settled_plug [of t0 t cs f io] h True e by simp
    ultimately show ?thesis using s by simp
  next
    case False
    from here_black_child [OF h this] obtain t' f' where b: "stl_rbt_black (ptr_of t f) t = Some t'"
      "here t0 t' cs f' io" "\<not> col f'" "invc f'" "invh f'" "col f \<longrightarrow> bheight f' = Suc (bheight f)" using c by blast
    have "ctxh cs (bheight f')" using e c(2) b(6) by auto
    then show ?thesis using s b settled_plug [OF b(2) c(1)] by auto
  qed
qed

lemma fixup_root:
  assumes h: "here t0 t cs f io" and c: "ctxc cs" "ctxh cs (bheight f)" "invc f" "invh f" "col f \<Longrightarrow> black_above cs"
  shows "\<exists>t'. delete_fixup (rb_root t) t = Some t' \<and> settled t0 t' io"
proof -
  have h': "here t0 t [] (plug cs f) io" using h here_plug by blast
  have "invc (plug cs f)" by (rule invc_plug) (use c in auto)
  moreover have "invh (plug cs f)" using c by (simp add: invh_plug)
  ultimately show ?thesis using fixup_done [OF h'] ptr_root [OF h'] invc2I [of "plug cs f"] by simp
qed

lemma fix_rest_ok:
  assumes h: "here t0 t (Crumb b p cp kp w # cs) f io" and u: "up t f p" and w: "\<not> col w" "bheight w = Suc (bheight f)"
    and c: "invc w" "invh w" "invc f" "invh f" "\<not> col f" "ctxc cs" "cp \<Longrightarrow> black_above cs"
    "ctxh cs (Suc (bheight f) + (if cp then 0 else 1))"
    and rec: "\<And>t' g. here t0 t' cs (mk b p cp kp f g) io \<Longrightarrow> col g \<Longrightarrow> invc g \<Longrightarrow> invh g \<Longrightarrow> bheight g = bheight f \<Longrightarrow>
      \<exists>t''. delete_fixup (Some p) t' = Some t'' \<and> settled t0 t'' io"
  shows "\<exists>t''. fix_rest b (ptr_of t f) (ptr_of t w) t = Some t'' \<and> settled t0 t'' io"
proof -
  have "w \<noteq> Lf" using w(2) by auto
  then obtain wa kw w1 w2 where m: "w = mk b wa False kw w1 w2" using mk_cases [of w b] w(1) by auto
  have v: "invc w1" "invc w2" "invh w1" "invh w2" "bheight w1 = bheight f" "bheight w2 = bheight f"
    using c(1,2) w(2) by (auto simp: m)
  have far: "\<exists>t''. fix_rest b (ptr_of t f) (Some va) t = Some t'' \<and> settled t0 t'' io"
    if h: "here t0 t (Crumb b p cp kp (mk b va vc vk v1 v2) # cs) f io" and u: "up t f p" and vs: "col v2" "invc v1" "invc v2"
      "invh v1" "invh v2" "bheight v1 = bheight f" "bheight v2 = bheight f" for t va vc vk v1 v2
  proof -
    from far_red [OF h u vs(1)] obtain t' f2 where
      r: "fix_rest b (ptr_of t f) (Some va) t = delete_fixup (rb_root t') t'"
      "here t0 t' cs (mk b va cp vk (mk b p False kp f v1) f2) io"
      "\<not> col f2" "invc f2" "invh f2" "bheight f2 = Suc (bheight f)" using vs by auto
    show ?thesis unfolding r(1) by (rule fixup_root [OF r(2)]) (use r(3-) c vs in auto)
  qed
  show ?thesis
  proof (cases "col w2")
    case True
    show ?thesis using far [OF h [unfolded m] u True] v by (simp add: m)
  next
    case w2: False
    show ?thesis
    proof (cases "col w1")
      case False
      from children_black [OF h [unfolded m] u False w2] obtain t' where
        r: "fix_rest b (ptr_of t f) (Some wa) t = delete_fixup (Some p) t'"
        "here t0 t' cs (mk b p cp kp f (mk b wa True kw w1 w2)) io" by blast
      show ?thesis unfolding m mk_simps(2) r(1) by (rule rec [OF r(2)]) (use v w2 False in auto)
    next
      case True
      then have "w1 \<noteq> Lf" by auto
      then obtain na kn n1 n2 where n: "w1 = mk b na True kn n1 n2" using mk_cases [of w1 b] True by auto
      from near_red [OF h [unfolded m n] u w2] obtain t' where
        r: "fix_rest b (ptr_of t f) (Some wa) t = fix_rest b (ptr_of t f) (Some na) t'"
        "here t0 t' (Crumb b p cp kp (mk b na False kn n1 (mk b wa True kw n2 w2)) # cs) f io" by blast
      have "ptr_of t f = ptr_of t' f" using ptr_of_here [OF h] ptr_of_here [OF r(2)] by metis
      then show ?thesis
        unfolding m mk_simps(2) r(1) using far [OF r(2) up_keep [OF h u r(2)]] v w2 by (simp add: n)
    qed
  qed
qed

lemma loop_step:
  assumes h: "here t0 t (Crumb b p cp kp w # cs) f io" and u: "up t f p" and f: "\<not> col f" "w \<noteq> Lf"
  shows "delete_fixup (ptr_of t f) t = do {
    (w, t') \<leftarrow> fix_sibling b (ptr_of t f) (Some p) t; fix_rest b (ptr_of t f) w t' }"
proof -
  have n: "ptr_of t f \<noteq> rb_root t" "stl_rbt_is_red t (ptr_of t f) = Some False" "rb_get rb_parent t (ptr_of t f) = Some (Some p)"
    using here_not_root [OF h] here_red_at [OF h] u f by (simp_all add: up_def)
  have "rb_get rb_left t (Some p) = Some (if b then ptr_of t f else ptr_of t w)"
    using here_child [OF h [unfolded here_up]] by (cases b) (simp_all add: child_def)
  moreover have "ptr_of t f \<noteq> ptr_of t w" using here_sides [OF h [unfolded here_up]] f(2) by auto
  ultimately show ?thesis by (subst delete_fixup_split) (use n in \<open>cases b; simp add: case_prod_unfold\<close>)
qed

lemma delete_fixup_ok:
  assumes "here t0 t cs f io" "case cs of [] \<Rightarrow> True | Crumb b p c k s # _ \<Rightarrow> up t f p"
    "ctxc cs" "ctxh cs (Suc (bheight f))" "invc f" "invh f"
  shows "\<exists>t'. delete_fixup (ptr_of t f) t = Some t' \<and> settled t0 t' io"
  using assms
proof (induction "length cs" arbitrary: t cs f rule: less_induct)
  case less
  note h = less.prems(1) and c = less.prems(3-)
  show ?case
  proof (cases "cs = [] \<or> col f")
    case True
    then show ?thesis using fixup_done [OF h] c invc2I by blast
  next
    case False
    then obtain b p cp kp w cs1 where cs: "cs = Crumb b p cp kp w # cs1" by (cases cs rule: crumb_addrs.cases) auto
    note h1 = h [unfolded cs]
    have u: "up t f p" using less.prems(2) cs by simp
    have v: "invc w" "invh w" "bheight w = Suc (bheight f)" "cp \<longrightarrow> \<not> col w \<and> black_above cs1" "ctxc cs1"
      "ctxh cs1 (Suc (bheight f) + (if cp then 0 else 1))" "\<not> col f" using c cs False by auto
    have w: "w \<noteq> Lf" using v(3) by auto
    show ?thesis
    proof (cases "col w")
      case False
      have rec: "\<exists>t''. delete_fixup (Some p) t' = Some t'' \<and> settled t0 t'' io"
        if g: "here t0 t' cs1 (mk b p cp kp f g) io" "col g" "invc g" "invh g" "bheight g = bheight f" for t' g
      proof (cases "cp")
        case True
        then show ?thesis using fixup_done [OF g(1)] g c v by auto
      next
        case False
        have "case cs1 of [] \<Rightarrow> True | Crumb b' p' c k s # _ \<Rightarrow> up t' (mk b p cp kp f g) p'"
          using g(1) up_Br by (cases cs1 rule: crumb_addrs.cases) auto
        from less.hyps [OF _ g(1) this] show ?thesis using g v c False by (simp add: cs)
      qed
      show ?thesis
        using fix_rest_ok [OF h1 u False v(3,1,2) c(3,4) v(7,5)] v rec loop_step [OF h1 u v(7) w] sibling_black [OF h1 False] by simp
    next
      case True
      then obtain wa kw w1 w2 where m: "w = mk b wa True kw w1 w2" using mk_cases [OF w, of b] by auto
      have cp: "\<not> cp" using True v(4) by blast
      from sibling_red [OF h1 [unfolded m] u] obtain t1 where
        t1: "fix_sibling b (ptr_of t f) (Some p) t = Some (ptr_of t1 w1, t1)"
        "here t0 t1 (Crumb b p True kp w1 # Crumb b wa False kw w2 # cs1) f io" by blast
      have x: "bheight w1 = Suc (bheight f)" "bheight w2 = Suc (bheight f)" "invc w1" "invh w1" "invc w2" "invh w2"
        "\<not> col w1" "\<not> col w2" using v m by auto
      have p: "ptr_of t1 f = ptr_of t f" using ptr_of_here [OF h] ptr_of_here [OF t1(2)] by metis
      have rec: "\<exists>t''. delete_fixup (Some p) t' = Some t'' \<and> settled t0 t'' io"
        if g: "here t0 t' (Crumb b wa False kw w2 # cs1) (mk b p True kp f g) io" "col g" "invc g" "invh g"
          "bheight g = bheight f" for t' g
        using fixup_done [OF g(1)] g c v x cp by auto
      show ?thesis
        using fix_rest_ok [OF t1(2) up_keep [OF h1 u t1(2)] x(7,1,3,4) c(3,4) v(7)] rec v x cp p loop_step [OF h1 u v(7) w] t1(1)
        by simp
    qed
  qed
qed

end
