(* ===== verification/Rbtree_Unlink.thy ===== *)
theory Rbtree_Unlink
  imports Rbtree_Delete
begin

text \<open>
  The part of the deletion before the loop: a node leaves its place, and when the removed node
  has two children that node takes over its place, links and colour.
\<close>

section \<open>A node leaves its place\<close>

text \<open>The frame of a deletion: nodes of the tree change, and the sentinel's parent pointer.\<close>

definition set_parent :: "ptr \<Rightarrow> ptr \<Rightarrow> 'k stl_rbtree \<Rightarrow> 'k stl_rbtree option" where
  "set_parent q = set_field (\<lambda>n. n\<lparr>rb_parent := q\<rparr>)"

definition set_child :: "bool \<Rightarrow> ptr \<Rightarrow> ptr \<Rightarrow> 'k stl_rbtree \<Rightarrow> 'k stl_rbtree option" where
  "set_child b q = set_field (if b then (\<lambda>n. n\<lparr>rb_left := q\<rparr>) else (\<lambda>n. n\<lparr>rb_right := q\<rparr>))"

lemmas rb_fields = rb_ops set_field_def set_parent_def set_child_def

text \<open>A tree whose right subtree may have a stale parent pointer.\<close>

definition almost :: "'k stl_rbtree \<Rightarrow> 'k crumb list \<Rightarrow> nat \<Rightarrow> bool \<Rightarrow> 'k option \<Rightarrow> 'k rbt \<Rightarrow> 'k rbt \<Rightarrow> bool" where
  "almost t cs x c k l r \<longleftrightarrow> (\<exists>n par. rb_nodes t x = Some n \<and> rb_color n = c \<and> rb_key n = k \<and> rb_sentinel t \<noteq> Some x \<and>
     around (rb_nodes t) (rb_sentinel t) (rb_root t) (Some x) (rb_parent n) cs \<and>
     shape (rb_nodes t) (rb_sentinel t) (rb_left n) (Some x) l \<and> shape (rb_nodes t) (rb_sentinel t) (rb_right n) par r) \<and>
     distinct (crumb_addrs cs @ x # addrs l @ addrs r)"

lemma almost_at: "at_pos t cs (Br x c k l r) \<Longrightarrow> almost t cs x c k l r"
  unfolding almost_def at_pos_def shape_Br by (auto 4 4)

lemma sentinel_cell:
  assumes "at_pos t cs f" "sentinel_ok t"
  obtains sn ns where "rb_sentinel t = Some sn" "rb_nodes t sn = Some ns" "\<not> rb_color ns" "rb_key ns = None"
    "rb_left ns = None" "rb_right ns = None" "sn \<notin> pos_addrs cs f"
  using assms sentinel_not_node [of t cs f] unfolding sentinel_ok_def by blast

text \<open>Unlinking: the parent of \<open>s\<close> points to its only subtree \<open>d\<close>, whose parent becomes \<open>q\<close>.\<close>

lemma splice_ok:
  assumes pos: "at_pos t (Crumb b p cp kp w # cs) (mk a s sc ks d Lf)" and so: "sentinel_ok t"
  shows "\<exists>t1 t2. set_child b (ptr_of t d) (Some p) t = Some t1 \<and> set_parent (Some p) (ptr_of t d) t1 = Some t2 \<and>
    rb_get rb_parent t1 (Some s) = Some (Some p) \<and>
    at_pos t2 (Crumb b p cp kp w # cs) d \<and> sentinel_ok t2 \<and> up t2 d p \<and> rb_root t2 = rb_root t \<and>
    rb_nodes t2 s = rb_nodes t s \<and> rb_cmp t2 = rb_cmp t \<and> rb_sentinel t2 = rb_sentinel t"
proof -
  from pos so obtain sn ns where sn: "rb_sentinel t = Some sn" "rb_nodes t sn = Some ns" "\<not> rb_color ns" "rb_key ns = None"
    "rb_left ns = None" "rb_right ns = None" "sn \<notin> pos_addrs (Crumb b p cp kp w # cs) (mk a s sc ks d Lf)"
    by (rule sentinel_cell)
  obtain np nx where np: "rb_nodes t p = Some np" "rb_color np = cp" "rb_key np = kp" "rb_sentinel t \<noteq> Some p"
    "(if b then rb_left np = Some s \<and> shape (rb_nodes t) (rb_sentinel t) (rb_right np) (Some p) w
      else rb_right np = Some s \<and> shape (rb_nodes t) (rb_sentinel t) (rb_left np) (Some p) w)"
    "around (rb_nodes t) (rb_sentinel t) (rb_root t) (Some p) (rb_parent np) cs"
    and nx: "rb_nodes t s = Some nx" "rb_sentinel t \<noteq> Some s" "rb_parent nx = Some p"
      "shape (rb_nodes t) (rb_sentinel t) (child a nx) (Some s) d"
    and d: "distinct (crumb_addrs (Crumb b p cp kp w # cs) @ s # addrs d)"
    using pos by (cases a) (auto simp: at_pos_def around_Cons shape_Br mk_def child_def)
  have mk: "set (addrs (mk a s sc ks d Lf)) = insert s (set (addrs d))" by (auto simp: mk_def)
  show ?thesis
  proof (cases d)
    case Lf
    then show ?thesis
      using np nx(1-3) d sn by (cases b) (simp_all add: mk rb_fields at_pos_def around_Cons sentinel_ok_def up_def)
  next
    case (Br y yc yk yl yr)
    then obtain ny where "rb_nodes t y = Some ny" "rb_color ny = yc" "rb_key ny = yk" "rb_sentinel t \<noteq> Some y"
      "shape (rb_nodes t) (rb_sentinel t) (rb_left ny) (Some y) yl" "shape (rb_nodes t) (rb_sentinel t) (rb_right ny) (Some y) yr"
      using nx(4) by (auto simp: shape_Br)
    with Br show ?thesis
      using np nx(1-3) d sn by (cases b) (simp_all add: mk rb_fields at_pos_def around_Cons shape_Br sentinel_ok_def up_def)
  qed
qed

lemma splice_child_ok:
  assumes pos: "at_pos t (Crumb False x c k l # cs) (Br s sc ks Lf d)" and so: "sentinel_ok t"
  shows "\<exists>t1 t2. set_child False (ptr_of t d) (Some x) t = Some t1 \<and> set_parent (Some s) (ptr_of t d) t1 = Some t2 \<and>
    rb_get rb_parent t1 (Some s) = Some (Some x) \<and>
    almost t2 cs x c k l d \<and> sentinel_ok t2 \<and> up t2 d s \<and> rb_root t2 = rb_root t \<and>
    rb_nodes t2 s = rb_nodes t s \<and> rb_cmp t2 = rb_cmp t \<and> rb_sentinel t2 = rb_sentinel t"
proof -
  from pos so obtain sn ns where sn: "rb_sentinel t = Some sn" "rb_nodes t sn = Some ns" "\<not> rb_color ns" "rb_key ns = None"
    "rb_left ns = None" "rb_right ns = None" "sn \<notin> pos_addrs (Crumb False x c k l # cs) (Br s sc ks Lf d)"
    by (rule sentinel_cell)
  obtain np nx where np: "rb_nodes t x = Some np" "rb_color np = c" "rb_key np = k" "rb_sentinel t \<noteq> Some x"
    "rb_right np = Some s" "shape (rb_nodes t) (rb_sentinel t) (rb_left np) (Some x) l"
    "around (rb_nodes t) (rb_sentinel t) (rb_root t) (Some x) (rb_parent np) cs"
    and nx: "rb_nodes t s = Some nx" "rb_sentinel t \<noteq> Some s" "rb_parent nx = Some x"
      "shape (rb_nodes t) (rb_sentinel t) (rb_right nx) (Some s) d"
    and d: "distinct (crumb_addrs (Crumb False x c k l # cs) @ s # addrs d)"
    using pos by (auto simp: at_pos_def around_Cons shape_Br)
  show ?thesis
  proof (cases d)
    case Lf
    then show ?thesis
      using np nx(1-3) d sn by (auto simp: rb_fields almost_def sentinel_ok_def up_def)
  next
    case (Br y yc yk yl yr)
    then obtain ny where "rb_nodes t y = Some ny" "rb_color ny = yc" "rb_key ny = yk" "rb_sentinel t \<noteq> Some y"
      "shape (rb_nodes t) (rb_sentinel t) (rb_left ny) (Some y) yl" "shape (rb_nodes t) (rb_sentinel t) (rb_right ny) (Some y) yr"
      using nx(4) by (auto simp: shape_Br)
    with Br show ?thesis
      using np nx(1-3) d sn by (auto simp: rb_fields almost_def shape_Br sentinel_ok_def up_def)
  qed
qed

section \<open>A node takes the place of another\<close>

definition replace_tail :: "nat \<Rightarrow> ptr \<Rightarrow> 'k stl_rbtree \<Rightarrow> 'k stl_rbtree option" where
  "replace_tail node subst t = do {
     l \<leftarrow> rb_get rb_left t (Some node);
     t \<leftarrow> set_field (\<lambda>n. n\<lparr>rb_left := l\<rparr>) subst t;
     r \<leftarrow> rb_get rb_right t (Some node);
     t \<leftarrow> set_field (\<lambda>n. n\<lparr>rb_right := r\<rparr>) subst t;
     p \<leftarrow> rb_get rb_parent t (Some node);
     t \<leftarrow> set_field (\<lambda>n. n\<lparr>rb_parent := p\<rparr>) subst t;
     t \<leftarrow> stl_rbt_copy_color subst (Some node) t;
     t \<leftarrow> (if Some node = rb_root t then Some (t\<lparr>rb_root := subst\<rparr>)
       else do {
         p \<leftarrow> rb_get rb_parent t (Some node);
         pl \<leftarrow> rb_get rb_left t p;
         if Some node = pl then set_field (\<lambda>n. n\<lparr>rb_left := subst\<rparr>) p t
         else set_field (\<lambda>n. n\<lparr>rb_right := subst\<rparr>) p t });
     l \<leftarrow> rb_get rb_left t subst;
     t \<leftarrow> (if l \<noteq> rb_sentinel t then set_field (\<lambda>n. n\<lparr>rb_parent := subst\<rparr>) l t else Some t);
     r \<leftarrow> rb_get rb_right t subst;
     (if r \<noteq> rb_sentinel t then set_field (\<lambda>n. n\<lparr>rb_parent := subst\<rparr>) r t else Some t) }"

lemma delete_replace_split:
  "delete_replace node subst temp t = do {
     sp \<leftarrow> rb_get rb_parent t subst;
     t \<leftarrow> set_parent (if sp = Some node then subst else sp) temp t;
     replace_tail node subst t }"
  unfolding delete_replace_def replace_tail_def set_parent_def
  by (intro Option.bind_cong refl) (simp split: if_splits)

lemma replace_ok:
  assumes al: "almost t cs x c k l r" and s: "rb_nodes t s = Some ns" "rb_key ns = ks" "rb_sentinel t \<noteq> Some s"
    "s \<notin> set (crumb_addrs cs @ x # addrs l @ addrs r)"
  shows "\<exists>t'. replace_tail x (Some s) t = Some t' \<and> at_pos t' cs (Br s c ks l r) \<and> rb_cmp t' = rb_cmp t \<and>
    rb_sentinel t' = rb_sentinel t \<and> (\<forall>z. rb_sentinel t = Some z \<longrightarrow> rb_nodes t' z = rb_nodes t z) \<and>
    rb_nodes t' x = rb_nodes t x"
proof -
  obtain n par where n: "rb_nodes t x = Some n" "rb_color n = c" "rb_key n = k" "rb_sentinel t \<noteq> Some x"
    "around (rb_nodes t) (rb_sentinel t) (rb_root t) (Some x) (rb_parent n) cs"
    "shape (rb_nodes t) (rb_sentinel t) (rb_left n) (Some x) l" "shape (rb_nodes t) (rb_sentinel t) (rb_right n) par r"
    and d: "distinct (crumb_addrs cs @ x # addrs l @ addrs r)" using al unfolding almost_def by blast
  have xc: "x \<notin> set (crumb_addrs cs)" and xs: "x \<noteq> s" using d s(4) by auto
  have kids: thesis if "\<And>z. rb_left n = rb_sentinel t \<Longrightarrow> l = Lf \<Longrightarrow> thesis"
    "\<And>y yc yk yl yr ny. l = Br y yc yk yl yr \<Longrightarrow> rb_left n = Some y \<Longrightarrow> rb_nodes t y = Some ny \<Longrightarrow>
      rb_color ny = yc \<Longrightarrow> rb_key ny = yk \<Longrightarrow> rb_sentinel t \<noteq> Some y \<Longrightarrow>
      shape (rb_nodes t) (rb_sentinel t) (rb_left ny) (Some y) yl \<Longrightarrow>
      shape (rb_nodes t) (rb_sentinel t) (rb_right ny) (Some y) yr \<Longrightarrow> thesis" for thesis
    using n(6) that by (cases l) (auto simp: shape_Br)
  have kids': thesis if "\<And>z. rb_right n = rb_sentinel t \<Longrightarrow> r = Lf \<Longrightarrow> thesis"
    "\<And>y yc yk yl yr ny. r = Br y yc yk yl yr \<Longrightarrow> rb_right n = Some y \<Longrightarrow> rb_nodes t y = Some ny \<Longrightarrow>
      rb_color ny = yc \<Longrightarrow> rb_key ny = yk \<Longrightarrow> rb_sentinel t \<noteq> Some y \<Longrightarrow>
      shape (rb_nodes t) (rb_sentinel t) (rb_left ny) (Some y) yl \<Longrightarrow>
      shape (rb_nodes t) (rb_sentinel t) (rb_right ny) (Some y) yr \<Longrightarrow> thesis" for thesis
    using n(7) that by (cases r) (auto simp: shape_Br)
  note base = n(1-4) s d xs
  from n(5) xc n(4) show ?thesis
  proof (cases rule: aboveE)
    case top
    show ?thesis
      by (rule kids; rule kids') (use base top in \<open>auto simp: replace_tail_def stl_rbt_copy_color_def rb_fields at_pos_def shape_Br\<close>)
  next
    case left
    show ?thesis
      by (rule kids; rule kids') (use base left in \<open>auto simp: replace_tail_def stl_rbt_copy_color_def rb_fields at_pos_def
        shape_Br around_Cons\<close>)
  next
    case right
    show ?thesis
      by (rule kids; rule kids') (use base right in \<open>auto simp: replace_tail_def stl_rbt_copy_color_def rb_fields at_pos_def
        shape_Br around_Cons\<close>)
  qed
qed

section \<open>After the unlinking\<close>

lemma set_child_alt: "set_child b q p t =
    (if b then set_field (\<lambda>n. n\<lparr>rb_left := q\<rparr>) p t else set_field (\<lambda>n. n\<lparr>rb_right := q\<rparr>) p t)"
  by (simp add: set_child_def)

lemma at_pos_frame:
  assumes "at_pos t cs f" "x \<notin> pos_addrs cs f"
  shows "at_pos (t\<lparr>rb_nodes := (rb_nodes t)(x \<mapsto> n)\<rparr>) cs f"
  using assms unfolding at_pos_def by simp

lemma clear_ok:
  assumes at: "at_pos t cs f" and so: "sentinel_ok t" and x: "rb_nodes t x = Some n" "x \<notin> pos_addrs cs f" "rb_sentinel t \<noteq> Some x"
  shows "\<exists>t'. delete_clear x t = Some t' \<and> at_pos t' cs f \<and> sentinel_ok t' \<and> rb_root t' = rb_root t \<and>
    rb_cmp t' = rb_cmp t \<and> rb_sentinel t' = rb_sentinel t \<and> (\<forall>z. z \<noteq> x \<longrightarrow> rb_nodes t' z = rb_nodes t z)"
  using at_pos_frame [OF at x(2)] so x(1,3) by (auto simp: delete_clear_def rb_ops sentinel_ok_def)

text \<open>What deletion leaves: a red-black tree without the node \<open>x\<close>.\<close>

definition deleted :: "'k stl_rbtree \<Rightarrow> (nat \<times> 'k option) list \<Rightarrow> (int option \<times> 'k stl_rbtree) option \<Rightarrow> bool" where
  "deleted t io res \<longleftrightarrow> (\<exists>r t' tr. res = Some (r, t') \<and> (r = Some 0 \<or> r = None) \<and> rb_repr t' tr \<and> inorder tr = io \<and>
     rb_cmp t' = rb_cmp t \<and> rb_sentinel t' = rb_sentinel t)"

definition finish :: "bool \<Rightarrow> nat \<Rightarrow> ptr \<Rightarrow> 'k stl_rbtree \<Rightarrow> (int option \<times> 'k stl_rbtree) option" where
  "finish red x temp t = do {
     t \<leftarrow> delete_clear x t;
     if red then Some (None, t) else do { t \<leftarrow> delete_fixup temp t; Some (Some 0, t) } }"

lemma finish_ok:
  assumes at: "at_pos t C d" and C: "C = Crumb b p cp kp w # cs" and so: "sentinel_ok t" and u: "up t d p"
    and x: "rb_nodes t x = Some n" "x \<notin> pos_addrs C d" "rb_sentinel t \<noteq> Some x"
    and c: "ctxc C" "ctxh C (bheight d + (if red then 0 else 1))" "red \<Longrightarrow> \<not> col d" "invc d" "invh d"
  shows "deleted t (inorder (plug C d)) (finish red x (ptr_of t d) t)"
proof -
  from clear_ok [OF at so x] obtain t1 where t1: "delete_clear x t = Some t1" "at_pos t1 C d" "sentinel_ok t1"
    "rb_cmp t1 = rb_cmp t" "rb_sentinel t1 = rb_sentinel t" "\<forall>z. z \<noteq> x \<longrightarrow> rb_nodes t1 z = rb_nodes t z" by blast
  have h: "here t1 t1 C d (inorder (plug C d))" using t1(2,3) by (simp add: here_def)
  show ?thesis
  proof (cases red)
    case True
    have "rb_repr t1 (plug C d)"
      unfolding rb_repr_def
    proof (intro conjI)
      show "at_pos t1 [] (plug C d)" using t1(2) at_pos_plug by blast
      show "invc (plug C d)" using invc_plug [OF c(1,4)] c(3) True by blast
      show "invh (plug C d)" using c True by (simp add: invh_plug)
      show "\<not> col (plug C d)" using root_black [OF c(1)] C by blast
    qed (rule t1(3))
    then show ?thesis using True t1 by (auto simp: deleted_def finish_def)
  next
    case False
    have p: "ptr_of t1 d = ptr_of t d" by (cases d) (simp_all add: t1(5))
    have "ptr_of t d \<noteq> Some x" using x(2,3) by (cases d) auto
    moreover obtain q where "ptr_of t d = Some q" using so by (cases d) (auto simp: sentinel_ok_def)
    ultimately have "up t1 d p" using u t1(6) unfolding up_def p by (simp add: rb_ops)
    then obtain t2 where t2: "delete_fixup (ptr_of t d) t1 = Some t2" "settled t1 t2 (inorder (plug C d))"
      using delete_fixup_ok [OF h] c False C p by auto
    then obtain tr where "here t1 t2 [] tr (inorder (plug C d))" "invc tr" "invh tr" "\<not> col tr" by (auto simp: settled_def)
    then have "rb_repr t2 tr" "inorder tr = inorder (plug C d)" "rb_cmp t2 = rb_cmp t" "rb_sentinel t2 = rb_sentinel t"
      using t1(4,5) by (auto simp: rb_repr_def here_def keeps_def)
    then show ?thesis using False t1(1) t2(1) by (auto simp: deleted_def finish_def)
  qed
qed

section \<open>Deletion by cases\<close>

lemma stl_rbtree_delete_split:
  "stl_rbtree_delete mn t x = do {
     (subst, temp) \<leftarrow> delete_choose mn t x;
     if subst = rb_root t then do {
       t \<leftarrow> stl_rbt_black temp (t\<lparr>rb_root := temp\<rparr>);
       t \<leftarrow> delete_clear x t;
       Some (Some 0, t) }
     else do {
       red \<leftarrow> stl_rbt_is_red t subst;
       sp \<leftarrow> rb_get rb_parent t subst;
       spl \<leftarrow> rb_get rb_left t sp;
       t \<leftarrow> set_child (subst = spl) temp sp t;
       t \<leftarrow> (if subst = Some x then do { sp \<leftarrow> rb_get rb_parent t subst; set_parent sp temp t }
             else delete_replace x subst temp t);
       finish red x temp t } }"
  unfolding stl_rbtree_delete_def set_child_alt set_parent_def finish_def
  by (intro Option.bind_cong refl)

text \<open>A node with one subtree at most.\<close>

lemma choose_one:
  assumes "at_pos t cs (mk a x c k d Lf)"
  shows "delete_choose mn t x = Some (Some x, ptr_of t d)"
proof -
  have k: "rb_get rb_left t (Some x) = Some (if a then ptr_of t d else rb_sentinel t)"
    "rb_get rb_right t (Some x) = Some (if a then rb_sentinel t else ptr_of t d)"
    using assms get_children [of t cs x c k] by (auto simp: mk_def split: if_splits)
  show ?thesis using k by (cases a; cases "ptr_of t d = rb_sentinel t") (simp_all add: delete_choose_def)
qed

lemma delete_root:
  assumes at: "at_pos t [] (mk a x c k d Lf)" and so: "sentinel_ok t" and i: "invc d" "invh d" "bheight d = 0"
  shows "deleted t (inorder d) (stl_rbtree_delete mn t x)"
proof -
  from at so obtain sn ns where sn: "rb_sentinel t = Some sn" "rb_nodes t sn = Some ns" "\<not> rb_color ns" "rb_key ns = None"
    "rb_left ns = None" "rb_right ns = None" "sn \<notin> pos_addrs [] (mk a x c k d Lf)" by (rule sentinel_cell)
  have mk: "set (addrs (mk a x c k d Lf)) = insert x (set (addrs d))" by (auto simp: mk_def)
  obtain n where n: "rb_nodes t x = Some n" "rb_root t = Some x" "shape (rb_nodes t) (rb_sentinel t) (child a n) (Some x) d"
    "x \<notin> set (addrs d)"
    using at by (cases a) (auto simp: at_pos_def shape_Br mk_def child_def)
  show ?thesis
  proof (cases d)
    case Lf
    then have "\<exists>t'. stl_rbtree_delete mn t x = Some (Some 0, t') \<and> rb_repr t' Lf \<and> rb_cmp t' = rb_cmp t \<and>
        rb_sentinel t' = rb_sentinel t"
      unfolding stl_rbtree_delete_split choose_one [OF at]
      using n sn mk by (simp add: rb_ops delete_clear_def rb_repr_def at_pos_def sentinel_ok_def)
    then show ?thesis using Lf by (force simp: deleted_def)
  next
    case (Br y yc yk yl yr)
    then have y: "d = Br y True yk Lf Lf"
      using i by (cases yc; cases yl; cases yr) auto
    then obtain ny where "rb_nodes t y = Some ny" "rb_key ny = yk" "rb_left ny = rb_sentinel t" "rb_right ny = rb_sentinel t"
      "rb_sentinel t \<noteq> Some y" using n(3) by (auto simp: shape_Br)
    then have "\<exists>t'. stl_rbtree_delete mn t x = Some (Some 0, t') \<and> rb_repr t' (Br y False yk Lf Lf) \<and> rb_cmp t' = rb_cmp t \<and>
        rb_sentinel t' = rb_sentinel t"
      unfolding stl_rbtree_delete_split choose_one [OF at]
      using n sn mk y by (auto simp: rb_ops delete_clear_def rb_repr_def at_pos_def shape_Br sentinel_ok_def)
    then show ?thesis using y by (force simp: deleted_def)
  qed
qed

lemma delete_one:
  assumes at: "at_pos t (Crumb b p cp kp w # cs) (mk a x c k d Lf)" and so: "sentinel_ok t"
    and i: "invc (mk a x c k d Lf)" "invh (mk a x c k d Lf)" "ctxc (Crumb b p cp kp w # cs)"
      "ctxh (Crumb b p cp kp w # cs) (bheight (mk a x c k d Lf))"
  shows "deleted t (inorder (plug (Crumb b p cp kp w # cs) d)) (stl_rbtree_delete mn t x)"
proof -
  let ?C = "Crumb b p cp kp w # cs"
  have h: "here t t ?C (mk a x c k d Lf) (inorder (plug ?C (mk a x c k d Lf)))" using at so by (simp add: here_def)
  from splice_ok [OF at so] obtain t1 t2 where s: "set_child b (ptr_of t d) (Some p) t = Some t1"
    "set_parent (Some p) (ptr_of t d) t1 = Some t2" "rb_get rb_parent t1 (Some x) = Some (Some p)"
    "at_pos t2 ?C d" "sentinel_ok t2" "up t2 d p" "rb_nodes t2 x = rb_nodes t x" "rb_cmp t2 = rb_cmp t" "rb_sentinel t2 = rb_sentinel t"
    by blast
  obtain spl where "rb_get rb_left t (Some p) = Some spl" "(Some x = spl) = b"
    using here_child [OF h [unfolded here_up]] here_sides [OF h [unfolded here_up]] by (cases b) (auto simp: child_def)
  then have e: "stl_rbtree_delete mn t x = finish c x (ptr_of t d) t2"
    unfolding stl_rbtree_delete_split choose_one [OF at]
    using s(1-3) here_root [OF h] here_red_at [OF h] here_parent [OF h] by simp
  obtain n where n: "rb_nodes t x = Some n" "x \<notin> pos_addrs ?C d" "rb_sentinel t \<noteq> Some x"
    using at by (cases a) (auto simp: at_pos_def shape_Br mk_def)
  have "ptr_of t2 d = ptr_of t d" by (cases d) (simp_all add: s(9))
  moreover have "deleted t2 (inorder (plug ?C d)) (finish c x (ptr_of t2 d) t2)"
    by (rule finish_ok [OF s(4) refl s(5,6), of x n]) (use s n i in auto)
  ultimately show ?thesis unfolding e using s(8,9) by (simp add: deleted_def)
qed

section \<open>A node with two subtrees\<close>

lemma plug_append: "plug (xs @ ys) f = plug ys (plug xs f)"
proof (induction xs arbitrary: f)
  case (Cons c xs)
  then show ?case by (cases c) simp
qed simp

lemma before_append: "before (xs @ ys) = before ys @ before xs"
  by (induction xs rule: before.induct) auto

lemma behind_append: "behind (xs @ ys) = behind xs @ behind ys"
  by (induction xs rule: behind.induct) auto

lemma crumb_addrs_append: "crumb_addrs (xs @ ys) = crumb_addrs xs @ crumb_addrs ys"
  by (induction xs rule: crumb_addrs.induct) auto

lemma ctxc_swap: "ctxc (xs @ Crumb b a c k s # cs) = ctxc (xs @ Crumb b a' c k' s # cs)"
proof (induction xs)
  case (Cons x xs)
  then show ?case by (cases x; cases xs) (auto simp: black_above_def)
qed simp

lemma ctxh_swap: "ctxh (xs @ Crumb b a c k s # cs) n = ctxh (xs @ Crumb b a' c k' s # cs) n"
  by (induction xs n rule: ctxh.induct) auto

fun leftmost :: "'k rbt \<Rightarrow> ptr" where
  "leftmost Lf = None"
| "leftmost (Br a c k l r) = (case l of Lf \<Rightarrow> Some a | Br a' c' k' l' r' \<Rightarrow> leftmost l)"

text \<open>What the deletion relies on from \<open>stl_rbtree_min\<close>, which the repository does not define:
  the leftmost node below a node.\<close>

definition min_ok :: "('k stl_rbtree \<Rightarrow> ptr \<Rightarrow> ptr option) \<Rightarrow> bool" where
  "min_ok mn \<longleftrightarrow> (\<forall>t cs f. at_pos t cs f \<longrightarrow> f \<noteq> Lf \<longrightarrow> mn t (ptr_of t f) = Some (leftmost f))"

lemma leftmost_plug:
  "f \<noteq> Lf \<Longrightarrow> \<exists>cs s sc ks d. f = plug cs (Br s sc ks Lf d) \<and> leftmost f = Some s \<and> before cs = []"
proof (induction f)
  case (Br a c k l r)
  show ?case
  proof (cases l)
    case Lf
    then show ?thesis by (intro exI [of _ "[]"]) auto
  next
    case l: (Br a' c' k' l' r')
    with Br.IH(1) obtain cs s sc ks d where m: "l = plug cs (Br s sc ks Lf d)" "leftmost l = Some s" "before cs = []" by blast
    have "Br a c k l r = plug (cs @ [Crumb True a c k r]) (Br s sc ks Lf d)"
      using m(1) by (simp add: plug_append mk_def)
    moreover have "leftmost (Br a c k l r) = Some s" using m(2) l by simp
    moreover have "before (cs @ [Crumb True a c k r]) = []" using m(3) by (simp add: before_append)
    ultimately show ?thesis by metis
  qed
qed simp

lemma up_frame:
  assumes "up t d p" "at_pos t' (Crumb b p c k s # cs) d" "rb_sentinel t' = rb_sentinel t"
    "\<forall>z. rb_sentinel t = Some z \<longrightarrow> rb_nodes t' z = rb_nodes t z"
  shows "up t' d p"
proof (cases d)
  case Lf
  then show ?thesis using assms by (cases "rb_sentinel t") (auto simp: up_def rb_ops)
next
  case (Br a ca ka l r)
  then show ?thesis using get_parent [of t' b p c k s cs a ca ka l r] assms(2) by (simp add: up_def)
qed

lemma move_up:
  assumes at: "at_pos t (csr @ Crumb False x c k l # cs) (Br s sc ks Lf d)" and so: "sentinel_ok t"
  shows "\<exists>b q w cp kp C t1 t3.
    csr @ Crumb False x c k l # cs = Crumb b q cp kp w # C \<and>
    set_child b (ptr_of t d) (Some q) t = Some t1 \<and> delete_replace x (Some s) (ptr_of t d) t1 = Some t3 \<and>
    at_pos t3 (csr @ Crumb False s c ks l # cs) d \<and> sentinel_ok t3 \<and>
    (\<exists>b' p cp' kp' w' C'. csr @ Crumb False s c ks l # cs = Crumb b' p cp' kp' w' # C' \<and> up t3 d p) \<and>
    rb_nodes t3 x \<noteq> None \<and> rb_cmp t3 = rb_cmp t \<and> rb_sentinel t3 = rb_sentinel t"
proof -
  let ?C = "csr @ Crumb False x c k l # cs" and ?C' = "csr @ Crumb False s c ks l # cs"
  obtain ns where ns: "rb_nodes t s = Some ns" "rb_key ns = ks" "rb_sentinel t \<noteq> Some s"
    using at by (auto simp: at_pos_def shape_Br)
  have sd: "s \<notin> set (crumb_addrs cs @ x # addrs l @ addrs (plug csr d))"
    using at mset_eq_setD [OF addrs_plug [of csr d]] by (auto simp: at_pos_def crumb_addrs_append)
  have step: ?thesis
    if C: "?C = Crumb b q cp kp w # C" and C': "?C' = Crumb b' p cp' kp' w' # C'"
      and t1: "set_child b (ptr_of t d) (Some q) t = Some t1" "rb_get rb_parent t1 (Some s) = Some (Some q)"
      and t2: "set_parent (if q = x then Some s else Some q) (ptr_of t d) t1 = Some t2"
      and al: "almost t2 cs x c k l (plug csr d)" and so2: "sentinel_ok t2" and u: "up t2 d p"
      and fr: "rb_nodes t2 s = rb_nodes t s" "rb_cmp t2 = rb_cmp t" "rb_sentinel t2 = rb_sentinel t"
    for b q cp kp w C b' p cp' kp' w' C' t1 t2
  proof -
    from replace_ok [OF al, of s ns ks] ns sd fr obtain t3 where t3: "replace_tail x (Some s) t2 = Some t3"
      "at_pos t3 cs (Br s c ks l (plug csr d))" "rb_cmp t3 = rb_cmp t2" "rb_sentinel t3 = rb_sentinel t2"
      "\<forall>z. rb_sentinel t2 = Some z \<longrightarrow> rb_nodes t3 z = rb_nodes t2 z" "rb_nodes t3 x = rb_nodes t2 x" by auto
    have at3: "at_pos t3 ?C' d"
      using t3(2) at_pos_plug [of t3 cs "Br s c ks l (plug csr d)"] at_pos_plug [of t3 ?C' d]
      by (simp add: plug_append mk_def)
    have "delete_replace x (Some s) (ptr_of t d) t1 = Some t3"
      unfolding delete_replace_split using t1(2) t2 t3(1) by (cases "q = x") simp_all
    moreover have "up t3 d p" using up_frame [OF u at3 [unfolded C'] t3(4,5)] .
    moreover have "sentinel_ok t3" using so2 t3(4,5) by (auto simp: sentinel_ok_def)
    moreover have "rb_nodes t3 x \<noteq> None" using al t3(6) by (auto simp: almost_def)
    ultimately show ?thesis using C C' t1(1) at3 t3(3,4) fr
      by - (rule exI [of _ b], rule exI [of _ q], rule exI [of _ w], rule exI [of _ cp], rule exI [of _ kp],
        rule exI [of _ C], rule exI [of _ t1], rule exI [of _ t3], auto)
  qed
  show ?thesis
  proof (cases csr)
    case Nil
    from splice_child_ok [OF at [unfolded Nil append_Nil] so] obtain t1 t2 where
      "set_child False (ptr_of t d) (Some x) t = Some t1" "set_parent (Some s) (ptr_of t d) t1 = Some t2"
      "rb_get rb_parent t1 (Some s) = Some (Some x)" "almost t2 cs x c k l d" "sentinel_ok t2" "up t2 d s"
      "rb_nodes t2 s = rb_nodes t s" "rb_cmp t2 = rb_cmp t" "rb_sentinel t2 = rb_sentinel t" by blast
    then show ?thesis by - (rule step [of False x c k l cs False s c ks l cs t1 t2]; simp add: Nil)
  next
    case (Cons e csr')
    obtain b p cp kp w where e: "e = Crumb b p cp kp w" by (cases e)
    have at': "at_pos t (Crumb b p cp kp w # csr' @ Crumb False x c k l # cs) (mk False s sc ks d Lf)"
      using at by (simp add: Cons e mk_def)
    have px: "p \<noteq> x" using at' by (auto simp: at_pos_def crumb_addrs_append)
    from splice_ok [OF at' so] obtain t1 t2 where t2: "set_child b (ptr_of t d) (Some p) t = Some t1"
      "set_parent (Some p) (ptr_of t d) t1 = Some t2" "rb_get rb_parent t1 (Some s) = Some (Some p)"
      "at_pos t2 (Crumb b p cp kp w # csr' @ Crumb False x c k l # cs) d" "sentinel_ok t2" "up t2 d p"
      "rb_nodes t2 s = rb_nodes t s" "rb_cmp t2 = rb_cmp t" "rb_sentinel t2 = rb_sentinel t" by blast
    have "at_pos t2 cs (Br x c k l (plug csr d))"
      using t2(4) at_pos_plug [of t2 cs "Br x c k l (plug csr d)"]
        at_pos_plug [of t2 "Crumb b p cp kp w # csr' @ Crumb False x c k l # cs" d]
      by (simp add: Cons e plug_append mk_def)
    then have "almost t2 cs x c k l (plug csr d)" by (rule almost_at)
    then show ?thesis using t2 px
      by - (rule step [of b p cp kp w "csr' @ Crumb False x c k l # cs" b p cp kp w "csr' @ Crumb False s c ks l # cs" t1 t2];
        simp add: Cons e)
  qed
qed

lemma delete_two:
  assumes at: "at_pos t cs (Br x c k l r)" and so: "sentinel_ok t" and ne: "l \<noteq> Lf" "r \<noteq> Lf" and mn: "min_ok mn"
    and i: "invc (Br x c k l r)" "invh (Br x c k l r)" "ctxc cs" "ctxh cs (bheight (Br x c k l r))" "c \<Longrightarrow> black_above cs"
  shows "deleted t (before cs @ inorder l @ inorder r @ behind cs) (stl_rbtree_delete mn t x)"
proof -
  obtain csr s sc ks d where r: "r = plug csr (Br s sc ks Lf d)" "leftmost r = Some s" "before csr = []"
    using leftmost_plug [OF ne(2)] by blast
  let ?C = "csr @ Crumb False x c k l # cs" and ?C' = "csr @ Crumb False s c ks l # cs"
  have atr: "at_pos t (Crumb False x c k l # cs) r" using at by (simp add: move_right)
  have atC: "at_pos t ?C (Br s sc ks Lf d)"
    using at at_pos_plug [of t cs "Br x c k l r"] at_pos_plug [of t ?C "Br s sc ks Lf d"]
    by (simp add: plug_append mk_def r(1))
  from move_up [OF atC so] obtain b q w cp kp C t1 t3 where C: "?C = Crumb b q cp kp w # C"
    and m: "set_child b (ptr_of t d) (Some q) t = Some t1" "delete_replace x (Some s) (ptr_of t d) t1 = Some t3"
    "at_pos t3 ?C' d" "sentinel_ok t3" "rb_nodes t3 x \<noteq> None" "rb_cmp t3 = rb_cmp t" "rb_sentinel t3 = rb_sentinel t"
    and u: "\<exists>b' p cp' kp' w' C'. ?C' = Crumb b' p cp' kp' w' # C' \<and> up t3 d p" by blast
  obtain b' p cp' kp' w' C' where C': "?C' = Crumb b' p cp' kp' w' # C'" "up t3 d p" using u by blast
  have "here t t ?C (mk False s sc ks d Lf) (inorder (plug ?C (mk False s sc ks d Lf)))" using atC so by (simp add: here_def mk_def)
  note h = this [unfolded C]
  obtain spl where spl: "rb_get rb_left t (Some q) = Some spl" "(Some s = spl) = b"
    using here_child [OF h [unfolded here_up]] here_sides [OF h [unfolded here_up]] by (cases b) (auto simp: child_def)
  have xs: "x \<noteq> s" using atC by (auto simp: at_pos_def crumb_addrs_append)
  have tmp: "rb_get rb_right t (Some s) = Some (ptr_of t d)" using get_children [OF atC] by simp
  have lr: "ptr_of t l \<noteq> rb_sentinel t" "ptr_of t r \<noteq> rb_sentinel t"
    using at ne by (cases l; cases r; auto simp: at_pos_def shape_Br)+
  have "mn t (ptr_of t r) = Some (Some s)" using mn atr ne(2) r(2) unfolding min_ok_def by metis
  then have ch: "delete_choose mn t x = Some (Some s, ptr_of t d)"
    using get_children [OF at] lr tmp by (simp add: delete_choose_def)
  have e: "stl_rbtree_delete mn t x = finish sc x (ptr_of t d) t3"
    unfolding stl_rbtree_delete_split ch
    using here_root [OF h] here_red_at [OF h] here_parent [OF h] spl m(1,2) xs by simp
  have pe: "plug ?C (Br s sc ks Lf d) = plug cs (Br x c k l r)" by (simp add: plug_append mk_def r(1))
  have "invc (plug cs (Br x c k l r))" "invh (plug cs (Br x c k l r))"
    using invc_plug [OF i(3,1)] i(2,4,5) by (auto simp: invh_plug)
  moreover have "\<not> col (plug cs (Br x c k l r))" using root_black [OF i(3)] i(5) by (cases "cs = []") auto
  ultimately have v: "ctxc ?C" "invc (Br s sc ks Lf d)" "invh (Br s sc ks Lf d)" "ctxh ?C (bheight (Br s sc ks Lf d))"
    using invc_plugD [of ?C "Br s sc ks Lf d"] invh_plug [of ?C "Br s sc ks Lf d"] unfolding pe by blast+
  have bh: "bheight d + (if sc then 0 else 1) = bheight (Br s sc ks Lf d)" "sc \<Longrightarrow> \<not> col d" "invc d" "invh d"
    using v(2,3) by auto
  have ctx: "ctxc ?C'" "ctxh ?C' (bheight d + (if sc then 0 else 1))"
    using v(1,4) ctxc_swap ctxh_swap unfolding bh(1) by blast+
  have x: "x \<notin> pos_addrs ?C' d" "rb_sentinel t3 \<noteq> Some x"
    using atC xs sentinel_not_node [OF at, of x] m(7) by (auto simp: at_pos_def crumb_addrs_append)
  obtain n where n: "rb_nodes t3 x = Some n" using m(5) by blast
  have "deleted t3 (inorder (plug ?C' d)) (finish sc x (ptr_of t3 d) t3)"
    by (rule finish_ok [OF m(3) C'(1) m(4) C'(2) n x ctx bh(2-4)])
  moreover have "ptr_of t3 d = ptr_of t d" by (cases d) (simp_all add: m(7))
  moreover have "inorder (plug ?C' d) = before cs @ inorder l @ inorder r @ behind cs"
    using r(3) by (simp add: r(1) inorder_plug before_append behind_append)
  ultimately show ?thesis unfolding e using m(6,7) by (simp add: deleted_def)
qed

section \<open>Deletion\<close>

lemma plug_at_node: "x \<in> set (addrs f) \<Longrightarrow> \<exists>cs c k l r. f = plug cs (Br x c k l r)"
proof (induction f)
  case (Br a c k l r)
  consider "x = a" | "x \<in> set (addrs l)" | "x \<in> set (addrs r)" using Br.prems by auto
  then show ?case
  proof cases
    case 1
    then show ?thesis by (intro exI [of _ "[]"]) auto
  next
    case 2
    then obtain cs c' k' l' r' where l: "l = plug cs (Br x c' k' l' r')" using Br.IH(1) by blast
    have "Br a c k l r = plug (cs @ [Crumb True a c k r]) (Br x c' k' l' r')" by (simp add: plug_append mk_def l)
    then show ?thesis by blast
  next
    case 3
    then obtain cs c' k' l' r' where r: "r = plug cs (Br x c' k' l' r')" using Br.IH(2) by blast
    have "Br a c k l r = plug (cs @ [Crumb False a c k l]) (Br x c' k' l' r')" by (simp add: plug_append mk_def r)
    then show ?thesis by blast
  qed
qed simp

lemma delete_at:
  assumes at: "at_pos t cs (Br x c k l r)" and so: "sentinel_ok t" and mn: "min_ok mn"
    and i: "invc (Br x c k l r)" "invh (Br x c k l r)" "ctxc cs" "ctxh cs (bheight (Br x c k l r))" "c \<Longrightarrow> black_above cs"
  shows "deleted t (before cs @ inorder l @ inorder r @ behind cs) (stl_rbtree_delete mn t x)"
proof (cases "l \<noteq> Lf \<and> r \<noteq> Lf")
  case True
  then show ?thesis using delete_two [OF at so _ _ mn i] by blast
next
  case False
  then obtain a d where m: "Br x c k l r = mk a x c k d Lf" and d: "inorder l @ inorder r = inorder d"
    by (metis (full_types) append_Nil append_Nil2 inorder.simps(1) mk_def)
  show ?thesis
  proof (cases cs rule: crumb_addrs.cases)
    case 1
    have "bheight d = 0" "invc d" "invh d" using i(1,2) unfolding m by auto
    then have "deleted t (inorder d) (stl_rbtree_delete mn t x)"
      using delete_root at so unfolding m 1 by blast
    then show ?thesis using d by (simp add: 1 flip: append_assoc)
  next
    case (2 b p cp kp w cs')
    have "deleted t (inorder (plug cs d)) (stl_rbtree_delete mn t x)"
      using delete_one [of t b p cp kp w cs' a x c k d mn] at so i unfolding m 2 by blast
    then show ?thesis using d by (simp add: inorder_plug flip: append_assoc)
  qed
qed

text \<open>C25: Deletion of a node of a red-black tree gives a red-black tree with the other nodes in the same order,
  whatever the shape of the tree around the node: the node may be the root, have two subtrees, or leave
  a path with too few black nodes. The function for the leftmost node, which the repository
  does not define, is assumed to find it. The function returns 0 or leaves without a value.\<close>

theorem rbtree_delete_correct:
  assumes "rb_repr t tr" "x \<in> fst ` set (inorder tr)" "min_ok stl_rbtree_min"
  shows "\<exists>r t' tr'. stl_rbtree_delete stl_rbtree_min t x = Some (r, t') \<and> (r = Some 0 \<or> r = None) \<and>
    rb_repr t' tr' \<and> inorder tr' = filter (\<lambda>e. fst e \<noteq> x) (inorder tr)"
proof -
  obtain cs c k l r where tr: "tr = plug cs (Br x c k l r)" using plug_at_node assms(2) addrs_inorder by metis
  have at: "at_pos t cs (Br x c k l r)" and so: "sentinel_ok t"
    using assms(1) at_pos_plug unfolding rb_repr_def tr by blast+
  have v: "invc tr" "invh tr" "\<not> col tr" using assms(1) by (auto simp: rb_repr_def)
  note c = invc_plugD [OF v(1,3) [unfolded tr]]
  have "deleted t (before cs @ inorder l @ inorder r @ behind cs) (stl_rbtree_delete stl_rbtree_min t x)"
    by (rule delete_at [OF at so assms(3)]) (use c v(2) in \<open>auto simp: tr invh_plug\<close>)
  moreover have "before cs @ inorder l @ inorder r @ behind cs = filter (\<lambda>e. fst e \<noteq> x) (inorder tr)"
  proof -
    have "distinct (map fst (inorder tr))"
    proof -
      have "mset (map fst (inorder f)) = mset (addrs f)" for f :: "'a rbt" by (induction f) auto
      then have "distinct (map fst (inorder tr)) = distinct (addrs tr)" by (rule mset_eq_imp_distinct_iff)
      then show ?thesis using assms(1) by (simp add: rb_repr_def at_pos_def)
    qed
    then have "x \<notin> fst ` set (before cs @ inorder l)" "x \<notin> fst ` set (inorder r @ behind cs)"
      unfolding tr inorder_plug by auto
    then have "filter (\<lambda>e. fst e \<noteq> x) ys = ys" if "ys \<in> {before cs, inorder l, inorder r, behind cs}" for ys
      using that by (intro filter_True) force
    then show ?thesis unfolding tr inorder_plug by simp
  qed
  ultimately show ?thesis unfolding deleted_def by auto
qed

text \<open>A function for the leftmost node and a tree of three nodes, to see the theorem at work.\<close>

partial_function (option) sample_min :: "'k stl_rbtree \<Rightarrow> ptr \<Rightarrow> ptr option" where
  "sample_min t p = do { l \<leftarrow> rb_get rb_left t p; if l = rb_sentinel t then Some p else sample_min t l }"

lemma sample_min_ok: "min_ok sample_min"
proof -
  have "sample_min t (ptr_of t f) = Some (leftmost f)" if "at_pos t cs f" "f \<noteq> Lf" for t :: "'a stl_rbtree" and cs f
    using that
  proof (induction f arbitrary: cs)
    case (Br a c k l r)
    have g: "rb_get rb_left t (Some a) = Some (ptr_of t l)" using get_children [OF Br.prems(1)] by simp
    show ?case
    proof (cases l)
      case Lf
      then show ?thesis by (subst sample_min.simps) (simp add: g)
    next
      case l: (Br a' c' k' l' r')
      have "at_pos t (Crumb True a c k r # cs) l" using Br.prems(1) by (simp add: move_left)
      moreover have "rb_sentinel t \<noteq> Some a'" using calculation l by (auto simp: at_pos_def shape_Br)
      ultimately show ?thesis using Br.IH(1) l by (subst sample_min.simps) (simp add: g)
    qed
  qed simp
  then show ?thesis by (simp add: min_ok_def)
qed

definition sample_three :: "int stl_rbtree" where
  "sample_three = \<lparr>rb_root = Some 2, rb_sentinel = Some 0, rb_cmp = int_cmp, rb_nodes = [
     0 \<mapsto> \<lparr>rb_key = None, rb_left = None, rb_right = None, rb_parent = None, rb_color = False, rb_data = None\<rparr>,
     1 \<mapsto> \<lparr>rb_key = Some 10, rb_left = Some 0, rb_right = Some 0, rb_parent = Some 2, rb_color = False, rb_data = None\<rparr>,
     2 \<mapsto> \<lparr>rb_key = Some 20, rb_left = Some 1, rb_right = Some 3, rb_parent = None, rb_color = False, rb_data = None\<rparr>,
     3 \<mapsto> \<lparr>rb_key = Some 30, rb_left = Some 0, rb_right = Some 0, rb_parent = Some 2, rb_color = False, rb_data = None\<rparr>]\<rparr>"

lemma sample_three_repr:
  "rb_repr sample_three (Br 2 False (Some 20) (Br 1 False (Some 10) Lf Lf) (Br 3 False (Some 30) Lf Lf))"
  by (simp add: rb_repr_def at_pos_def sentinel_ok_def sample_three_def shape_Br)

theorem rbtree_delete_correct_witness:
  "\<exists>r t' tr'. stl_rbtree_delete sample_min sample_three 2 = Some (r, t') \<and> (r = Some 0 \<or> r = None) \<and>
    rb_repr t' tr' \<and> inorder tr' = [(1, Some 10), (3, Some 30)]"
  using rbtree_delete_correct [OF sample_three_repr _ sample_min_ok, of 2] by simp

end
