(* ===== verification/Byte_Heap.thy ===== *)
theory Byte_Heap
  imports C_Prelude
begin

text \<open>
  Allocated objects of bytes, shared by the dictionary and the strings: a heap is a list of objects, an
  address counts from 1, 0 is NULL, and a freed object is \<open>None\<close>.
\<close>

type_synonym byte_heap = "u8 list option list"

definition obj_at :: "byte_heap \<Rightarrow> u64 \<Rightarrow> u8 list option" where
  "obj_at h p = (if p = 0 then None else if unat p \<le> length h then h ! (unat p - 1) else None)"

definition new_obj :: "byte_heap \<Rightarrow> u8 list \<Rightarrow> (byte_heap \<times> u64) option" where
  "new_obj h s = (if length h + 1 < 2 ^ 64 then Some (h @ [Some s], of_nat (length h + 1)) else None)"

definition set_obj :: "byte_heap \<Rightarrow> u64 \<Rightarrow> u8 list \<Rightarrow> byte_heap option" where
  "set_obj h p s = do { old \<leftarrow> obj_at h p; Some (h[unat p - 1 := Some s]) }"

definition free_obj :: "byte_heap \<Rightarrow> u64 \<Rightarrow> byte_heap option" where
  "free_obj h p = (if p = 0 then Some h else do { s \<leftarrow> obj_at h p; Some (h[unat p - 1 := None]) })"

lemma obj_at_null [simp]: "obj_at h 0 = None"
  by (simp add: obj_at_def)

lemma new_obj_SomeE:
  assumes "new_obj h s = Some (h', p)"
  shows "h' = h @ [Some s]" "p \<noteq> 0" "obj_at h' p = Some s"
proof -
  have l: "length h + 1 < 2 ^ 64" and h': "h' = h @ [Some s]" and p: "p = of_nat (length h + 1)"
    using assms by (auto simp: new_obj_def split: if_splits)
  have u: "unat p = length h + 1" unfolding p using l by (simp only: unat_of_nat) simp
  then have "p \<noteq> 0" by auto
  then show "h' = h @ [Some s]" "p \<noteq> 0" "obj_at h' p = Some s" using h' u by (simp_all add: obj_at_def)
qed

lemma set_obj_at:
  assumes "obj_at h p = Some s"
  obtains h' where "set_obj h p t = Some h'" "obj_at h' p = Some t"
proof
  have p: "p \<noteq> 0" "unat p \<le> length h" using assms by (auto simp: obj_at_def split: if_splits)
  then have "unat p - 1 < length h" by (metis diff_less gr_zeroI le_zero_eq less_le_trans less_one unat_eq_zero)
  then show "obj_at (h[unat p - 1 := Some t]) p = Some t" using p by (simp add: obj_at_def)
  show "set_obj h p t = Some (h[unat p - 1 := Some t])" using assms by (simp add: set_obj_def)
qed

end
