(* ===== verification/Dict.thy ===== *)
theory Dict
  imports Byte_Heap
begin

text \<open>
  The hash table (\<open>module/stl/src/stl_dict.c\<close>): an array of buckets, each a linked list of pairs of
  items, newest first.

  An item is a struct of 16 bytes, an 8-byte union, a type and a length, and the code copies it
  with a \<open>memcpy\<close> of \<open>len\<close> bytes, whatever \<open>len\<close> is: \<open>copy_item\<close> gives the bytes copied, and is
  undefined beyond the struct. The union is a word of 64 bits; as a pointer it is 0 or the address,
  counted from 1, of an object in a heap of byte strings, in which a freed object is \<open>None\<close>.

  A chain is the list of its pairs. \<open>cmp\<close> and \<open>hash\<close> are the functions of the user that the
  dictionary keeps; they may read the heap.
\<close>

section \<open>Items\<close>

definition DICT_ITEM_TYPE_INT :: u32 where "DICT_ITEM_TYPE_INT = 0"
definition DICT_ITEM_TYPE_UINT :: u32 where "DICT_ITEM_TYPE_UINT = 1"
definition DICT_ITEM_TYPE_DOUBLE :: u32 where "DICT_ITEM_TYPE_DOUBLE = 2"
definition DICT_ITEM_TYPE_STR :: u32 where "DICT_ITEM_TYPE_STR = 3"
definition DICT_ITEM_TYPE_PTR :: u32 where "DICT_ITEM_TYPE_PTR = 4"

lemmas dict_types = DICT_ITEM_TYPE_INT_def DICT_ITEM_TYPE_UINT_def DICT_ITEM_TYPE_DOUBLE_def
  DICT_ITEM_TYPE_STR_def DICT_ITEM_TYPE_PTR_def

record stl_dict_item =
  it_data :: u64
  it_type :: u32
  it_len :: u32

text \<open>The low \<open>k\<close> bits of a field come from the copy, the rest stays.\<close>

definition mix_low :: "nat \<Rightarrow> 'a::len word \<Rightarrow> 'a word \<Rightarrow> 'a word" where
  "mix_low k d s = push_bit k (drop_bit k d) OR take_bit k s"

definition copy_item :: "nat \<Rightarrow> stl_dict_item \<Rightarrow> stl_dict_item \<Rightarrow> stl_dict_item option" where
  "copy_item n dst src = (if n \<le> 16 then Some \<lparr>
       it_data = mix_low (8 * min n 8) (it_data dst) (it_data src),
       it_type = mix_low (8 * min (n - 8) 4) (it_type dst) (it_type src),
       it_len = mix_low (8 * (n - 12)) (it_len dst) (it_len src)\<rparr>
     else None)"

definition stl_dict_item_check_type :: "stl_dict_item \<Rightarrow> bool" where
  "stl_dict_item_check_type item \<longleftrightarrow> DICT_ITEM_TYPE_INT \<le> it_type item \<and> it_type item \<le> DICT_ITEM_TYPE_PTR"

definition stl_dict_item_ptr_alloc ::
    "byte_heap \<Rightarrow> stl_dict_item \<Rightarrow> stl_dict_item \<Rightarrow> (byte_heap \<times> stl_dict_item) option" where
  "stl_dict_item_ptr_alloc h dst item =
     (if it_type item = DICT_ITEM_TYPE_STR then do {
        s \<leftarrow> obj_at h (it_data item);
        (h, p) \<leftarrow> new_obj h s;
        Some (h, dst\<lparr>it_data := p, it_len := of_nat (length s)\<rparr>) }
      else if it_type item = DICT_ITEM_TYPE_PTR then do {
        s \<leftarrow> obj_at h (it_data item);
        c_assert (unat (it_len item) \<le> unat (it_len dst) \<and> unat (it_len item) \<le> length s);
        (h, p) \<leftarrow> new_obj h (take (unat (it_len item)) s @ replicate (unat (it_len dst) - unat (it_len item)) 0);
        Some (h, dst\<lparr>it_data := p\<rparr>) }
      else Some (h, dst))"

definition stl_dict_item_ptr_destroy :: "byte_heap \<Rightarrow> stl_dict_item \<Rightarrow> (byte_heap \<times> stl_dict_item) option" where
  "stl_dict_item_ptr_destroy h item =
     (if it_type item = DICT_ITEM_TYPE_STR \<or> it_type item = DICT_ITEM_TYPE_PTR then do {
        h \<leftarrow> free_obj h (it_data item);
        Some (h, item\<lparr>it_data := 0\<rparr>) }
      else Some (h, item))"

section \<open>Pairs\<close>

type_synonym stl_dict_item_pair = "stl_dict_item \<times> stl_dict_item"

definition zero_item :: stl_dict_item where
  "zero_item = \<lparr>it_data = 0, it_type = 0, it_len = 0\<rparr>"

definition stl_dict_item_pair_alloc ::
    "byte_heap \<Rightarrow> stl_dict_item \<Rightarrow> stl_dict_item \<Rightarrow> (byte_heap \<times> stl_dict_item_pair) option" where
  "stl_dict_item_pair_alloc h key value = do {
     k \<leftarrow> (if it_type key \<noteq> DICT_ITEM_TYPE_STR \<or> it_type key \<noteq> DICT_ITEM_TYPE_PTR
       then copy_item (unat (it_len key)) zero_item key else Some zero_item);
     v \<leftarrow> copy_item (unat (it_len value)) zero_item value;
     (h, k) \<leftarrow> stl_dict_item_ptr_alloc h k key;
     (h, v) \<leftarrow> stl_dict_item_ptr_alloc h v value;
     Some (h, (k, v)) }"

definition stl_dict_item_pair_destroy :: "byte_heap \<Rightarrow> stl_dict_item_pair \<Rightarrow> byte_heap option" where
  "stl_dict_item_pair_destroy h pair = do {
     (h, k) \<leftarrow> stl_dict_item_ptr_destroy h (fst pair);
     (h, v) \<leftarrow> stl_dict_item_ptr_destroy h (snd pair);
     Some h }"

section \<open>The dictionary\<close>

record stl_dict =
  max_count :: u64
  dict_count :: u32
  buckets :: "stl_dict_item_pair list list"
  dict_cmp :: "byte_heap \<Rightarrow> stl_dict_item \<Rightarrow> stl_dict_item \<Rightarrow> int"
  dict_hash :: "byte_heap \<Rightarrow> stl_dict_item \<Rightarrow> u64 \<Rightarrow> u32"

definition STL_DICT_INIT_SIZE :: u32 where "STL_DICT_INIT_SIZE = 64"

text \<open>\<open>ok\<close> tells whether \<open>calloc\<close> succeeds.\<close>

definition stl_dict_init :: "bool \<Rightarrow> stl_dict option \<Rightarrow> u32 \<Rightarrow>
    (byte_heap \<Rightarrow> stl_dict_item \<Rightarrow> stl_dict_item \<Rightarrow> int) \<Rightarrow> (byte_heap \<Rightarrow> stl_dict_item \<Rightarrow> u64 \<Rightarrow> u32) \<Rightarrow>
    int \<times> stl_dict option" where
  "stl_dict_init ok dict sz cmp hash = (case dict of
       None \<Rightarrow> (-1, None)
     | Some d \<Rightarrow>
         if 0 < sz then
           let d = d\<lparr>dict_count := 0\<rparr>;
               init_size = (if sz < STL_DICT_INIT_SIZE then STL_DICT_INIT_SIZE else sz)
           in if ok then (0, Some (d\<lparr>buckets := replicate (unat init_size) [], dict_count := 0,
                max_count := ucast STL_DICT_INIT_SIZE, dict_hash := hash, dict_cmp := cmp\<rparr>))
              else (-1, Some (d\<lparr>buckets := []\<rparr>))
         else (-1, Some d))"

definition zero_dict :: stl_dict where
  "zero_dict = \<lparr>max_count = 0, dict_count = 0, buckets = [], dict_cmp = (\<lambda>_ _ _. 0), dict_hash = (\<lambda>_ _ _. 0)\<rparr>"

definition stl_dict_alloc :: "bool \<Rightarrow> bool \<Rightarrow> u32 \<Rightarrow>
    (byte_heap \<Rightarrow> stl_dict_item \<Rightarrow> stl_dict_item \<Rightarrow> int) \<Rightarrow> (byte_heap \<Rightarrow> stl_dict_item \<Rightarrow> u64 \<Rightarrow> u32) \<Rightarrow> stl_dict option" where
  "stl_dict_alloc ok0 ok sz cmp hash =
     (if \<not> ok0 then None
      else let (r, d) = stl_dict_init ok (Some zero_dict) sz cmp hash in if r \<noteq> 0 then None else d)"

text \<open>The bucket of a key; the remainder is undefined when \<open>max_count\<close> is 0.\<close>

definition bucket_index :: "byte_heap \<Rightarrow> stl_dict \<Rightarrow> stl_dict_item \<Rightarrow> nat option" where
  "bucket_index h d key = (if max_count d = 0 then None
     else Some (unat (ucast (dict_hash d h key (ucast (it_len key))) mod max_count d :: u64) mod 2 ^ 32))"

definition stl_dict_item_pair_insert ::
    "byte_heap \<Rightarrow> stl_dict \<Rightarrow> nat \<Rightarrow> stl_dict_item \<Rightarrow> stl_dict_item \<Rightarrow> (int \<times> byte_heap \<times> stl_dict) option" where
  "stl_dict_item_pair_insert h d index key value = do {
     (h, pair) \<leftarrow> stl_dict_item_pair_alloc h key value;
     chain \<leftarrow> mem_read (buckets d) (int index);
     bs \<leftarrow> mem_write (buckets d) (int index) (pair # chain);
     Some (0, h, d\<lparr>buckets := bs, dict_count := dict_count d + 1\<rparr>) }"

definition stl_dict_insert :: "byte_heap \<Rightarrow> stl_dict option \<Rightarrow> stl_dict_item option \<Rightarrow> stl_dict_item option \<Rightarrow>
    (int \<times> byte_heap \<times> stl_dict option) option" where
  "stl_dict_insert h dict key value = (case (dict, key, value) of
       (Some d, Some k, Some v) \<Rightarrow>
         if stl_dict_item_check_type k \<and> stl_dict_item_check_type v then do {
           index \<leftarrow> bucket_index h d k;
           (r, h, d) \<leftarrow> stl_dict_item_pair_insert h d index k v;
           Some (r, h, Some d) }
         else Some (-1, h, dict)
     | _ \<Rightarrow> Some (-1, h, dict))"

text \<open>The pairs of a chain before the first one with the key, and the chain from it on.\<close>

fun find_pair :: "(stl_dict_item \<Rightarrow> bool) \<Rightarrow> stl_dict_item_pair list \<Rightarrow>
    stl_dict_item_pair list \<times> stl_dict_item_pair list" where
  "find_pair eq [] = ([], [])"
| "find_pair eq (pair # chain) =
     (if eq (fst pair) then ([], pair # chain)
      else let (before, rest) = find_pair eq chain in (pair # before, rest))"

definition stl_dict_item_pair_delete ::
    "byte_heap \<Rightarrow> stl_dict \<Rightarrow> nat \<Rightarrow> stl_dict_item \<Rightarrow> (int \<times> byte_heap \<times> stl_dict) option" where
  "stl_dict_item_pair_delete h d index key = do {
     chain \<leftarrow> mem_read (buckets d) (int index);
     (case find_pair (\<lambda>k. dict_cmp d h k key = 0) chain of
        (before, []) \<Rightarrow> Some (0, h, d)
      | (before, pair # next) \<Rightarrow> do {
          bs \<leftarrow> mem_write (buckets d) (int index) (if before = [] then [] else before @ next);
          h \<leftarrow> stl_dict_item_pair_destroy h pair;
          Some (0, h, d\<lparr>buckets := bs, dict_count := dict_count d - 1\<rparr>) }) }"

definition stl_dict_delete :: "byte_heap \<Rightarrow> stl_dict option \<Rightarrow> stl_dict_item option \<Rightarrow>
    (int \<times> byte_heap \<times> stl_dict option) option" where
  "stl_dict_delete h dict key = (case (dict, key) of
       (Some d, Some k) \<Rightarrow>
         if stl_dict_item_check_type k then do {
           index \<leftarrow> bucket_index h d k;
           (r, h, d) \<leftarrow> stl_dict_item_pair_delete h d index k;
           Some (r, h, Some d) }
         else Some (-1, h, dict)
     | _ \<Rightarrow> Some (-1, h, dict))"

text \<open>The value found, or NULL.\<close>

definition stl_dict_lookup :: "byte_heap \<Rightarrow> stl_dict option \<Rightarrow> stl_dict_item option \<Rightarrow> stl_dict_item option option" where
  "stl_dict_lookup h dict key = (case (dict, key) of
       (Some d, Some k) \<Rightarrow>
         if stl_dict_item_check_type k then do {
           index \<leftarrow> bucket_index h d k;
           chain \<leftarrow> mem_read (buckets d) (int index);
           Some (case snd (find_pair (\<lambda>q. dict_cmp d h q k = 0) chain) of [] \<Rightarrow> None | pair # _ \<Rightarrow> Some (snd pair)) }
         else Some None
     | _ \<Rightarrow> Some None)"

text \<open>What \<open>stl_dict_dump\<close> hands to the callback, in order.\<close>

definition stl_dict_dump :: "stl_dict option \<Rightarrow> bool \<Rightarrow> stl_dict_item_pair list option" where
  "stl_dict_dump dict cb = (case dict of None \<Rightarrow> Some []
     | Some d \<Rightarrow> if cb then for_each (\<lambda>i out. do {
           chain \<leftarrow> mem_read (buckets d) i;
           Some (out @ chain) }) [0..uint (max_count d) - 1] []
         else Some [])"

text \<open>The release of the first chain that is not empty reads the pair it has just freed.\<close>

definition deinit_chain :: "byte_heap \<Rightarrow> stl_dict_item_pair list \<Rightarrow> byte_heap option" where
  "deinit_chain h chain = (case chain of [] \<Rightarrow> Some h
     | pair # next \<Rightarrow> do { h \<leftarrow> stl_dict_item_pair_destroy h pair; None })"

definition stl_dict_deinit :: "byte_heap \<Rightarrow> stl_dict option \<Rightarrow> (int \<times> byte_heap) option" where
  "stl_dict_deinit h dict = (case dict of None \<Rightarrow> Some (-1, h)
     | Some d \<Rightarrow> do {
         h \<leftarrow> for_each (\<lambda>i h. do { chain \<leftarrow> mem_read (buckets d) i; deinit_chain h chain }) [0..uint (max_count d) - 1] h;
         Some (-1, h) })"

text \<open>The struct itself is the caller's and is released with it.\<close>

definition stl_dict_destroy :: "byte_heap \<Rightarrow> stl_dict option \<Rightarrow> byte_heap option" where
  "stl_dict_destroy h dict = do { (r, h) \<leftarrow> stl_dict_deinit h dict; Some h }"

section \<open>Maps that only grow\<close>

text \<open>The contract of a table that insertions go to: each of a key it can keep succeeds, keeps the table well
  formed, and overrides one key of the map the table stands for with what the table keeps of the value.\<close>

locale insert_map =
  fixes ok :: "'s \<Rightarrow> bool" and look :: "'s \<Rightarrow> 'k \<Rightarrow> 'v option" and ins :: "'k \<Rightarrow> 'v \<Rightarrow> 's \<Rightarrow> 's option"
    and fits :: "'k \<Rightarrow> bool" and kept :: "'v \<Rightarrow> 'v"
  assumes ins_ok: "ok s \<Longrightarrow> fits k \<Longrightarrow> \<exists>s'. ins k v s = Some s' \<and> ok s' \<and> look s' = (look s)(k \<mapsto> kept v)"
begin

definition ins_all :: "('k \<times> 'v) list \<Rightarrow> 's \<Rightarrow> 's option" where
  "ins_all kvs = for_each (\<lambda>(k, v). ins k v) kvs"

lemma ins_all_map: "ok s \<Longrightarrow> \<forall>(k, v)\<in>set kvs. fits k \<Longrightarrow> \<exists>s'. ins_all kvs s = Some s' \<and> ok s' \<and>
    look s' = look s ++ map_of (rev (map (\<lambda>(k, v). (k, kept v)) kvs))"
proof (induction kvs arbitrary: s)
  case Nil
  then show ?case by (simp add: ins_all_def)
next
  case (Cons kv kvs)
  obtain k v where kv: "kv = (k, v)" by (cases kv)
  from Cons.prems(2) have "fits k" by (simp add: kv)
  from ins_ok [OF Cons.prems(1) this] obtain s1 where
    s1: "ins k v s = Some s1" "ok s1" "look s1 = (look s)(k \<mapsto> kept v)" by blast
  from Cons.IH [OF s1(2)] Cons.prems(2) obtain s2 where "ins_all kvs s1 = Some s2" "ok s2"
    "look s2 = look s1 ++ map_of (rev (map (\<lambda>(k, v). (k, kept v)) kvs))" by auto
  then show ?case using s1 by (simp add: ins_all_def kv map_add_upd_left map_add_assoc)
qed

end

section \<open>Integer items\<close>

lemma mix_low_all [simp]: "LENGTH('a) \<le> k \<Longrightarrow> mix_low k d s = (s :: 'a::len word)"
  by (rule bit_word_eqI) (auto simp: mix_low_def bit_simps)

lemma mix_low_none [simp]: "mix_low 0 d s = d"
  by (simp add: mix_low_def)

lemma mix_low_zero [simp]: "mix_low k 0 s = take_bit k s"
  by (simp add: mix_low_def)

text \<open>An integer item whose \<open>len\<close> field is \<open>n\<close>, what a dictionary keeps of its integer, and the copy it stores:
  the first \<open>n\<close> bytes of the struct, of which eight are the integer and the last four the length.\<close>

definition len_item :: "nat \<Rightarrow> u64 \<Rightarrow> stl_dict_item" where
  "len_item n k = \<lparr>it_data = k, it_type = DICT_ITEM_TYPE_INT, it_len = of_nat n\<rparr>"

definition low_bytes :: "nat \<Rightarrow> u64 \<Rightarrow> u64" where
  "low_bytes n k = take_bit (8 * n) k"

definition stored_item :: "nat \<Rightarrow> u64 \<Rightarrow> stl_dict_item" where
  "stored_item n k = \<lparr>it_data = low_bytes n k, it_type = DICT_ITEM_TYPE_INT, it_len = (if n \<le> 12 then 0 else of_nat n)\<rparr>"

abbreviation int_item :: "u64 \<Rightarrow> stl_dict_item" where
  "int_item \<equiv> len_item 16"

lemma low_bytes_all [simp]: "8 \<le> n \<Longrightarrow> low_bytes n k = k"
  by (simp add: low_bytes_def take_bit_word_eq_self)

lemma low_bytes_idem [simp]: "low_bytes n (low_bytes n k) = low_bytes n k"
  by (simp add: low_bytes_def)

lemma len_item_simps [simp]: "it_data (len_item n k) = k" "it_type (len_item n k) = 0" "it_len (len_item n k) = of_nat n"
  "stl_dict_item_check_type (len_item n k)" "len_item n a = len_item n b \<longleftrightarrow> a = b"
  by (simp_all add: len_item_def dict_types stl_dict_item_check_type_def)

lemma stored_item_simps [simp]: "it_data (stored_item n k) = low_bytes n k" "it_type (stored_item n k) = 0"
  "stored_item 16 k = int_item k"
  by (simp_all add: stored_item_def len_item_def dict_types)

lemma copy_len_item:
  assumes "n \<le> 16"
  shows "copy_item n zero_item (len_item n k) = Some (stored_item n k)"
proof -
  have "take_bit (8 * min n 8) k = low_bytes n k"
    by (cases "n \<le> 8") (simp_all add: low_bytes_def min_def take_bit_word_eq_self)
  moreover have "take_bit (8 * (n - 12)) (of_nat n :: u32) = (if n \<le> 12 then 0 else of_nat n)"
  proof (cases "n \<le> 12")
    case False
    then have "n \<in> {13, 14, 15, 16}" using assms by auto
    then show ?thesis by auto
  qed simp
  ultimately show ?thesis using assms by (simp add: copy_item_def zero_item_def stored_item_def len_item_def dict_types)
qed

lemma unat_len [simp]: "n \<le> 16 \<Longrightarrow> unat (of_nat n :: u32) = n"
  by (simp add: unat_of_nat)

lemma pair_alloc_int:
  assumes "n \<le> 16" "m \<le> 16"
  shows "stl_dict_item_pair_alloc h (len_item n k) (len_item m v) = Some (h, (stored_item n k, stored_item m v))"
  using assms by (simp add: stl_dict_item_pair_alloc_def stl_dict_item_ptr_alloc_def dict_types copy_len_item)

text \<open>A dictionary of integers: at least 64 buckets of which 64 are used, all items integers, the keys of length \<open>n\<close>
  and the values of length \<open>m\<close>, and a comparison that tells whether a stored integer is the one searched.\<close>

definition ints_ok :: "nat \<Rightarrow> nat \<Rightarrow> byte_heap \<times> stl_dict \<Rightarrow> bool" where
  "ints_ok n m s \<longleftrightarrow> (case s of (h, d) \<Rightarrow> n \<le> 16 \<and> m \<le> 16 \<and> max_count d = 64 \<and> 64 \<le> length (buckets d) \<and>
     (\<forall>chain\<in>set (buckets d). \<forall>p\<in>set chain. \<exists>a b. p = (stored_item n a, stored_item m b)) \<and>
     (\<forall>h a b. dict_cmp d h (stored_item n a) (len_item n b) = 0 \<longleftrightarrow> low_bytes n a = b))"

text \<open>Lengths that cover the whole struct.\<close>

abbreviation dict_ok :: "byte_heap \<times> stl_dict \<Rightarrow> bool" where
  "dict_ok \<equiv> ints_ok 16 16"

definition ints_look :: "nat \<Rightarrow> byte_heap \<times> stl_dict \<Rightarrow> u64 \<Rightarrow> u64 option" where
  "ints_look n s k = (case stl_dict_lookup (fst s) (Some (snd s)) (Some (len_item n k)) of
     None \<Rightarrow> None | Some r \<Rightarrow> map_option it_data r)"

abbreviation dict_look :: "byte_heap \<times> stl_dict \<Rightarrow> u64 \<Rightarrow> u64 option" where
  "dict_look \<equiv> ints_look 16"

definition dict_ins :: "nat \<Rightarrow> nat \<Rightarrow> u64 \<Rightarrow> u64 \<Rightarrow> byte_heap \<times> stl_dict \<Rightarrow> (byte_heap \<times> stl_dict) option" where
  "dict_ins n m k v s = do {
     (r, h, d) \<leftarrow> stl_dict_insert (fst s) (Some (snd s)) (Some (len_item n k)) (Some (len_item m v));
     d \<leftarrow> d;
     if r = 0 then Some (h, d) else None }"

lemma bucket_index_ok:
  assumes "ints_ok n m (h, d)"
  shows "\<exists>i. bucket_index h d k = Some i \<and> i < length (buckets d)"
proof -
  have "unat (ucast (dict_hash d h k (ucast (it_len k))) mod (64 :: u64)) < 64" by (simp add: unat_mod)
  then have "unat (ucast (dict_hash d h k (ucast (it_len k))) mod (64 :: u64)) mod 2 ^ 32 < 64" by simp
  then show ?thesis using assms by (auto simp: bucket_index_def ints_ok_def)
qed

lemma bucket_index_less: "ints_ok n m (h, d) \<Longrightarrow> bucket_index h d k = Some i \<Longrightarrow> i < length (buckets d)"
  by (drule bucket_index_ok [of n m h d k]) auto

lemma bucket_index_update [simp]:
  "bucket_index h (d\<lparr>buckets := bs, dict_count := c\<rparr>) k = bucket_index h d k"
  "bucket_index h (d\<lparr>buckets := bs\<rparr>) k = bucket_index h d k"
  by (simp_all add: bucket_index_def)

lemma dict_ins_step:
  assumes "ints_ok n m (h, d)" "bucket_index h d (len_item n k) = Some i"
  shows "stl_dict_insert h (Some d) (Some (len_item n k)) (Some (len_item m v)) = Some (0, h, Some
    (d\<lparr>buckets := (buckets d)[i := (stored_item n k, stored_item m v) # buckets d ! i], dict_count := dict_count d + 1\<rparr>))"
proof -
  have "i < length (buckets d)" using bucket_index_less [OF assms] .
  moreover have "n \<le> 16" "m \<le> 16" using assms(1) by (simp_all add: ints_ok_def)
  ultimately show ?thesis
    using assms(2) by (simp add: stl_dict_insert_def stl_dict_item_pair_insert_def pair_alloc_int mem_write_def)
qed

lemma dict_look_eq:
  assumes "ints_ok n m (h, d)" "bucket_index h d (len_item n k) = Some i"
  shows "ints_look n (h, d) k = (case snd (find_pair (\<lambda>q. dict_cmp d h q (len_item n k) = 0) (buckets d ! i)) of
    [] \<Rightarrow> None | pair # _ \<Rightarrow> Some (it_data (snd pair)))"
proof -
  have "i < length (buckets d)" using bucket_index_less [OF assms] .
  then show ?thesis using assms(2) by (simp add: ints_look_def stl_dict_lookup_def split: list.splits)
qed

lemma ints_ok_push:
  assumes "ints_ok n m (h, d)" "i < length (buckets d)"
  shows "ints_ok n m (h, d\<lparr>buckets := (buckets d)[i := (stored_item n k, stored_item m v) # buckets d ! i], dict_count := c\<rparr>)"
  using assms by (fastforce simp: ints_ok_def dest!: set_update_subset_insert [THEN subsetD])

lemma find_pair_none: "\<forall>p\<in>set chain. \<not> eq (fst p) \<Longrightarrow> snd (find_pair eq chain) = []"
  by (induction chain) (auto split: prod.splits)

text \<open>A key that does not fit into its own length is never found.\<close>

lemma wide_key_lost:
  assumes "ints_ok n m (h, d)" "low_bytes n k \<noteq> k"
  shows "ints_look n (h, d) k = None"
proof -
  obtain i where i: "bucket_index h d (len_item n k) = Some i" "i < length (buckets d)" using bucket_index_ok [OF assms(1)] by blast
  have "\<forall>p\<in>set (buckets d ! i). \<exists>a. fst p = stored_item n a" using assms(1) i(2) by (force simp: ints_ok_def)
  moreover have "dict_cmp d h (stored_item n a) (len_item n k) \<noteq> 0" for a
    using assms by (auto simp: ints_ok_def)
  ultimately have "snd (find_pair (\<lambda>q. dict_cmp d h q (len_item n k) = 0) (buckets d ! i)) = []"
    by (intro find_pair_none) metis
  then show ?thesis using dict_look_eq [OF assms(1) i(1)] by simp
qed

lemma dict_ins_map:
  assumes "ints_ok n m s" "low_bytes n k = k"
  shows "\<exists>s'. dict_ins n m k v s = Some s' \<and> ints_ok n m s' \<and> ints_look n s' = (ints_look n s)(k \<mapsto> low_bytes m v)"
proof -
  obtain h d where s: "s = (h, d)" by (cases s)
  note ok = assms(1) [unfolded s]
  obtain i where i: "bucket_index h d (len_item n k) = Some i" and il: "i < length (buckets d)"
    using bucket_index_ok [OF ok] by blast
  define d' where "d' = d\<lparr>buckets := (buckets d)[i := (stored_item n k, stored_item m v) # buckets d ! i], dict_count := dict_count d + 1\<rparr>"
  have ok': "ints_ok n m (h, d')" unfolding d'_def by (rule ints_ok_push [OF ok il])
  have "ints_look n (h, d') a = ((ints_look n (h, d))(k \<mapsto> low_bytes m v)) a" for a
  proof -
    obtain j where j: "bucket_index h d (len_item n a) = Some j" and jl: "j < length (buckets d)"
      using bucket_index_ok [OF ok] by blast
    have j': "bucket_index h d' (len_item n a) = Some j" using j by (simp add: d'_def)
    have cmp: "dict_cmp d h (stored_item n k) (len_item n a) = 0 \<longleftrightarrow> k = a" using ok assms(2) by (simp add: ints_ok_def)
    show ?thesis
      unfolding dict_look_eq [OF ok' j'] fun_upd_apply dict_look_eq [OF ok j]
      using i j il jl cmp by (cases "i = j") (auto simp: d'_def split: prod.splits list.splits)
  qed
  then have "ints_look n (h, d') = (ints_look n (h, d))(k \<mapsto> low_bytes m v)" by blast
  then show ?thesis using dict_ins_step [OF ok i, of v] ok' by (simp add: dict_ins_def s d'_def)
qed

interpretation dict: insert_map "ints_ok n m" "ints_look n" "dict_ins n m" "\<lambda>k. low_bytes n k = k" "low_bytes m" for n m
  by unfold_locales (rule dict_ins_map)

section \<open>What the dictionary promises\<close>

definition dict_insert_all :: "nat \<Rightarrow> nat \<Rightarrow> byte_heap \<Rightarrow> stl_dict \<Rightarrow> (u64 \<times> u64) list \<Rightarrow> (byte_heap \<times> stl_dict) option" where
  "dict_insert_all n m h d kvs = for_each (\<lambda>(k, v). dict_ins n m k v) kvs (h, d)"

lemma dict_ok_init:
  assumes "stl_dict_init True (Some d0) sz cmp hash = (0, Some d)" "n \<le> 16" "m \<le> 16"
    "\<forall>h a b. cmp h (stored_item n a) (len_item n b) = 0 \<longleftrightarrow> low_bytes n a = b"
  shows "ints_ok n m (h, d)" "ints_look n (h, d) = Map.empty"
proof -
  have d: "d = d0\<lparr>buckets := replicate (unat (if sz < 64 then 64 else sz)) [], dict_count := 0, max_count := 64,
      dict_hash := hash, dict_cmp := cmp\<rparr>"
    using assms(1) by (auto simp: stl_dict_init_def Let_def STL_DICT_INIT_SIZE_def split: if_splits)
  show ok: "ints_ok n m (h, d)" using assms(2-4) by (auto simp: d ints_ok_def word_le_nat_alt not_less)
  show "ints_look n (h, d) = Map.empty"
  proof
    fix k
    obtain i where i: "bucket_index h d (len_item n k) = Some i" "i < length (buckets d)" using bucket_index_ok [OF ok] by blast
    then have "buckets d ! i = []" by (simp add: d)
    then show "ints_look n (h, d) k = None" using dict_look_eq [OF ok i(1)] by simp
  qed
qed

text \<open>C30: A new dictionary of 64-bit integers is the map of its insertions, as far as the lengths of the items
  allow. Let all keys be of type integer with the field \<open>len\<close> equal to \<open>n\<close> and all values with \<open>m\<close>, neither
  above 16, the size of the item (the copy of \<open>len\<close> bytes keeps the low \<open>len\<close> bytes of the integer), let each
  key inserted fit into \<open>n\<close> bytes (the repository's test uses 4, where -1 does not), and let the comparison
  be 0 exactly when the stored integer is the one searched. Then for any hash function each insertion
  returns 0, a lookup finds the low \<open>m\<close> bytes of the value inserted last under its key, and NULL for a
  key never inserted.\<close>

theorem dict_holds_insertions:
  assumes "stl_dict_init True (Some d0) sz cmp hash = (0, Some d)" "n \<le> 16" "m \<le> 16"
    "\<forall>h a b. cmp h (stored_item n a) (len_item n b) = 0 \<longleftrightarrow> low_bytes n a = b"
    "\<forall>(k, v)\<in>set kvs. low_bytes n k = k"
  shows "\<exists>h' d'. dict_insert_all n m h d kvs = Some (h', d') \<and>
    (\<forall>k. ints_look n (h', d') k = map_of (rev (map (\<lambda>(k, v). (k, low_bytes m v)) kvs)) k)"
  using dict.ins_all_map [OF dict_ok_init(1) [OF assms(1-4)] assms(5), of h] dict_ok_init(2) [OF assms(1-4), of h]
  by (auto simp: dict_insert_all_def dict.ins_all_def)

definition data_cmp :: "byte_heap \<Rightarrow> stl_dict_item \<Rightarrow> stl_dict_item \<Rightarrow> int" where
  "data_cmp h a b = (if it_data a = it_data b then 0 else 1)"

definition data_hash :: "byte_heap \<Rightarrow> stl_dict_item \<Rightarrow> u64 \<Rightarrow> u32" where
  "data_hash h a n = ucast (it_data a)"

definition sample_dict :: stl_dict where
  "sample_dict = zero_dict\<lparr>buckets := replicate 64 [], max_count := 64, dict_hash := data_hash, dict_cmp := data_cmp\<rparr>"

lemma sample_dict_init: "stl_dict_init True (Some zero_dict) 10 data_cmp data_hash = (0, Some sample_dict)"
  by (simp add: stl_dict_init_def STL_DICT_INIT_SIZE_def sample_dict_def zero_dict_def Let_def)

theorem dict_holds_insertions_witness:
  "\<exists>h' d'. dict_insert_all 4 8 [] sample_dict [(7, 1), (71, 2), (7, 2 ^ 40)] = Some (h', d') \<and>
    ints_look 4 (h', d') 7 = Some (2 ^ 40) \<and> ints_look 4 (h', d') 71 = Some 2 \<and> ints_look 4 (h', d') 8 = None"
proof -
  have "\<forall>h a b. data_cmp h (stored_item 4 a) (len_item 4 b) = 0 \<longleftrightarrow> low_bytes 4 a = b" by (simp add: data_cmp_def)
  moreover have "\<forall>(k, v)\<in>set [(7, 1), (71, 2), (7, 2 ^ 40 :: u64)]. low_bytes 4 k = k" by (simp add: low_bytes_def)
  ultimately show ?thesis
    using dict_holds_insertions [OF sample_dict_init, of 4 8 "[(7, 1), (71, 2), (7, 2 ^ 40)]" "[]"] by auto
qed

text \<open>With the length the repository's test uses, a key of more than four bytes is stored under its low
  bytes and not found again.\<close>

theorem dict_wide_key_lost:
  assumes "ints_ok n m (h, d)" "low_bytes n k \<noteq> k"
  shows "\<exists>d'. stl_dict_insert h (Some d) (Some (len_item n k)) (Some (len_item m v)) = Some (0, h, Some d') \<and>
    stl_dict_lookup h (Some d') (Some (len_item n k)) = Some None"
proof -
  obtain i where i: "bucket_index h d (len_item n k) = Some i" "i < length (buckets d)" using bucket_index_ok [OF assms(1)] by blast
  let ?d = "d\<lparr>buckets := (buckets d)[i := (stored_item n k, stored_item m v) # buckets d ! i], dict_count := dict_count d + 1\<rparr>"
  have ok: "ints_ok n m (h, ?d)" by (rule ints_ok_push [OF assms(1) i(2)])
  have "bucket_index h ?d (len_item n k) = Some i" using i(1) by simp
  then have "stl_dict_lookup h (Some ?d) (Some (len_item n k)) = Some None"
    using wide_key_lost [OF ok assms(2)] i(2) by (simp add: ints_look_def stl_dict_lookup_def split: list.splits)
  then show ?thesis using dict_ins_step [OF assms(1) i(1)] by blast
qed

theorem dict_wide_key_lost_witness:
  "\<exists>d'. stl_dict_insert [] (Some sample_dict) (Some (len_item 4 (- 1))) (Some (len_item 8 5)) = Some (0, [], Some d') \<and>
    stl_dict_lookup [] (Some d') (Some (len_item 4 (- 1))) = Some None"
proof -
  have "ints_ok 4 8 ([], sample_dict)" by (rule dict_ok_init(1) [OF sample_dict_init]) (simp_all add: data_cmp_def)
  moreover have "low_bytes 4 (- 1) \<noteq> - 1" by code_simp
  ultimately show ?thesis by (rule dict_wide_key_lost)
qed

text \<open>C40: Inserting a key and deleting it again is not the identity: every key of the same bucket is lost, because
  deleting the first pair of a bucket sets the bucket to NULL. The other buckets keep their keys.\<close>

theorem dict_delete_drops_chain:
  assumes "dict_ok (h, d)"
  shows "\<exists>d1 d2. stl_dict_insert h (Some d) (Some (int_item k)) (Some (int_item v)) = Some (0, h, Some d1) \<and>
    stl_dict_delete h (Some d1) (Some (int_item k)) = Some (0, h, Some d2) \<and>
    (\<forall>a. dict_look (h, d2) a =
      (if bucket_index h d (int_item a) = bucket_index h d (int_item k) then None else dict_look (h, d) a))"
proof -
  obtain i where i: "bucket_index h d (int_item k) = Some i" "i < length (buckets d)" using bucket_index_ok [OF assms] by blast
  define d1 where "d1 = d\<lparr>buckets := (buckets d)[i := (stored_item 16 k, stored_item 16 v) # buckets d ! i], dict_count := dict_count d + 1\<rparr>"
  define d2 where "d2 = d\<lparr>buckets := (buckets d)[i := []], dict_count := dict_count d\<rparr>"
  have cmp: "\<forall>a b. dict_cmp d h (int_item a) (int_item b) = 0 \<longleftrightarrow> a = b" using assms by (simp add: ints_ok_def)
  have ok2: "dict_ok (h, d2)"
    using assms by (fastforce simp: d2_def ints_ok_def dest!: set_update_subset_insert [THEN subsetD])
  have "stl_dict_delete h (Some d1) (Some (int_item k)) = Some (0, h, Some d2)"
    using i cmp by (simp add: stl_dict_delete_def stl_dict_item_pair_delete_def d1_def d2_def mem_write_def
      stl_dict_item_pair_destroy_def stl_dict_item_ptr_destroy_def dict_types)
  moreover have "dict_look (h, d2) a =
      (if bucket_index h d (int_item a) = bucket_index h d (int_item k) then None else dict_look (h, d) a)" for a
  proof -
    obtain j where j: "bucket_index h d (int_item a) = Some j" "j < length (buckets d)" using bucket_index_ok [OF assms] by blast
    have j2: "bucket_index h d2 (int_item a) = Some j" using j by (simp add: d2_def)
    show ?thesis
      unfolding dict_look_eq [OF ok2 j2] dict_look_eq [OF assms j(1)] using i j by (cases "i = j") (simp_all add: d2_def)
  qed
  ultimately show ?thesis using dict_ins_step [OF assms i(1), of v] unfolding d1_def by blast
qed

theorem dict_delete_drops_chain_witness:
  "\<exists>d1 d2. stl_dict_insert [] (Some sample_dict) (Some (int_item 7)) (Some (int_item 1)) = Some (0, [], Some d1) \<and>
    stl_dict_delete [] (Some d1) (Some (int_item 7)) = Some (0, [], Some d2) \<and> dict_look ([], d2) 71 = None"
proof -
  have ok: "dict_ok ([], sample_dict)" by (rule dict_ok_init(1) [OF sample_dict_init]) (simp_all add: data_cmp_def)
  have "bucket_index [] sample_dict (int_item 71) = bucket_index [] sample_dict (int_item 7)"
    by (simp add: bucket_index_def sample_dict_def zero_dict_def data_hash_def)
  then show ?thesis using dict_delete_drops_chain [OF ok, of 7 1] by (metis (full_types))
qed

text \<open>A key that is a string of at most 8 bytes is stored with the type of an integer: the copy of \<open>len\<close>
  bytes of the item does not reach its type. The copied string is then never released.\<close>

theorem dict_string_key_type_lost:
  assumes "it_type key = DICT_ITEM_TYPE_STR" "it_len key \<le> 8" "stl_dict_item_pair_alloc h key value = Some (h', pair)"
  shows "it_type (fst pair) = DICT_ITEM_TYPE_INT \<and> stl_dict_item_ptr_destroy h' (fst pair) = Some (h', fst pair)"
proof -
  have "unat (it_len key) \<le> 8" using assms(2) by (simp add: word_le_nat_alt)
  then have "it_type (fst pair) = 0"
    using assms(1,3)
    by (auto simp: stl_dict_item_pair_alloc_def stl_dict_item_ptr_alloc_def dict_types zero_item_def copy_item_def
      elim!: bind_SomeE split: if_split_asm)
  then show ?thesis by (simp add: stl_dict_item_ptr_destroy_def dict_types)
qed

theorem dict_string_key_type_lost_witness:
  "\<exists>h' pair. stl_dict_item_pair_alloc [Some [0x61, 0x62]] \<lparr>it_data = 1, it_type = DICT_ITEM_TYPE_STR, it_len = 2\<rparr> (int_item 5)
      = Some (h', pair) \<and> it_type (fst pair) = DICT_ITEM_TYPE_INT"
proof -
  have "\<exists>h' pair. stl_dict_item_pair_alloc [Some [0x61, 0x62]] \<lparr>it_data = 1, it_type = DICT_ITEM_TYPE_STR, it_len = 2\<rparr> (int_item 5)
      = Some (h', pair)"
    by (simp add: stl_dict_item_pair_alloc_def stl_dict_item_ptr_alloc_def dict_types copy_item_def obj_at_def new_obj_def)
  then obtain h' pair where "stl_dict_item_pair_alloc [Some [0x61, 0x62]] \<lparr>it_data = 1, it_type = DICT_ITEM_TYPE_STR, it_len = 2\<rparr>
    (int_item 5) = Some (h', pair)" by blast
  with dict_string_key_type_lost [OF _ _ this] show ?thesis by (auto simp: word_le_nat_alt)
qed

text \<open>Releasing a dictionary that holds anything reads a pair after freeing it.\<close>

lemma for_each_None: "x \<in> set xs \<Longrightarrow> (\<And>s. f x s = None) \<Longrightarrow> for_each f xs s = None"
proof (induction xs arbitrary: s)
  case (Cons y ys)
  then show ?case by (cases "f y s") auto
qed simp

lemma dict_deinit_crashes:
  assumes "i < unat (max_count d)" "i < length (buckets d)" "buckets d ! i \<noteq> []"
  shows "stl_dict_deinit h (Some d) = None"
proof -
  define f where "f = (\<lambda>i h. do { chain \<leftarrow> mem_read (buckets d) i; deinit_chain h chain })"
  obtain p ps where "buckets d ! i = p # ps" using assms(3) by (cases "buckets d ! i") blast+
  then have "f (int i) h = None" for h using assms(2) by (simp add: f_def deinit_chain_def)
  moreover have u: "int (unat (max_count d)) = uint (max_count d)" by simp
  have "int i < uint (max_count d)" using assms(1) unfolding u [symmetric] by (simp only: of_nat_less_iff)
  then have "int i \<in> set [0..uint (max_count d) - 1]" by simp
  ultimately have "for_each f [0..uint (max_count d) - 1] h = None" by (intro for_each_None)
  then show ?thesis by (simp add: stl_dict_deinit_def f_def)
qed

end
