(* ===== verification/Ini.thy ===== *)
theory Ini
  imports C_Prelude
begin

text \<open>
  Configuration files (\<open>module/stl/src/stl_ini.c\<close>): an array of sections, each an array of key and
  value pairs, filled by a line parser.

  A C string is the list of its characters before the NUL; the line buffer is the string at its
  start, and \<open>head > buf\<close> becomes the question whether characters were skipped. An array of 4096
  pointers is a list of 4096 slots, \<open>None\<close> for NULL; reading or writing outside of it is undefined.
  The calls of the parser to \<open>next_line\<close> give the list of lines it reads; \<open>string_lines\<close> and
  \<open>file_lines\<close> are the lines of a string and of a file with \<open>fgets\<close>.
\<close>

section \<open>Sections and items\<close>

definition STL_INI_MAX_LINE_LEN :: nat where "STL_INI_MAX_LINE_LEN = 4096"
definition STL_INI_SECTION_MAX_ITEM_SIZE :: nat where "STL_INI_SECTION_MAX_ITEM_SIZE = 4096"
definition STL_INI_SECTION_MAX_SIZE :: nat where "STL_INI_SECTION_MAX_SIZE = 4096"

record stl_ini_item =
  ini_key :: string
  ini_val :: string

record stl_ini_section =
  sec_name :: string
  sec_cnt :: u64
  sec_items :: "stl_ini_item option list"

record stl_ini =
  ini_section :: "stl_ini_section option list"
  ini_cnt :: u64

text \<open>\<open>strncmp(a, b, strlen(b)) == 0\<close>: the string \<open>a\<close> starts with \<open>b\<close>.\<close>

definition strn_eq :: "string \<Rightarrow> string \<Rightarrow> bool" where
  "strn_eq a b \<longleftrightarrow> take (length b) a = b"

definition stl_ini_section_init :: "string \<Rightarrow> stl_ini_section" where
  "stl_ini_section_init name =
     \<lparr>sec_name = name, sec_cnt = 0, sec_items = replicate STL_INI_SECTION_MAX_ITEM_SIZE None\<rparr>"

definition stl_ini_section_put_conf :: "stl_ini_section \<Rightarrow> string \<Rightarrow> string \<Rightarrow> (int \<times> stl_ini_section) option" where
  "stl_ini_section_put_conf sis key val = do {
     items \<leftarrow> mem_write (sec_items sis) (uint (sec_cnt sis)) (Some \<lparr>ini_key = key, ini_val = val\<rparr>);
     Some (0, sis\<lparr>sec_items := items, sec_cnt := sec_cnt sis + 1\<rparr>) }"

text \<open>The first slot at or after \<open>i\<close>, below the count, whose key matches; otherwise the count. The second
  loop moves the slots behind it down by one. Fuel \<open>n\<close> is the number of slots left to visit.\<close>

fun del_find :: "nat \<Rightarrow> stl_ini_item option list \<Rightarrow> string \<Rightarrow> nat \<Rightarrow> nat option" where
  "del_find 0 items key i = Some i"
| "del_find (Suc n) items key i = do {
     p \<leftarrow> mem_read items (int i);
     item \<leftarrow> p;
     if strn_eq (ini_key item) key then Some i else del_find n items key (Suc i) }"

fun del_shift :: "nat \<Rightarrow> stl_ini_item option list \<Rightarrow> nat \<Rightarrow> stl_ini_item option list option" where
  "del_shift 0 items i = Some items"
| "del_shift (Suc n) items i = do {
     p \<leftarrow> mem_read items (int i + 1);
     items \<leftarrow> mem_write items (int i) p;
     del_shift n items (Suc i) }"

definition stl_ini_section_del_conf :: "stl_ini_section \<Rightarrow> string \<Rightarrow> (int \<times> stl_ini_section) option" where
  "stl_ini_section_del_conf sis key = do {
     i \<leftarrow> del_find (unat (sec_cnt sis)) (sec_items sis) key 0;
     items \<leftarrow> del_shift (unat (sec_cnt sis) - i) (sec_items sis) i;
     Some (-1, sis\<lparr>sec_items := items, sec_cnt := sec_cnt sis - 1\<rparr>) }"

text \<open>The sections in use, read through the array.\<close>

definition section_at :: "stl_ini \<Rightarrow> int \<Rightarrow> stl_ini_section option" where
  "section_at si i = do { p \<leftarrow> mem_read (ini_section si) i; p }"

definition set_section :: "stl_ini \<Rightarrow> int \<Rightarrow> stl_ini_section \<Rightarrow> stl_ini option" where
  "set_section si i sis = do {
     ss \<leftarrow> mem_write (ini_section si) i (Some sis);
     Some (si\<lparr>ini_section := ss\<rparr>) }"

definition stl_ini_on_item_func :: "stl_ini \<Rightarrow> string \<Rightarrow> string \<Rightarrow> string \<Rightarrow> (int \<times> stl_ini) option" where
  "stl_ini_on_item_func ini sect key val = do {
     cur \<leftarrow> for_each (\<lambda>i cur. do {
         s \<leftarrow> section_at ini i;
         Some (if strn_eq (sec_name s) sect then Some i else cur) }) [0..uint (ini_cnt ini) - 1] None;
     (ini, i) \<leftarrow> (case cur of
         Some i \<Rightarrow> Some (ini, i)
       | None \<Rightarrow> do {
           let i = uint (ini_cnt ini);
           ini' \<leftarrow> set_section ini i (stl_ini_section_init sect);
           Some (ini'\<lparr>ini_cnt := ini_cnt ini' + 1\<rparr>, i) });
     s \<leftarrow> section_at ini i;
     (r, s) \<leftarrow> stl_ini_section_put_conf s key val;
     ini \<leftarrow> set_section ini i s;
     Some (0, ini) }"

section \<open>Trimming\<close>

definition isspace :: "char \<Rightarrow> bool" where
  "isspace c \<longleftrightarrow> c \<in> {CHR '' '', CHR 0x09, CHR 0x0A, CHR 0x0B, CHR 0x0C, CHR 0x0D}"

text \<open>The trimmed string, and how many characters were skipped at the front.\<close>

definition trim_space :: "string \<Rightarrow> string \<times> nat" where
  "trim_space str =
     (let s = dropWhile isspace str
      in (rev (dropWhile isspace (rev s)), length str - length s))"

definition comment_char :: "char \<Rightarrow> bool" where
  "comment_char c \<longleftrightarrow> c = CHR '';'' \<or> c = CHR ''#''"

text \<open>The loop over the spaces: the string ends after a space that a comment character follows.\<close>

fun cut_comment :: "string \<Rightarrow> string" where
  "cut_comment [] = []"
| "cut_comment (c # s) =
     (if c = CHR '' '' \<and> s \<noteq> [] \<and> comment_char (hd s) then [c] else c # cut_comment s)"

definition trim_comment :: "string \<Rightarrow> string" where
  "trim_comment str = (if str = [] \<or> comment_char (hd str) then [] else cut_comment str)"

definition trim_bom :: "string \<Rightarrow> string \<times> nat" where
  "trim_bom str =
     (if 3 \<le> length str \<and> take 3 str = [CHR 0xEF, CHR 0xBB, CHR 0xBF] then (drop 3 str, 3) else (str, 0))"

section \<open>The line parser\<close>

text \<open>\<open>strncpy\<close> into an array of 256 characters that is zero at its end.\<close>

definition copy255 :: "string \<Rightarrow> string" where
  "copy255 s = take 255 s"

text \<open>The string before the first character of a set, and the string after it.\<close>

definition split_at :: "(char \<Rightarrow> bool) \<Rightarrow> string \<Rightarrow> (string \<times> string) option" where
  "split_at P s = (case dropWhile (\<lambda>c. \<not> P c) s of [] \<Rightarrow> None | c # r \<Rightarrow> Some (takeWhile (\<lambda>c. \<not> P c) s, r))"

record parser =
  prs_ini :: stl_ini
  prs_line :: int
  prs_section :: string
  prs_key :: string

text \<open>One line: the parser goes on with \<open>Inr\<close>, and returns the number of the line with \<open>Inl\<close>.\<close>

definition parse_line :: "parser \<Rightarrow> string \<Rightarrow> (int \<times> stl_ini + parser) option" where
  "parse_line p buf = (
     let p = p\<lparr>prs_line := prs_line p + 1\<rparr>;
         (head, skip) = (if prs_line p = 1 then trim_bom buf else (buf, 0));
         (head, skip') = trim_space (trim_comment head);
         skip = skip + skip'
     in if head = [] then Some (Inr p)
        else if skip > 0 \<and> prs_key p \<noteq> [] then do {
          (rc, ini) \<leftarrow> stl_ini_on_item_func (prs_ini p) (prs_section p) (prs_key p) head;
          Some (if rc \<noteq> 0 then Inl (prs_line p, ini) else Inr (p\<lparr>prs_ini := ini\<rparr>)) }
        else if hd head = CHR ''['' then
          (case split_at (\<lambda>c. c = CHR '']'') head of
             None \<Rightarrow> Some (Inl (prs_line p, prs_ini p))
           | Some (name, _) \<Rightarrow> Some (Inr (p\<lparr>prs_key := [], prs_section := copy255 (tl name)\<rparr>)))
        else
          (case split_at (\<lambda>c. c = CHR ''='' \<or> c = CHR '':'') head of
             None \<Rightarrow> Some (Inl (prs_line p, prs_ini p))
           | Some (key, rest) \<Rightarrow> do {
               let key = rev (dropWhile isspace (rev key));
               (rc, ini) \<leftarrow> stl_ini_on_item_func (prs_ini p) (prs_section p) key (fst (trim_space rest));
               let p = p\<lparr>prs_ini := ini, prs_key := copy255 key\<rparr>;
               Some (if rc \<noteq> 0 then Inl (prs_line p, ini) else Inr p) }))"

fun parse_lines :: "parser \<Rightarrow> string list \<Rightarrow> (int \<times> stl_ini) option" where
  "parse_lines p [] = Some (0, prs_ini p)"
| "parse_lines p (l # ls) = do {
     r \<leftarrow> parse_line p l;
     case r of Inl res \<Rightarrow> Some res | Inr p \<Rightarrow> parse_lines p ls }"

definition stl_ini_parse :: "stl_ini \<Rightarrow> string list \<Rightarrow> (int \<times> stl_ini) option" where
  "stl_ini_parse ini lines = parse_lines \<lparr>prs_ini = ini, prs_line = 0, prs_section = [], prs_key = []\<rparr> lines"

text \<open>The lines \<open>stl_ini_string_line\<close> hands out, cut at \<open>n\<close> characters; the newline is not part of them.\<close>

function string_lines :: "nat \<Rightarrow> string \<Rightarrow> string list" where
  "string_lines n str = (if str = [] then []
     else (case dropWhile (\<lambda>c. c \<noteq> CHR 0x0A) str of
             [] \<Rightarrow> [take n str]
           | _ # rest \<Rightarrow> take n (takeWhile (\<lambda>c. c \<noteq> CHR 0x0A) str) # string_lines n rest))"
  by pat_completeness auto
termination
proof (relation "measure (length \<circ> snd)", goal_cases)
  case (2 n str c rest)
  then have "length (c # rest) \<le> length str" by (metis length_dropWhile_le)
  then show ?case by simp
qed simp

declare string_lines.simps [simp del]

text \<open>\<open>fgets\<close> with a buffer of \<open>n\<close> characters: up to \<open>n - 1\<close> characters, to the end of the line.\<close>

function file_lines :: "nat \<Rightarrow> string \<Rightarrow> string list" where
  "file_lines n str = (if str = [] \<or> n \<le> 1 then []
     else let chunk = take (n - 1) str;
              line = takeWhile (\<lambda>c. c \<noteq> CHR 0x0A) chunk;
              k = (if length line < length chunk then Suc (length line) else length line)
          in take k str # file_lines n (drop k str))"
  by pat_completeness auto
termination
proof (relation "measure (length \<circ> snd)", goal_cases)
  case (2 n str chunk line k)
  then have "0 < length chunk" by simp
  then have "0 < k" using 2(4) by (cases "length line < length chunk") auto
  then show ?case using 2(1) by simp
qed simp

declare file_lines.simps [simp del]

definition stl_ini_parse_string :: "stl_ini \<Rightarrow> string \<Rightarrow> (int \<times> stl_ini) option" where
  "stl_ini_parse_string ini str = stl_ini_parse ini (string_lines (STL_INI_MAX_LINE_LEN - 1) str)"

text \<open>A file that cannot be opened is \<open>None\<close>; \<open>err\<close> is what \<open>ferror\<close> reports at the end.\<close>

definition stl_ini_parse_file :: "stl_ini \<Rightarrow> string option \<Rightarrow> bool \<Rightarrow> (int \<times> stl_ini) option" where
  "stl_ini_parse_file ini file err = (case file of
       None \<Rightarrow> Some (-1, ini)
     | Some contents \<Rightarrow> do {
         (rc, ini) \<leftarrow> stl_ini_parse ini (file_lines (STL_INI_MAX_LINE_LEN - 1) contents);
         Some (if rc = 0 then (if err then -1 else 0) else rc, ini) })"

section \<open>Creating, reading and changing a configuration\<close>

definition STL_INI_FILE :: int where "STL_INI_FILE = 0"
definition STL_INI_STRING :: int where "STL_INI_STRING = 1"

definition ini_empty :: stl_ini where
  "ini_empty = \<lparr>ini_section = replicate STL_INI_SECTION_MAX_SIZE None, ini_cnt = 0\<rparr>"

text \<open>\<open>fs\<close> is the file system, \<open>err\<close> the result of \<open>ferror\<close>.\<close>

definition stl_ini_init :: "(string \<Rightarrow> string option) \<Rightarrow> bool \<Rightarrow> stl_ini option \<Rightarrow> string option \<Rightarrow> int \<Rightarrow>
    (int \<times> stl_ini option) option" where
  "stl_ini_init fs err si file_or_string ini_type = (case (si, file_or_string) of
       (Some _, Some str) \<Rightarrow>
         if STL_INI_FILE \<le> ini_type \<and> ini_type \<le> STL_INI_STRING then do {
           (rc, ini) \<leftarrow> (if ini_type = STL_INI_FILE then stl_ini_parse_file ini_empty (fs str) err
             else stl_ini_parse_string ini_empty str);
           Some (-1, Some ini) }
         else Some (-1, si)
     | _ \<Rightarrow> Some (-1, si))"

definition stl_ini_alloc :: "(string \<Rightarrow> string option) \<Rightarrow> bool \<Rightarrow> string option \<Rightarrow> int \<Rightarrow> stl_ini option option" where
  "stl_ini_alloc fs err file_or_string ini_type =
     (if file_or_string \<noteq> None \<and> STL_INI_FILE \<le> ini_type \<and> ini_type \<le> STL_INI_STRING then do {
        (r, ini) \<leftarrow> stl_ini_init fs err (Some \<lparr>ini_section = [], ini_cnt = 0\<rparr>) file_or_string ini_type;
        Some (if r \<noteq> 0 then None else ini) }
      else Some None)"

text \<open>The index of the first item whose key matches, at or after \<open>j\<close>.\<close>

fun item_search :: "nat \<Rightarrow> stl_ini_item option list \<Rightarrow> string \<Rightarrow> nat \<Rightarrow> stl_ini_item option option" where
  "item_search 0 items key j = Some None"
| "item_search (Suc n) items key j = do {
     p \<leftarrow> mem_read items (int j);
     item \<leftarrow> p;
     if strn_eq (ini_key item) key then Some (Some item) else item_search n items key (Suc j) }"

definition stl_ini_search :: "stl_ini option \<Rightarrow> string option \<Rightarrow> string option \<Rightarrow> string option option" where
  "stl_ini_search si sect key = (case (si, sect, key) of
       (Some si, Some sect, Some key) \<Rightarrow>
         for_each (\<lambda>i val. do {
             s \<leftarrow> section_at si i;
             if strn_eq (sec_name s) sect then do {
               r \<leftarrow> item_search (unat (sec_cnt s)) (sec_items s) key 0;
               Some (case r of None \<Rightarrow> val | Some item \<Rightarrow> Some (ini_val item)) }
             else Some val }) [0..uint (ini_cnt si) - 1] None
     | _ \<Rightarrow> Some None)"

text \<open>The first section whose name matches, at or after \<open>i\<close>.\<close>

fun section_search :: "nat \<Rightarrow> stl_ini \<Rightarrow> string \<Rightarrow> nat \<Rightarrow> nat option option" where
  "section_search 0 si sect i = Some None"
| "section_search (Suc n) si sect i = do {
     s \<leftarrow> section_at si (int i);
     if strn_eq (sec_name s) sect then Some (Some i) else section_search n si sect (Suc i) }"

definition stl_ini_put :: "stl_ini option \<Rightarrow> string option \<Rightarrow> string option \<Rightarrow> string option \<Rightarrow>
    (int \<times> stl_ini option) option" where
  "stl_ini_put si sect key val = (case (si, sect, key, val) of
       (Some ini, Some sect, Some key, Some val) \<Rightarrow> do {
         cur \<leftarrow> section_search (unat (ini_cnt ini)) ini sect 0;
         (case cur of None \<Rightarrow> Some (-1, si)
          | Some i \<Rightarrow> do {
              s \<leftarrow> section_at ini (int i);
              r \<leftarrow> item_search (unat (sec_cnt s)) (sec_items s) key 0;
              (case r of None \<Rightarrow> Some (-1, si)
               | Some _ \<Rightarrow> do {
                   (ret, s) \<leftarrow> stl_ini_section_put_conf s key val;
                   ini \<leftarrow> set_section ini (int i) s;
                   Some (ret, Some ini) }) }) }
     | _ \<Rightarrow> Some (-1, si))"

text \<open>The result is undefined when an argument is NULL.\<close>

definition stl_ini_del :: "stl_ini option \<Rightarrow> string option \<Rightarrow> string option \<Rightarrow> (int option \<times> stl_ini option) option" where
  "stl_ini_del si sect key = (case (si, sect, key) of
       (Some ini, Some sect, Some key) \<Rightarrow> do {
         cur \<leftarrow> section_search (unat (ini_cnt ini)) ini sect 0;
         (case cur of None \<Rightarrow> Some (Some (-1), si)
          | Some i \<Rightarrow> do {
              s \<leftarrow> section_at ini (int i);
              (ret, s) \<leftarrow> stl_ini_section_del_conf s key;
              ini \<leftarrow> set_section ini (int i) s;
              Some (Some ret, Some ini) }) }
     | _ \<Rightarrow> Some (None, si))"

text \<open>What \<open>stl_ini_dump\<close> writes; \<open>snprintf\<close> cuts each line at 4095 characters.\<close>

definition dump_section :: "stl_ini_section \<Rightarrow> string option" where
  "dump_section s = for_each (\<lambda>j out. do {
       p \<leftarrow> mem_read (sec_items s) j;
       item \<leftarrow> p;
       Some (out @ take 4095 (ini_key item @ ''='' @ ini_val item @ [CHR 0x0A])) }) [0..uint (sec_cnt s) - 1]
     (take 4095 (''['' @ sec_name s @ '']'' @ [CHR 0x0A]))"

definition stl_ini_dump :: "stl_ini option \<Rightarrow> string option \<Rightarrow> (int \<times> string) option" where
  "stl_ini_dump si filename = (case (si, filename) of
       (Some si, Some _) \<Rightarrow> do {
         out \<leftarrow> for_each (\<lambda>i out. do {
             s \<leftarrow> section_at si i;
             d \<leftarrow> dump_section s;
             Some (out @ d) }) [0..uint (ini_cnt si) - 1] [];
         Some (0, out) }
     | _ \<Rightarrow> Some (-1, []))"

text \<open>Releasing frees, for each item \<open>j\<close> of section \<open>i\<close>, the strings of item \<open>i\<close>; freeing them twice is
  undefined.\<close>

definition deinit_section :: "int \<Rightarrow> stl_ini_section \<Rightarrow> unit option" where
  "deinit_section i s = do {
     freed \<leftarrow> for_each (\<lambda>j freed. do {
         p \<leftarrow> mem_read (sec_items s) i;
         item \<leftarrow> p;
         if freed then None else Some True }) [0..uint (sec_cnt s) - 1] False;
     Some () }"

definition stl_ini_deinit :: "stl_ini option \<Rightarrow> stl_ini option option" where
  "stl_ini_deinit si = (case si of None \<Rightarrow> Some None
     | Some si \<Rightarrow> do {
         for_each (\<lambda>i u. do { s \<leftarrow> section_at si i; deinit_section i s }) [0..uint (ini_cnt si) - 1] ();
         Some (Some (si\<lparr>ini_section := [], ini_cnt := 0\<rparr>)) })"

definition stl_ini_destroy :: "stl_ini option \<Rightarrow> unit option" where
  "stl_ini_destroy si = do { si \<leftarrow> stl_ini_deinit si; Some () }"

definition stl_ini_section_deinit :: "stl_ini_section option \<Rightarrow> (int \<times> stl_ini_section option) option" where
  "stl_ini_section_deinit sis = (case sis of None \<Rightarrow> Some (-1, None)
     | Some s \<Rightarrow> do {
         for_each (\<lambda>j u. do { p \<leftarrow> mem_read (sec_items s) j; item \<leftarrow> p; Some () }) [0..uint (sec_cnt s) - 1] ();
         Some (0, Some (s\<lparr>sec_items := [], sec_cnt := 0\<rparr>)) })"

end
