(* ===== verification/Ini_Roundtrip.thy ===== *)
theory Ini_Roundtrip
  imports Ini Bytes
begin

text \<open>
  Facts on configurations: the list of named lists a configuration stands for, what the parser and the
  writer do to it, the round trip between them, and where searching, changing and creating fail.
\<close>

section \<open>The list a configuration stands for\<close>

lemmas ini_sizes = STL_INI_MAX_LINE_LEN_def STL_INI_SECTION_MAX_ITEM_SIZE_def STL_INI_SECTION_MAX_SIZE_def

definition sec_ok :: "stl_ini_section \<Rightarrow> bool" where
  "sec_ok s \<longleftrightarrow> length (sec_items s) = 4096 \<and> unat (sec_cnt s) \<le> 4096 \<and>
     (\<forall>p\<in>set (take (unat (sec_cnt s)) (sec_items s)). p \<noteq> None)"

definition sec_entries :: "stl_ini_section \<Rightarrow> stl_ini_item list" where
  "sec_entries s = map the (take (unat (sec_cnt s)) (sec_items s))"

definition pair_of :: "stl_ini_item \<Rightarrow> string \<times> string" where
  "pair_of item = (ini_key item, ini_val item)"

definition sec_list :: "stl_ini_section \<Rightarrow> string \<times> (string \<times> string) list" where
  "sec_list s = (sec_name s, map pair_of (sec_entries s))"

definition ini_secs :: "stl_ini \<Rightarrow> stl_ini_section list" where
  "ini_secs si = map the (take (unat (ini_cnt si)) (ini_section si))"

definition ini_ok :: "stl_ini \<Rightarrow> bool" where
  "ini_ok si \<longleftrightarrow> length (ini_section si) = 4096 \<and> unat (ini_cnt si) \<le> 4096 \<and>
     (\<forall>p\<in>set (take (unat (ini_cnt si)) (ini_section si)). p \<noteq> None \<and> sec_ok (the p))"

definition ini_list :: "stl_ini \<Rightarrow> (string \<times> (string \<times> string) list) list" where
  "ini_list si = map sec_list (ini_secs si)"

lemma upto_uint: "[0..uint (w :: u64) - 1] = map int [0..<unat w]"
  by (simp add: upto_map_int)

lemma uint_int: "uint (w :: u64) = int (unat w)"
  by simp

lemma for_each_single: "for_each f [x] s = f x s"
  by (cases "f x s") auto

lemma sec_read:
  assumes "sec_ok s" "j < unat (sec_cnt s)"
  shows "mem_read (sec_items s) (int j) = Some (Some (sec_entries s ! j))"
proof -
  have "take (unat (sec_cnt s)) (sec_items s) ! j \<in> set (take (unat (sec_cnt s)) (sec_items s))"
    using assms by (intro nth_mem) (simp add: sec_ok_def)
  then have "sec_items s ! j \<noteq> None" using assms by (simp add: sec_ok_def)
  then show ?thesis using assms by (auto simp: sec_ok_def sec_entries_def)
qed

lemma length_entries: "sec_ok s \<Longrightarrow> length (sec_entries s) = unat (sec_cnt s)"
  by (simp add: sec_ok_def sec_entries_def)

lemma length_secs: "ini_ok si \<Longrightarrow> length (ini_secs si) = unat (ini_cnt si)"
  by (simp add: ini_ok_def ini_secs_def)

lemma section_read:
  assumes "ini_ok si" "i < unat (ini_cnt si)"
  shows "section_at si (int i) = Some (ini_secs si ! i)" "sec_ok (ini_secs si ! i)"
proof -
  have "take (unat (ini_cnt si)) (ini_section si) ! i \<in> set (take (unat (ini_cnt si)) (ini_section si))"
    using assms by (intro nth_mem) (simp add: ini_ok_def)
  then have "ini_section si ! i \<noteq> None" "sec_ok (the (ini_section si ! i))" using assms by (auto simp: ini_ok_def)
  then show "section_at si (int i) = Some (ini_secs si ! i)" "sec_ok (ini_secs si ! i)"
    using assms by (auto simp: ini_ok_def ini_secs_def section_at_def)
qed

text \<open>A loop over the items of a section, and one over the sections.\<close>

lemma for_index:
  assumes "\<And>i. i < length xs \<Longrightarrow> r (int i) = Some (xs ! i)" "n = length xs"
  shows "for_each (\<lambda>i st. do { x \<leftarrow> r i; f x st }) (map int [0..<n]) st = for_each f xs st"
  using assms
proof (induction xs arbitrary: n rule: rev_induct)
  case (snoc x xs)
  have "for_each (\<lambda>i st. do { x \<leftarrow> r i; f x st }) (map int [0..<length xs]) st = for_each f xs st"
    using snoc.prems(1) by (intro snoc.IH) (metis append_Cons length_append_singleton less_Suc_eq nth_append, simp)
  moreover have "r (int (length xs)) = Some x" using snoc.prems(1) [of "length xs"] by simp
  ultimately show ?case using snoc.prems(2) by (simp add: for_each_append for_each_single del: for_each.simps)
qed simp

lemma for_sections:
  assumes "ini_ok si"
  shows "for_each (\<lambda>i st. do { s \<leftarrow> section_at si i; f s st }) [0..uint (ini_cnt si) - 1] st = for_each f (ini_secs si) st"
  unfolding upto_uint using assms section_read(1) by (intro for_index) (simp_all add: length_secs)

lemma for_items:
  assumes "sec_ok s"
  shows "for_each (\<lambda>j st. do { p \<leftarrow> mem_read (sec_items s) j; item \<leftarrow> p; f item st }) [0..uint (sec_cnt s) - 1] st
    = for_each f (sec_entries s) st"
proof -
  have "for_each (\<lambda>j st. do { x \<leftarrow> Option.bind (mem_read (sec_items s) j) id; f x st }) (map int [0..<unat (sec_cnt s)]) st
    = for_each f (sec_entries s) st"
    using assms sec_read by (intro for_index) (simp_all add: length_entries)
  then show ?thesis unfolding upto_uint by simp
qed

section \<open>Adding an item\<close>

lemma mem_write_uint: "unat w < length xs \<Longrightarrow> mem_write xs (uint (w :: u64)) x = Some (xs[unat w := x])"
  unfolding uint_int mem_write_def by (simp only: of_nat_less_iff nat_int of_nat_0_le_iff simp_thms if_True)

lemma put_conf_ok:
  assumes "sec_ok s" "unat (sec_cnt s) < 4096"
  shows "\<exists>s'. stl_ini_section_put_conf s k v = Some (0, s') \<and> sec_ok s' \<and> sec_name s' = sec_name s \<and>
    sec_entries s' = sec_entries s @ [\<lparr>ini_key = k, ini_val = v\<rparr>]"
proof -
  let ?n = "unat (sec_cnt s)" and ?it = "Some \<lparr>ini_key = k, ini_val = v\<rparr>"
  define s' where "s' = s\<lparr>sec_items := (sec_items s)[?n := ?it], sec_cnt := sec_cnt s + 1\<rparr>"
  have n: "unat (sec_cnt s + 1) = ?n + 1" using assms(2) by (simp add: unat_word_ariths)
  have w: "mem_write (sec_items s) (uint (sec_cnt s)) ?it = Some ((sec_items s)[?n := ?it])"
    using assms by (intro mem_write_uint) (simp add: sec_ok_def)
  have t: "take (?n + 1) ((sec_items s)[?n := ?it]) = take ?n (sec_items s) @ [?it]"
    using assms by (simp add: take_Suc_conv_app_nth sec_ok_def)
  have "stl_ini_section_put_conf s k v = Some (0, s')" by (simp add: stl_ini_section_put_conf_def w s'_def)
  moreover have "sec_ok s'" "sec_entries s' = sec_entries s @ [\<lparr>ini_key = k, ini_val = v\<rparr>]"
    using assms t n by (auto simp: s'_def sec_ok_def sec_entries_def)
  ultimately show ?thesis by (auto simp: s'_def)
qed

lemma set_section_ok:
  assumes "ini_ok si" "i < unat (ini_cnt si)" "sec_ok s"
  shows "\<exists>si'. set_section si (int i) s = Some si' \<and> ini_ok si' \<and> ini_cnt si' = ini_cnt si \<and>
    ini_secs si' = (ini_secs si)[i := s]"
proof -
  have i: "i < length (ini_section si)" using assms by (simp add: ini_ok_def)
  define si' where "si' = si\<lparr>ini_section := (ini_section si)[i := Some s]\<rparr>"
  have "set_section si (int i) s = Some si'" using i by (simp add: set_section_def mem_write_def si'_def)
  moreover have "ini_ok si'"
  proof -
    have "take (unat (ini_cnt si)) (ini_section si') = (take (unat (ini_cnt si)) (ini_section si))[i := Some s]"
      by (simp add: si'_def take_update_swap)
    then have "p \<noteq> None \<and> sec_ok (the p)" if "p \<in> set (take (unat (ini_cnt si)) (ini_section si'))" for p
      using that assms set_update_subset_insert [of "take (unat (ini_cnt si)) (ini_section si)" i "Some s"]
      by (auto simp: ini_ok_def)
    then show ?thesis using assms(1) by (simp add: ini_ok_def si'_def)
  qed
  moreover have "ini_secs si' = (ini_secs si)[i := s]"
    using assms by (simp add: ini_secs_def si'_def take_update_swap map_update)
  ultimately show ?thesis by (auto simp: si'_def)
qed

lemma add_section_ok:
  assumes "ini_ok si" "unat (ini_cnt si) < 4096" "sec_ok s"
  shows "\<exists>si'. set_section si (uint (ini_cnt si)) s = Some si' \<and> ini_cnt si' = ini_cnt si \<and>
    ini_ok (si'\<lparr>ini_cnt := ini_cnt si' + 1\<rparr>) \<and> ini_secs (si'\<lparr>ini_cnt := ini_cnt si' + 1\<rparr>) = ini_secs si @ [s]"
proof -
  let ?n = "unat (ini_cnt si)"
  define si' where "si' = si\<lparr>ini_section := (ini_section si)[?n := Some s]\<rparr>"
  have l: "length (ini_section si) = 4096" using assms(1) by (simp add: ini_ok_def)
  have n: "unat (ini_cnt si + 1) = ?n + 1" using assms(2) by (simp add: unat_word_ariths)
  have t: "take (?n + 1) ((ini_section si)[?n := Some s]) = take ?n (ini_section si) @ [Some s]"
    using assms(2) l by (simp add: take_Suc_conv_app_nth)
  have "set_section si (uint (ini_cnt si)) s = Some si'"
    using assms(2) l by (simp add: set_section_def mem_write_uint si'_def)
  moreover have "ini_ok (si'\<lparr>ini_cnt := ini_cnt si' + 1\<rparr>)"
    using assms l n t by (auto simp: si'_def ini_ok_def)
  moreover have "ini_secs (si'\<lparr>ini_cnt := ini_cnt si' + 1\<rparr>) = ini_secs si @ [s]"
    using n t by (simp add: si'_def ini_secs_def)
  ultimately show ?thesis by (auto simp: si'_def)
qed

text \<open>The last section that matches.\<close>

definition last_match :: "string \<Rightarrow> stl_ini_section list \<Rightarrow> int option \<Rightarrow> int option" where
  "last_match sect ss cur = fold (\<lambda>i cur. if strn_eq (sec_name (ss ! i)) sect then Some (int i) else cur) [0..<length ss] cur"

lemma find_section:
  assumes "ini_ok si"
  shows "for_each (\<lambda>i cur. do { s \<leftarrow> section_at si i; Some (if strn_eq (sec_name s) sect then Some i else cur) })
    [0..uint (ini_cnt si) - 1] cur = Some (last_match sect (ini_secs si) cur)"
proof -
  have "for_each (\<lambda>i cur. do { s \<leftarrow> section_at si i; Some (if strn_eq (sec_name s) sect then Some i else cur) })
      (map int [0..<n]) cur =
    Some (fold (\<lambda>i cur. if strn_eq (sec_name (ini_secs si ! i)) sect then Some (int i) else cur) [0..<n] cur)"
    if "n \<le> unat (ini_cnt si)" for n
    using that
  proof (induction n)
    case (Suc n)
    then show ?case using section_read(1) [OF assms, of n] by (simp add: for_each_append)
  qed simp
  from this [of "unat (ini_cnt si)"] show ?thesis by (simp add: upto_uint last_match_def length_secs [OF assms])
qed

lemma last_match_snoc:
  "last_match sect (ss @ [s]) cur = (if strn_eq (sec_name s) sect then Some (int (length ss)) else last_match sect ss cur)"
proof -
  have "fold (\<lambda>i cur. if strn_eq (sec_name ((ss @ [s]) ! i)) sect then Some (int i) else cur) [0..<length ss] cur
    = last_match sect ss cur"
    unfolding last_match_def by (rule fold_cong) (auto simp: nth_append)
  then show ?thesis unfolding last_match_def [of sect "ss @ [s]"] by simp
qed

lemma last_match_None: "(\<And>s. s \<in> set ss \<Longrightarrow> \<not> strn_eq (sec_name s) sect) \<Longrightarrow> last_match sect ss None = None"
  by (induction ss rule: rev_induct) (simp_all add: last_match_snoc, simp add: last_match_def)

lemma on_item_last:
  assumes "ini_ok si" "ini_secs si = ss @ [s]" "strn_eq (sec_name s) sect" "length (sec_entries s) < 4096"
  shows "\<exists>si' s'. stl_ini_on_item_func si sect k v = Some (0, si') \<and> ini_ok si' \<and> ini_secs si' = ss @ [s'] \<and>
    sec_list s' = (sec_name s, map pair_of (sec_entries s) @ [(k, v)])"
proof -
  have n: "unat (ini_cnt si) = Suc (length ss)" using length_secs [OF assms(1)] assms(2) by simp
  have r: "section_at si (int (length ss)) = Some s" "sec_ok s"
    using section_read [OF assms(1), of "length ss"] n assms(2) by simp_all
  from put_conf_ok [OF r(2), of k v] length_entries [OF r(2)] assms(4) obtain s' where
    s': "stl_ini_section_put_conf s k v = Some (0, s')" "sec_ok s'" "sec_name s' = sec_name s"
    "sec_entries s' = sec_entries s @ [\<lparr>ini_key = k, ini_val = v\<rparr>]" by auto
  from set_section_ok [OF assms(1) _ s'(2), of "length ss"] n assms(2) obtain si' where
    si': "set_section si (int (length ss)) s' = Some si'" "ini_ok si'" "ini_secs si' = ss @ [s']" by auto
  have "stl_ini_on_item_func si sect k v = Some (0, si')"
    unfolding stl_ini_on_item_func_def find_section [OF assms(1)] assms(2)
    using assms(3) r(1) s'(1) si'(1) by (simp add: last_match_snoc)
  then show ?thesis using si' s' by (auto simp: sec_list_def pair_of_def)
qed

lemma section_init_ok: "sec_ok (stl_ini_section_init n)" "sec_entries (stl_ini_section_init n) = []"
  "sec_name (stl_ini_section_init n) = n" "sec_cnt (stl_ini_section_init n) = 0"
  by (simp_all add: sec_ok_def sec_entries_def stl_ini_section_init_def ini_sizes)

lemma on_item_new:
  assumes "ini_ok si" "\<And>s. s \<in> set (ini_secs si) \<Longrightarrow> \<not> strn_eq (sec_name s) sect" "length (ini_secs si) < 4096"
  shows "\<exists>si' s'. stl_ini_on_item_func si sect k v = Some (0, si') \<and> ini_ok si' \<and> ini_secs si' = ini_secs si @ [s'] \<and>
    sec_list s' = (sect, [(k, v)])"
proof -
  let ?n = "unat (ini_cnt si)" and ?s = "stl_ini_section_init sect"
  have n: "?n < 4096" using assms(3) length_secs [OF assms(1)] by simp
  from add_section_ok [OF assms(1) n section_init_ok(1)] obtain si1 where
    si1: "set_section si (uint (ini_cnt si)) ?s = Some si1" "ini_cnt si1 = ini_cnt si"
    "ini_ok (si1\<lparr>ini_cnt := ini_cnt si1 + 1\<rparr>)" "ini_secs (si1\<lparr>ini_cnt := ini_cnt si1 + 1\<rparr>) = ini_secs si @ [?s]" by blast
  let ?si2 = "si1\<lparr>ini_cnt := ini_cnt si1 + 1\<rparr>"
  have n2: "unat (ini_cnt ?si2) = Suc ?n" using n si1(2) by (simp add: unat_word_ariths)
  have r: "section_at ?si2 (int ?n) = Some ?s"
    using section_read(1) [OF si1(3), of ?n] n2 si1(4) length_secs [OF assms(1)] by (simp add: nth_append)
  from put_conf_ok [OF section_init_ok(1), of sect k v] obtain s' where
    s': "stl_ini_section_put_conf ?s k v = Some (0, s')" "sec_ok s'" "sec_name s' = sect"
    "sec_entries s' = [\<lparr>ini_key = k, ini_val = v\<rparr>]" by (auto simp: section_init_ok)
  from set_section_ok [OF si1(3) _ s'(2), of ?n] n2 si1(4) length_secs [OF assms(1)] obtain si' where
    si': "set_section ?si2 (int ?n) s' = Some si'" "ini_ok si'" "ini_secs si' = ini_secs si @ [s']"
    by (auto simp: list_update_append)
  have "last_match sect (ini_secs si) None = None" using assms(2) by (rule last_match_None)
  then have "stl_ini_on_item_func si sect k v = Some (0, si')"
    unfolding stl_ini_on_item_func_def find_section [OF assms(1)]
    using si1(1) r s'(1) si'(1) unfolding uint_int by (simp add: Let_def)
  then show ?thesis using si' s' by (auto simp: sec_list_def pair_of_def)
qed

section \<open>Lines that the parser reads back\<close>

lemma cut_comment_append:
  assumes "cut_comment s = s" "cut_comment t = t" "s = [] \<or> last s \<noteq> CHR '' '' \<or> t = [] \<or> \<not> comment_char (hd t)"
  shows "cut_comment (s @ t) = s @ t"
  using assms
proof (induction s)
  case (Cons c s)
  have s: "cut_comment s = s" "\<not> (c = CHR '' '' \<and> s \<noteq> [] \<and> comment_char (hd s))"
    using Cons.prems(1) by (auto split: if_splits)
  have "cut_comment (s @ t) = s @ t" using Cons.IH s(1) Cons.prems(2,3) by (cases "s = []") auto
  moreover have "\<not> (c = CHR '' '' \<and> s @ t \<noteq> [] \<and> comment_char (hd (s @ t)))"
    using s(2) Cons.prems(3) by (cases "s = []") auto
  ultimately show ?case by auto
qed simp

text \<open>A line as the writer emits it, and the names, keys and values for which that works.\<close>

definition trimmed :: "string \<Rightarrow> bool" where
  "trimmed s \<longleftrightarrow> s = [] \<or> \<not> isspace (hd s) \<and> \<not> isspace (last s)"

definition wf_name :: "string \<Rightarrow> bool" where
  "wf_name n \<longleftrightarrow> length n \<le> 255 \<and> cut_comment n = n \<and> CHR '']'' \<notin> set n \<and> CHR 0x0A \<notin> set n"

definition wf_item :: "string \<times> string \<Rightarrow> bool" where
  "wf_item kv \<longleftrightarrow> (case kv of (k, v) \<Rightarrow> length k + length v \<le> 4093 \<and>
     k \<noteq> [] \<and> trimmed k \<and> cut_comment k = k \<and> CHR ''='' \<notin> set k \<and> CHR '':'' \<notin> set k \<and> CHR 0x0A \<notin> set k \<and>
     hd k \<noteq> CHR ''['' \<and> \<not> comment_char (hd k) \<and> trimmed v \<and> cut_comment v = v \<and> CHR 0x0A \<notin> set v)"

definition name_line :: "string \<Rightarrow> string" where
  "name_line n = ''['' @ n @ '']''"

definition item_line :: "string \<times> string \<Rightarrow> string" where
  "item_line kv = fst kv @ ''='' @ snd kv"

lemma split_at_first:
  assumes "\<And>c. c \<in> set s \<Longrightarrow> \<not> P c" "P d"
  shows "split_at P (s @ d # t) = Some (s, t)"
  using assms by (simp add: split_at_def dropWhile_append3 takeWhile_append2)

lemma trim_space_trimmed: "trimmed s \<Longrightarrow> trim_space s = (s, 0)"
proof -
  assume t: "trimmed s"
  have "dropWhile isspace s = s" using t by (cases s) (auto simp: trimmed_def)
  moreover have "dropWhile isspace (rev s) = rev s"
    using t by (cases s rule: rev_cases) (auto simp: trimmed_def)
  ultimately show ?thesis by (simp add: trim_space_def)
qed

lemma parse_name_line:
  assumes "wf_name n"
  shows "parse_line p (name_line n) = Some (Inr (p\<lparr>prs_line := prs_line p + 1, prs_key := [], prs_section := n\<rparr>))"
proof -
  have "cut_comment (n @ '']'') = n @ '']''" using assms by (intro cut_comment_append) (auto simp: wf_name_def comment_char_def)
  then have c: "trim_comment (name_line n) = name_line n"
    by (simp add: name_line_def trim_comment_def comment_char_def)
  have t: "trim_space (name_line n) = (name_line n, 0)"
    by (rule trim_space_trimmed) (simp add: trimmed_def name_line_def isspace_def)
  have "trim_bom (name_line n) = (name_line n, 0)" by (simp add: trim_bom_def name_line_def)
  moreover have "split_at (\<lambda>c. c = CHR '']'') (name_line n) = Some (CHR ''['' # n, [])"
    using split_at_first [of "CHR ''['' # n" "\<lambda>c. c = CHR '']''" "CHR '']''" "[]"] assms
    by (auto simp: name_line_def wf_name_def)
  moreover have "name_line n \<noteq> []" "hd (name_line n) = CHR ''[''" by (simp_all add: name_line_def)
  ultimately show ?thesis
    using assms c t by (simp add: parse_line_def Let_def copy255_def wf_name_def)
qed

lemma parse_item_line:
  assumes wf: "wf_item (k, v)" and l: "prs_line p > 0" and i: "stl_ini_on_item_func (prs_ini p) (prs_section p) k v = Some (0, si)"
  shows "\<exists>p'. parse_line p (item_line (k, v)) = Some (Inr p') \<and> prs_ini p' = si \<and> prs_section p' = prs_section p \<and> prs_line p' > 0"
proof -
  let ?l = "item_line (k, v)"
  have k: "k \<noteq> []" "trimmed k" "cut_comment k = k" "\<not> comment_char (hd k)" "hd k \<noteq> CHR ''[''" "trimmed v" "cut_comment v = v"
    "CHR ''='' \<notin> set k" "CHR '':'' \<notin> set k"
    using wf by (auto simp: wf_item_def)
  have "cut_comment (''='' @ v) = ''='' @ v" using k(7) by (simp add: comment_char_def)
  then have "cut_comment ?l = ?l"
    using k(3) by (simp add: item_line_def) (rule cut_comment_append, auto simp: comment_char_def)
  moreover have ne: "?l \<noteq> []" "hd ?l = hd k" using k(1) by (simp_all add: item_line_def)
  ultimately have c: "trim_comment ?l = ?l" using k(4) by (simp add: trim_comment_def)
  have "last ?l = (if v = [] then CHR ''='' else last v)" by (simp add: item_line_def)
  then have "trimmed ?l" using k(1,2,6) ne by (auto simp: trimmed_def isspace_def)
  then have t: "trim_space ?l = (?l, 0)" by (rule trim_space_trimmed)
  have s: "split_at (\<lambda>c. c = CHR ''='' \<or> c = CHR '':'') ?l = Some (k, v)"
    using split_at_first [of k "\<lambda>c. c = CHR ''='' \<or> c = CHR '':''" "CHR ''=''" v] k(8,9) by (auto simp: item_line_def)
  have "rev (dropWhile isspace (rev k)) = k" using k(1,2) by (cases k rule: rev_cases) (auto simp: trimmed_def)
  then show ?thesis
    using l c t s ne k(5) i trim_space_trimmed [OF k(6)] by (simp add: parse_line_def Let_def)
qed

section \<open>Reading sections back\<close>

lemma parse_item_lines:
  assumes "ini_ok (prs_ini p)" "ini_secs (prs_ini p) = ss @ [s]" "sec_name s = prs_section p" "prs_line p > 0"
    "\<forall>kv\<in>set kvs. wf_item kv" "length (sec_entries s) + length kvs \<le> 4096"
  shows "\<exists>p' s'. parse_lines p (map item_line kvs @ ls) = parse_lines p' ls \<and> ini_ok (prs_ini p') \<and>
    ini_secs (prs_ini p') = ss @ [s'] \<and> sec_list s' = (sec_name s, map pair_of (sec_entries s) @ kvs) \<and> prs_line p' > 0"
  using assms
proof (induction kvs arbitrary: p s)
  case Nil
  then show ?case by (intro exI [of _ p] exI [of _ s]) (simp add: sec_list_def)
next
  case (Cons kv kvs)
  obtain k v where kv: "kv = (k, v)" by (cases kv)
  from on_item_last [OF Cons.prems(1,2), of "prs_section p" k v] Cons.prems(3,6) obtain si s1 where
    i: "stl_ini_on_item_func (prs_ini p) (prs_section p) k v = Some (0, si)" "ini_ok si" "ini_secs si = ss @ [s1]"
    "sec_list s1 = (sec_name s, map pair_of (sec_entries s) @ [(k, v)])" by (auto simp: strn_eq_def)
  from parse_item_line [OF _ Cons.prems(4) i(1)] Cons.prems(5) kv obtain p1 where
    p1: "parse_line p (item_line (k, v)) = Some (Inr p1)" "prs_ini p1 = si" "prs_section p1 = prs_section p" "prs_line p1 > 0"
    by auto
  have l: "length (sec_entries s1) = Suc (length (sec_entries s))"
    using arg_cong [OF i(4), of "length \<circ> snd"] by (simp add: sec_list_def)
  have "\<exists>p' s'. parse_lines p1 (map item_line kvs @ ls) = parse_lines p' ls \<and> ini_ok (prs_ini p') \<and>
    ini_secs (prs_ini p') = ss @ [s'] \<and> sec_list s' = (sec_name s1, map pair_of (sec_entries s1) @ kvs) \<and> prs_line p' > 0"
    using Cons.prems(3,5,6) i p1 l by (intro Cons.IH) (auto simp: sec_list_def)
  then show ?case using p1(1) i(4) by (auto simp: kv sec_list_def)
qed

definition fresh_name :: "string \<Rightarrow> string list \<Rightarrow> bool" where
  "fresh_name n ns \<longleftrightarrow> (\<forall>m\<in>set ns. \<not> strn_eq m n)"

lemma parse_section_lines:
  assumes "ini_ok (prs_ini p)" "fresh_name n (map fst (ini_list (prs_ini p)))" "length (ini_list (prs_ini p)) < 4096"
    "wf_name n" "kvs \<noteq> []" "\<forall>kv\<in>set kvs. wf_item kv" "length kvs \<le> 4096" "prs_line p \<ge> 0"
  shows "\<exists>p'. parse_lines p (name_line n # map item_line kvs @ ls) = parse_lines p' ls \<and> ini_ok (prs_ini p') \<and>
    ini_list (prs_ini p') = ini_list (prs_ini p) @ [(n, kvs)] \<and> prs_line p' \<ge> 0"
proof -
  obtain k v kvs' where kvs: "kvs = (k, v) # kvs'" using assms(5) by (cases kvs) auto
  define p0 where "p0 = p\<lparr>prs_line := prs_line p + 1, prs_key := [], prs_section := n\<rparr>"
  have "\<And>s. s \<in> set (ini_secs (prs_ini p)) \<Longrightarrow> \<not> strn_eq (sec_name s) n"
    using assms(2) by (auto simp: fresh_name_def ini_list_def sec_list_def)
  from on_item_new [OF assms(1) this, of k v] assms(3) obtain si s where
    i: "stl_ini_on_item_func (prs_ini p0) (prs_section p0) k v = Some (0, si)" "ini_ok si"
    "ini_secs si = ini_secs (prs_ini p) @ [s]" "sec_list s = (n, [(k, v)])" by (auto simp: ini_list_def p0_def)
  have "prs_line p0 > 0" using assms(8) by (simp add: p0_def)
  from parse_item_line [OF _ this i(1)] assms(6) obtain p1 where
    p1: "parse_line p0 (item_line (k, v)) = Some (Inr p1)" "prs_ini p1 = si" "prs_section p1 = n" "prs_line p1 > 0"
    by (auto simp: kvs p0_def)
  have s: "sec_name s = n" "map pair_of (sec_entries s) = [(k, v)]" using i(4) by (simp_all add: sec_list_def)
  have "length (sec_entries s) = 1" using arg_cong [OF s(2), of length] by simp
  with parse_item_lines [of p1 "ini_secs (prs_ini p)" s kvs' ls] p1 i s(1) assms(6,7) kvs obtain p' s' where
    "parse_lines p1 (map item_line kvs' @ ls) = parse_lines p' ls" "ini_ok (prs_ini p')"
    "ini_secs (prs_ini p') = ini_secs (prs_ini p) @ [s']" "sec_list s' = (n, map pair_of (sec_entries s) @ kvs')" "prs_line p' > 0"
    by auto
  then show ?thesis
    using parse_name_line [OF assms(4), of p] p1(1) s(2) by (intro exI [of _ p']) (simp add: kvs p0_def ini_list_def)
qed

text \<open>The lines of a configuration, and the configurations that are written and read back.\<close>

definition section_lines :: "string \<times> (string \<times> string) list \<Rightarrow> string list" where
  "section_lines sec = name_line (fst sec) # map item_line (snd sec)"

fun distinct_names :: "string list \<Rightarrow> bool" where
  "distinct_names [] = True"
| "distinct_names (n # ns) = ((\<forall>m\<in>set ns. \<not> strn_eq n m) \<and> distinct_names ns)"

definition wf_ini :: "(string \<times> (string \<times> string) list) list \<Rightarrow> bool" where
  "wf_ini secs \<longleftrightarrow> length secs \<le> 4096 \<and> distinct_names (map fst secs) \<and>
     (\<forall>sec\<in>set secs. wf_name (fst sec) \<and> snd sec \<noteq> [] \<and> length (snd sec) \<le> 4096 \<and> (\<forall>kv\<in>set (snd sec). wf_item kv))"

lemma distinct_names_append:
  "distinct_names (xs @ ys) \<longleftrightarrow> distinct_names xs \<and> distinct_names ys \<and> (\<forall>m\<in>set ys. fresh_name m xs)"
  by (induction xs) (auto simp: fresh_name_def)

lemma parse_all_lines:
  assumes "ini_ok (prs_ini p)" "wf_ini (ini_list (prs_ini p) @ secs)" "prs_line p \<ge> 0"
  shows "\<exists>si. parse_lines p (concat (map section_lines secs)) = Some (0, si) \<and> ini_ok si \<and>
    ini_list si = ini_list (prs_ini p) @ secs"
  using assms
proof (induction secs arbitrary: p)
  case (Cons sec secs)
  obtain n kvs where sec: "sec = (n, kvs)" by (cases sec)
  have wf: "fresh_name n (map fst (ini_list (prs_ini p)))" "length (ini_list (prs_ini p)) < 4096" "wf_name n" "kvs \<noteq> []"
    "\<forall>kv\<in>set kvs. wf_item kv" "length kvs \<le> 4096"
    using Cons.prems(2) by (auto simp: wf_ini_def sec distinct_names_append)
  from parse_section_lines [OF Cons.prems(1) wf Cons.prems(3), of "concat (map section_lines secs)"] obtain p' where
    p': "parse_lines p (name_line n # map item_line kvs @ concat (map section_lines secs)) =
      parse_lines p' (concat (map section_lines secs))"
    "ini_ok (prs_ini p')" "ini_list (prs_ini p') = ini_list (prs_ini p) @ [(n, kvs)]" "prs_line p' \<ge> 0" by blast
  from Cons.IH [OF p'(2) _ p'(4)] Cons.prems(2) p'(3) sec obtain si where
    "parse_lines p' (concat (map section_lines secs)) = Some (0, si)" "ini_ok si"
    "ini_list si = ini_list (prs_ini p) @ sec # secs" by auto
  moreover have "concat (map section_lines (sec # secs)) = name_line n # map item_line kvs @ concat (map section_lines secs)"
    by (simp add: sec section_lines_def)
  ultimately show ?case using p'(1) by metis
qed simp

section \<open>Writing and reading\<close>

lemma string_lines_concat:
  assumes "\<forall>l\<in>set ls. length l \<le> n \<and> CHR 0x0A \<notin> set l"
  shows "string_lines n (concat (map (\<lambda>l. l @ [CHR 0x0A]) ls)) = ls"
  using assms
proof (induction ls)
  case Nil
  then show ?case by (simp add: string_lines.simps)
next
  case (Cons l ls)
  let ?rest = "concat (map (\<lambda>l. l @ [CHR 0x0A]) ls)"
  have "dropWhile (\<lambda>c. c \<noteq> CHR 0x0A) (l @ CHR 0x0A # ?rest) = CHR 0x0A # ?rest"
    "takeWhile (\<lambda>c. c \<noteq> CHR 0x0A) (l @ CHR 0x0A # ?rest) = l"
  proof -
    have "c \<noteq> CHR 0x0A" if "c \<in> set l" for c using Cons.prems that by auto
    then show "dropWhile (\<lambda>c. c \<noteq> CHR 0x0A) (l @ CHR 0x0A # ?rest) = CHR 0x0A # ?rest"
      "takeWhile (\<lambda>c. c \<noteq> CHR 0x0A) (l @ CHR 0x0A # ?rest) = l" by simp_all
  qed
  then show ?case using Cons by (subst string_lines.simps) simp
qed

lemma dump_list:
  assumes "ini_ok si" "wf_ini (ini_list si)"
  shows "stl_ini_dump (Some si) (Some fn) = Some (0, concat (map (\<lambda>l. l @ [CHR 0x0A]) (concat (map section_lines (ini_list si)))))"
proof -
  have one: "take 4095 (ini_key item @ CHR ''='' # ini_val item @ [CHR 0x0A]) = item_line (pair_of item) @ [CHR 0x0A]"
    if "wf_item (pair_of item)" for item
  proof (rule trans [OF take_all])
    show "length (ini_key item @ CHR ''='' # ini_val item @ [CHR 0x0A]) \<le> 4095"
      using that by (simp add: wf_item_def pair_of_def)
  qed (simp add: item_line_def pair_of_def)
  have each: "for_each (\<lambda>item out. Some (out @ take 4095 (ini_key item @ ''='' @ ini_val item @ [CHR 0x0A]))) items out =
      Some (out @ concat (map (\<lambda>l. l @ [CHR 0x0A]) (map item_line (map pair_of items))))"
    if "\<forall>item\<in>set items. wf_item (pair_of item)" for items out
    using that by (induction items arbitrary: out) (simp_all add: one del: take_append)
  have sec: "dump_section s = Some (concat (map (\<lambda>l. l @ [CHR 0x0A]) (section_lines (sec_list s))))"
    if s_in: "s \<in> set (ini_secs si)" for s
  proof -
    obtain i where i: "i < length (ini_secs si)" "ini_secs si ! i = s"
      using s_in unfolding in_set_conv_nth by blast
    have ok: "sec_ok s" using section_read(2) [OF assms(1), of i] i length_secs [OF assms(1)] by simp
    have wf: "wf_name (sec_name s)" "\<forall>item\<in>set (sec_entries s). wf_item (pair_of item)"
      using assms(2) that by (auto simp: wf_ini_def ini_list_def sec_list_def)
    have "length (sec_name s) \<le> 255" using wf(1) by (simp add: wf_name_def)
    then have nl: "take 4095 (''['' @ sec_name s @ '']'' @ [CHR 0x0A]) = ''['' @ sec_name s @ '']'' @ [CHR 0x0A]"
      by (intro take_all) simp
    show ?thesis
      unfolding dump_section_def for_items [OF ok] each [OF wf(2)] nl
      by (simp add: section_lines_def sec_list_def name_line_def)
  qed
  have "for_each (\<lambda>s out. do { d \<leftarrow> dump_section s; Some (out @ d) }) ss out =
      Some (out @ concat (map (\<lambda>l. l @ [CHR 0x0A]) (concat (map section_lines (map sec_list ss)))))"
    if "set ss \<subseteq> set (ini_secs si)" for ss out
    using that by (induction ss arbitrary: out) (simp_all add: sec)
  then show ?thesis
    by (simp add: stl_ini_dump_def for_sections [OF assms(1)] ini_list_def del: map_map)
qed

lemma ini_empty_ok: "ini_ok ini_empty" "ini_list ini_empty = []"
  by (simp_all add: ini_ok_def ini_empty_def ini_sizes ini_list_def ini_secs_def)

lemma line_shape:
  assumes "wf_ini secs" "l \<in> set (concat (map section_lines secs))"
  shows "length l \<le> 4095 \<and> CHR 0x0A \<notin> set l"
proof -
  from assms(2) obtain sec where sec: "sec \<in> set secs" "l \<in> set (section_lines sec)" by auto
  then have wf: "wf_name (fst sec)" "\<forall>kv\<in>set (snd sec). wf_item kv" using assms(1) by (simp_all add: wf_ini_def)
  show ?thesis
  proof (cases "l = name_line (fst sec)")
    case True
    then show ?thesis using wf(1) by (simp add: wf_name_def name_line_def)
  next
    case False
    then obtain k v where "l = item_line (k, v)" "wf_item (k, v)" using sec(2) wf(2) by (auto simp: section_lines_def)
    then show ?thesis by (simp add: wf_item_def item_line_def)
  qed
qed

text \<open>C31: What is written is read back: parsing the text \<open>stl_ini_dump\<close> writes gives a configuration with the
  same sections, keys and values in the same order, for names, keys and values without surrounding
  white space, separators, line ends and comments, of bounded length, when every section has a key and no section
  name is the beginning of another one before it.\<close>

theorem ini_dump_parse:
  assumes "ini_ok si" "wf_ini (ini_list si)"
  shows "\<exists>out si'. stl_ini_dump (Some si) (Some fn) = Some (0, out) \<and>
    stl_ini_parse_string ini_empty out = Some (0, si') \<and> ini_list si' = ini_list si"
proof -
  let ?ls = "concat (map section_lines (ini_list si))"
  have "\<forall>l\<in>set ?ls. length l \<le> 4095 \<and> CHR 0x0A \<notin> set l" using line_shape [OF assms(2)] by blast
  then have "string_lines 4095 (concat (map (\<lambda>l. l @ [CHR 0x0A]) ?ls)) = ?ls" by (rule string_lines_concat)
  moreover obtain si' where "stl_ini_parse ini_empty ?ls = Some (0, si')" "ini_list si' = ini_list si"
    using parse_all_lines [of "\<lparr>prs_ini = ini_empty, prs_line = 0, prs_section = [], prs_key = []\<rparr>" "ini_list si"]
      assms(2) ini_empty_ok by (auto simp: stl_ini_parse_def)
  ultimately show ?thesis
    using dump_list [OF assms] by (simp add: stl_ini_parse_string_def ini_sizes)
qed

definition sample_ini :: stl_ini where
  "sample_ini = ini_empty\<lparr>ini_section := (ini_section ini_empty)[0 := Some \<lparr>sec_name = ''db'', sec_cnt = 1,
     sec_items = (replicate 4096 None)[0 := Some \<lparr>ini_key = ''path'', ini_val = ''/var/db''\<rparr>]\<rparr>], ini_cnt := 1\<rparr>"

lemma sample_ini_ok: "ini_ok sample_ini" "ini_list sample_ini = [(''db'', [(''path'', ''/var/db'')])]"
  by (simp_all add: sample_ini_def ini_empty_def ini_ok_def ini_sizes sec_ok_def ini_list_def ini_secs_def sec_list_def
    sec_entries_def pair_of_def take_Suc_conv_app_nth)

theorem ini_dump_parse_witness:
  "\<exists>out si'. stl_ini_dump (Some sample_ini) (Some ''f'') = Some (0, out) \<and>
    stl_ini_parse_string ini_empty out = Some (0, si') \<and> ini_list si' = [(''db'', [(''path'', ''/var/db'')])]"
  using ini_dump_parse [OF sample_ini_ok(1), of "''f''"]
  by (simp add: sample_ini_ok(2) wf_ini_def wf_name_def wf_item_def trimmed_def isspace_def comment_char_def)

section \<open>Searching and changing\<close>

definition key_matches :: "string \<Rightarrow> stl_ini_item \<Rightarrow> bool" where
  "key_matches key item = strn_eq (ini_key item) key"

lemma item_search_eq:
  assumes "sec_ok s"
  shows "item_search (unat (sec_cnt s)) (sec_items s) key 0 = Some (List.find (key_matches key) (sec_entries s))"
proof -
  have "item_search n (sec_items s) key j = Some (List.find (key_matches key) (drop j (sec_entries s)))"
    if "j + n = unat (sec_cnt s)" for n j
    using that
  proof (induction n arbitrary: j)
    case (Suc n)
    then have j: "j < unat (sec_cnt s)" by simp
    then have "drop j (sec_entries s) = sec_entries s ! j # drop (Suc j) (sec_entries s)"
      using length_entries [OF assms] by (simp add: Cons_nth_drop_Suc)
    then show ?case using Suc sec_read [OF assms j] by (simp add: key_matches_def)
  qed (simp add: length_entries [OF assms])
  from this [of 0] show ?thesis by simp
qed

lemma find_append: "List.find P (xs @ ys) = (case List.find P xs of None \<Rightarrow> List.find P ys | Some x \<Rightarrow> Some x)"
  by (induction xs) auto

definition search_step :: "string \<Rightarrow> string \<Rightarrow> stl_ini_section \<Rightarrow> string option \<Rightarrow> string option" where
  "search_step sect key s val = (if strn_eq (sec_name s) sect
     then (case List.find (key_matches key) (sec_entries s) of None \<Rightarrow> val | Some item \<Rightarrow> Some (ini_val item)) else val)"

lemma search_eq:
  assumes "ini_ok si"
  shows "stl_ini_search (Some si) (Some sect) (Some key) = Some (fold (search_step sect key) (ini_secs si) None)"
proof -
  have "for_each (\<lambda>s val. if strn_eq (sec_name s) sect then do {
        r \<leftarrow> item_search (unat (sec_cnt s)) (sec_items s) key 0;
        Some (case r of None \<Rightarrow> val | Some item \<Rightarrow> Some (ini_val item)) }
      else Some val) ss val = Some (fold (search_step sect key) ss val)" if "\<forall>s\<in>set ss. sec_ok s" for ss val
    using that by (induction ss arbitrary: val) (simp_all add: item_search_eq search_step_def)
  moreover have "\<forall>s\<in>set (ini_secs si). sec_ok s"
    using section_read(2) [OF assms] length_secs [OF assms] by (metis in_set_conv_nth)
  ultimately show ?thesis by (simp add: stl_ini_search_def for_sections [OF assms])
qed

lemma section_search_ok:
  assumes "ini_ok si" "section_search n si sect i = Some (Some j)" "i + n = unat (ini_cnt si)"
  shows "j < unat (ini_cnt si)"
  using assms(2,3)
proof (induction n arbitrary: i)
  case (Suc n)
  then have i: "i < unat (ini_cnt si)" by simp
  show ?case
    using Suc section_read(1) [OF assms(1) i] by (cases "strn_eq (sec_name (ini_secs si ! i)) sect") auto
qed simp

lemma fold_update: "i < length xs \<Longrightarrow> (\<And>v. f y v = f (xs ! i) v) \<Longrightarrow> fold f (xs[i := y]) v = fold f xs v"
proof (induction xs arbitrary: i v)
  case (Cons x xs)
  then show ?case by (cases i) auto
qed simp

lemma strn_eq_trans: "strn_eq a b \<Longrightarrow> strn_eq b c \<Longrightarrow> strn_eq a c"
  by (metis strn_eq_def take_take min.absorb1 length_take min.cobounded1 nat_le_linear take_all)

text \<open>C32: \<open>stl_ini_put\<close> never changes the answer to a search: it only appends to a section in which an earlier
  item answers for the key.\<close>

theorem ini_put_without_effect:
  assumes "ini_ok si" "stl_ini_put (Some si) (Some sect) (Some key) (Some val) = Some (r, Some si')"
  shows "stl_ini_search (Some si') (Some s) (Some k) = stl_ini_search (Some si) (Some s) (Some k)"
proof (cases "si' = si")
  case False
  from assms(2) False obtain i sec e sec' where
    i: "section_search (unat (ini_cnt si)) si sect 0 = Some (Some i)" "section_at si (int i) = Some sec"
    "item_search (unat (sec_cnt sec)) (sec_items sec) key 0 = Some (Some e)"
    "stl_ini_section_put_conf sec key val = Some (r, sec')" "set_section si (int i) sec' = Some si'"
    by (auto simp: stl_ini_put_def elim!: bind_SomeE split: option.splits)
  have il: "i < unat (ini_cnt si)" using section_search_ok [OF assms(1) i(1)] by simp
  have sec: "sec = ini_secs si ! i" "sec_ok sec" using section_read [OF assms(1) il] i(2) by auto
  have "uint (sec_cnt sec) < 4096"
    using i(4) sec(2) by (auto simp: stl_ini_section_put_conf_def mem_write_Some sec_ok_def elim!: bind_SomeE)
  then have "int (unat (sec_cnt sec)) < 4096" by simp
  then have "unat (sec_cnt sec) < 4096" by linarith
  from put_conf_ok [OF sec(2) this, of key val] i(4) have
    sec': "sec_ok sec'" "sec_name sec' = sec_name sec" "sec_entries sec' = sec_entries sec @ [\<lparr>ini_key = key, ini_val = val\<rparr>]"
    by auto
  from set_section_ok [OF assms(1) il sec'(1)] i(5) have si': "ini_ok si'" "ini_secs si' = (ini_secs si)[i := sec']" by auto
  have e: "List.find (key_matches key) (sec_entries sec) = Some e" using i(3) item_search_eq [OF sec(2)] by simp
  then have em: "e \<in> set (sec_entries sec)" "key_matches key e" by (auto simp: find_Some_iff in_set_conv_nth)
  have "search_step s k sec' v = search_step s k sec v" for v
  proof (cases "List.find (key_matches k) (sec_entries sec)")
    case None
    then have "\<not> key_matches k e" using em(1) by (auto simp: find_None_iff)
    then have "\<not> strn_eq key k" using em(2) strn_eq_trans by (auto simp: key_matches_def)
    then show ?thesis using None sec' by (simp add: search_step_def find_append key_matches_def)
  next
    case (Some f)
    then show ?thesis using sec' by (simp add: search_step_def find_append)
  qed
  then show ?thesis
    using sec(1) il length_secs [OF assms(1)]
    by (simp add: search_eq [OF assms(1)] search_eq [OF si'(1)] si'(2) fold_update)
qed simp

theorem ini_put_without_effect_witness:
  "\<exists>r si'. stl_ini_put (Some sample_ini) (Some ''db'') (Some ''path'') (Some ''/tmp'') = Some (r, Some si') \<and> r = 0 \<and>
    stl_ini_search (Some si') (Some ''db'') (Some ''path'') = Some (Some ''/var/db'')"
proof -
  have "\<exists>si'. stl_ini_put (Some sample_ini) (Some ''db'') (Some ''path'') (Some ''/tmp'') = Some (0, Some si')"
    by (simp add: stl_ini_put_def sample_ini_def ini_empty_def ini_sizes section_at_def mem_read_def mem_write_def strn_eq_def
      stl_ini_section_put_conf_def set_section_def)
  then obtain si' where p: "stl_ini_put (Some sample_ini) (Some ''db'') (Some ''path'') (Some ''/tmp'') = Some (0, Some si')"
    by blast
  have "stl_ini_search (Some sample_ini) (Some ''db'') (Some ''path'') = Some (Some ''/var/db'')"
    unfolding search_eq [OF sample_ini_ok(1)]
    by (simp add: ini_secs_def sample_ini_def ini_empty_def ini_sizes search_step_def strn_eq_def sec_entries_def
      key_matches_def take_Suc_conv_app_nth)
  then show ?thesis using p ini_put_without_effect [OF sample_ini_ok(1) p, of "''db''" "''path''"] by auto
qed

lemma del_find_eq:
  assumes "sec_ok s"
  shows "\<exists>i. del_find (unat (sec_cnt s)) (sec_items s) key 0 = Some i \<and> i \<le> unat (sec_cnt s) \<and>
    i = length (takeWhile (\<lambda>e. \<not> key_matches key e) (sec_entries s))"
proof -
  have "del_find n (sec_items s) key j = Some (j + length (takeWhile (\<lambda>e. \<not> key_matches key e) (drop j (sec_entries s))))"
    if "j + n = unat (sec_cnt s)" for n j
    using that
  proof (induction n arbitrary: j)
    case (Suc n)
    then have j: "j < unat (sec_cnt s)" by simp
    then have "drop j (sec_entries s) = sec_entries s ! j # drop (Suc j) (sec_entries s)"
      using length_entries [OF assms] by (simp add: Cons_nth_drop_Suc)
    then show ?case using Suc sec_read [OF assms j] by (simp add: key_matches_def)
  qed (simp add: length_entries [OF assms])
  from this [of 0] show ?thesis using length_takeWhile_le [of _ "sec_entries s"] length_entries [OF assms] by simp
qed

lemma del_shift_eq:
  assumes "i + n < length items"
  shows "del_shift n items i = Some (take i items @ take n (drop (Suc i) items) @ drop (i + n) items)"
  using assms
proof (induction n arbitrary: i items)
  case (Suc n)
  let ?items = "items[i := items ! Suc i]"
  have r: "mem_read items (int i + 1) = Some (items ! Suc i)" "mem_write items (int i) (items ! Suc i) = Some ?items"
    using Suc.prems by (simp_all add: mem_read_def mem_write_def nat_add_distrib)
  have "take (Suc i) ?items = take i items @ [items ! Suc i]" using Suc.prems by (simp add: take_Suc_conv_app_nth)
  moreover have "drop (Suc i) items = items ! Suc i # drop (Suc (Suc i)) items" using Suc.prems by (simp add: Cons_nth_drop_Suc)
  ultimately show ?case using Suc.IH [of "Suc i" ?items] Suc.prems r by simp
qed simp

text \<open>Deleting a key removes the first item whose key starts with it, and when there is none removes the last item;
  the result is -1 in both cases.\<close>

theorem ini_section_delete:
  assumes "sec_ok s" "0 < sec_cnt s" "sec_cnt s < 4096"
  shows "\<exists>s'. stl_ini_section_del_conf s key = Some (-1, s') \<and> sec_ok s' \<and>
    sec_entries s' = (let rest = dropWhile (\<lambda>e. \<not> key_matches key e) (sec_entries s) in
      if rest = [] then butlast (sec_entries s)
      else takeWhile (\<lambda>e. \<not> key_matches key e) (sec_entries s) @ tl rest)"
proof -
  let ?n = "unat (sec_cnt s)" and ?P = "\<lambda>e. \<not> key_matches key e"
  obtain i where i: "del_find ?n (sec_items s) key 0 = Some i" "i \<le> ?n" "i = length (takeWhile ?P (sec_entries s))"
    using del_find_eq [OF assms(1)] by blast
  have "sec_cnt s \<noteq> 0" using assms(2) by auto
  then have n: "0 < ?n" "?n < 4096" "unat (sec_cnt s - 1) = ?n - 1" using assms(2,3) unat_minus_one [of "sec_cnt s"]
    by (simp_all add: word_less_nat_alt)
  have l: "length (sec_items s) = 4096" using assms(1) by (simp add: sec_ok_def)
  define items where "items = take i (sec_items s) @ take (?n - i) (drop (Suc i) (sec_items s)) @ drop ?n (sec_items s)"
  have sh: "del_shift (?n - i) (sec_items s) i = Some items"
    using del_shift_eq [of i "?n - i" "sec_items s"] i(2) n(2) l by (simp add: items_def)
  define s' where "s' = s\<lparr>sec_items := items, sec_cnt := sec_cnt s - 1\<rparr>"
  have pre: "take (?n - 1) items = (if i = ?n then butlast (take ?n (sec_items s))
      else take i (take ?n (sec_items s)) @ drop (Suc i) (take ?n (sec_items s)))"
  proof (cases "i = ?n")
    case True
    then show ?thesis using n l by (simp add: items_def butlast_take)
  next
    case False
    then obtain m where m: "?n = Suc (i + m)" using i(2) less_iff_Suc_add [of i ?n] by auto
    have "length (take i (sec_items s)) = i" "i + m < 4096" using m n(2) l by simp_all
    then show ?thesis using l unfolding items_def m by (simp add: drop_take min_def) linarith
  qed
  have ok: "sec_ok s'"
  proof -
    have "set (take (?n - 1) items) \<subseteq> set (take ?n (sec_items s))"
      unfolding pre by (auto simp del: take_take dest: in_set_butlastD in_set_takeD in_set_dropD)
    moreover have "length items = 4096" using i(2) n l by (simp add: items_def)
    ultimately show ?thesis using assms(1) n by (auto simp: sec_ok_def s'_def)
  qed
  have e: "sec_entries s' = (if i = ?n then butlast (sec_entries s) else take i (sec_entries s) @ drop (Suc i) (sec_entries s))"
    using n(3) pre by (simp add: sec_entries_def s'_def map_butlast take_map drop_map)
  have dw: "dropWhile ?P (sec_entries s) = drop i (sec_entries s)" "takeWhile ?P (sec_entries s) = take i (sec_entries s)"
    unfolding i(3) by (rule dropWhile_eq_drop, rule takeWhile_eq_take)
  have "drop i (sec_entries s) = [] \<longleftrightarrow> i = ?n" using i(2) length_entries [OF assms(1)] by auto
  moreover have "tl (drop i (sec_entries s)) = drop (Suc i) (sec_entries s)" by (simp add: tl_drop drop_Suc)
  moreover have "stl_ini_section_del_conf s key = Some (-1, s')"
    using i(1) sh by (simp add: stl_ini_section_del_conf_def s'_def)
  ultimately show ?thesis using ok e unfolding dw Let_def by auto
qed

theorem ini_section_delete_witness:
  "\<exists>s'. stl_ini_section_del_conf \<lparr>sec_name = ''db'', sec_cnt = 1,
      sec_items = (replicate 4096 None)[0 := Some \<lparr>ini_key = ''path'', ini_val = ''/var/db''\<rparr>]\<rparr> ''port'' = Some (-1, s') \<and>
    sec_entries s' = []"
proof -
  let ?s = "\<lparr>sec_name = ''db'', sec_cnt = 1, sec_items = (replicate 4096 None)[0 := Some \<lparr>ini_key = ''path'', ini_val = ''/var/db''\<rparr>]\<rparr>"
  have "sec_ok ?s" by (simp add: sec_ok_def take_Suc_conv_app_nth)
  moreover have "sec_entries ?s = [\<lparr>ini_key = ''path'', ini_val = ''/var/db''\<rparr>]" by (simp add: sec_entries_def take_Suc_conv_app_nth)
  ultimately show ?thesis
    using ini_section_delete [of ?s "''port''"] by (auto simp: key_matches_def strn_eq_def)
qed

text \<open>Creating a configuration never gives one: \<open>stl_ini_init\<close> returns -1 on success too.\<close>

theorem ini_alloc_returns_null:
  "stl_ini_alloc fs err f ty = Some r \<Longrightarrow> r = None"
  by (auto simp: stl_ini_alloc_def stl_ini_init_def elim!: bind_SomeE split: if_split_asm option.splits)

theorem ini_alloc_returns_null_witness:
  "stl_ini_alloc (\<lambda>_. None) False (Some []) STL_INI_STRING = Some None"
proof -
  have "\<exists>r. stl_ini_alloc (\<lambda>_. None) False (Some []) STL_INI_STRING = Some r"
    by (simp add: stl_ini_alloc_def stl_ini_init_def STL_INI_FILE_def STL_INI_STRING_def stl_ini_parse_string_def
      string_lines.simps stl_ini_parse_def)
  then show ?thesis using ini_alloc_returns_null by blast
qed

end
