(* ===== verification/Stl_String.thy ===== *)
theory Stl_String
  imports Byte_Heap
begin

text \<open>
  Strings (\<open>module/stl/src/stl_string.c\<close>): a struct with a length and a union, which holds up to seven
  characters in place and otherwise a pointer to allocated characters.

  A C string argument is the list of its characters before the NUL. Reading a member of the union
  that was not the last one written is undefined, except that eight zero bytes are a NULL pointer
  and the other way round. A string copy between overlapping objects, or from an object that
  \<open>realloc\<close> released, is undefined; copying zero characters is not.
\<close>

section \<open>The struct\<close>

definition STL_STRING_INLINE_LEN :: nat where "STL_STRING_INLINE_LEN = 8"

datatype str_union = In_data "u8 list" | Ptr u64

record stl_string =
  str_data :: str_union
  str_len :: nat

definition zeros8 :: "u8 list" where "zeros8 = replicate 8 0"

definition in_view :: "str_union \<Rightarrow> u8 list option" where
  "in_view u = (case u of In_data b \<Rightarrow> Some b | Ptr p \<Rightarrow> if p = 0 then Some zeros8 else None)"

text \<open>A pointer to characters: into the struct, to an object (NULL is \<open>Heap 0\<close>), or made of characters, which
  may be neither read, written nor freed.\<close>

datatype char_ptr = Inline | Heap u64 | Wild

definition ptr_view :: "str_union \<Rightarrow> char_ptr" where
  "ptr_view u = (case u of Ptr p \<Rightarrow> Heap p | In_data b \<Rightarrow> if b = zeros8 then Heap 0 else Wild)"

definition free_chars :: "byte_heap \<Rightarrow> char_ptr \<Rightarrow> byte_heap option" where
  "free_chars h p = (case p of Heap a \<Rightarrow> free_obj h a | _ \<Rightarrow> None)"

definition read_chars :: "byte_heap \<Rightarrow> stl_string \<Rightarrow> char_ptr \<Rightarrow> u8 list option" where
  "read_chars h c p = (case p of Inline \<Rightarrow> in_view (str_data c) | Heap a \<Rightarrow> obj_at h a | Wild \<Rightarrow> None)"

definition write_chars :: "byte_heap \<Rightarrow> stl_string \<Rightarrow> char_ptr \<Rightarrow> u8 list \<Rightarrow> (byte_heap \<times> stl_string) option" where
  "write_chars h c p s = (case p of
       Inline \<Rightarrow> Some (h, c\<lparr>str_data := In_data s\<rparr>)
     | Heap a \<Rightarrow> do { h \<leftarrow> set_obj h a s; Some (h, c) }
     | Wild \<Rightarrow> None)"

text \<open>Characters written at the offset \<open>i\<close> of a buffer.\<close>

definition put_chars :: "u8 list \<Rightarrow> nat \<Rightarrow> u8 list \<Rightarrow> u8 list option" where
  "put_chars buf i s = (if i + length s \<le> length buf then Some (take i buf @ s @ drop (i + length s) buf) else None)"

definition c_string :: "u8 list \<Rightarrow> u8 list option" where
  "c_string buf = (if 0 \<in> set buf then Some (takeWhile (\<lambda>b. b \<noteq> 0) buf) else None)"

text \<open>The \<open>n\<close> characters that \<open>strncpy\<close> makes of a buffer: the string, then NULs.\<close>

fun strncpy_from :: "nat \<Rightarrow> u8 list \<Rightarrow> u8 list option" where
  "strncpy_from 0 b = Some []"
| "strncpy_from (Suc n) [] = None"
| "strncpy_from (Suc n) (x # xs) = (if x = 0 then Some (replicate (Suc n) 0)
     else do { r \<leftarrow> strncpy_from n xs; Some (x # r) })"

section \<open>Operations\<close>

definition stl_string_reset :: "byte_heap \<Rightarrow> stl_string option \<Rightarrow> (byte_heap \<times> stl_string option) option" where
  "stl_string_reset h c = (case c of None \<Rightarrow> Some (h, None)
     | Some c \<Rightarrow> do {
         (h, c) \<leftarrow> (if STL_STRING_INLINE_LEN \<le> str_len c then do {
             h \<leftarrow> free_chars h (ptr_view (str_data c));
             Some (h, c\<lparr>str_data := Ptr 0\<rparr>) }
           else Some (h, c));
         Some (h, Some (c\<lparr>str_len := 0\<rparr>)) })"

definition stl_string_len :: "stl_string option \<Rightarrow> nat" where
  "stl_string_len c = (case c of None \<Rightarrow> 2 ^ 64 - 1 | Some c \<Rightarrow> str_len c)"

definition stl_string_data :: "stl_string option \<Rightarrow> char_ptr" where
  "stl_string_data c = (case c of None \<Rightarrow> Heap 0
     | Some c \<Rightarrow> if str_len c < STL_STRING_INLINE_LEN then Inline else ptr_view (str_data c))"

definition stl_string_init :: "byte_heap \<Rightarrow> stl_string option \<Rightarrow> u8 list option \<Rightarrow>
    (int \<times> byte_heap \<times> stl_string option) option" where
  "stl_string_init h c data = (case (c, data) of
       (Some c, Some s) \<Rightarrow> do {
         (h, c) \<leftarrow> (if STL_STRING_INLINE_LEN \<le> length s then do {
             (h, p) \<leftarrow> new_obj h (s @ [0]);
             Some (h, c\<lparr>str_data := Ptr p\<rparr>) }
           else do {
             b \<leftarrow> in_view (str_data c);
             b \<leftarrow> put_chars b 0 (s @ [0]);
             Some (h, c\<lparr>str_data := In_data b\<rparr>) });
         Some (0, h, Some (c\<lparr>str_len := length s\<rparr>)) }
     | _ \<Rightarrow> Some (-1, h, c))"

definition stl_string_empty :: "nat \<Rightarrow> stl_string" where
  "stl_string_empty n = \<lparr>str_data = In_data zeros8, str_len = 0\<rparr>"

definition stl_string_alloc :: "byte_heap \<Rightarrow> u8 list option \<Rightarrow> (byte_heap \<times> stl_string option) option" where
  "stl_string_alloc h data = (case data of None \<Rightarrow> Some (h, None)
     | Some s \<Rightarrow> do {
         (r, h, c) \<leftarrow> stl_string_init h (Some \<lparr>str_data = In_data zeros8, str_len = 0\<rparr>) (Some s);
         Some (h, c) })"

text \<open>Splitting: \<open>strsep\<close> cuts at every character of \<open>delim\<close> and writes a NUL there. \<open>out\<close> holds the
  variables that \<open>c_ptr[0]\<close>, \<open>c_ptr[1]\<close>, ... point to, \<open>None\<close> for a pointer to none; beyond it the access is
  out of bounds.\<close>

fun strsep_all :: "u8 list \<Rightarrow> u8 list \<Rightarrow> u8 list list" where
  "strsep_all delim [] = [[]]"
| "strsep_all delim (x # xs) = (if x \<in> set delim then [] # strsep_all delim xs
     else (x # hd (strsep_all delim xs)) # tl (strsep_all delim xs))"

fun alloc_pieces :: "byte_heap \<Rightarrow> u8 list list \<Rightarrow> (byte_heap \<times> stl_string option list) option" where
  "alloc_pieces h [] = Some (h, [])"
| "alloc_pieces h (p # ps) = do {
     (h, c) \<leftarrow> stl_string_alloc h (Some p);
     (h, cs) \<leftarrow> alloc_pieces h ps;
     Some (h, c # cs) }"

fun store_pieces :: "stl_string option option list \<Rightarrow> stl_string option list \<Rightarrow> stl_string option option list option" where
  "store_pieces out [] = Some out"
| "store_pieces [] (c # cs) = None"
| "store_pieces (None # out) (c # cs) = None"
| "store_pieces (Some v # out) (c # cs) = do { out \<leftarrow> store_pieces out cs; Some (Some c # out) }"

definition STL_STRING_SPLIT_CNT :: nat where "STL_STRING_SPLIT_CNT = 256"

definition stl_string_split :: "byte_heap \<Rightarrow> stl_string option \<Rightarrow> u8 list option \<Rightarrow> stl_string option option list option \<Rightarrow>
    nat option \<Rightarrow> (int \<times> byte_heap \<times> stl_string option \<times> stl_string option option list option \<times> nat option) option" where
  "stl_string_split h src delim c_ptr cnt = (case (src, delim, c_ptr, cnt) of
       (Some c, Some delim, Some out, Some n) \<Rightarrow>
         (let p = stl_string_data (Some c) in
          if p = Heap 0 then Some (-1, h, src, c_ptr, cnt)
          else do {
            b \<leftarrow> read_chars h c p;
            s \<leftarrow> c_string b;
            let pieces = strsep_all delim s;
            (h, c) \<leftarrow> write_chars h c p (map (\<lambda>x. if x \<in> set delim then 0 else x) s @ drop (length s) b);
            c_assert (length pieces \<le> STL_STRING_SPLIT_CNT);
            (h, tmp) \<leftarrow> alloc_pieces h pieces;
            out \<leftarrow> store_pieces out tmp;
            Some (-1, h, Some c, Some out, Some (length pieces)) })
     | _ \<Rightarrow> Some (-1, h, src, c_ptr, cnt))"

text \<open>\<open>realloc\<close> either moves the object, and then the copy reads the released one, or leaves it in place, and
  then the copy overlaps itself. When the string is empty, its data may be NULL and nothing is copied
  from it; C leaves \<open>strncpy\<close> undefined even then, but here a copy of no characters does nothing.\<close>

definition stl_string_append :: "byte_heap \<Rightarrow> stl_string option \<Rightarrow> u8 list option \<Rightarrow>
    (int \<times> byte_heap \<times> stl_string option) option" where
  "stl_string_append h c str = (case (c, str) of
       (Some c, Some s) \<Rightarrow> do {
         let len = str_len c;
         let c = c\<lparr>str_len := len + length s\<rparr>;
         let data_ptr = stl_string_data (Some c);
         if str_len c < STL_STRING_INLINE_LEN then do {
           b \<leftarrow> read_chars h c data_ptr;
           b \<leftarrow> put_chars b len s;
           (h, c) \<leftarrow> write_chars h c data_ptr b;
           Some (0, h, Some c) }
         else if len < STL_STRING_INLINE_LEN then do {
           old \<leftarrow> (if len = 0 then Some [] else do { b \<leftarrow> read_chars h c data_ptr; strncpy_from len b });
           (h, base) \<leftarrow> new_obj h (old @ s @ [0]);
           Some (0, h, Some (c\<lparr>str_data := Ptr base\<rparr>)) }
         else None }
     | _ \<Rightarrow> Some (-1, h, c))"

text \<open>The comparison is with a NULL pointer.\<close>

definition stl_string_has_strfix :: "stl_string option \<Rightarrow> u8 list option \<Rightarrow> bool \<Rightarrow> bool option" where
  "stl_string_has_strfix c s direct = (case (c, s) of
       (Some c, Some s) \<Rightarrow>
         if str_len c < length s then Some False
         else if length s = 0 then Some True else None
     | _ \<Rightarrow> Some False)"

definition stl_string_hassuffix :: "stl_string option \<Rightarrow> u8 list option \<Rightarrow> bool option" where
  "stl_string_hassuffix c data = stl_string_has_strfix c data True"

definition stl_string_hasprefix :: "stl_string option \<Rightarrow> u8 list option \<Rightarrow> bool option" where
  "stl_string_hasprefix c data = stl_string_has_strfix c data False"

text \<open>The offset of the first occurrence, as \<open>strchr\<close> and \<open>strstr\<close> report it; \<open>None\<close> is NULL.\<close>

definition stl_string_strchr :: "byte_heap \<Rightarrow> stl_string option \<Rightarrow> u8 \<Rightarrow> nat option option" where
  "stl_string_strchr h c ch = (case c of None \<Rightarrow> Some None
     | Some c \<Rightarrow> do {
         b \<leftarrow> read_chars h c (stl_string_data (Some c));
         s \<leftarrow> c_string b;
         Some (if ch \<in> set (s @ [0]) then Some (length (takeWhile (\<lambda>x. x \<noteq> ch) (s @ [0]))) else None) })"

fun find_sub :: "u8 list \<Rightarrow> u8 list \<Rightarrow> nat \<Rightarrow> nat option" where
  "find_sub [] pat i = (if pat = [] then Some i else None)"
| "find_sub (x # xs) pat i = (if take (length pat) (x # xs) = pat then Some i else find_sub xs pat (Suc i))"

definition stl_string_strstr :: "byte_heap \<Rightarrow> stl_string option \<Rightarrow> u8 list option \<Rightarrow> nat option option" where
  "stl_string_strstr h c str = (case (c, str) of
       (Some c, Some pat) \<Rightarrow> do {
         b \<leftarrow> read_chars h c (stl_string_data (Some c));
         s \<leftarrow> c_string b;
         Some (find_sub s pat 0) }
     | _ \<Rightarrow> Some None)"

text \<open>The change of case of one character; \<open>char\<close> comparisons are signed, but the letters are below 128.\<close>

definition flip_case :: "bool \<Rightarrow> u8 \<Rightarrow> u8" where
  "flip_case flag b = (if 0x41 \<le> b \<and> b \<le> 0x5A \<and> \<not> flag \<or> 0x61 \<le> b \<and> b \<le> 0x7A \<and> flag
     then b + (if flag then - 32 else 32) else b)"

definition stl_stringo_xxx :: "byte_heap \<Rightarrow> stl_string option \<Rightarrow> bool \<Rightarrow> (int \<times> byte_heap \<times> stl_string option) option" where
  "stl_stringo_xxx h c flag = (let p = stl_string_data c in
     case c of
        Some c \<Rightarrow>
          if p = Heap 0 then Some (-1, h, Some c)
          else if str_len c = 0 then Some (0, h, Some c)
          else do {
            b \<leftarrow> read_chars h c p;
            c_assert (str_len c \<le> length b);
            (h, c) \<leftarrow> write_chars h c p (map (flip_case flag) (take (str_len c) b) @ drop (str_len c) b);
            Some (0, h, Some c) }
      | None \<Rightarrow> Some (-1, h, None))"

definition stl_stringolower :: "byte_heap \<Rightarrow> stl_string option \<Rightarrow> (int \<times> byte_heap \<times> stl_string option) option" where
  "stl_stringolower h c = stl_stringo_xxx h c False"

definition stl_stringoupper :: "byte_heap \<Rightarrow> stl_string option \<Rightarrow> (int \<times> byte_heap \<times> stl_string option) option" where
  "stl_stringoupper h c = stl_stringo_xxx h c True"

text \<open>Removing the blanks. A result that fits in place is moved there after the union was overwritten with NULL,
  and then the characters are freed, which is undefined when they were in place.\<close>

definition stl_string_trim :: "byte_heap \<Rightarrow> stl_string option \<Rightarrow> (byte_heap \<times> stl_string option) option" where
  "stl_string_trim h src = (case src of None \<Rightarrow> Some (h, None)
     | Some c \<Rightarrow>
         if str_len c = 0 then Some (h, Some c)
         else do {
           let p = stl_string_data (Some c);
           b \<leftarrow> read_chars h c p;
           c_assert (str_len c \<le> length b);
           let s = filter (\<lambda>x. x \<noteq> 0x20) (take (str_len c) b);
           (h, c) \<leftarrow> write_chars h c p (s @ drop (length s) b);
           if 0 < length s then
             if length s < STL_STRING_INLINE_LEN then
               (case p of Heap a \<Rightarrow> do {
                    b \<leftarrow> put_chars zeros8 0 (s @ [0]);
                    h \<leftarrow> free_obj h a;
                    Some (h, Some (c\<lparr>str_data := In_data b, str_len := length s\<rparr>)) }
                | _ \<Rightarrow> None)
             else Some (h, Some (c\<lparr>str_len := length s\<rparr>))
           else Some (h, Some c) })"

text \<open>The comparison of \<open>strncmp\<close> with the whole of \<open>old\<close>, and the loop that looks for it: undefined when it
  reads behind the buffer.\<close>

fun strncmp_eq :: "u8 list \<Rightarrow> u8 list \<Rightarrow> bool option" where
  "strncmp_eq [] b = Some True"
| "strncmp_eq (p # ps) [] = None"
| "strncmp_eq (p # ps) (x # xs) = (if x = p then strncmp_eq ps xs else Some False)"

fun find_match :: "u8 list \<Rightarrow> nat \<Rightarrow> u8 list \<Rightarrow> nat \<Rightarrow> nat option option" where
  "find_match old 0 b i = Some None"
| "find_match old (Suc n) [] i = None"
| "find_match old (Suc n) (x # xs) i =
     (if x = hd (old @ [0]) then do {
        m \<leftarrow> strncmp_eq old (x # xs);
        if m then Some (Some i) else find_match old n xs (Suc i) }
      else find_match old n xs (Suc i))"

text \<open>Replacing the first occurrence: the characters behind it are dropped and the length stays. The new ones are
  written through the old pointer, which is undefined when its object was freed or when \<open>realloc\<close> moved it,
  as \<open>moved\<close> says.\<close>

definition stl_string_replace :: "bool \<Rightarrow> byte_heap \<Rightarrow> stl_string option \<Rightarrow> u8 list option \<Rightarrow> u8 list option \<Rightarrow>
    (int \<times> byte_heap \<times> stl_string option) option" where
  "stl_string_replace moved h src old_data new_data = (case (src, old_data, new_data) of
       (Some c, Some old, Some new) \<Rightarrow>
         if str_len c < length old then Some (-1, h, src)
         else do {
           let p = stl_string_data (Some c);
           b \<leftarrow> (if str_len c = 0 then Some [] else read_chars h c p);
           m \<leftarrow> find_match old (str_len c) b 0;
           (case m of
              None \<Rightarrow> Some (-1, h, src)
            | Some i \<Rightarrow>
                if i + length new < STL_STRING_INLINE_LEN then
                  (case p of Inline \<Rightarrow> do {
                       b \<leftarrow> put_chars b i (new @ [0]);
                       Some (0, h, Some (c\<lparr>str_data := In_data b\<rparr>)) }
                   | Heap a \<Rightarrow> do {
                       h \<leftarrow> free_obj h a;
                       c_assert (new = []);
                       Some (0, h, Some (c\<lparr>str_data := Ptr 0\<rparr>)) }
                   | Wild \<Rightarrow> None)
                else (case p of Heap a \<Rightarrow>
                       if moved then do {
                         c_assert (new = []);
                         h \<leftarrow> free_obj h a;
                         (h, a) \<leftarrow> new_obj h (take i b @ [0]);
                         Some (0, h, Some (c\<lparr>str_data := Ptr a\<rparr>)) }
                       else do {
                         h \<leftarrow> set_obj h a (take i b @ new @ [0]);
                         Some (0, h, Some c) }
                   | _ \<Rightarrow> None)) }
     | _ \<Rightarrow> Some (-1, h, src))"

text \<open>Copying writes the characters into the destination's struct, does not set its length, and returns -1.
  The two strings are not the same object. More than 8 characters leave the union, and fewer written over
  a pointer leave neither a pointer nor characters: both are undefined here.\<close>

definition stl_string_dup :: "byte_heap \<Rightarrow> stl_string option \<Rightarrow> stl_string option \<Rightarrow>
    (int \<times> byte_heap \<times> stl_string option) option" where
  "stl_string_dup h src dst = (case (src, dst) of
       (Some c, Some d) \<Rightarrow>
         if str_len c = 0 then Some (-1, h, dst)
         else do {
           h \<leftarrow> (if str_len c < STL_STRING_INLINE_LEN then Some h
             else do {
               (h, ptr) \<leftarrow> new_obj h (replicate (str_len c + 1) 0);
               c_assert (ptr_view (str_data d) \<noteq> Heap 0);
               Some h });
           b \<leftarrow> read_chars h c (stl_string_data (Some c));
           s \<leftarrow> strncpy_from (str_len c) b;
           db \<leftarrow> (if length s = 8 then Some s else in_view (str_data d));
           db \<leftarrow> put_chars db 0 s;
           Some (-1, h, Some (d\<lparr>str_data := In_data db\<rparr>)) }
     | _ \<Rightarrow> Some (-1, h, dst))"

text \<open>Formatting: \<open>out\<close> is what \<open>vsnprintf\<close> produces, \<open>None\<close> when it fails. A result that does not fit in place
  is not copied at all.\<close>

definition stl_string_create_fmt :: "byte_heap \<Rightarrow> stl_string \<Rightarrow> u8 list option \<Rightarrow> (int \<times> byte_heap \<times> stl_string) option" where
  "stl_string_create_fmt h c out = (case out of None \<Rightarrow> Some (-1, h, c)
     | Some s \<Rightarrow>
         let p = stl_string_data (Some c) in
         if length s < STL_STRING_INLINE_LEN then
           if s = [] then Some (0, h, c)
           else do {
             b \<leftarrow> read_chars h c p;
             b \<leftarrow> put_chars b 0 s;
             (h, c) \<leftarrow> write_chars h c p b;
             Some (0, h, c) }
         else do {
           (h, q) \<leftarrow> new_obj h (replicate (length s + 1) 0);
           Some (0, h, c\<lparr>str_data := Ptr q\<rparr>) })"

definition stl_string_sprintf :: "byte_heap \<Rightarrow> stl_string \<Rightarrow> u8 list option \<Rightarrow> (int \<times> byte_heap \<times> stl_string) option" where
  "stl_string_sprintf h c out = stl_string_create_fmt h c out"

definition stl_string_deinit :: "byte_heap \<Rightarrow> stl_string option \<Rightarrow> (byte_heap \<times> stl_string option) option" where
  "stl_string_deinit h c = (case c of None \<Rightarrow> Some (h, None)
     | Some c \<Rightarrow> do {
         h \<leftarrow> (if STL_STRING_INLINE_LEN \<le> stl_string_len (Some c) then free_chars h (ptr_view (str_data c)) else Some h);
         Some (h, Some (c\<lparr>str_len := 0\<rparr>)) })"

text \<open>The struct itself is the caller's and is released with its characters.\<close>

definition stl_string_destroy :: "byte_heap \<Rightarrow> stl_string option \<Rightarrow> byte_heap option" where
  "stl_string_destroy h c = do { (h, c) \<leftarrow> stl_string_deinit h c; Some h }"

section \<open>The represented string\<close>

text \<open>A struct holds a string in place, followed by NULs, or points to its characters and a NUL.\<close>

definition str_holds :: "byte_heap \<Rightarrow> stl_string \<Rightarrow> u8 list \<Rightarrow> bool" where
  "str_holds h c s \<longleftrightarrow> str_len c = length s \<and> 0 \<notin> set s \<and>
     (if length s < 8 then in_view (str_data c) = Some (s @ replicate (8 - length s) 0)
      else \<exists>p. str_data c = Ptr p \<and> obj_at h p = Some (s @ [0]))"

lemma in_view_zeros8 [simp]: "in_view (In_data b) = Some b" "in_view (Ptr 0) = Some zeros8"
  by (simp_all add: in_view_def)

lemma c_string_end [simp]: "0 \<notin> set s \<Longrightarrow> 0 \<in> set t \<Longrightarrow> hd t = 0 \<Longrightarrow> c_string (s @ t) = Some s"
  by (cases t) (auto simp: c_string_def takeWhile_append)

lemma strncpy_from_prefix: "0 \<notin> set s \<Longrightarrow> strncpy_from (length s) (s @ t) = Some s"
  by (induction s) auto

text \<open>Where the characters of a string are, and what else is in their buffer.\<close>

lemma str_holds_read:
  assumes "str_holds h c s"
  obtains t where "read_chars h c (stl_string_data (Some c)) = Some (s @ t)" "0 \<in> set t" "hd t = 0"
    "length s < 8 \<Longrightarrow> t = replicate (8 - length s) 0 \<and> stl_string_data (Some c) = Inline"
    "8 \<le> length s \<Longrightarrow> t = [0]"
proof (cases "length s < 8")
  case True
  show thesis
    by (rule that [of "replicate (8 - length s) 0"])
      (use assms True in \<open>auto simp: str_holds_def stl_string_data_def STL_STRING_INLINE_LEN_def read_chars_def hd_replicate\<close>)
next
  case False
  show thesis
    by (rule that [of "[0]"])
      (use assms False in \<open>auto simp: str_holds_def stl_string_data_def STL_STRING_INLINE_LEN_def read_chars_def ptr_view_def\<close>)
qed

lemma str_holds_data_nonnull: "str_holds h c s \<Longrightarrow> stl_string_data (Some c) \<noteq> Heap 0"
  by (auto simp: str_holds_def stl_string_data_def STL_STRING_INLINE_LEN_def ptr_view_def split: if_splits)

lemma new_obj_room: "length h + 1 < 2 ^ 64 \<Longrightarrow> \<exists>h' p. new_obj h s = Some (h', p)"
  by (simp add: new_obj_def)

lemma zeros8_append:
  assumes "length s < 8"
  shows "put_chars zeros8 0 (s @ [0]) = Some (s @ replicate (8 - length s) 0)"
proof -
  have "8 - length s = Suc (7 - length s)" using assms by simp
  then show ?thesis using assms by (simp add: put_chars_def zeros8_def)
qed

lemma stl_string_alloc_holds:
  assumes "0 \<notin> set s" "length h + 1 < 2 ^ 64"
  obtains h' c where "stl_string_alloc h (Some s) = Some (h', Some c)" "str_holds h' c s"
proof (cases "length s < 8")
  case True
  then have "put_chars zeros8 0 (s @ [0]) = Some (s @ replicate (8 - length s) 0)" by (simp add: zeros8_append)
  with True assms show thesis
    by (intro that [of h "\<lparr>str_data = In_data (s @ replicate (8 - length s) 0), str_len = length s\<rparr>"])
      (simp_all add: stl_string_alloc_def stl_string_init_def STL_STRING_INLINE_LEN_def str_holds_def)
next
  case False
  obtain h' p where n: "new_obj h (s @ [0]) = Some (h', p)" using new_obj_room [OF assms(2)] by blast
  with False assms new_obj_SomeE [OF n] show thesis
    by (intro that [of h' "\<lparr>str_data = Ptr p, str_len = length s\<rparr>"])
      (simp_all add: stl_string_alloc_def stl_string_init_def STL_STRING_INLINE_LEN_def str_holds_def)
qed

section \<open>Appending\<close>

lemma append_in_place:
  assumes "str_holds h c s" "0 \<notin> set t" "length s + length t < 8"
  shows "\<exists>c'. stl_string_append h (Some c) (Some t) = Some (0, h, Some c') \<and> str_holds h c' (s @ t)"
proof -
  have i: "in_view (str_data c) = Some (s @ replicate (8 - length s) 0)" and l: "str_len c = length s"
    using assms by (auto simp: str_holds_def split: if_splits)
  have p: "put_chars (s @ replicate (8 - length s) 0) (length s) t = Some (s @ t @ replicate (8 - (length s + length t)) 0)"
    using assms by (simp add: put_chars_def)
  show ?thesis using assms i l p
    by (simp add: stl_string_append_def stl_string_data_def STL_STRING_INLINE_LEN_def Let_def read_chars_def
        write_chars_def str_holds_def)
qed

lemma append_to_empty:
  assumes "str_holds h c []" "0 \<notin> set t" "8 \<le> length t" "length h + 1 < 2 ^ 64"
  shows "\<exists>h' c'. stl_string_append h (Some c) (Some t) = Some (0, h', Some c') \<and> str_holds h' c' t"
proof -
  obtain h' p where n: "new_obj h (t @ [0]) = Some (h', p)" using new_obj_room [OF assms(4)] by blast
  with assms new_obj_SomeE [OF n] show ?thesis
    by (simp add: stl_string_append_def stl_string_data_def STL_STRING_INLINE_LEN_def Let_def str_holds_def)
qed

lemma append_crossing_undefined:
  assumes "str_holds h c s" "s \<noteq> []" "8 \<le> length s + length t"
  shows "stl_string_append h (Some c) (Some t) = None"
proof (cases "length s < 8")
  case True
  have i: "in_view (str_data c) = Some (s @ replicate (8 - length s) 0)" and l: "str_len c = length s" and n: "0 \<notin> set s"
    using assms True by (auto simp: str_holds_def split: if_splits)
  have "ptr_view (str_data c) \<in> {Wild, Heap 0}"
  proof (cases "str_data c")
    case (In_data b) then show ?thesis by (simp add: ptr_view_def)
  next
    case (Ptr q) with i show ?thesis by (simp add: ptr_view_def in_view_def split: if_splits)
  qed
  then show ?thesis using assms l True
    by (auto simp: stl_string_append_def stl_string_data_def STL_STRING_INLINE_LEN_def Let_def read_chars_def)
qed (use assms in \<open>simp add: stl_string_append_def STL_STRING_INLINE_LEN_def Let_def str_holds_def\<close>)

text \<open>C39: Appending works exactly when the result fits in place or the string was empty: then it returns 0 and the
  string holds the concatenation. Otherwise, when the result crosses the eight bytes or the string already points
  to its characters, the code copies from a pointer that is no longer one.\<close>

theorem string_append_defined:
  assumes "str_holds h c s" "0 \<notin> set t" "length h + 1 < 2 ^ 64"
  shows "if length s + length t < 8 \<or> s = []
    then \<exists>h' c'. stl_string_append h (Some c) (Some t) = Some (0, h', Some c') \<and> str_holds h' c' (s @ t)
    else stl_string_append h (Some c) (Some t) = None"
  using append_in_place [OF assms(1,2)] append_to_empty [of h c t] append_crossing_undefined [OF assms(1)] assms
  by (cases "length s + length t < 8"; cases "s = []") auto

lemma short_string_holds: "str_holds [] \<lparr>str_data = In_data [0x61, 0x62, 0, 0, 0, 0, 0, 0], str_len = 2\<rparr> [0x61, 0x62]"
  by code_simp

theorem string_append_defined_witness:
  "stl_string_append [] (Some \<lparr>str_data = In_data [0x61, 0x62, 0, 0, 0, 0, 0, 0], str_len = 2\<rparr>)
     (Some [0x63, 0x63, 0x63, 0x63, 0x63, 0x63]) = None"
  using string_append_defined [OF short_string_holds, of "[0x63, 0x63, 0x63, 0x63, 0x63, 0x63]"] by simp

section \<open>Searching and changing the case\<close>

lemma find_sub_spec:
  "find_sub s pat i = Some j \<longleftrightarrow> i \<le> j \<and> take (length pat) (drop (j - i) s) = pat \<and> j - i \<le> length s \<and>
     (\<forall>k<j - i. take (length pat) (drop k s) \<noteq> pat)"
proof (induction s pat i rule: find_sub.induct)
  case (2 x xs pat i)
  show ?case
  proof (cases "take (length pat) (x # xs) = pat")
    case True
    then show ?thesis by (auto intro: le_antisym dest!: spec [of _ 0])
  next
    case False
    have "i \<le> j \<and> take (length pat) (drop (j - i) (x # xs)) = pat \<and> j - i \<le> length (x # xs) \<and>
        (\<forall>k<j - i. take (length pat) (drop k (x # xs)) \<noteq> pat) \<longleftrightarrow>
      Suc i \<le> j \<and> take (length pat) (drop (j - Suc i) xs) = pat \<and> j - Suc i \<le> length xs \<and>
        (\<forall>k<j - Suc i. take (length pat) (drop k xs) \<noteq> pat)"
    proof (cases "i < j")
      case True
      then obtain d where "j = Suc (i + d)" using less_iff_Suc_add by blast
      then show ?thesis using False by (auto simp: less_Suc_eq_0_disj)
    qed (use False in \<open>auto simp: le_less\<close>)
    then show ?thesis using False 2 by simp
  qed
qed (auto simp: le_antisym)

text \<open>C33: A string that was allocated is found where it is: \<open>stl_string_strstr\<close> gives the first place where all of the
  pattern stands in the string, and NULL exactly when there is none.\<close>

theorem string_strstr_first:
  assumes "0 \<notin> set s" "length h + 1 < 2 ^ 64"
  shows "\<exists>h' c. stl_string_alloc h (Some s) = Some (h', Some c) \<and> stl_string_len (Some c) = length s \<and>
    (\<exists>r. stl_string_strstr h' (Some c) (Some pat) = Some r \<and>
      (\<forall>j. r = Some j \<longleftrightarrow> take (length pat) (drop j s) = pat \<and> j \<le> length s \<and>
        (\<forall>k<j. take (length pat) (drop k s) \<noteq> pat)))"
proof -
  obtain h' c where a: "stl_string_alloc h (Some s) = Some (h', Some c)" "str_holds h' c s"
    using stl_string_alloc_holds [OF assms] by blast
  obtain t where "read_chars h' c (stl_string_data (Some c)) = Some (s @ t)" "0 \<in> set t" "hd t = 0"
    using str_holds_read [OF a(2)] by metis
  with a assms show ?thesis
    by (simp add: stl_string_strstr_def stl_string_len_def str_holds_def find_sub_spec)
qed

theorem string_strstr_first_witness:
  "(\<exists>h' c. stl_string_alloc [] (Some [0x61, 0x62, 0x62]) = Some (h', Some c) \<and>
     stl_string_strstr h' (Some c) (Some [0x62]) = Some (Some 1))"
proof -
  have "take (length [0x62]) (drop 1 [0x61, 0x62, 0x62]) = [0x62::u8] \<and> (1::nat) \<le> length [0x61::u8, 0x62, 0x62] \<and>
    (\<forall>k<1::nat. take (length [0x62]) (drop k [0x61, 0x62, 0x62]) \<noteq> [0x62::u8])" by simp
  then show ?thesis using string_strstr_first [of "[0x61, 0x62, 0x62]" "[]" "[0x62]"] by fastforce
qed

lemma flip_case_nonzero: "b \<noteq> 0 \<Longrightarrow> flip_case flag b \<noteq> 0"
proof (cases flag)
  case True
  have "b + - 32 \<noteq> 0" if "0x61 \<le> b" using that by (auto simp: add_eq_0_iff)
  with True show "b \<noteq> 0 \<Longrightarrow> flip_case flag b \<noteq> 0" by (simp add: flip_case_def)
next
  case False
  have "b + 32 \<noteq> 0" if "b \<le> 0x5A"
  proof
    assume "b + 32 = 0"
    then have "b = - 32" by (simp add: eq_neg_iff_add_eq_0)
    with that show False by simp
  qed
  with False show "b \<noteq> 0 \<Longrightarrow> flip_case flag b \<noteq> 0" by (simp add: flip_case_def)
qed

text \<open>The change of case keeps the representation: every character is changed, in place.\<close>

lemma string_case_conversion:
  assumes "str_holds h c s"
  shows "\<exists>h' c'. stl_stringo_xxx h (Some c) flag = Some (0, h', Some c') \<and> str_holds h' c' (map (flip_case flag) s)"
proof (cases "s = []")
  case True
  with assms show ?thesis
    by (auto simp: stl_stringo_xxx_def str_holds_def stl_string_data_def STL_STRING_INLINE_LEN_def)
next
  case ne: False
  have nz: "0 \<notin> set (map (flip_case flag) s)"
    using assms flip_case_nonzero by (auto simp: str_holds_def image_iff) metis
  note l = str_holds_data_nonnull [OF assms]
  show ?thesis
  proof (cases "length s < 8")
    case True
    with assms ne l nz show ?thesis
      by (auto simp: stl_stringo_xxx_def str_holds_def stl_string_data_def STL_STRING_INLINE_LEN_def read_chars_def
          write_chars_def Let_def)
  next
    case False
    then obtain p where p: "str_data c = Ptr p" "obj_at h p = Some (s @ [0])" "p \<noteq> 0"
      using assms by (auto simp: str_holds_def) (metis obj_at_null option.distinct(1))
    obtain h' where "set_obj h p (map (flip_case flag) s @ [0]) = Some h'" "obj_at h' p = Some (map (flip_case flag) s @ [0])"
      using set_obj_at [OF p(2)] by blast
    with assms ne p nz False show ?thesis
      by (auto simp: stl_stringo_xxx_def str_holds_def stl_string_data_def STL_STRING_INLINE_LEN_def read_chars_def
          write_chars_def Let_def ptr_view_def)
  qed
qed

section \<open>Tests and operations that fail\<close>

text \<open>The prefix and suffix tests compare with NULL: they answer only when the string is shorter than the
  argument, or the argument is empty.\<close>

lemma string_strfix_undefined:
  "str_holds h c s \<Longrightarrow> t \<noteq> [] \<Longrightarrow> length t \<le> length s \<Longrightarrow> stl_string_has_strfix (Some c) (Some t) direct = None"
  by (simp add: stl_string_has_strfix_def str_holds_def)

lemma strsep_all_length: "length (strsep_all delim s) = Suc (length (filter (\<lambda>x. x \<in> set delim) s))"
  by (induction s) auto

lemma store_pieces_bound: "store_pieces out cs = Some out' \<Longrightarrow> length cs \<le> length out"
  by (induction out cs arbitrary: out' rule: store_pieces.induct) (auto elim!: bind_SomeE)

lemma alloc_pieces_length: "alloc_pieces h ps = Some (h', cs) \<Longrightarrow> length cs = length ps"
  by (induction ps arbitrary: h h' cs) (auto elim!: bind_SomeE split: prod.splits)

text \<open>\<open>stl_string_split\<close> never reports success, and the caller's one variable takes one piece: a string with a
  separator in it writes behind the variable.\<close>

theorem string_split_single_piece:
  assumes "str_holds h c s" "stl_string_split h (Some c) (Some delim) (Some [v]) (Some n) = Some (r, h', src', out, cnt)"
  shows "r = -1 \<and> cnt = Some 1 \<and> set delim \<inter> set s = {}"
proof -
  obtain t where t: "read_chars h c (stl_string_data (Some c)) = Some (s @ t)" "0 \<in> set t" "hd t = 0"
    using str_holds_read [OF assms(1)] by metis
  have c: "c_string (s @ t) = Some s" using assms(1) t by (simp add: str_holds_def)
  obtain tmp out' where r: "r = -1" "cnt = Some (length (strsep_all delim s))"
    and st: "store_pieces [v] tmp = Some out'" and l: "length tmp = length (strsep_all delim s)"
    using assms(2) t(1) c str_holds_data_nonnull [OF assms(1)]
    by (auto simp: stl_string_split_def Let_def elim!: bind_SomeE dest: alloc_pieces_length split: prod.splits)
  have "length (strsep_all delim s) \<le> 1" using store_pieces_bound [OF st] l by simp
  then have "filter (\<lambda>x. x \<in> set delim) s = []" by (simp add: strsep_all_length)
  then have "set delim \<inter> set s = {}" "length (strsep_all delim s) = 1"
    by (auto simp: filter_empty_conv strsep_all_length)
  with r show ?thesis by simp
qed

theorem string_split_single_piece_witness:
  "\<exists>h' src' out. stl_string_split [] (Some \<lparr>str_data = In_data [0x61, 0x62, 0, 0, 0, 0, 0, 0], str_len = 2\<rparr>) (Some [0x2C])
     (Some [Some None]) (Some 0) = Some (-1, h', src', out, Some 1)"
proof -
  let ?r = "stl_string_split [] (Some \<lparr>str_data = In_data [0x61, 0x62, 0, 0, 0, 0, 0, 0], str_len = 2\<rparr>)
     (Some [0x2C]) (Some [Some None]) (Some 0)"
  have "?r \<noteq> None" by code_simp
  then obtain r h' src' out cnt where e: "?r = Some (r, h', src', out, cnt)" by (metis not_None_eq prod_cases5)
  from e string_split_single_piece [OF short_string_holds e] show ?thesis by auto
qed

end
