(* ===== verification/Rand.thy ===== *)
theory Rand
  imports C_Prelude "HOL-Library.Char_ord"
begin

text \<open>
  Random strings (\<open>module/stl/src/stl_rand.c\<close>): the generator \<open>drand48\<close> on three limbs of 16 bits, held in the
  static array \<open>x\<close>, and the strings drawn from it. A string is built in a buffer whose size is the
  caller's; a write behind it is undefined.
\<close>

unbundle bit_operations_syntax

section \<open>The generator\<close>

record stl_rand =
  rand_x0 :: u32
  rand_x1 :: u32
  rand_x2 :: u32

definition A0 :: u32 where "A0 = 0xE66D"
definition A1 :: u32 where "A1 = 0xDEEC"
definition A2 :: u32 where "A2 = 0x5"
definition rand_C :: u32 where "rand_C = 0xB"

definition rand_seed :: stl_rand where
  "rand_seed = \<lparr>rand_x0 = 0x330E, rand_x1 = 0xABCD, rand_x2 = 0x1234\<rparr>"

definition MASK :: u32 where "MASK = push_bit 15 1 + push_bit 15 1 - 1"

definition LOW :: "u32 \<Rightarrow> u32" where "LOW x = x AND MASK"

text \<open>The shift of a signed number.\<close>

definition HIGH :: "u32 \<Rightarrow> u32" where "HIGH x = LOW (signed_drop_bit 16 x)"

definition MUL :: "u32 \<Rightarrow> u32 \<Rightarrow> u32 \<times> u32" where
  "MUL x y = (let l = ucast ((ucast x :: u64) * ucast y) in (LOW l, HIGH l))"

definition CARRY :: "u32 \<Rightarrow> u32 \<Rightarrow> u32" where
  "CARRY x y = (if uint MASK < sint x + uint y then 1 else 0)"

definition ADDEQU :: "u32 \<Rightarrow> u32 \<Rightarrow> u32 \<times> u32" where
  "ADDEQU x y = (LOW (x + y), CARRY x y)"

definition stl_rand_next :: "stl_rand \<Rightarrow> stl_rand" where
  "stl_rand_next s = (
     let x0 = rand_x0 s; x1 = rand_x1 s; x2 = rand_x2 s;
         (p0, p1) = MUL A0 x0;
         (p0, carry0) = ADDEQU p0 rand_C;
         (p1, carry1) = ADDEQU p1 carry0;
         (q0, q1) = MUL A0 x1;
         (p1, carry0) = ADDEQU p1 q0;
         (r0, r1) = MUL A1 x0
     in \<lparr>rand_x0 = LOW p0, rand_x1 = LOW (p1 + r0),
         rand_x2 = LOW (carry0 + carry1 + CARRY p1 r0 + q1 + r1 + A0 * x2 + A1 * x1 + A2 * x0)\<rparr>)"

definition rand_value :: "stl_rand \<Rightarrow> u32" where
  "rand_value s = push_bit 15 (rand_x2 s) + drop_bit 1 (rand_x1 s)"

definition stl_rand_int32 :: "stl_rand \<Rightarrow> int \<times> stl_rand" where
  "stl_rand_int32 s = (let s = stl_rand_next s in (sint (rand_value s), s))"

section \<open>Strings\<close>

definition stl_rand_chars :: string where
  "stl_rand_chars = ''0123456789abcdefghijklmnopqrstuvwxyzABCDEFGHIJKLMNOPQRSTUVWXYZ''"

definition rand_hash :: "u32 \<Rightarrow> u32" where
  "rand_hash r = (if sint r < 0 then NOT r + 1 else r)"

text \<open>The character at \<open>i\<close>, the NUL at the end of the literal included; behind it the read is undefined.\<close>

definition rand_char :: "nat \<Rightarrow> char option" where
  "rand_char i = (if i \<le> length stl_rand_chars then Some ((stl_rand_chars @ [CHR 0x00]) ! i) else None)"

fun rand_fill :: "nat list \<Rightarrow> nat \<Rightarrow> string \<Rightarrow> stl_rand \<Rightarrow> (string \<times> stl_rand) option" where
  "rand_fill [] n buf s = Some (buf, s)"
| "rand_fill (i # is) n buf s = (
     let s = stl_rand_next s;
         hash = rand_hash (rand_value s)
     in do {
       ch \<leftarrow> rand_char (unat hash mod n);
       buf \<leftarrow> mem_write buf (int i) ch;
       rand_fill is n buf s })"

definition stl_rand_string :: "string option \<Rightarrow> nat \<Rightarrow> stl_rand \<Rightarrow> (int \<times> string option \<times> stl_rand) option" where
  "stl_rand_string buf n s = (case buf of None \<Rightarrow> Some (-1, None, s)
     | Some buf \<Rightarrow>
         if 0 < n then do {
           (buf, s) \<leftarrow> rand_fill [0..<n] n buf s;
           buf \<leftarrow> mem_write buf (int n) (CHR 0x00);
           Some (0, Some buf, s) }
         else Some (-1, Some buf, s))"

definition UUID_MIN_LEN :: nat where "UUID_MIN_LEN = 37"

definition uuid_char :: "char \<Rightarrow> char" where
  "uuid_char c = (if CHR ''A'' \<le> c \<and> c \<le> CHR ''Z'' then char_of (of_char c + (32::nat)) else c)"

fun uuid_fill :: "nat list \<Rightarrow> string \<Rightarrow> stl_rand \<Rightarrow> (string \<times> stl_rand) option" where
  "uuid_fill [] buf s = Some (buf, s)"
| "uuid_fill (i # is) buf s = (
     if i = 8 \<or> i = 13 \<or> i = 18 \<or> i = 23 then do {
       buf \<leftarrow> mem_write buf (int i) (CHR ''-'');
       uuid_fill is buf s }
     else
       let s = stl_rand_next s;
           hash = rand_hash (rand_value s)
       in do {
         ch \<leftarrow> rand_char (unat hash mod length stl_rand_chars);
         buf \<leftarrow> mem_write buf (int i) (uuid_char ch);
         uuid_fill is buf s })"

text \<open>The function has no return value when an argument does not fit: the first component is \<open>None\<close>.\<close>

definition stl_gen_uuid :: "string option \<Rightarrow> nat \<Rightarrow> stl_rand \<Rightarrow> (int option \<times> string option \<times> stl_rand) option" where
  "stl_gen_uuid buf n s = (case buf of None \<Rightarrow> Some (None, None, s)
     | Some buf \<Rightarrow>
         if UUID_MIN_LEN \<le> n then do {
           (buf, s) \<leftarrow> uuid_fill [0..<UUID_MIN_LEN] buf s;
           buf \<leftarrow> mem_write buf (int UUID_MIN_LEN) (CHR 0x00);
           Some (Some 0, Some buf, s) }
         else Some (None, Some buf, s))"

section \<open>The recurrence\<close>

text \<open>The limbs as one number of 48 bits.\<close>

definition rand_state :: "stl_rand \<Rightarrow> nat" where
  "rand_state s = unat (rand_x0 s) + 2 ^ 16 * unat (rand_x1 s) + 2 ^ 32 * unat (rand_x2 s)"

definition rand_ok :: "stl_rand \<Rightarrow> bool" where
  "rand_ok s \<longleftrightarrow> unat (rand_x0 s) < 2 ^ 16 \<and> unat (rand_x1 s) < 2 ^ 16 \<and> unat (rand_x2 s) < 2 ^ 16"

lemma MASK_eq: "MASK = mask 16"
  by code_simp

lemma unat_LOW [simp]: "unat (LOW x) = unat x mod 2 ^ 16"
  unfolding LOW_def MASK_eq take_bit_eq_mask [symmetric] unsigned_take_bit_eq by (rule take_bit_eq_mod)

lemma unat_HIGH [simp]: "unat (HIGH x) = unat x div 2 ^ 16"
proof -
  have "HIGH x = drop_bit 16 x"
    by (rule bit_word_eqI)
      (auto simp: HIGH_def LOW_def MASK_eq bit_simps bit_signed_drop_bit_iff dest: bit_imp_le_length)
  moreover have "unat x < 2 ^ LENGTH(32)" by (rule unsigned_less)
  ultimately have "unat (HIGH x) = drop_bit 16 (unat x)" by (simp add: unsigned_drop_bit_eq take_bit_nat_eq_self)
  then show ?thesis by (simp only: drop_bit_eq_div)
qed

lemma MUL_eq: "MUL x y = (LOW (x * y), HIGH (x * y))"
proof -
  have "ucast ((ucast x :: u64) * ucast y) = x * y"
    by (rule word_unat_eq_iff [THEN iffD2]) (simp add: unsigned_ucast_eq unat_word_ariths take_bit_eq_mod mod_mod_cancel mod_mult_eq)
  then show ?thesis by (simp add: MUL_def Let_def)
qed

lemma unat_add_small: "unat x < 2 ^ 16 \<Longrightarrow> unat y < 2 ^ 16 \<Longrightarrow> unat (x + y :: u32) = unat x + unat y"
  by (simp add: unat_word_ariths)

lemma CARRY_eq:
  assumes "unat x < 2 ^ 16" "unat y < 2 ^ 16"
  shows "unat (CARRY x y) = (unat x + unat y) div 2 ^ 16"
proof -
  have "uint x < 2 ^ 16" using assms(1) of_nat_less_iff [of "unat x" "2 ^ 16", where 'a = int] by simp
  moreover have "- (2 ^ 31) \<le> uint x" by (rule order_trans [OF _ uint_ge_0]) simp
  ultimately have "sint x = uint x" by (simp add: sint_uint signed_take_bit_int_eq_self)
  then have "sint x + uint y = int (unat x + unat y)" by simp
  then have "65535 < sint x + uint y \<longleftrightarrow> 65535 < unat x + unat y" by linarith
  moreover have "uint MASK = 65535" by code_simp
  moreover have "(unat x + unat y) div 2 ^ 16 = (if 65535 < unat x + unat y then 1 else 0)"
    using assms by (auto simp: div_if)
  ultimately show ?thesis by (simp add: CARRY_def)
qed

text \<open>The limbs of the next state, with their carries.\<close>

lemma rand_next_limbs:
  fixes s :: stl_rand
  defines "X0 \<equiv> unat (rand_x0 s)" and "X1 \<equiv> unat (rand_x1 s)" and "X2 \<equiv> unat (rand_x2 s)"
  assumes "rand_ok s"
  shows "\<exists>p0 p1 q0 q1 r0 r1 c0 c1 d0 d1 t u. 0xE66D * X0 = p0 + 2 ^ 16 * p1 \<and> 0xE66D * X1 = q0 + 2 ^ 16 * q1 \<and>
    0xDEEC * X0 = r0 + 2 ^ 16 * r1 \<and> p0 + 0xB = unat (rand_x0 (stl_rand_next s)) + 2 ^ 16 * c0 \<and>
    p1 + c0 = t + 2 ^ 16 * c1 \<and> t + q0 = u + 2 ^ 16 * d0 \<and> u + r0 = unat (rand_x1 (stl_rand_next s)) + 2 ^ 16 * d1 \<and>
    unat (rand_x2 (stl_rand_next s)) = (d0 + c1 + d1 + q1 + r1 + 0xE66D * X2 + 0xDEEC * X1 + 5 * X0) mod 2 ^ 16"
proof -
  have X: "X0 < 2 ^ 16" "X1 < 2 ^ 16" "X2 < 2 ^ 16" using assms by (simp_all add: rand_ok_def)
  have m: "unat (A0 * rand_x0 s) = 0xE66D * X0" "unat (A0 * rand_x1 s) = 0xE66D * X1" "unat (A1 * rand_x0 s) = 0xDEEC * X0"
    using X by (simp_all add: unat_word_ariths A0_def A1_def X0_def X1_def)
  let ?p0 = "LOW (A0 * rand_x0 s)" and ?p1 = "HIGH (A0 * rand_x0 s)" and ?q0 = "LOW (A0 * rand_x1 s)"
    and ?q1 = "HIGH (A0 * rand_x1 s)" and ?r0 = "LOW (A1 * rand_x0 s)" and ?r1 = "HIGH (A1 * rand_x0 s)"
  let ?c0 = "CARRY ?p0 rand_C" and ?t = "LOW (?p1 + CARRY ?p0 rand_C)"
  let ?c1 = "CARRY ?p1 ?c0" and ?u = "LOW (?t + ?q0)"
  let ?d0 = "CARRY ?t ?q0" and ?d1 = "CARRY ?u ?r0"
  have C: "unat rand_C = 0xB" by (simp add: rand_C_def)
  have p1: "unat ?p1 < 2 ^ 16" using X by (simp add: m)
  have c0: "unat ?c0 < 2 ^ 16" by (simp add: CARRY_def)
  have n: "rand_x0 (stl_rand_next s) = LOW (LOW (?p0 + rand_C))" "rand_x1 (stl_rand_next s) = LOW (?u + ?r0)"
    "rand_x2 (stl_rand_next s) = LOW (?d0 + ?c1 + ?d1 + ?q1 + ?r1 + A0 * rand_x2 s + A1 * rand_x1 s + A2 * rand_x0 s)"
    by (simp_all add: stl_rand_next_def MUL_eq ADDEQU_def Let_def)
  have split: "unat (x + y) = unat (LOW (x + y)) + 2 ^ 16 * unat (CARRY x y)"
    if "unat x < 2 ^ 16" "unat y < 2 ^ 16" for x y
    using that by (simp add: unat_add_small CARRY_eq)
  have lh: "unat x = unat (LOW x) + 2 ^ 16 * unat (HIGH x)" for x
    unfolding unat_LOW unat_HIGH by (rule mod_mult_div_eq [symmetric])
  note e = lh [of "A0 * rand_x0 s", unfolded m] lh [of "A0 * rand_x1 s", unfolded m] lh [of "A1 * rand_x0 s", unfolded m]
  have f1: "unat ?p0 + 0xB = unat (rand_x0 (stl_rand_next s)) + 2 ^ 16 * unat ?c0"
    using split [of ?p0 rand_C] unat_add_small [of ?p0 rand_C] by (simp add: C n)
  have f2: "unat ?p1 + unat ?c0 = unat ?t + 2 ^ 16 * unat ?c1"
    using split [OF p1 c0] unat_add_small [OF p1 c0] by linarith
  have l: "unat (LOW x) < 2 ^ 16" for x by simp
  have f3: "unat ?t + unat ?q0 = unat ?u + 2 ^ 16 * unat ?d0"
    using split [OF l l, of "?p1 + ?c0" "A0 * rand_x1 s"] unat_add_small [OF l l, of "?p1 + ?c0" "A0 * rand_x1 s"] by linarith
  have f4: "unat ?u + unat ?r0 = unat (rand_x1 (stl_rand_next s)) + 2 ^ 16 * unat ?d1"
    unfolding n using split [OF l l, of "?t + ?q0" "A1 * rand_x0 s"] unat_add_small [OF l l, of "?t + ?q0" "A1 * rand_x0 s"]
    by linarith
  have f5: "unat (rand_x2 (stl_rand_next s)) = (unat ?d0 + unat ?c1 + unat ?d1 + unat ?q1 + unat ?r1 + 0xE66D * X2 +
      0xDEEC * X1 + 5 * X0) mod 2 ^ 16"
    unfolding n unat_LOW
    by (simp add: unat_word_ariths A0_def A1_def A2_def X0_def X1_def X2_def mod_simps mod_mod_cancel)
  show ?thesis
    by (intro exI conjI, rule e(1), rule e(2), rule e(3), rule f1, rule f2, rule f3, rule f4, rule f5)
qed

lemma rand_next_ok: "rand_ok (stl_rand_next s)"
  by (simp add: rand_ok_def stl_rand_next_def Let_def split: prod.splits)

lemma rand_next_state:
  assumes "rand_ok s"
  shows "rand_state (stl_rand_next s) = (0x5DEECE66D * rand_state s + 0xB) mod 2 ^ 48"
proof -
  define X0 X1 X2 where X: "X0 = unat (rand_x0 s)" "X1 = unat (rand_x1 s)" "X2 = unat (rand_x2 s)"
  define Y0 Y1 Y2 where Y: "Y0 = unat (rand_x0 (stl_rand_next s))" "Y1 = unat (rand_x1 (stl_rand_next s))"
    "Y2 = unat (rand_x2 (stl_rand_next s))"
  obtain p0 p1 q0 q1 r0 r1 c0 c1 d0 d1 t u where e: "0xE66D * X0 = p0 + 2 ^ 16 * p1" "0xE66D * X1 = q0 + 2 ^ 16 * q1"
    "0xDEEC * X0 = r0 + 2 ^ 16 * r1" "p0 + 0xB = Y0 + 2 ^ 16 * c0" "p1 + c0 = t + 2 ^ 16 * c1" "t + q0 = u + 2 ^ 16 * d0"
    "u + r0 = Y1 + 2 ^ 16 * d1" and y2: "Y2 = (d0 + c1 + d1 + q1 + r1 + 0xE66D * X2 + 0xDEEC * X1 + 5 * X0) mod 2 ^ 16"
    using rand_next_limbs [OF assms] unfolding X Y by metis
  define S where "S = d0 + c1 + d1 + q1 + r1 + 0xE66D * X2 + 0xDEEC * X1 + 5 * X0"
  have "0x5DEECE66D * (X0 + 2 ^ 16 * X1 + 2 ^ 32 * X2) + 0xB =
      Y0 + 2 ^ 16 * Y1 + 2 ^ 32 * S + 2 ^ 48 * (0xDEEC * X2 + 5 * X1 + 2 ^ 16 * 5 * X2)"
    using e unfolding S_def by simp
  moreover have "S = Y2 + 2 ^ 16 * (S div 2 ^ 16)"
    unfolding y2 S_def [symmetric] by (rule mod_mult_div_eq [symmetric])
  ultimately have m: "0x5DEECE66D * (X0 + 2 ^ 16 * X1 + 2 ^ 32 * X2) + 0xB =
      Y0 + 2 ^ 16 * Y1 + 2 ^ 32 * Y2 + 2 ^ 48 * (0xDEEC * X2 + 5 * X1 + 2 ^ 16 * 5 * X2 + S div 2 ^ 16)"
    by (simp add: algebra_simps)
  have "Y0 < 2 ^ 16" "Y1 < 2 ^ 16" "Y2 < 2 ^ 16" using rand_next_ok [of s] by (simp_all add: rand_ok_def Y)
  then have "Y0 + 2 ^ 16 * Y1 + 2 ^ 32 * Y2 < 2 ^ 48" by simp
  then show ?thesis unfolding rand_state_def X [symmetric] Y [symmetric] m mod_mult_self2 by (rule mod_less [symmetric])
qed

lemma limbs_div:
  fixes x0 :: nat
  assumes "r < 2" "x0 < 2 ^ 16"
  shows "(x0 + 2 ^ 16 * (2 * k + r) + 2 ^ 32 * x2) div 2 ^ 17 = 2 ^ 15 * x2 + k"
proof -
  have "x0 + 2 ^ 16 * (2 * k + r) + 2 ^ 32 * x2 = (x0 + 2 ^ 16 * r) + 2 ^ 17 * (2 ^ 15 * x2 + k)" by simp
  moreover have "x0 + 2 ^ 16 * r < 2 ^ 17" using assms by simp
  ultimately show ?thesis by (simp only: div_mult_self2 div_less)
qed

lemma rand_value_ok:
  assumes "rand_ok s"
  shows "unat (rand_value s) = rand_state s div 2 ^ 17" "sint (rand_value s) = int (rand_state s div 2 ^ 17)"
    "rand_hash (rand_value s) = rand_value s"
proof -
  have lt: "unat (rand_x0 s) < 2 ^ 16" "unat (rand_x1 s) < 2 ^ 16" "unat (rand_x2 s) < 2 ^ 16"
    using assms by (simp_all add: rand_ok_def)
  have "unat (push_bit 15 (rand_x2 s)) = 2 ^ 15 * unat (rand_x2 s)"
    using lt by (simp add: push_bit_eq_mult unat_word_ariths)
  moreover have "unat (drop_bit 1 (rand_x1 s)) = unat (rand_x1 s) div 2" by (simp add: drop_bit_eq_div unat_div)
  ultimately have v: "unat (rand_value s) = 2 ^ 15 * unat (rand_x2 s) + unat (rand_x1 s) div 2"
    using lt by (simp add: rand_value_def unat_word_ariths)
  also have "\<dots> = rand_state s div 2 ^ 17"
    using limbs_div [of "unat (rand_x1 s) mod 2" "unat (rand_x0 s)" "unat (rand_x1 s) div 2" "unat (rand_x2 s)"] lt
    by (simp add: rand_state_def)
  finally show u: "unat (rand_value s) = rand_state s div 2 ^ 17" .
  have "unat (rand_value s) < 2 ^ 31" using lt v by simp
  then have "uint (rand_value s) < 2 ^ 31" using of_nat_less_iff [of "unat (rand_value s)" "2 ^ 31", where 'a = int] by simp
  moreover have "- (2 ^ 31) \<le> uint (rand_value s)" by (rule order_trans [OF _ uint_ge_0]) simp
  ultimately have "sint (rand_value s) = uint (rand_value s)" by (simp add: sint_uint signed_take_bit_int_eq_self)
  then have "sint (rand_value s) = int (unat (rand_value s))" by simp
  then show "sint (rand_value s) = int (rand_state s div 2 ^ 17)" unfolding u .
  then show "rand_hash (rand_value s) = rand_value s" by (simp add: rand_hash_def)
qed

text \<open>C34: The generator is the linear congruence of \<open>drand48\<close>, computed on limbs: the state of 48 bits goes to
  \<open>0x5DEECE66D\<close> times itself plus \<open>0xB\<close>, and the value drawn is its upper 31 bits.\<close>

theorem rand_next_congruence:
  assumes "rand_ok s"
  shows "rand_ok (stl_rand_next s) \<and> rand_state (stl_rand_next s) = (0x5DEECE66D * rand_state s + 0xB) mod 2 ^ 48 \<and>
    stl_rand_int32 s = (int (rand_state (stl_rand_next s) div 2 ^ 17), stl_rand_next s)"
  using rand_next_ok [of s] rand_next_state [OF assms] rand_value_ok [OF rand_next_ok]
  by (simp add: stl_rand_int32_def Let_def)

theorem rand_next_congruence_witness:
  "rand_state (stl_rand_next rand_seed) = (0x5DEECE66D * 0x1234ABCD330E + 0xB) mod 2 ^ 48"
proof -
  have "rand_ok rand_seed" "rand_state rand_seed = 0x1234ABCD330E"
    by (simp_all add: rand_ok_def rand_state_def rand_seed_def)
  then show ?thesis using rand_next_congruence [of rand_seed] by (simp only:)
qed

section \<open>The strings drawn\<close>

lemma rand_char_less: "i < length stl_rand_chars \<Longrightarrow> rand_char i = Some (stl_rand_chars ! i)"
  by (simp add: rand_char_def nth_append)

lemma chars_length [simp]: "length stl_rand_chars = 62"
  by (simp add: stl_rand_chars_def)

text \<open>A loop that writes one character per index, whatever the characters are.\<close>

lemma rand_fill_ok:
  assumes "0 < n" "n \<le> 62" "distinct is" "\<forall>i\<in>set is. i < length buf"
  shows "\<exists>buf' s'. rand_fill is n buf s = Some (buf', s') \<and> length buf' = length buf \<and>
    (\<forall>i\<in>set is. buf' ! i \<in> set (take n stl_rand_chars)) \<and> (\<forall>i. i \<notin> set is \<longrightarrow> buf' ! i = buf ! i)"
  using assms(3,4)
proof (induction "is" arbitrary: buf s)
  case (Cons i "is")
  let ?s = "stl_rand_next s"
  define ch where "ch = stl_rand_chars ! (unat (rand_hash (rand_value ?s)) mod n)"
  have "unat (rand_hash (rand_value ?s)) mod n < n" using assms(1) by simp
  then have r: "rand_char (unat (rand_hash (rand_value ?s)) mod n) = Some ch" and m: "ch \<in> set (take n stl_rand_chars)"
    using assms(2) by (auto simp: rand_char_less ch_def in_set_conv_nth)
  obtain buf' s' where b: "rand_fill is n (buf[i := ch]) ?s = Some (buf', s')" "length buf' = length buf"
    "\<forall>j\<in>set is. buf' ! j \<in> set (take n stl_rand_chars)" "\<forall>j. j \<notin> set is \<longrightarrow> buf' ! j = buf[i := ch] ! j"
    using Cons.IH [of "buf[i := ch]" ?s] Cons.prems by auto
  show ?case using Cons.prems r m b by (auto simp: Let_def mem_write_ok nth_list_update)
qed simp

text \<open>A random string of \<open>n\<close> characters has a NUL behind it, and draws only from the first \<open>n\<close> characters of the
  alphabet, so that a short one has digits only; the buffer must hold \<open>n + 1\<close> characters.\<close>

theorem rand_string_alphabet:
  assumes "0 < n" "n \<le> 62" "n < length buf"
  shows "\<exists>buf' s'. stl_rand_string (Some buf) n s = Some (0, Some buf', s') \<and> length buf' = length buf \<and>
    (\<forall>i<n. buf' ! i \<in> set (take n stl_rand_chars)) \<and> buf' ! n = CHR 0x00"
proof -
  obtain buf' s' where b: "rand_fill [0..<n] n buf s = Some (buf', s')" "length buf' = length buf"
    "\<forall>i<n. buf' ! i \<in> set (take n stl_rand_chars)"
    using rand_fill_ok [of n "[0..<n]" buf s] assms by auto
  then show ?thesis using assms by (simp add: stl_rand_string_def mem_write_ok)
qed

theorem rand_string_alphabet_witness:
  "\<exists>buf' s'. stl_rand_string (Some (replicate 5 CHR ''?'')) 4 rand_seed = Some (0, Some buf', s') \<and>
    (\<forall>i<4. buf' ! i \<in> set ''0123'')"
proof -
  have "take 4 stl_rand_chars = ''0123''" by (simp add: stl_rand_chars_def)
  then show ?thesis using rand_string_alphabet [of 4 "replicate 5 CHR ''?''" rand_seed] by fastforce
qed

definition uuid_dash :: "nat \<Rightarrow> bool" where
  "uuid_dash i \<longleftrightarrow> i = 8 \<or> i = 13 \<or> i = 18 \<or> i = 23"

definition lower_chars :: string where
  "lower_chars = ''0123456789abcdefghijklmnopqrstuvwxyz''"

lemma uuid_char_lower: "ch \<in> set stl_rand_chars \<Longrightarrow> uuid_char ch \<in> set lower_chars"
proof -
  have "list_all (\<lambda>ch. uuid_char ch \<in> set lower_chars) stl_rand_chars" by code_simp
  then show "ch \<in> set stl_rand_chars \<Longrightarrow> uuid_char ch \<in> set lower_chars" by (simp add: list_all_iff)
qed

lemma uuid_fill_ok:
  assumes "distinct is" "\<forall>i\<in>set is. i < length buf"
  shows "\<exists>buf' s'. uuid_fill is buf s = Some (buf', s') \<and> length buf' = length buf \<and>
    (\<forall>i\<in>set is. if uuid_dash i then buf' ! i = CHR ''-'' else buf' ! i \<in> set lower_chars) \<and>
    (\<forall>i. i \<notin> set is \<longrightarrow> buf' ! i = buf ! i)"
  using assms
proof (induction "is" arbitrary: buf s)
  case (Cons i "is")
  define t where "t = (if uuid_dash i then s else stl_rand_next s)"
  define ch where "ch = (if uuid_dash i then CHR ''-'' else
    uuid_char (stl_rand_chars ! (unat (rand_hash (rand_value (stl_rand_next s))) mod 62)))"
  have step: "uuid_fill (i # is) buf s = uuid_fill is (buf[i := ch]) t"
    using Cons.prems by (simp add: ch_def t_def uuid_dash_def mem_write_ok rand_char_less Let_def)
  have m: "if uuid_dash i then ch = CHR ''-'' else ch \<in> set lower_chars"
    by (simp add: ch_def uuid_char_lower)
  obtain buf' s' where b: "uuid_fill is (buf[i := ch]) t = Some (buf', s')" "length buf' = length buf"
    "\<forall>j\<in>set is. if uuid_dash j then buf' ! j = CHR ''-'' else buf' ! j \<in> set lower_chars"
    "\<forall>j. j \<notin> set is \<longrightarrow> buf' ! j = buf[i := ch] ! j"
    using Cons.IH [of "buf[i := ch]" t] Cons.prems by auto
  show ?case unfolding step using Cons.prems m b by (auto simp: nth_list_update)
qed simp

lemma uuid_fill_length: "uuid_fill is buf s = Some (buf', s') \<Longrightarrow> length buf' = length buf"
  by (induction "is" arbitrary: buf s)
    (auto simp: Let_def mem_write_Some elim!: bind_SomeE split: if_split_asm)

text \<open>C35: What \<open>stl_gen_uuid\<close> writes, if it is told a size of at least 37, is no UUID. It writes 38 characters, also
  into a buffer of the 37 it asks for, which it overruns. In a larger buffer the result is a string of 37
  characters in groups of 8, 4, 4, 4 and 13 with dashes between them (a UUID has 36, and 12 in the last group), drawn
  from all digits and small letters (a UUID is hexadecimal), and a NUL behind them.\<close>

theorem uuid_shape:
  assumes "37 \<le> n"
  shows "if length buf < 38 then stl_gen_uuid (Some buf) n s = None
    else \<exists>buf' s'. stl_gen_uuid (Some buf) n s = Some (Some 0, Some buf', s') \<and> length buf' = length buf \<and>
      (\<forall>i<37. if uuid_dash i then buf' ! i = CHR ''-'' else buf' ! i \<in> set lower_chars) \<and> buf' ! 37 = CHR 0x00"
proof (cases "length buf < 38")
  case True
  then show ?thesis using assms uuid_fill_length [of "[0..<37]" buf s]
    by (auto simp: stl_gen_uuid_def UUID_MIN_LEN_def mem_write_def split: Option.bind_splits prod.splits)
next
  case False
  obtain buf' s' where "uuid_fill [0..<37] buf s = Some (buf', s')" "length buf' = length buf"
    "\<forall>i<37. if uuid_dash i then buf' ! i = CHR ''-'' else buf' ! i \<in> set lower_chars"
    using uuid_fill_ok [of "[0..<37]" buf s] False by auto
  then show ?thesis using assms False by (simp add: stl_gen_uuid_def UUID_MIN_LEN_def mem_write_ok)
qed

theorem uuid_shape_witness: "stl_gen_uuid (Some (replicate 37 CHR ''?'')) 37 rand_seed = None"
  using uuid_shape [of 37 "replicate 37 CHR ''?''" rand_seed] by simp

end
