(* ===== verification/Slab.thy ===== *)
theory Slab
  imports C_Prelude
begin

text \<open>
  The slab allocator (\<open>module/stl/src/stl_slab.c\<close>): a pool of pages, given out as runs of pages or cut into
  chunks of one size, a power of two. Free runs and the pages with a free chunk of each size are kept
  in circular lists through the page structs.

  A pointer to a page struct is a \<open>page_ref\<close>: to the head of the free list, to the head of a slot list, or to
  a struct of the array \<open>pages\<close>. The field \<open>prev\<close> is a pointer with the type of the page in its lower two
  bits: a pair. The words behind \<open>start\<close> are a map from addresses; those before it are the slots, the
  statistics and the array of pages, which are lists here. The four globals that \<open>stl_slab_sizes_init\<close>
  computes and the two that it counts up are the record \<open>slab_sizes\<close>.
\<close>

unbundle bit_operations_syntax

section \<open>The pool\<close>

datatype page_ref = Pg_Null | Pg_Free | Pg_Slot nat | Pg_Page nat

record stl_slab_page =
  sp_slab :: u64
  sp_next :: page_ref
  sp_prev :: "page_ref \<times> u64"

record stl_slab_stat =
  st_total :: u64
  st_used :: u64
  st_reqs :: u64
  st_fails :: u64

record slab_sizes =
  stl_pagesize :: u64
  stl_pagesize_shift :: u64
  stl_slab_max_size :: u64
  stl_slab_exact_size :: u64
  stl_slab_exact_shift :: u64

record stl_slab =
  sl_min_size :: u64
  sl_min_shift :: u64
  sl_pages :: "stl_slab_page list"
  sl_last :: nat
  sl_free :: stl_slab_page
  sl_slots :: "stl_slab_page list"
  sl_stats :: "stl_slab_stat list"
  sl_pfree :: u64
  sl_start :: u64
  sl_end :: u64
  sl_addr :: u64
  sl_words :: "u64 \<Rightarrow> u64"

definition STL_SLAB_PAGE :: u64 where "STL_SLAB_PAGE = 0"
definition STL_SLAB_BIG :: u64 where "STL_SLAB_BIG = 1"
definition STL_SLAB_EXACT :: u64 where "STL_SLAB_EXACT = 2"
definition STL_SLAB_SMALL :: u64 where "STL_SLAB_SMALL = 3"
definition STL_SLAB_PAGE_FREE :: u64 where "STL_SLAB_PAGE_FREE = 0"
definition STL_SLAB_PAGE_BUSY :: u64 where "STL_SLAB_PAGE_BUSY = 0xffffffffffffffff"
definition STL_SLAB_PAGE_START :: u64 where "STL_SLAB_PAGE_START = 0x8000000000000000"
definition STL_SLAB_SHIFT_MASK :: u64 where "STL_SLAB_SHIFT_MASK = 0xf"
definition STL_SLAB_MAP_MASK :: u64 where "STL_SLAB_MAP_MASK = 0xffffffff00000000"
definition STL_SLAB_MAP_SHIFT :: u64 where "STL_SLAB_MAP_SHIFT = 32"
definition STL_SLAB_BUSY :: u64 where "STL_SLAB_BUSY = 0xffffffffffffffff"

definition sizeof_page :: u64 where "sizeof_page = 24"
definition sizeof_stat :: u64 where "sizeof_stat = 32"

text \<open>C's shifts; a shift by the width or more is undefined in C and is not reached with a sensible page size.\<close>

definition shl :: "u64 \<Rightarrow> u64 \<Rightarrow> u64" where "shl x n = push_bit (unat n) x"
definition shr :: "u64 \<Rightarrow> u64 \<Rightarrow> u64" where "shr x n = drop_bit (unat n) x"

definition zero_page :: stl_slab_page where
  "zero_page = \<lparr>sp_slab = 0, sp_next = Pg_Null, sp_prev = (Pg_Null, 0)\<rparr>"

definition page_at :: "stl_slab \<Rightarrow> page_ref \<Rightarrow> stl_slab_page option" where
  "page_at t r = (case r of
       Pg_Null \<Rightarrow> None
     | Pg_Free \<Rightarrow> Some (sl_free t)
     | Pg_Slot i \<Rightarrow> mem_read (sl_slots t) (int i)
     | Pg_Page i \<Rightarrow> mem_read (sl_pages t) (int i))"

definition page_upd :: "page_ref \<Rightarrow> (stl_slab_page \<Rightarrow> stl_slab_page) \<Rightarrow> stl_slab \<Rightarrow> stl_slab option" where
  "page_upd r f t = (case r of
       Pg_Null \<Rightarrow> None
     | Pg_Free \<Rightarrow> Some (t\<lparr>sl_free := f (sl_free t)\<rparr>)
     | Pg_Slot i \<Rightarrow> do {
         p \<leftarrow> mem_read (sl_slots t) (int i);
         xs \<leftarrow> mem_write (sl_slots t) (int i) (f p);
         Some (t\<lparr>sl_slots := xs\<rparr>) }
     | Pg_Page i \<Rightarrow> do {
         p \<leftarrow> mem_read (sl_pages t) (int i);
         xs \<leftarrow> mem_write (sl_pages t) (int i) (f p);
         Some (t\<lparr>sl_pages := xs\<rparr>) })"

definition stl_slab_pageype :: "stl_slab_page \<Rightarrow> u64" where
  "stl_slab_pageype p = snd (sp_prev p)"

definition stl_slab_page_prev :: "stl_slab_page \<Rightarrow> page_ref" where
  "stl_slab_page_prev p = fst (sp_prev p)"

text \<open>The whole field as a pointer, which is misaligned unless its type bits are 0.\<close>

definition raw_prev :: "stl_slab_page \<Rightarrow> page_ref option" where
  "raw_prev p = (if snd (sp_prev p) = 0 then Some (fst (sp_prev p)) else None)"

definition stl_slab_page_addr :: "slab_sizes \<Rightarrow> stl_slab \<Rightarrow> nat \<Rightarrow> u64" where
  "stl_slab_page_addr g t i = shl (of_nat i) (stl_pagesize_shift g) + sl_start t"

definition rd_word :: "stl_slab \<Rightarrow> u64 \<Rightarrow> u64 option" where
  "rd_word t a = (if a AND 7 = 0 \<and> sl_start t \<le> a \<and> a < sl_end t \<and> 8 \<le> sl_end t - a then Some (sl_words t a) else None)"

definition wr_word :: "u64 \<Rightarrow> u64 \<Rightarrow> stl_slab \<Rightarrow> stl_slab option" where
  "wr_word a w t = do { rd_word t a; Some (t\<lparr>sl_words := (sl_words t)(a := w)\<rparr>) }"

text \<open>\<open>memset\<close> of \<open>n\<close> bytes, a multiple of 8, to 0.\<close>

definition zero_words :: "u64 \<Rightarrow> u64 \<Rightarrow> stl_slab \<Rightarrow> stl_slab option" where
  "zero_words a n t = (if n = 0 then Some t
     else if sl_start t \<le> a \<and> a < sl_end t \<and> n \<le> sl_end t - a
     then Some (t\<lparr>sl_words := (\<lambda>b. if a \<le> b \<and> b - a < n then 0 else sl_words t b)\<rparr>)
     else None)"

definition stat_upd :: "u64 \<Rightarrow> (stl_slab_stat \<Rightarrow> stl_slab_stat) \<Rightarrow> stl_slab \<Rightarrow> stl_slab option" where
  "stat_upd slot f t = do {
     s \<leftarrow> mem_read (sl_stats t) (uint slot);
     xs \<leftarrow> mem_write (sl_stats t) (uint slot) (f s);
     Some (t\<lparr>sl_stats := xs\<rparr>) }"

definition inc_used :: "stl_slab_stat \<Rightarrow> stl_slab_stat" where
  "inc_used s = s\<lparr>st_used := st_used s + 1\<rparr>"

section \<open>Initialisation\<close>

function count_shift :: "u64 \<Rightarrow> u64 \<Rightarrow> u64" where
  "count_shift n shift = (let n = drop_bit 1 n in if n \<noteq> 0 then count_shift n (shift + 1) else shift)"
  by auto
termination
proof (relation "measure (\<lambda>(n, _). unat n)", simp)
  fix n shift m :: u64
  assume m: "m = drop_bit 1 n" "m \<noteq> 0"
  then have "unat m = unat n div 2" by (simp add: drop_bit_eq_div unat_div)
  moreover have "unat m \<noteq> 0" using m(2) by (simp only: unat_eq_zero) simp
  ultimately have "unat m < unat n" by linarith
  then show "((m, shift + 1), n, shift) \<in> measure (\<lambda>(n, _). unat n)" by simp
qed

declare count_shift.simps [simp del]

text \<open>\<open>pagesize\<close> is the answer of \<open>getpagesize\<close>, \<open>addr\<close> that of \<open>malloc\<close>. The two shifts are counted up from their
  old values.\<close>

definition stl_slab_sizes_init :: "u64 \<Rightarrow> u64 \<Rightarrow> slab_sizes \<Rightarrow> stl_slab option \<Rightarrow> u64 \<Rightarrow>
    int \<times> slab_sizes \<times> stl_slab option" where
  "stl_slab_sizes_init pagesize addr g pool pool_size = (case pool of None \<Rightarrow> (-1, g, None)
     | Some t \<Rightarrow>
         if 0 < pool_size then
           let t = t\<lparr>sl_end := addr + pool_size, sl_min_shift := 3, sl_addr := addr\<rparr>;
               exact = pagesize div (8 * 8)
           in (0, \<lparr>stl_pagesize = pagesize, stl_pagesize_shift = count_shift pagesize (stl_pagesize_shift g),
                stl_slab_max_size = pagesize div 2, stl_slab_exact_size = exact,
                stl_slab_exact_shift = count_shift exact (stl_slab_exact_shift g)\<rparr>, Some t)
         else (-1, g, Some t))"

definition stl_align_ptr :: "u64 \<Rightarrow> u64 \<Rightarrow> u64" where
  "stl_align_ptr p a = (p + (a - 1)) AND NOT (a - 1)"

text \<open>The slots, the statistics and the structs of the pages, at least one, must fit into the pool; a NULL
  address is written to.\<close>

definition stl_slab_init :: "u64 \<Rightarrow> u64 \<Rightarrow> slab_sizes \<Rightarrow> stl_slab option \<Rightarrow> u64 \<Rightarrow>
    (int \<times> slab_sizes \<times> stl_slab option) option" where
  "stl_slab_init pagesize addr g pool pool_size = (
     let (r, g, pool) = stl_slab_sizes_init pagesize addr g pool pool_size in
     case pool of None \<Rightarrow> Some (-1, g, None)
     | Some t \<Rightarrow>
         if r \<noteq> 0 then Some (-1, g, Some t)
         else do {
           c_assert (addr \<noteq> 0);
           let t = t\<lparr>sl_min_size := shl 1 (sl_min_shift t)\<rparr>;
           let p = sl_addr t;
           let size = sl_end t - sl_addr t;
           let n = stl_pagesize_shift g - sl_min_shift t;
           c_assert (uint n * (uint sizeof_page + uint sizeof_stat) + uint sizeof_page \<le> uint size);
           let p = p + n * sizeof_page + n * sizeof_stat;
           let size = size - n * (sizeof_page + sizeof_stat);
           let pages = size div (stl_pagesize g + sizeof_page);
           let t = t\<lparr>
             sl_slots := map (\<lambda>i. \<lparr>sp_slab = 0, sp_next = Pg_Slot i, sp_prev = (Pg_Null, 0)\<rparr>) [0..<unat n],
             sl_stats := replicate (unat n) \<lparr>st_total = 0, st_used = 0, st_reqs = 0, st_fails = 0\<rparr>,
             sl_pages := replicate (max 1 (unat pages)) zero_page,
             sl_free := \<lparr>sp_slab = 0, sp_next = Pg_Page 0, sp_prev = (Pg_Null, 0)\<rparr>,
             sl_start := stl_align_ptr (p + pages * sizeof_page) (stl_pagesize g),
             sl_words := (\<lambda>_. 0xA5A5A5A5A5A5A5A5)\<rparr>;
           t \<leftarrow> page_upd (Pg_Page 0) (\<lambda>q. q\<lparr>sp_slab := pages, sp_next := Pg_Free, sp_prev := (Pg_Free, 0)\<rparr>) t;
           let m = pages - (sl_end t - sl_start t) div stl_pagesize g;
           let pages = (if 0 < sint m then pages - m else pages);
           t \<leftarrow> page_upd (Pg_Page 0) (\<lambda>q. q\<lparr>sp_slab := pages\<rparr>) t;
           Some (0, g, Some (t\<lparr>sl_last := unat pages, sl_pfree := pages\<rparr>)) })"

section \<open>Pages\<close>

text \<open>Taking the page \<open>r\<close> out of its list; \<open>p\<close> is the page before it.\<close>

definition slab_unlink :: "page_ref \<Rightarrow> page_ref \<Rightarrow> stl_slab \<Rightarrow> stl_slab option" where
  "slab_unlink p r t = do {
     q \<leftarrow> page_at t r;
     t \<leftarrow> page_upd p (\<lambda>x. x\<lparr>sp_next := sp_next q\<rparr>) t;
     q \<leftarrow> page_at t r;
     page_upd (sp_next q) (\<lambda>x. x\<lparr>sp_prev := sp_prev q\<rparr>) t }"

text \<open>The first run of the free list with enough pages; \<open>Pg_Null\<close> when there is none.\<close>

partial_function (option) find_run :: "stl_slab \<Rightarrow> u64 \<Rightarrow> page_ref \<Rightarrow> page_ref option" where
  "find_run t pages page = (if page = Pg_Free then Some Pg_Null
     else do {
       q \<leftarrow> page_at t page;
       if pages \<le> sp_slab q then Some page else find_run t pages (sp_next q) })"

declare find_run.simps [code]

definition busy_page :: stl_slab_page where
  "busy_page = \<lparr>sp_slab = STL_SLAB_PAGE_BUSY, sp_next = Pg_Null, sp_prev = (Pg_Null, STL_SLAB_PAGE)\<rparr>"

definition run_page :: "u64 \<Rightarrow> stl_slab_page" where
  "run_page pages = \<lparr>sp_slab = pages OR STL_SLAB_PAGE_START, sp_next = Pg_Null, sp_prev = (Pg_Null, STL_SLAB_PAGE)\<rparr>"

definition free_page :: stl_slab_page where
  "free_page = \<lparr>sp_slab = STL_SLAB_PAGE_FREE, sp_next = Pg_Null, sp_prev = (Pg_Null, STL_SLAB_PAGE)\<rparr>"

definition split_run :: "nat \<Rightarrow> u64 \<Rightarrow> stl_slab \<Rightarrow> stl_slab option" where
  "split_run i pages t = do {
     q \<leftarrow> page_at t (Pg_Page i);
     let j = i + unat pages;
     t \<leftarrow> page_upd (Pg_Page (i + unat (sp_slab q) - 1)) (\<lambda>x. x\<lparr>sp_prev := (Pg_Page j, 0)\<rparr>) t;
     q \<leftarrow> page_at t (Pg_Page i);
     t \<leftarrow> page_upd (Pg_Page j) (\<lambda>x. x\<lparr>sp_slab := sp_slab q - pages, sp_next := sp_next q, sp_prev := sp_prev q\<rparr>) t;
     q \<leftarrow> page_at t (Pg_Page i);
     p \<leftarrow> raw_prev q;
     t \<leftarrow> page_upd p (\<lambda>x. x\<lparr>sp_next := Pg_Page j\<rparr>) t;
     q \<leftarrow> page_at t (Pg_Page i);
     page_upd (sp_next q) (\<lambda>x. x\<lparr>sp_prev := (Pg_Page j, 0)\<rparr>) t }"

definition take_run :: "nat \<Rightarrow> u64 \<Rightarrow> stl_slab \<Rightarrow> stl_slab option" where
  "take_run i pages t = do {
     q \<leftarrow> page_at t (Pg_Page i);
     t \<leftarrow> (if pages < sp_slab q then split_run i pages t
       else do { p \<leftarrow> raw_prev q; slab_unlink p (Pg_Page i) t });
     t \<leftarrow> page_upd (Pg_Page i) (\<lambda>_. run_page pages) t;
     let t = t\<lparr>sl_pfree := sl_pfree t - pages\<rparr>;
     for_each (\<lambda>k. page_upd (Pg_Page (i + k)) (\<lambda>_. busy_page)) [1..<Suc (unat (pages - 1))] t }"

text \<open>The index of the first page of the run, \<open>None\<close> for NULL.\<close>

definition stl_slab_alloc_pages :: "stl_slab \<Rightarrow> u64 \<Rightarrow> (nat option \<times> stl_slab) option" where
  "stl_slab_alloc_pages t pages = do {
     page \<leftarrow> find_run t pages (sp_next (sl_free t));
     (case page of
        Pg_Null \<Rightarrow> Some (None, t)
      | Pg_Page i \<Rightarrow> do { t \<leftarrow> take_run i pages t; Some (Some i, t) }
      | _ \<Rightarrow> None) }"

text \<open>Joining a freed run with a free run behind it, and then with one before it. The second component counts the
  pages of the whole run but one, the third is its first page.\<close>

definition join_behind :: "page_ref \<Rightarrow> nat \<Rightarrow> u64 \<Rightarrow> stl_slab \<Rightarrow> (u64 \<times> stl_slab) option" where
  "join_behind page join pages t = (
     if join < sl_last t then do {
       q \<leftarrow> page_at t (Pg_Page join);
       if stl_slab_pageype q = STL_SLAB_PAGE \<and> sp_next q \<noteq> Pg_Null then do {
         t \<leftarrow> page_upd page (\<lambda>x. x\<lparr>sp_slab := sp_slab x + sp_slab q\<rparr>) t;
         t \<leftarrow> slab_unlink (stl_slab_page_prev q) (Pg_Page join) t;
         t \<leftarrow> page_upd (Pg_Page join) (\<lambda>_. free_page) t;
         Some (pages + sp_slab q, t) }
       else Some (pages, t) }
     else Some (pages, t))"

definition join_head :: "nat \<Rightarrow> stl_slab_page \<Rightarrow> page_ref" where
  "join_head i q = (if sp_slab q = STL_SLAB_PAGE_FREE then stl_slab_page_prev q else Pg_Page (i - 1))"

definition join_before :: "nat \<Rightarrow> u64 \<Rightarrow> stl_slab \<Rightarrow> (u64 \<times> page_ref \<times> stl_slab) option" where
  "join_before i pages t = (
     if 0 < i then do {
       q \<leftarrow> page_at t (Pg_Page (i - 1));
       if stl_slab_pageype q = STL_SLAB_PAGE then do {
         let join = join_head i q;
         q \<leftarrow> page_at t join;
         if sp_next q \<noteq> Pg_Null then do {
           r \<leftarrow> page_at t (Pg_Page i);
           t \<leftarrow> page_upd join (\<lambda>x. x\<lparr>sp_slab := sp_slab x + sp_slab r\<rparr>) t;
           t \<leftarrow> slab_unlink (stl_slab_page_prev q) join t;
           t \<leftarrow> page_upd (Pg_Page i) (\<lambda>_. free_page) t;
           Some (pages + sp_slab q, join, t) }
         else Some (pages, Pg_Page i, t) }
       else Some (pages, Pg_Page i, t) }
     else Some (pages, Pg_Page i, t))"

text \<open>The run goes to the head of the free list, and its last page points back to the first.\<close>

definition list_run :: "page_ref \<Rightarrow> u64 \<Rightarrow> stl_slab \<Rightarrow> stl_slab option" where
  "list_run page pages t = do {
     t \<leftarrow> (if pages \<noteq> 0 then
         (case page of Pg_Page j \<Rightarrow> page_upd (Pg_Page (j + unat pages)) (\<lambda>x. x\<lparr>sp_prev := (page, 0)\<rparr>) t | _ \<Rightarrow> None)
       else Some t);
     t \<leftarrow> page_upd page (\<lambda>x. x\<lparr>sp_prev := (Pg_Free, 0), sp_next := sp_next (sl_free t)\<rparr>) t;
     q \<leftarrow> page_at t page;
     t \<leftarrow> page_upd (sp_next q) (\<lambda>x. x\<lparr>sp_prev := (page, 0)\<rparr>) t;
     page_upd Pg_Free (\<lambda>x. x\<lparr>sp_next := page\<rparr>) t }"

definition stl_slab_free_pages :: "nat \<Rightarrow> u64 \<Rightarrow> stl_slab \<Rightarrow> stl_slab option" where
  "stl_slab_free_pages i pages t = do {
     let t = t\<lparr>sl_pfree := sl_pfree t + pages\<rparr>;
     t \<leftarrow> page_upd (Pg_Page i) (\<lambda>x. x\<lparr>sp_slab := pages\<rparr>) t;
     let join = i + unat pages;
     let pages = pages - 1;
     t \<leftarrow> for_each (\<lambda>k. page_upd (Pg_Page (i + k)) (\<lambda>_. zero_page)) [1..<Suc (unat pages)] t;
     q \<leftarrow> page_at t (Pg_Page i);
     t \<leftarrow> (if sp_next q \<noteq> Pg_Null then slab_unlink (stl_slab_page_prev q) (Pg_Page i) t else Some t);
     (pages, t) \<leftarrow> join_behind (Pg_Page i) join pages t;
     (pages, page, t) \<leftarrow> join_before i pages t;
     list_run page pages t }"

section \<open>Allocation\<close>

definition slab_slot :: "stl_slab \<Rightarrow> u64 \<Rightarrow> u64 \<times> u64" where
  "slab_slot t sz =
     (if sl_min_size t < sz then
        let shift = count_shift (sz - 1) 1 in (shift, shift - sl_min_shift t)
      else (sl_min_shift t, 0))"

text \<open>The first word of a bitmap that is not full, among those with the given indices.\<close>

fun first_word :: "stl_slab \<Rightarrow> u64 \<Rightarrow> nat list \<Rightarrow> nat option option" where
  "first_word t bitmap [] = Some None"
| "first_word t bitmap (n # ns) = do {
     w \<leftarrow> rd_word t (bitmap + 8 * of_nat n);
     if w \<noteq> STL_SLAB_BUSY then Some (Some n) else first_word t bitmap ns }"

definition free_bit :: "u64 \<Rightarrow> nat option" where
  "free_bit w = find (\<lambda>i. w AND push_bit i 1 = 0) [0..<64]"

text \<open>A page without a free chunk leaves the list of its slot.\<close>

definition page_full :: "nat \<Rightarrow> u64 \<Rightarrow> stl_slab \<Rightarrow> stl_slab option" where
  "page_full i type t = do {
     q \<leftarrow> page_at t (Pg_Page i);
     t \<leftarrow> slab_unlink (stl_slab_page_prev q) (Pg_Page i) t;
     page_upd (Pg_Page i) (\<lambda>x. x\<lparr>sp_next := Pg_Null, sp_prev := (Pg_Null, type)\<rparr>) t }"

text \<open>A chunk of the page \<open>i\<close> at the head of its list, by the size of the chunks; \<open>None\<close> inside when the page has no
  free one.\<close>

definition alloc_small :: "slab_sizes \<Rightarrow> nat \<Rightarrow> u64 \<Rightarrow> u64 \<Rightarrow> stl_slab \<Rightarrow> (u64 \<times> stl_slab) option option" where
  "alloc_small g i shift slot t = do {
     let bitmap = stl_slab_page_addr g t i;
     let map = unat (shr (stl_pagesize g) shift div 64);
     n \<leftarrow> first_word t bitmap [0..<map];
     (case n of None \<Rightarrow> Some None
      | Some n \<Rightarrow> do {
          w \<leftarrow> rd_word t (bitmap + 8 * of_nat n);
          k \<leftarrow> free_bit w;
          let w = w OR push_bit k 1;
          t \<leftarrow> wr_word (bitmap + 8 * of_nat n) w t;
          let p = bitmap + shl (of_nat (n * 64 + k)) shift;
          t \<leftarrow> stat_upd slot inc_used t;
          t \<leftarrow> (if w = STL_SLAB_BUSY then do {
              rest \<leftarrow> first_word t bitmap [n + 1..<map];
              if rest \<noteq> None then Some t else page_full i STL_SLAB_SMALL t }
            else Some t);
          Some (Some (p, t)) }) }"

definition alloc_exact :: "slab_sizes \<Rightarrow> nat \<Rightarrow> u64 \<Rightarrow> u64 \<Rightarrow> stl_slab \<Rightarrow> (u64 \<times> stl_slab) option option" where
  "alloc_exact g i shift slot t = do {
     q \<leftarrow> page_at t (Pg_Page i);
     (case free_bit (sp_slab q) of None \<Rightarrow> Some None
      | Some k \<Rightarrow> do {
          let w = sp_slab q OR push_bit k 1;
          t \<leftarrow> page_upd (Pg_Page i) (\<lambda>x. x\<lparr>sp_slab := w\<rparr>) t;
          t \<leftarrow> (if w = STL_SLAB_BUSY then page_full i STL_SLAB_EXACT t else Some t);
          t \<leftarrow> stat_upd slot inc_used t;
          Some (Some (stl_slab_page_addr g t i + shl (of_nat k) shift, t)) }) }"

definition big_mask :: "slab_sizes \<Rightarrow> u64 \<Rightarrow> u64" where
  "big_mask g shift = shl (shl 1 (shr (stl_pagesize g) shift) - 1) STL_SLAB_MAP_SHIFT"

definition big_bit :: "u64 \<Rightarrow> u64 \<Rightarrow> nat option" where
  "big_bit msk w = find (\<lambda>k. w AND push_bit (32 + k) 1 = 0) (takeWhile (\<lambda>k. push_bit (32 + k) 1 AND msk \<noteq> 0) [0..<32])"

definition alloc_big :: "slab_sizes \<Rightarrow> nat \<Rightarrow> u64 \<Rightarrow> u64 \<Rightarrow> stl_slab \<Rightarrow> (u64 \<times> stl_slab) option option" where
  "alloc_big g i shift slot t = do {
     let mask = big_mask g shift;
     q \<leftarrow> page_at t (Pg_Page i);
     (case big_bit mask (sp_slab q) of None \<Rightarrow> Some None
      | Some k \<Rightarrow> do {
          let w = sp_slab q OR push_bit (32 + k) 1;
          t \<leftarrow> page_upd (Pg_Page i) (\<lambda>x. x\<lparr>sp_slab := w\<rparr>) t;
          t \<leftarrow> (if w AND STL_SLAB_MAP_MASK = mask then page_full i STL_SLAB_BIG t else Some t);
          t \<leftarrow> stat_upd slot inc_used t;
          Some (Some (stl_slab_page_addr g t i + shl (of_nat k) shift, t)) }) }"

text \<open>A new page becomes the list of its slot.\<close>

definition page_start :: "nat \<Rightarrow> u64 \<Rightarrow> u64 \<Rightarrow> u64 \<Rightarrow> stl_slab \<Rightarrow> stl_slab option" where
  "page_start i w slot type t = do {
     t \<leftarrow> page_upd (Pg_Page i) (\<lambda>_. \<lparr>sp_slab = w, sp_next = Pg_Slot (unat slot), sp_prev = (Pg_Slot (unat slot), type)\<rparr>) t;
     page_upd (Pg_Slot (unat slot)) (\<lambda>x. x\<lparr>sp_next := Pg_Page i\<rparr>) t }"

definition add_total :: "u64 \<Rightarrow> stl_slab_stat \<Rightarrow> stl_slab_stat" where
  "add_total n s = s\<lparr>st_total := st_total s + n\<rparr>"

text \<open>The number of chunks that the bitmap of a page of small chunks takes itself.\<close>

definition bitmap_chunks :: "slab_sizes \<Rightarrow> u64 \<Rightarrow> u64" where
  "bitmap_chunks g shift = (let n = shr (stl_pagesize g) shift div (shl 1 shift * 8) in if n = 0 then 1 else n)"

definition new_small :: "slab_sizes \<Rightarrow> nat \<Rightarrow> u64 \<Rightarrow> u64 \<Rightarrow> stl_slab \<Rightarrow> (u64 \<times> stl_slab) option" where
  "new_small g i shift slot t = do {
     let bitmap = stl_slab_page_addr g t i;
     let n = bitmap_chunks g shift;
     let full = unat ((n + 1) div 64);
     t \<leftarrow> for_each (\<lambda>k. wr_word (bitmap + 8 * of_nat k) STL_SLAB_BUSY) [0..<full] t;
     t \<leftarrow> wr_word (bitmap + 8 * of_nat full) (shl 1 ((n + 1) mod 64) - 1) t;
     let map = unat (shr (stl_pagesize g) shift div 64);
     t \<leftarrow> for_each (\<lambda>k. wr_word (bitmap + 8 * of_nat k) 0) [full + 1..<map] t;
     t \<leftarrow> page_start i shift slot STL_SLAB_SMALL t;
     t \<leftarrow> stat_upd slot (add_total (shr (stl_pagesize g) shift - n)) t;
     t \<leftarrow> stat_upd slot inc_used t;
     Some (stl_slab_page_addr g t i + shl n shift, t) }"

definition new_exact :: "slab_sizes \<Rightarrow> nat \<Rightarrow> u64 \<Rightarrow> stl_slab \<Rightarrow> (u64 \<times> stl_slab) option" where
  "new_exact g i slot t = do {
     t \<leftarrow> page_start i 1 slot STL_SLAB_EXACT t;
     t \<leftarrow> stat_upd slot (add_total (8 * 8)) t;
     t \<leftarrow> stat_upd slot inc_used t;
     Some (stl_slab_page_addr g t i, t) }"

definition new_big :: "slab_sizes \<Rightarrow> nat \<Rightarrow> u64 \<Rightarrow> u64 \<Rightarrow> stl_slab \<Rightarrow> (u64 \<times> stl_slab) option" where
  "new_big g i shift slot t = do {
     t \<leftarrow> page_start i (shl 1 STL_SLAB_MAP_SHIFT OR shift) slot STL_SLAB_BIG t;
     t \<leftarrow> stat_upd slot (add_total (shr (stl_pagesize g) shift)) t;
     t \<leftarrow> stat_upd slot inc_used t;
     Some (stl_slab_page_addr g t i, t) }"

definition alloc_from_slot :: "slab_sizes \<Rightarrow> u64 \<Rightarrow> u64 \<Rightarrow> stl_slab \<Rightarrow> (u64 \<times> stl_slab) option option" where
  "alloc_from_slot g shift slot t = do {
     s \<leftarrow> page_at t (Pg_Slot (unat slot));
     let page = sp_next s;
     q \<leftarrow> page_at t page;
     if sp_next q \<noteq> page then
       (case page of
          Pg_Page i \<Rightarrow>
            if shift < stl_slab_exact_shift g then alloc_small g i shift slot t
            else if shift = stl_slab_exact_shift g then alloc_exact g i shift slot t
            else alloc_big g i shift slot t
        | _ \<Rightarrow> None)
     else Some None }"

text \<open>The address, 0 for NULL.\<close>

definition stl_slab_alloc :: "slab_sizes \<Rightarrow> stl_slab \<Rightarrow> u64 \<Rightarrow> (u64 \<times> stl_slab) option" where
  "stl_slab_alloc g t sz =
     (if stl_slab_max_size g < sz then do {
        (page, t) \<leftarrow> stl_slab_alloc_pages t
          (shr sz (stl_pagesize_shift g) + (if sz mod stl_pagesize g \<noteq> 0 then 1 else 0));
        Some (case page of None \<Rightarrow> (0, t) | Some i \<Rightarrow> (stl_slab_page_addr g t i, t)) }
      else do {
        let (shift, slot) = slab_slot t sz;
        t \<leftarrow> stat_upd slot (\<lambda>s. s\<lparr>st_reqs := st_reqs s + 1\<rparr>) t;
        r \<leftarrow> alloc_from_slot g shift slot t;
        (case r of Some (p, t) \<Rightarrow> Some (p, t)
         | None \<Rightarrow> do {
             (page, t) \<leftarrow> stl_slab_alloc_pages t 1;
             (case page of
                Some i \<Rightarrow>
                  if shift < stl_slab_exact_shift g then new_small g i shift slot t
                  else if shift = stl_slab_exact_shift g then new_exact g i slot t
                  else new_big g i shift slot t
              | None \<Rightarrow> do {
                  t \<leftarrow> stat_upd slot (\<lambda>s. s\<lparr>st_fails := st_fails s + 1\<rparr>) t;
                  Some (0, t) }) }) })"

section \<open>Release\<close>

text \<open>A page that was full comes back to the list of its slot.\<close>

definition page_relink :: "nat \<Rightarrow> u64 \<Rightarrow> u64 \<Rightarrow> stl_slab \<Rightarrow> stl_slab option" where
  "page_relink i slot type t = do {
     s \<leftarrow> page_at t (Pg_Slot (unat slot));
     t \<leftarrow> page_upd (Pg_Page i) (\<lambda>x. x\<lparr>sp_next := sp_next s\<rparr>) t;
     t \<leftarrow> page_upd (Pg_Slot (unat slot)) (\<lambda>x. x\<lparr>sp_next := Pg_Page i\<rparr>) t;
     t \<leftarrow> page_upd (Pg_Page i) (\<lambda>x. x\<lparr>sp_prev := (Pg_Slot (unat slot), type)\<rparr>) t;
     q \<leftarrow> page_at t (Pg_Page i);
     page_upd (sp_next q) (\<lambda>x. x\<lparr>sp_prev := (Pg_Page i, type)\<rparr>) t }"

definition free_done :: "u64 \<Rightarrow> u64 \<Rightarrow> u64 \<Rightarrow> stl_slab \<Rightarrow> stl_slab option" where
  "free_done slot p sz t = do {
     t \<leftarrow> stat_upd slot (\<lambda>s. s\<lparr>st_used := st_used s - 1\<rparr>) t;
     zero_words p sz t }"

definition sub_total :: "u64 \<Rightarrow> stl_slab_stat \<Rightarrow> stl_slab_stat" where
  "sub_total n s = s\<lparr>st_total := st_total s - n\<rparr>"

text \<open>Whether all words with the given indices are 0.\<close>

fun words_zero :: "stl_slab \<Rightarrow> u64 \<Rightarrow> nat list \<Rightarrow> bool option" where
  "words_zero t bitmap [] = Some True"
| "words_zero t bitmap (n # ns) = do {
     w \<leftarrow> rd_word t (bitmap + 8 * of_nat n);
     if w \<noteq> 0 then Some False else words_zero t bitmap ns }"

definition free_small :: "slab_sizes \<Rightarrow> nat \<Rightarrow> u64 \<Rightarrow> stl_slab \<Rightarrow> stl_slab option" where
  "free_small g i p t = do {
     q \<leftarrow> page_at t (Pg_Page i);
     let shift = sp_slab q AND STL_SLAB_SHIFT_MASK;
     let size = shl 1 shift;
     if p AND (size - 1) \<noteq> 0 then Some t
     else do {
       let n = shr (p AND (stl_pagesize g - 1)) shift;
       let m = shl 1 (n mod 64);
       let word = (p AND NOT (stl_pagesize g - 1)) + 8 * (n div 64);
       w \<leftarrow> rd_word t word;
       if w AND m \<noteq> 0 then do {
         let slot = shift - sl_min_shift t;
         t \<leftarrow> (if sp_next q = Pg_Null then page_relink i slot STL_SLAB_SMALL t else Some t);
         t \<leftarrow> wr_word word (w AND NOT m) t;
         let n = bitmap_chunks g shift;
         let bitmap = p AND NOT (stl_pagesize g - 1);
         let k = unat (n div 64);
         let m = shl 1 (n mod 64) - 1;
         w \<leftarrow> rd_word t (bitmap + 8 * of_nat k);
         t \<leftarrow> (if w AND NOT m \<noteq> 0 then Some t
           else do {
             let map = unat (shr (stl_pagesize g) shift div 64);
             z \<leftarrow> words_zero t bitmap [k + 1..<map];
             if \<not> z then Some t
             else do {
               t \<leftarrow> stl_slab_free_pages i 1 t;
               stat_upd slot (sub_total (shr (stl_pagesize g) shift - n)) t } });
         free_done slot p size t }
       else Some t } }"

definition free_exact :: "slab_sizes \<Rightarrow> nat \<Rightarrow> u64 \<Rightarrow> stl_slab \<Rightarrow> stl_slab option" where
  "free_exact g i p t = do {
     q \<leftarrow> page_at t (Pg_Page i);
     let m = shl 1 (shr (p AND (stl_pagesize g - 1)) (stl_slab_exact_shift g));
     let size = stl_slab_exact_size g;
     if p AND (size - 1) \<noteq> 0 then Some t
     else if sp_slab q AND m \<noteq> 0 then do {
       let slot = stl_slab_exact_shift g - sl_min_shift t;
       t \<leftarrow> (if sp_slab q = STL_SLAB_BUSY then page_relink i slot STL_SLAB_EXACT t else Some t);
       t \<leftarrow> page_upd (Pg_Page i) (\<lambda>x. x\<lparr>sp_slab := sp_slab x AND NOT m\<rparr>) t;
       q \<leftarrow> page_at t (Pg_Page i);
       t \<leftarrow> (if sp_slab q \<noteq> 0 then Some t
         else do {
           t \<leftarrow> stl_slab_free_pages i 1 t;
           stat_upd slot (sub_total (8 * 8)) t });
       free_done slot p size t }
     else Some t }"

definition free_big :: "slab_sizes \<Rightarrow> nat \<Rightarrow> u64 \<Rightarrow> stl_slab \<Rightarrow> stl_slab option" where
  "free_big g i p t = do {
     q \<leftarrow> page_at t (Pg_Page i);
     let shift = sp_slab q AND STL_SLAB_SHIFT_MASK;
     let size = shl 1 shift;
     if p AND (size - 1) \<noteq> 0 then Some t
     else do {
       let m = shl 1 (shr (p AND (stl_pagesize g - 1)) shift + STL_SLAB_MAP_SHIFT);
       if sp_slab q AND m \<noteq> 0 then do {
         let slot = shift - sl_min_shift t;
         t \<leftarrow> (if sp_next q = Pg_Null then page_relink i slot STL_SLAB_BIG t else Some t);
         t \<leftarrow> page_upd (Pg_Page i) (\<lambda>x. x\<lparr>sp_slab := sp_slab x AND NOT m\<rparr>) t;
         q \<leftarrow> page_at t (Pg_Page i);
         t \<leftarrow> (if sp_slab q AND STL_SLAB_MAP_MASK \<noteq> 0 then Some t
           else do {
             t \<leftarrow> stl_slab_free_pages i 1 t;
             stat_upd slot (sub_total (shr (stl_pagesize g) shift)) t });
         free_done slot p size t }
       else Some t } }"

definition free_run :: "slab_sizes \<Rightarrow> nat \<Rightarrow> u64 \<Rightarrow> stl_slab \<Rightarrow> stl_slab option" where
  "free_run g i p t = do {
     q \<leftarrow> page_at t (Pg_Page i);
     if p AND (stl_pagesize g - 1) \<noteq> 0 then Some t
     else if sp_slab q AND STL_SLAB_PAGE_START = 0 then Some t
     else if sp_slab q = STL_SLAB_PAGE_BUSY then Some t
     else do {
       let size = sp_slab q AND NOT STL_SLAB_PAGE_START;
       t \<leftarrow> stl_slab_free_pages i size t;
       zero_words p (shl size (stl_pagesize_shift g)) t } }"

definition stl_slab_free :: "slab_sizes \<Rightarrow> stl_slab \<Rightarrow> u64 \<Rightarrow> stl_slab option" where
  "stl_slab_free g t p =
     (if p < sl_start t \<or> sl_end t < p then Some t
      else do {
        let i = unat (shr (p - sl_start t) (stl_pagesize_shift g));
        q \<leftarrow> page_at t (Pg_Page i);
        let type = stl_slab_pageype q;
        if type = STL_SLAB_SMALL then free_small g i p t
        else if type = STL_SLAB_EXACT then free_exact g i p t
        else if type = STL_SLAB_BIG then free_big g i p t
        else free_run g i p t })"

section \<open>A second pool\<close>

lemma count_shift_add: "count_shift n (s + d) = count_shift n s + d"
proof (induction n s rule: count_shift.induct)
  case (1 n s)
  show ?case
    using "1.IH" [OF refl] by (subst (1 2) count_shift.simps) (simp add: Let_def ac_simps)
qed

text \<open>The shifts are counted up from the values an earlier call has left: after the initialisation of a second
  pool both are twice what they should be, and every address and size computed with them is wrong.\<close>

theorem slab_second_init:
  assumes "stl_pagesize_shift g = 0" "stl_slab_exact_shift g = 0"
    and "stl_slab_sizes_init ps addr g (Some t) sz = (0, g1, t1)"
    and "stl_slab_sizes_init ps addr' g1 (Some t') sz' = (0, g2, t2)"
  shows "stl_pagesize_shift g2 = 2 * stl_pagesize_shift g1 \<and> stl_slab_exact_shift g2 = 2 * stl_slab_exact_shift g1"
proof -
  have d: "count_shift n s = count_shift n 0 + s" for n s using count_shift_add [of n 0 s] by simp
  have "stl_pagesize_shift g1 = count_shift ps 0" "stl_slab_exact_shift g1 = count_shift (ps div 64) 0"
    using assms by (auto simp: stl_slab_sizes_init_def Let_def split: if_splits)
  moreover have "stl_pagesize_shift g2 = count_shift ps (stl_pagesize_shift g1)"
    "stl_slab_exact_shift g2 = count_shift (ps div 64) (stl_slab_exact_shift g1)"
    using assms(4) by (auto simp: stl_slab_sizes_init_def Let_def split: if_splits)
  ultimately show ?thesis using d [of ps "stl_pagesize_shift g1"] d [of "ps div 64" "stl_slab_exact_shift g1"] by simp
qed

definition zero_sizes :: slab_sizes where
  "zero_sizes = \<lparr>stl_pagesize = 0, stl_pagesize_shift = 0, stl_slab_max_size = 0, stl_slab_exact_size = 0,
    stl_slab_exact_shift = 0\<rparr>"

definition raw_pool :: stl_slab where
  "raw_pool = \<lparr>sl_min_size = 0, sl_min_shift = 0, sl_pages = [], sl_last = 0, sl_free = zero_page, sl_slots = [],
    sl_stats = [], sl_pfree = 0, sl_start = 0, sl_end = 0, sl_addr = 0, sl_words = (\<lambda>_. 0)\<rparr>"

theorem slab_second_init_witness:
  "stl_pagesize_shift (fst (snd (stl_slab_sizes_init 4096 0x10000
     (fst (snd (stl_slab_sizes_init 4096 0x10000 zero_sizes (Some raw_pool) 20000))) (Some raw_pool) 20000))) = 24"
proof -
  have a: "stl_pagesize_shift zero_sizes = 0" "stl_slab_exact_shift zero_sizes = 0" by (simp_all add: zero_sizes_def)
  let ?r = "stl_slab_sizes_init 4096 0x10000 zero_sizes (Some raw_pool) 20000"
  let ?s = "stl_slab_sizes_init 4096 0x10000 (fst (snd ?r)) (Some raw_pool) 20000"
  have r: "?r = (0, fst (snd ?r), snd (snd ?r))" "?s = (0, fst (snd ?s), snd (snd ?s))"
    by (simp_all add: stl_slab_sizes_init_def Let_def)
  have "stl_pagesize_shift (fst (snd ?r)) = 12" by code_simp
  then show ?thesis using slab_second_init [OF a r] by simp
qed

end
