(* ===== verification/Slab_Pages.thy ===== *)
theory Slab_Pages
  imports Slab
begin

text \<open>
  The pages of the slab allocator: the array of structs is tiled by runs, free, in use or cut into chunks,
  and the free ones are exactly those of the free list. Taking a run and giving one back keep this, with
  joining on both sides.
\<close>

section \<open>The structs as a map\<close>

definition valid :: "stl_slab \<Rightarrow> page_ref \<Rightarrow> bool" where
  "valid t r = (case r of Pg_Null \<Rightarrow> False | Pg_Free \<Rightarrow> True | Pg_Slot i \<Rightarrow> i < length (sl_slots t)
     | Pg_Page i \<Rightarrow> i < length (sl_pages t))"

lemma valid_simps [simp]:
  "\<not> valid t Pg_Null" "valid t Pg_Free" "valid t (Pg_Slot i) \<longleftrightarrow> i < length (sl_slots t)"
  "valid t (Pg_Page i) \<longleftrightarrow> i < length (sl_pages t)"
  by (simp_all add: valid_def)

definition with_pg :: "stl_slab \<Rightarrow> (page_ref \<Rightarrow> stl_slab_page) \<Rightarrow> stl_slab" where
  "with_pg t M = t\<lparr>sl_free := M Pg_Free, sl_slots := map (\<lambda>i. M (Pg_Slot i)) [0..<length (sl_slots t)],
     sl_pages := map (\<lambda>i. M (Pg_Page i)) [0..<length (sl_pages t)]\<rparr>"

definition pg :: "stl_slab \<Rightarrow> page_ref \<Rightarrow> stl_slab_page" where
  "pg t r = (case r of Pg_Null \<Rightarrow> zero_page | Pg_Free \<Rightarrow> sl_free t | Pg_Slot i \<Rightarrow> sl_slots t ! i | Pg_Page i \<Rightarrow> sl_pages t ! i)"

lemma with_pg_pg: "with_pg t (pg t) = t"
  by (simp add: with_pg_def pg_def map_nth)

lemma with_pg_sel [simp]:
  "sl_last (with_pg t M) = sl_last t" "sl_pfree (with_pg t M) = sl_pfree t" "sl_start (with_pg t M) = sl_start t"
  "sl_end (with_pg t M) = sl_end t" "sl_words (with_pg t M) = sl_words t" "sl_stats (with_pg t M) = sl_stats t"
  "sl_min_shift (with_pg t M) = sl_min_shift t" "sl_min_size (with_pg t M) = sl_min_size t"
  "sl_free (with_pg t M) = M Pg_Free" "length (sl_pages (with_pg t M)) = length (sl_pages t)"
  "length (sl_slots (with_pg t M)) = length (sl_slots t)" "valid (with_pg t M) = valid t"
  by (simp_all add: with_pg_def valid_def fun_eq_iff split: page_ref.split)

lemma with_pg_upd [simp]:
  "with_pg (with_pg t M) M' = with_pg t M'"
  "(with_pg t M)\<lparr>sl_pfree := x\<rparr> = with_pg (t\<lparr>sl_pfree := x\<rparr>) M"
  "(with_pg t M)\<lparr>sl_stats := y\<rparr> = with_pg (t\<lparr>sl_stats := y\<rparr>) M"
  "(with_pg t M)\<lparr>sl_words := z\<rparr> = with_pg (t\<lparr>sl_words := z\<rparr>) M"
  by (simp_all add: with_pg_def)

lemma valid_upd [simp]:
  "valid (t\<lparr>sl_pfree := x\<rparr>) = valid t" "valid (t\<lparr>sl_stats := y\<rparr>) = valid t" "valid (t\<lparr>sl_words := z\<rparr>) = valid t"
  by (simp_all add: valid_def fun_eq_iff split: page_ref.split)

lemma page_at_with [simp]: "page_at (with_pg t M) r = (if valid t r then Some (M r) else None)"
  by (simp add: page_at_def with_pg_def mem_read_def split: page_ref.split)

lemma map_update_fun: "j < n \<Longrightarrow> (map f [0..<n])[j := x] = map (\<lambda>i. if i = j then x else f i) [0..<n]"
  by (rule nth_equalityI) (simp_all add: nth_list_update)

lemma page_upd_with [simp]:
  "page_upd r f (with_pg t M) = (if valid t r then Some (with_pg t (M(r := f (M r)))) else None)"
  by (cases r)
    (simp_all add: page_upd_def with_pg_def mem_read_def mem_write_def map_update_fun fun_upd_def)

text \<open>A range of pages that all get the same struct.\<close>

definition fill :: "nat \<Rightarrow> nat \<Rightarrow> stl_slab_page \<Rightarrow> (page_ref \<Rightarrow> stl_slab_page) \<Rightarrow> page_ref \<Rightarrow> stl_slab_page" where
  "fill i n c M r = (case r of Pg_Page j \<Rightarrow> if i \<le> j \<and> j < i + n then c else M r | _ \<Rightarrow> M r)"

lemma fill_simps [simp]:
  "fill i n c M Pg_Free = M Pg_Free" "fill i n c M (Pg_Slot s) = M (Pg_Slot s)" "fill i n c M Pg_Null = M Pg_Null"
  "fill i n c M (Pg_Page j) = (if i \<le> j \<and> j < i + n then c else M (Pg_Page j))"
  by (simp_all add: fill_def)

lemma for_each_fill:
  assumes "i + n < length (sl_pages t) \<or> n = 0"
  shows "for_each (\<lambda>k. page_upd (Pg_Page (i + k)) (\<lambda>_. c)) [1..<Suc n] (with_pg t M) = Some (with_pg t (fill (Suc i) n c M))"
  using assms
proof (induction n)
  case 0
  have "fill (Suc i) 0 c M = M" by (auto simp: fill_def fun_eq_iff split: page_ref.split)
  then show ?case by simp
next
  case (Suc n)
  have f: "(fill (Suc i) n c M)(Pg_Page (i + Suc n) := c) = fill (Suc i) (Suc n) c M"
    by (auto simp: fill_def fun_eq_iff split: page_ref.split)
  show ?case using Suc f by (simp add: for_each_append)
qed

section \<open>Linked pages\<close>

fun linked :: "(page_ref \<Rightarrow> stl_slab_page) \<Rightarrow> u64 \<Rightarrow> page_ref \<Rightarrow> nat list \<Rightarrow> page_ref \<Rightarrow> bool" where
  "linked M ty a [] e \<longleftrightarrow> sp_next (M a) = e"
| "linked M ty a (b # bs) e \<longleftrightarrow> sp_next (M a) = Pg_Page b \<and> sp_prev (M (Pg_Page b)) = (a, ty) \<and> linked M ty (Pg_Page b) bs e"

definition lst :: "page_ref \<Rightarrow> nat list \<Rightarrow> page_ref" where
  "lst a xs = (if xs = [] then a else Pg_Page (last xs))"

lemma lst_simps [simp]: "lst a [] = a" "lst a (x # xs) = lst (Pg_Page x) xs" "lst a (xs @ [y]) = Pg_Page y"
  by (simp_all add: lst_def)

lemma linked_Cons: "linked M ty a (xs @ y # ys) e \<longleftrightarrow>
    linked M ty a xs (Pg_Page y) \<and> sp_prev (M (Pg_Page y)) = (lst a xs, ty) \<and> linked M ty (Pg_Page y) ys e"
  by (induction xs arbitrary: a) auto

lemma linked_cong:
  assumes "linked M ty a bs e" "sp_next (M' a) = sp_next (M a)"
    and "\<And>b. b \<in> set bs \<Longrightarrow> sp_next (M' (Pg_Page b)) = sp_next (M (Pg_Page b)) \<and> sp_prev (M' (Pg_Page b)) = sp_prev (M (Pg_Page b))"
  shows "linked M' ty a bs e"
  using assms by (induction bs arbitrary: a) auto

text \<open>A new end.\<close>

lemma linked_end:
  assumes "linked M ty a bs e" "distinct bs" "a \<notin> Pg_Page ` set bs"
  shows "linked (M(lst a bs := (M (lst a bs))\<lparr>sp_next := e'\<rparr>)) ty a bs e'"
  using assms
proof (induction bs arbitrary: a)
  case (Cons b bs)
  let ?M = "M(lst (Pg_Page b) bs := (M (lst (Pg_Page b) bs))\<lparr>sp_next := e'\<rparr>)"
  have l: "linked ?M ty (Pg_Page b) bs e'" using Cons.prems by (intro Cons.IH) auto
  have "lst (Pg_Page b) bs \<noteq> a" using Cons.prems(3) by (auto simp: lst_def split: if_splits)
  then have "sp_next (?M a) = Pg_Page b" "sp_prev (?M (Pg_Page b)) = (a, ty)" using Cons.prems(1) by auto
  with l show ?case unfolding lst_simps linked.simps by blast
qed simp

definition relink :: "page_ref \<Rightarrow> page_ref \<Rightarrow> (page_ref \<Rightarrow> stl_slab_page) \<Rightarrow> page_ref \<Rightarrow> stl_slab_page" where
  "relink p r M = (let M1 = M(p := (M p)\<lparr>sp_next := sp_next (M r)\<rparr>); n = sp_next (M1 r)
     in M1(n := (M1 n)\<lparr>sp_prev := sp_prev (M1 r)\<rparr>))"

lemma slab_unlink_with:
  assumes "valid t r" "valid t p" "valid t (sp_next (M r))" "p \<noteq> r"
  shows "slab_unlink p r (with_pg t M) = Some (with_pg t (relink p r M))"
  using assms by (simp add: slab_unlink_def relink_def Let_def)

lemma linked_valid_next: "linked M ty a bs e \<Longrightarrow> sp_next (M a) \<in> insert e (Pg_Page ` set bs)"
  by (cases bs) auto

text \<open>Taking a page out of a ring leaves the other pages linked, and changes nothing else than the links of its
  two neighbours.\<close>

lemma unlink_ring:
  assumes "linked M ty h (xs @ b # ys) h" "distinct (xs @ b # ys)" "h \<notin> range Pg_Page"
  defines "M' \<equiv> relink (fst (sp_prev (M (Pg_Page b)))) (Pg_Page b) M"
  shows "linked M' ty h (xs @ ys) h"
    and "M' (Pg_Page b) = M (Pg_Page b)"
    and "\<And>r. r \<noteq> h \<Longrightarrow> r \<notin> Pg_Page ` set (xs @ ys) \<Longrightarrow> M' r = M r"
    and "\<And>r. sp_slab (M' r) = sp_slab (M r)"
proof -
  note l = assms(1)[unfolded linked_Cons]
  have h: "h \<noteq> Pg_Page x" "lst h xs \<noteq> Pg_Page b" for x using assms(2,3) by (auto simp: lst_def)
  have M': "M' = (let M1 = M(lst h xs := (M (lst h xs))\<lparr>sp_next := sp_next (M (Pg_Page b))\<rparr>); n = sp_next (M (Pg_Page b))
      in M1(n := (M1 n)\<lparr>sp_prev := (lst h xs, ty)\<rparr>))"
    using l h by (simp add: M'_def relink_def Let_def)
  define n where "n = sp_next (M (Pg_Page b))"
  have n: "n = (case ys of [] \<Rightarrow> h | y # _ \<Rightarrow> Pg_Page y)" using l by (cases ys) (auto simp: n_def)
  have nb: "n \<noteq> Pg_Page b" using n h assms(2) by (cases ys) auto
  define M1 where "M1 = M(lst h xs := (M (lst h xs))\<lparr>sp_next := n\<rparr>)"
  have M'1: "M' = M1(n := (M1 n)\<lparr>sp_prev := (lst h xs, ty)\<rparr>)" unfolding M' M1_def n_def Let_def ..
  have e: "linked M1 ty h xs n" unfolding M1_def using l assms(2,3) by (intro linked_end) auto
  show "M' (Pg_Page b) = M (Pg_Page b)" using h nb by (simp add: M'1 M1_def)
  show "M' r = M r" if "r \<noteq> h" "r \<notin> Pg_Page ` set (xs @ ys)" for r
  proof -
    have "r \<noteq> lst h xs" using that by (auto simp: lst_def)
    moreover have "r \<noteq> n" using that n by (cases ys) auto
    ultimately show ?thesis by (simp add: M'1 M1_def)
  qed
  show "sp_slab (M' r) = sp_slab (M r)" for r by (simp add: M'1 M1_def)
  have nx: "sp_next (M' r) = sp_next (M1 r)" for r by (simp add: M'1)
  have pv: "sp_prev (M' r) = sp_prev (M1 r)" if "r \<noteq> n" for r using that by (simp add: M'1)
  have pv1: "sp_prev (M1 r) = sp_prev (M r)" for r by (simp add: M1_def)
  have nxs: "n \<notin> Pg_Page ` set xs" using n h assms(2) by (cases ys) auto
  have e': "linked M' ty h xs n"
    by (rule linked_cong [OF e]) (use nx pv nxs imageI [of _ "set xs" Pg_Page] in \<open>auto dest: sym\<close>)
  show "linked M' ty h (xs @ ys) h"
  proof (cases ys)
    case Nil
    then show ?thesis using e' n by simp
  next
    case (Cons y zs)
    have n: "n = Pg_Page y" using n Cons by simp
    have nl: "Pg_Page z \<noteq> lst h xs" if "z \<in> set ys" for z
      using that h assms(2) last_in_set [of xs] by (auto simp: lst_def disjoint_iff)
    have "linked M ty (Pg_Page y) zs h" using l Cons by simp
    then have "linked M' ty (Pg_Page y) zs h"
    proof (rule linked_cong)
      show "sp_next (M' (Pg_Page y)) = sp_next (M (Pg_Page y))" using nl [of y] Cons by (simp add: nx M1_def)
    next
      fix z assume z: "z \<in> set zs"
      then have "Pg_Page z \<noteq> n" using assms(2) Cons n by auto
      then show "sp_next (M' (Pg_Page z)) = sp_next (M (Pg_Page z)) \<and> sp_prev (M' (Pg_Page z)) = sp_prev (M (Pg_Page z))"
        using nl [of z] z Cons by (simp add: nx pv pv1 M1_def)
    qed
    then show ?thesis using e' n Cons by (simp add: linked_Cons M'1)
  qed
qed

text \<open>The page \<open>j\<close> takes the place of the page \<open>b\<close> in a ring.\<close>

lemma replace_ring:
  assumes "linked M ty h (xs @ b # ys) h" "distinct (xs @ b # ys)" "h \<notin> range Pg_Page" "j \<notin> set (xs @ ys)"
    and j: "sp_next (M' (Pg_Page j)) = sp_next (M (Pg_Page b))" "sp_prev (M' (Pg_Page j)) = sp_prev (M (Pg_Page b))"
    and p: "sp_next (M' (lst h xs)) = Pg_Page j"
    and n: "\<And>y zs. ys = y # zs \<Longrightarrow> sp_prev (M' (Pg_Page y)) = (Pg_Page j, ty)"
    and same_next: "\<And>r. r \<in> insert h (Pg_Page ` set (xs @ ys)) \<Longrightarrow> r \<noteq> lst h xs \<Longrightarrow> sp_next (M' r) = sp_next (M r)"
    and same_prev: "\<And>y. y \<in> set (xs @ tl ys) \<Longrightarrow> sp_prev (M' (Pg_Page y)) = sp_prev (M (Pg_Page y))"
  shows "linked M' ty h (xs @ j # ys) h"
proof -
  note l = assms(1)[unfolded linked_Cons]
  have e: "linked (M(lst h xs := (M (lst h xs))\<lparr>sp_next := Pg_Page j\<rparr>)) ty h xs (Pg_Page j)" (is "linked ?M1 _ _ _ _")
    using l assms(2,3) by (intro linked_end) auto
  have f: "sp_next (M' r) = sp_next (?M1 r)" if "r \<in> insert h (Pg_Page ` set xs)" for r
    using p same_next [of r] that by auto
  have 1: "linked M' ty h xs (Pg_Page j)" by (rule linked_cong [OF e]) (use f same_prev in auto)
  have nl: "Pg_Page z \<noteq> lst h xs" if "z \<in> set ys" for z
    using that assms(2,3) last_in_set [of xs] by (auto simp: lst_def disjoint_iff)
  have "linked M' ty (Pg_Page j) ys h"
  proof (cases ys)
    case Nil
    then show ?thesis using l j by simp
  next
    case (Cons y zs)
    have "linked M ty (Pg_Page y) zs h" using l Cons by simp
    then have "linked M' ty (Pg_Page y) zs h"
      by (rule linked_cong) (use same_next same_prev nl Cons in auto)
    then show ?thesis using l j n Cons by simp
  qed
  with 1 l j show ?thesis by (simp add: linked_Cons)
qed

text \<open>A new page at the head of a ring.\<close>

lemma push_ring:
  assumes "linked M ty h ys h" "b \<notin> set ys" "h \<notin> range Pg_Page" "distinct ys"
    and b: "sp_next (M' (Pg_Page b)) = sp_next (M h)" "sp_prev (M' (Pg_Page b)) = (h, ty)"
    and h: "sp_next (M' h) = Pg_Page b"
    and n: "\<And>y zs. ys = y # zs \<Longrightarrow> sp_prev (M' (Pg_Page y)) = (Pg_Page b, ty)"
    and same_next: "\<And>y. y \<in> set ys \<Longrightarrow> sp_next (M' (Pg_Page y)) = sp_next (M (Pg_Page y))"
    and same_prev: "\<And>y. y \<in> set (tl ys) \<Longrightarrow> sp_prev (M' (Pg_Page y)) = sp_prev (M (Pg_Page y))"
  shows "linked M' ty h (b # ys) h"
proof (cases ys)
  case Nil
  then show ?thesis using assms(1) b h by simp
next
  case (Cons y zs)
  have "linked M ty (Pg_Page y) zs h" using assms(1) Cons by simp
  then have "linked M' ty (Pg_Page y) zs h" by (rule linked_cong) (use same_next same_prev Cons in auto)
  then show ?thesis using assms(1) b h n Cons by simp
qed

section \<open>Tiles\<close>

datatype tile = Free_run nat | Used_run nat | Cut

fun tlen :: "tile \<Rightarrow> nat" where
  "tlen (Free_run n) = n" | "tlen (Used_run n) = n" | "tlen Cut = 1"

abbreviation tlens :: "tile list \<Rightarrow> nat" where "tlens ts \<equiv> sum_list (map tlen ts)"

text \<open>What the structs say of a tile at \<open>i\<close>, when there are \<open>l\<close> pages. The last page of a free run points back to the
  first, except for the run that ends the pool.\<close>

fun tile_ok :: "(page_ref \<Rightarrow> stl_slab_page) \<Rightarrow> nat \<Rightarrow> nat \<Rightarrow> tile \<Rightarrow> bool" where
  "tile_ok M l i (Free_run n) \<longleftrightarrow> 0 < n \<and> sp_slab (M (Pg_Page i)) = of_nat n \<and>
     (1 < n \<longrightarrow> sp_slab (M (Pg_Page (i + n - 1))) = 0 \<and> snd (sp_prev (M (Pg_Page (i + n - 1)))) = 0 \<and>
       (i + n < l \<longrightarrow> fst (sp_prev (M (Pg_Page (i + n - 1)))) = Pg_Page i))"
| "tile_ok M l i (Used_run n) \<longleftrightarrow> 0 < n \<and> M (Pg_Page i) = run_page (of_nat n) \<and>
     (\<forall>k. i < k \<longrightarrow> k < i + n \<longrightarrow> M (Pg_Page k) = busy_page)"
| "tile_ok M l i Cut \<longleftrightarrow> snd (sp_prev (M (Pg_Page i))) \<noteq> 0"

fun tiled :: "(page_ref \<Rightarrow> stl_slab_page) \<Rightarrow> nat \<Rightarrow> nat \<Rightarrow> tile list \<Rightarrow> bool" where
  "tiled M l i [] \<longleftrightarrow> True"
| "tiled M l i (t # ts) \<longleftrightarrow> tile_ok M l i t \<and> tiled M l (i + tlen t) ts"

fun free_starts :: "nat \<Rightarrow> tile list \<Rightarrow> nat list" where
  "free_starts i [] = []"
| "free_starts i (Free_run n # ts) = i # free_starts (i + n) ts"
| "free_starts i (Used_run n # ts) = free_starts (i + n) ts"
| "free_starts i (Cut # ts) = free_starts (i + 1) ts"

lemma tile_ok_pos: "tile_ok M l i t \<Longrightarrow> 0 < tlen t"
  by (cases t) auto

lemma tiled_append: "tiled M l i (xs @ ys) \<longleftrightarrow> tiled M l i xs \<and> tiled M l (i + tlens xs) ys"
  by (induction xs arbitrary: i) (auto simp: add.assoc)

lemma free_starts_append: "free_starts i (xs @ ys) = free_starts i xs @ free_starts (i + tlens xs) ys"
  by (induction i xs rule: free_starts.induct) (auto simp: add.assoc)

lemma free_starts_range: "tiled M l i ts \<Longrightarrow> k \<in> set (free_starts i ts) \<Longrightarrow> i \<le> k \<and> k < i + tlens ts"
  by (induction i ts rule: free_starts.induct) fastforce+

lemma free_starts_find:
  "k \<in> set (free_starts i ts) \<Longrightarrow> \<exists>xs n ys. ts = xs @ Free_run n # ys \<and> k = i + tlens xs"
proof (induction i ts rule: free_starts.induct)
  case (2 i n ts)
  show ?case
  proof (cases "k = i")
    case True
    then have "Free_run n # ts = [] @ Free_run n # ts \<and> k = i + tlens []" by simp
    then show ?thesis by blast
  next
    case False
    then obtain xs m ys where "ts = xs @ Free_run m # ys" "k = i + n + tlens xs" using 2 by auto
    then have "Free_run n # ts = (Free_run n # xs) @ Free_run m # ys \<and> k = i + tlens (Free_run n # xs)" by simp
    then show ?thesis by blast
  qed
next
  case (3 i n ts)
  then obtain xs m ys where "ts = xs @ Free_run m # ys" "k = i + n + tlens xs" by auto
  then have "Used_run n # ts = (Used_run n # xs) @ Free_run m # ys \<and> k = i + tlens (Used_run n # xs)" by simp
  then show ?case by blast
next
  case (4 i ts)
  then obtain xs m ys where "ts = xs @ Free_run m # ys" "k = i + 1 + tlens xs" by auto
  then have "Cut # ts = (Cut # xs) @ Free_run m # ys \<and> k = i + tlens (Cut # xs)" by simp
  then show ?case by blast
qed simp

text \<open>A tiling only depends on the pages it covers, and not on the links of the free ones at their start. Of a cut
  page it only needs to be one.\<close>

definition like :: "(page_ref \<Rightarrow> stl_slab_page) \<Rightarrow> (page_ref \<Rightarrow> stl_slab_page) \<Rightarrow> nat \<Rightarrow> bool" where
  "like M M' k \<longleftrightarrow> M' (Pg_Page k) = M (Pg_Page k) \<or>
     snd (sp_prev (M (Pg_Page k))) \<noteq> 0 \<and> snd (sp_prev (M' (Pg_Page k))) \<noteq> 0"

lemma like_eq [simp]: "M' (Pg_Page k) = M (Pg_Page k) \<Longrightarrow> like M M' k"
  by (simp add: like_def)

lemma like_zero: "like M M' k \<Longrightarrow> snd (sp_prev (M (Pg_Page k))) = 0 \<Longrightarrow> M' (Pg_Page k) = M (Pg_Page k)"
  by (simp add: like_def)

lemma tiled_same':
  assumes "tiled M l i ts"
    and "\<And>k. i \<le> k \<Longrightarrow> k < i + tlens ts \<Longrightarrow> k \<in> set (free_starts i ts) \<Longrightarrow> sp_slab (M' (Pg_Page k)) = sp_slab (M (Pg_Page k))"
    and "\<And>k. i \<le> k \<Longrightarrow> k < i + tlens ts \<Longrightarrow> k \<notin> set (free_starts i ts) \<Longrightarrow> like M M' k"
  shows "tiled M' l i ts"
  using assms
proof (induction ts arbitrary: i)
  case (Cons t ts)
  have r: "i + tlen t \<le> k" if "k \<in> set (free_starts (i + tlen t) ts)" for k
    using free_starts_range [of M l "i + tlen t" ts k] Cons.prems(1) that by auto
  have p: "0 < tlen t" using Cons.prems(1) tile_ok_pos by auto
  have fs: "k \<in> set (free_starts i (t # ts)) \<longleftrightarrow> k \<in> set (free_starts (i + tlen t) ts)" if "k \<noteq> i" for k
    using that by (cases t) auto
  have nf: "like M M' k" if "i < k" "k < i + tlen t" for k
    using Cons.prems(3) [of k] fs [of k] r [of k] that by auto
  have nf0: "like M M' i" if "\<And>n. t \<noteq> Free_run n"
  proof -
    have "i \<notin> set (free_starts i (t # ts))" using that r [of i] p by (cases t) auto
    then show ?thesis using Cons.prems(3) [of i] p by simp
  qed
  have "tile_ok M' l i t"
  proof (cases t)
    case (Free_run n)
    then have "M' (Pg_Page (i + n - 1)) = M (Pg_Page (i + n - 1))" if "1 < n"
      using nf [of "i + n - 1"] that Cons.prems(1) by (intro like_zero) auto
    moreover have "sp_slab (M' (Pg_Page i)) = sp_slab (M (Pg_Page i))"
      using Cons.prems(2) [of i] p Free_run by simp
    ultimately show ?thesis using Free_run Cons.prems(1) by auto
  next
    case (Used_run n)
    then have "M' (Pg_Page k) = M (Pg_Page k)" if "i \<le> k" "k < i + n" for k
      using nf [of k] nf0 that Cons.prems(1)
      by (intro like_zero) (cases "k = i"; auto simp: run_page_def busy_page_def STL_SLAB_PAGE_def)+
    with Used_run Cons.prems(1) p show ?thesis by auto
  next
    case Cut
    then show ?thesis using nf0 Cons.prems(1) by (auto simp: like_def)
  qed
  moreover have "tiled M' l (i + tlen t) ts"
  proof (rule Cons.IH)
    show "tiled M l (i + tlen t) ts" using Cons.prems(1) by simp
    fix k assume k: "i + tlen t \<le> k" "k < i + tlen t + tlens ts"
    show "sp_slab (M' (Pg_Page k)) = sp_slab (M (Pg_Page k))" if "k \<in> set (free_starts (i + tlen t) ts)"
      using Cons.prems(2) [of k] k p fs [of k] that by simp
    show "like M M' k" if "k \<notin> set (free_starts (i + tlen t) ts)"
      using Cons.prems(3) [of k] k p fs [of k] that by simp
  qed
  ultimately show ?case by simp
qed simp

section \<open>The invariant of the pages\<close>

definition pages_inv :: "(page_ref \<Rightarrow> stl_slab_page) \<Rightarrow> nat \<Rightarrow> tile list \<Rightarrow> nat list \<Rightarrow> bool" where
  "pages_inv M l ts fl \<longleftrightarrow> tiled M l 0 ts \<and> tlens ts = l \<and> distinct fl \<and> set fl = set (free_starts 0 ts) \<and>
     linked M 0 Pg_Free fl Pg_Free"

text \<open>The other free runs, when one tile is known.\<close>

lemma other_starts:
  assumes "tiled M l 0 (xs @ t # ys)"
  shows "k \<in> set (free_starts 0 xs) \<Longrightarrow> k < tlens xs"
    and "k \<in> set (free_starts (tlens xs + tlen t) ys) \<Longrightarrow> tlens xs + tlen t \<le> k"
  using free_starts_range [of M l 0 xs k] free_starts_range [of M l "tlens xs + tlen t" ys k] assms
  by (auto simp: tiled_append)

lemma tiled_around:
  assumes "tiled M l 0 (xs @ t # ys)"
    and "\<And>k. k < tlens xs \<or> tlens xs + tlen t \<le> k \<Longrightarrow> k \<in> set (free_starts 0 xs) \<union> set (free_starts (tlens xs + tlen t) ys) \<Longrightarrow>
      sp_slab (M' (Pg_Page k)) = sp_slab (M (Pg_Page k))"
    and "\<And>k. k < tlens xs \<or> tlens xs + tlen t \<le> k \<Longrightarrow> k \<notin> set (free_starts 0 xs) \<union> set (free_starts (tlens xs + tlen t) ys) \<Longrightarrow>
      like M M' k"
  shows "tiled M' l 0 xs" "tiled M' l (tlens xs + tlen t) ys"
proof -
  note o = other_starts [OF assms(1)]
  have a: "tiled M l 0 xs" "tiled M l (tlens xs + tlen t) ys" using assms(1) by (auto simp: tiled_append)
  show "tiled M' l 0 xs"
  proof (rule tiled_same' [OF a(1)])
    fix k assume "k < 0 + tlens xs"
    then show "k \<in> set (free_starts 0 xs) \<Longrightarrow> sp_slab (M' (Pg_Page k)) = sp_slab (M (Pg_Page k))"
      "k \<notin> set (free_starts 0 xs) \<Longrightarrow> like M M' k" using assms(2,3) [of k] o(2) [of k] by auto
  qed
  show "tiled M' l (tlens xs + tlen t) ys"
  proof (rule tiled_same' [OF a(2)])
    fix k assume "tlens xs + tlen t \<le> k"
    then show "k \<in> set (free_starts (tlens xs + tlen t) ys) \<Longrightarrow> sp_slab (M' (Pg_Page k)) = sp_slab (M (Pg_Page k))"
      "k \<notin> set (free_starts (tlens xs + tlen t) ys) \<Longrightarrow> like M M' k" using assms(2,3) [of k] o(1) [of k] tile_ok_pos [of M l "tlens xs" t] assms(1)
      by (auto simp: tiled_append)
  qed
qed

text \<open>What is known at a free run.\<close>

lemma at_free_run:
  assumes "pages_inv M l ts fl" "b \<in> set fl"
  obtains xs n ys us vs where "ts = xs @ Free_run n # ys" "b = tlens xs" "fl = us @ b # vs" "0 < n" "b + n \<le> l"
    "tile_ok M l b (Free_run n)" "set (us @ vs) = set (free_starts 0 xs) \<union> set (free_starts (b + n) ys)"
    "\<forall>k\<in>set (us @ vs). k < b \<or> b + n \<le> k" "\<forall>k\<in>set fl. k < l"
proof -
  have inv: "tiled M l 0 ts" "tlens ts = l" "distinct fl" "set fl = set (free_starts 0 ts)"
    using assms(1) by (auto simp: pages_inv_def)
  obtain xs n ys where t: "ts = xs @ Free_run n # ys" "b = tlens xs"
    using free_starts_find [of b 0 ts] assms(2) inv by auto
  obtain us vs where u: "fl = us @ b # vs" using assms(2) split_list by fast
  have ok: "tile_ok M l b (Free_run n)" using inv(1) t by (simp add: tiled_append)
  have f: "set fl = set (free_starts 0 xs) \<union> {b} \<union> set (free_starts (b + n) ys)"
    using inv(4) t by (simp add: free_starts_append)
  have r: "k < b" if "k \<in> set (free_starts 0 xs)" for k using other_starts(1) [of M l xs "Free_run n" ys k] inv(1) t that by simp
  have r': "b + n \<le> k" if "k \<in> set (free_starts (b + n) ys)" for k
    using other_starts(2) [of M l xs "Free_run n" ys k] inv(1) t that by simp
  have nb: "b \<notin> set (free_starts 0 xs)" "b \<notin> set (free_starts (b + n) ys)" using r [of b] r' [of b] ok by auto
  have s: "set (us @ vs) = set (free_starts 0 xs) \<union> set (free_starts (b + n) ys)"
    using f u inv(3) nb by auto
  show thesis
  proof
    show "ts = xs @ Free_run n # ys" "b = tlens xs" "fl = us @ b # vs" by fact+
    show "0 < n" "b + n \<le> l" using ok inv(2) t by auto
    show "tile_ok M l b (Free_run n)" "set (us @ vs) = set (free_starts 0 xs) \<union> set (free_starts (b + n) ys)" by fact+
    show "\<forall>k\<in>set (us @ vs). k < b \<or> b + n \<le> k" unfolding s using r r' by auto
    show "\<forall>k\<in>set fl. k < l" using free_starts_range [OF inv(1)] inv by auto
  qed
qed

lemma free_less: "pages_inv M l ts fl \<Longrightarrow> b \<in> set fl \<Longrightarrow> b < l"
  using free_starts_range [of M l 0 ts b] by (auto simp: pages_inv_def)

section \<open>Taking a run\<close>

lemma find_run_ok:
  assumes "linked M ty a bs Pg_Free" "\<forall>b\<in>set bs. b < length (sl_pages t)"
  shows "find_run (with_pg t M) pages (sp_next (M a)) =
    Some (case find (\<lambda>b. pages \<le> sp_slab (M (Pg_Page b))) bs of None \<Rightarrow> Pg_Null | Some b \<Rightarrow> Pg_Page b)"
  using assms
proof (induction bs arbitrary: a)
  case Nil
  then show ?case by (subst find_run.simps) simp
next
  case (Cons b bs)
  then show ?case by (subst find_run.simps) simp
qed

lemma lst_in: "lst a xs = a \<or> lst a xs \<in> Pg_Page ` set xs"
  by (simp add: lst_def)

lemma unat_pred: "0 < n \<Longrightarrow> n < 2 ^ 64 \<Longrightarrow> unat (of_nat n - 1 :: u64) = n - 1"
proof -
  assume n: "0 < n" "n < 2 ^ 64"
  have "(of_nat n - 1 :: u64) = of_nat (n - 1)" using n(1) by (simp add: of_nat_diff)
  then show ?thesis using n(2) by (simp add: unsigned_of_nat take_bit_nat_eq_self)
qed

lemma unat_small: "n < 2 ^ 64 \<Longrightarrow> unat (of_nat n :: u64) = n"
  by (simp add: unsigned_of_nat take_bit_nat_eq_self)

lemma take_whole:
  assumes inv: "pages_inv M l ts fl" "l \<le> length (sl_pages t)" "l < 2 ^ 63"
    and run: "ts = xs @ Free_run n # ys" "b = tlens xs" "fl = us @ b # vs" "0 < n" "b + n \<le> l"
      "tile_ok M l b (Free_run n)" "set (us @ vs) = set (free_starts 0 xs) \<union> set (free_starts (b + n) ys)"
      "\<forall>k\<in>set (us @ vs). k < b \<or> b + n \<le> k" "\<forall>k\<in>set fl. k < l"
  shows "\<exists>M'. take_run b (of_nat n) (with_pg t M) = Some (with_pg (t\<lparr>sl_pfree := sl_pfree t - of_nat n\<rparr>) M') \<and>
    pages_inv M' l (xs @ Used_run n # ys) (us @ vs) \<and>
    (\<forall>r. r \<noteq> Pg_Free \<longrightarrow> r \<notin> Pg_Page ` set (us @ vs) \<longrightarrow> r \<notin> Pg_Page ` {b..<b + n} \<longrightarrow> M' r = M r)"
proof -
  have I: "tiled M l 0 ts" "tlens ts = l" "distinct fl" "linked M 0 Pg_Free fl Pg_Free"
    using inv(1) by (auto simp: pages_inv_def)
  have lk: "linked M 0 Pg_Free (us @ b # vs) Pg_Free" "distinct (us @ b # vs)" using I run(3) by auto
  let ?U = "relink (fst (sp_prev (M (Pg_Page b)))) (Pg_Page b) M"
  let ?M' = "fill (Suc b) (n - 1) busy_page (?U(Pg_Page b := run_page (of_nat n)))"
  have hd: "Pg_Free \<notin> range Pg_Page" by auto
  note U = unlink_ring [OF lk hd]
  have pv: "sp_prev (M (Pg_Page b)) = (lst Pg_Free us, 0)" "linked M 0 (Pg_Page b) vs Pg_Free"
    using lk(1) by (auto simp: linked_Cons)
  have n64: "unat (of_nat n - 1 :: u64) = n - 1" using run(4,5) inv(3) by (simp add: unat_pred)
  have vl: "\<forall>k\<in>set fl. k < length (sl_pages t)" using run(9) inv(2) by fastforce
  have v: "valid t (lst Pg_Free us)" "lst Pg_Free us \<noteq> Pg_Page b" "valid t (sp_next (M (Pg_Page b)))"
  proof -
    show "valid t (lst Pg_Free us)" "lst Pg_Free us \<noteq> Pg_Page b"
      using lst_in [of Pg_Free us] run(3) vl lk(2) by auto
    show "valid t (sp_next (M (Pg_Page b)))"
      using linked_valid_next [OF pv(2)] run(3) vl by auto
  qed
  have sl: "sp_slab (M (Pg_Page b)) = of_nat n" using run(6) by simp
  have bl: "b + n - Suc 0 < length (sl_pages t)" using run(4,5) inv(2) by linarith
  have "take_run b (of_nat n) (with_pg t M) = Some (with_pg (t\<lparr>sl_pfree := sl_pfree t - of_nat n\<rparr>) ?M')"
    using for_each_fill [of b "n - 1" "t\<lparr>sl_pfree := sl_pfree t - of_nat n\<rparr>" busy_page
        "?U(Pg_Page b := run_page (of_nat n))"] bl v run(3,4,5,9) inv(2) pv(1) sl n64
    by (simp add: take_run_def raw_prev_def slab_unlink_with)
  moreover have "pages_inv ?M' l (xs @ Used_run n # ys) (us @ vs)"
  proof -
    let ?F = "set (us @ vs)"
    have same: "sp_slab (?M' (Pg_Page k)) = sp_slab (M (Pg_Page k))" "k \<notin> ?F \<Longrightarrow> ?M' (Pg_Page k) = M (Pg_Page k)"
      if "k < b \<or> b + n \<le> k" for k
    proof -
      have "?M' (Pg_Page k) = ?U (Pg_Page k)" using that run(4) by auto
      then show "sp_slab (?M' (Pg_Page k)) = sp_slab (M (Pg_Page k))" "k \<notin> ?F \<Longrightarrow> ?M' (Pg_Page k) = M (Pg_Page k)"
        using U(3,4) [of "Pg_Page k"] by auto
    qed
    have t: "tiled ?M' l 0 xs" "tiled ?M' l (b + n) ys"
      using tiled_around [of M l xs "Free_run n" ys ?M'] I(1) run(1,2,7) same by auto
    have "tile_ok ?M' l b (Used_run n)" using run(4) by auto
    with t have "tiled ?M' l 0 (xs @ Used_run n # ys)" using run(2) by (simp add: tiled_append)
    moreover have "linked ?M' 0 Pg_Free (us @ vs) Pg_Free"
    proof (rule linked_cong)
      show "linked ?U 0 Pg_Free (us @ vs) Pg_Free" using U(1) by simp
      show "sp_next (?M' Pg_Free) = sp_next (?U Pg_Free)" by simp
      show "sp_next (?M' (Pg_Page k)) = sp_next (?U (Pg_Page k)) \<and> sp_prev (?M' (Pg_Page k)) = sp_prev (?U (Pg_Page k))"
        if "k \<in> set (us @ vs)" for k using run(4) bspec [OF run(8) that] by auto
    qed
    moreover have "set (us @ vs) = set (free_starts 0 (xs @ Used_run n # ys))"
      using run(2,7) by (simp add: free_starts_append)
    ultimately show ?thesis using I(2) lk(2) run(1) by (simp add: pages_inv_def)
  qed
  moreover have "?M' r = M r" if "r \<noteq> Pg_Free" "r \<notin> Pg_Page ` set (us @ vs)" "r \<notin> Pg_Page ` {b..<b + n}" for r
  proof -
    have "?M' r = ?U r" using that run(4) by (cases r) auto
    then show ?thesis using U(3) [of r] that by auto
  qed
  ultimately show ?thesis by blast
qed

lemma of_nat_less_u64: "m < 2 ^ 64 \<Longrightarrow> n < 2 ^ 64 \<Longrightarrow> (of_nat m :: u64) < of_nat n \<longleftrightarrow> m < n"
  by (simp add: word_less_nat_alt unat_small)

lemma of_nat_le_u64: "m < 2 ^ 64 \<Longrightarrow> n < 2 ^ 64 \<Longrightarrow> (of_nat m :: u64) \<le> of_nat n \<longleftrightarrow> m \<le> n"
  by (simp add: word_le_nat_alt unat_small)

lemma take_part:
  assumes inv: "pages_inv M l ts fl" "l \<le> length (sl_pages t)" "l < 2 ^ 63"
    and run: "ts = xs @ Free_run n # ys" "b = tlens xs" "fl = us @ b # vs" "0 < n" "b + n \<le> l"
      "tile_ok M l b (Free_run n)" "set (us @ vs) = set (free_starts 0 xs) \<union> set (free_starts (b + n) ys)"
      "\<forall>k\<in>set (us @ vs). k < b \<or> b + n \<le> k" "\<forall>k\<in>set fl. k < l"
    and m: "0 < m" "m < n"
  shows "\<exists>M'. take_run b (of_nat m) (with_pg t M) = Some (with_pg (t\<lparr>sl_pfree := sl_pfree t - of_nat m\<rparr>) M') \<and>
    pages_inv M' l (xs @ Used_run m # Free_run (n - m) # ys) (us @ (b + m) # vs) \<and>
    (\<forall>r. r \<noteq> Pg_Free \<longrightarrow> r \<notin> Pg_Page ` set (us @ vs) \<longrightarrow> r \<notin> Pg_Page ` {b..<b + n} \<longrightarrow> M' r = M r)"
proof -
  have I: "tiled M l 0 ts" "tlens ts = l" "distinct fl" "linked M 0 Pg_Free fl Pg_Free"
    using inv(1) by (auto simp: pages_inv_def)
  have lk: "linked M 0 Pg_Free (us @ b # vs) Pg_Free" "distinct (us @ b # vs)" using I run(3) by auto
  define j e p x where "j = b + m" and "e = b + n - 1" and "p = lst Pg_Free us" and "x = sp_next (M (Pg_Page b))"
  have pv: "sp_prev (M (Pg_Page b)) = (p, 0)" "linked M 0 (Pg_Page b) vs Pg_Free"
    using lk(1) by (auto simp: linked_Cons p_def)
  have x: "x = (case vs of [] \<Rightarrow> Pg_Free | y # _ \<Rightarrow> Pg_Page y)" using pv(2) by (cases vs) (auto simp: x_def)
  have out: "r \<noteq> Pg_Page k" if "r \<in> {p, x}" "b \<le> k" "k < b + n" for r k
  proof -
    have "r = Pg_Free \<or> r \<in> Pg_Page ` set (us @ vs)" using that(1) x lst_in [of Pg_Free us] by (cases vs) (auto simp: p_def)
    then show ?thesis using run(8) that(2,3) by fastforce
  qed
  have je: "b < j" "j \<le> e" "e < b + n" "b \<le> e" "e < l" using m run(5) by (auto simp: j_def e_def)
  have vl: "\<forall>k\<in>set fl. k < length (sl_pages t)" using run(9) inv(2) by fastforce
  have v: "valid t p" "valid t x" "valid t (Pg_Page e)" "valid t (Pg_Page j)" "valid t (Pg_Page b)"
    using lst_in [of Pg_Free us] linked_valid_next [OF pv(2)] run(3) vl inv(2) je by (auto simp: p_def x_def)
  have sl: "sp_slab (M (Pg_Page b)) = of_nat n" using run(6) by simp
  have u: "unat (of_nat n :: u64) = n" "unat (of_nat m :: u64) = m" "unat (of_nat m - 1 :: u64) = m - 1"
    "(of_nat m :: u64) < of_nat n"
    using m run(4,5) inv(3) by (simp_all add: unat_small unat_pred of_nat_less_u64)
  define M1 where "M1 = M(Pg_Page e := (M (Pg_Page e))\<lparr>sp_prev := (Pg_Page j, 0)\<rparr>)"
  define M2 where "M2 = M1(Pg_Page j := (M1 (Pg_Page j))\<lparr>sp_slab := of_nat n - of_nat m, sp_next := x, sp_prev := (p, 0)\<rparr>)"
  define M3 where "M3 = M2(p := (M2 p)\<lparr>sp_next := Pg_Page j\<rparr>)"
  define M4 where "M4 = M3(x := (M3 x)\<lparr>sp_prev := (Pg_Page j, 0)\<rparr>)"
  define M' where "M' = fill (Suc b) (m - 1) busy_page (M4(Pg_Page b := run_page (of_nat m)))"
  note Ms = M1_def M2_def M3_def M4_def
  have b1: "M1 (Pg_Page b) = M (Pg_Page b)" using je by (simp add: M1_def)
  have b2: "M2 (Pg_Page b) = M (Pg_Page b)" using je b1 by (simp add: M2_def)
  have b3: "M3 (Pg_Page b) = M (Pg_Page b)" using out [of p b] b2 run(4) by (simp add: M3_def)
  have e': "b + n - Suc 0 = e" by (simp add: e_def)
  have s1: "page_upd (Pg_Page e) (\<lambda>y. y\<lparr>sp_prev := (Pg_Page j, 0)\<rparr>) (with_pg t M) = Some (with_pg t M1)"
    and s2: "page_upd (Pg_Page j) (\<lambda>y. y\<lparr>sp_slab := of_nat n - of_nat m, sp_next := x, sp_prev := (p, 0)\<rparr>) (with_pg t M1) =
      Some (with_pg t M2)"
    and s3: "page_upd p (\<lambda>y. y\<lparr>sp_next := Pg_Page j\<rparr>) (with_pg t M2) = Some (with_pg t M3)"
    and s4: "page_upd x (\<lambda>y. y\<lparr>sp_prev := (Pg_Page j, 0)\<rparr>) (with_pg t M3) = Some (with_pg t M4)"
    using v by (simp_all add: M1_def M2_def M3_def M4_def)
  have "split_run b (of_nat m) (with_pg t M) = Some (with_pg t M4)"
    using v by (simp add: split_run_def Let_def raw_prev_def sl u b1 b2 b3 pv(1) x_def [symmetric] e' j_def [symmetric]
        s1 s2 s3 s4 del: page_upd_with)
  moreover have bl: "b + m - Suc 0 < length (sl_pages t)" using m run(5) inv(2) by linarith
  ultimately have "take_run b (of_nat m) (with_pg t M) = Some (with_pg (t\<lparr>sl_pfree := sl_pfree t - of_nat m\<rparr>) M')"
    using for_each_fill [of b "m - 1" "t\<lparr>sl_pfree := sl_pfree t - of_nat m\<rparr>" busy_page "M4(Pg_Page b := run_page (of_nat m))"]
      bl v u m sl je inv(2)
    by (simp add: take_run_def M'_def j_def)
  moreover have same: "sp_slab (M' (Pg_Page k)) = sp_slab (M (Pg_Page k))"
    "k \<notin> set (us @ vs) \<Longrightarrow> M' (Pg_Page k) = M (Pg_Page k)" if "k < b \<or> b + n \<le> k" for k
  proof -
    have k: "k \<noteq> e" "k \<noteq> j" "M' (Pg_Page k) = M4 (Pg_Page k)" using that je m by (auto simp: M'_def)
    then show "sp_slab (M' (Pg_Page k)) = sp_slab (M (Pg_Page k))" by (simp add: Ms)
    assume "k \<notin> set (us @ vs)"
    then have "Pg_Page k \<noteq> p" "Pg_Page k \<noteq> x" using x lst_in [of Pg_Free us] by (auto simp: p_def split: list.splits)
    with k show "M' (Pg_Page k) = M (Pg_Page k)" by (simp add: Ms)
  qed
  moreover have "M' r = M r" if "r \<noteq> Pg_Free" "r \<notin> Pg_Page ` set (us @ vs)" "r \<notin> Pg_Page ` {b..<b + n}" for r
  proof (cases r)
    case (Pg_Slot s)
    have "p \<noteq> r" "x \<noteq> r" using x lst_in [of Pg_Free us] Pg_Slot by (auto simp: p_def split: list.splits)
    then show ?thesis using Pg_Slot by (simp add: M'_def Ms)
  next
    case Pg_Null
    have "p \<noteq> r" "x \<noteq> r" using x lst_in [of Pg_Free us] Pg_Null by (auto simp: p_def split: list.splits)
    then show ?thesis using Pg_Null by (simp add: M'_def Ms)
  next
    case (Pg_Page k)
    then show ?thesis using same(2) [of k] that by (metis atLeastLessThan_iff imageI not_le)
  qed (use that in simp)
  moreover have "pages_inv M' l (xs @ Used_run m # Free_run (n - m) # ys) (us @ j # vs)"
  proof -
    have t: "tiled M' l 0 xs" "tiled M' l (b + n) ys"
      using tiled_around [of M l xs "Free_run n" ys M'] I(1) run(1,2,7) same by auto
    have used: "tile_ok M' l b (Used_run m)" using m by (auto simp: M'_def)
    have ej: "M' (Pg_Page k) = M2 (Pg_Page k)" if "j \<le> k" "k < b + n" for k
      using out [of p k] out [of x k] that je m by (auto simp: M'_def M3_def M4_def j_def)
    have "tile_ok M' l j (Free_run (n - m))"
    proof -
      have "M' (Pg_Page j) = M2 (Pg_Page j)" using ej je by simp
      moreover have "M' (Pg_Page e) = (M (Pg_Page e))\<lparr>sp_prev := (Pg_Page j, 0)\<rparr>" if "1 < n - m"
      proof -
        have "j \<noteq> e" using that by (auto simp: j_def e_def)
        then show ?thesis using ej [of e] je by (simp add: M1_def M2_def)
      qed
      moreover have "j + (n - m) - 1 = e" using m by (simp add: j_def e_def)
      moreover have "sp_slab (M (Pg_Page e)) = 0" using run(6) m by (simp add: e_def)
      ultimately show ?thesis using m by (auto simp: M2_def of_nat_diff)
    qed
    with used t have tl: "tiled M' l 0 (xs @ Used_run m # Free_run (n - m) # ys)"
      using run(2) m by (simp add: tiled_append j_def)
    have free: "set (us @ j # vs) = set (free_starts 0 (xs @ Used_run m # Free_run (n - m) # ys))"
      using run(2,7) m by (auto simp: free_starts_append j_def)
    have jn: "j \<notin> set (us @ vs)" using run(8) je by fastforce
    have M'4: "sp_next (M' r) = sp_next (M4 r)" "sp_prev (M' r) = sp_prev (M4 r)"
      if "r \<in> insert Pg_Free (Pg_Page ` insert j (set (us @ vs)))" for r
    proof -
      have "M' r = M4 r"
      proof (cases r)
        case (Pg_Page k)
        then have "k < b \<or> b + m \<le> k" using that bspec [OF run(8), of k] m by (auto simp: j_def)
        then show ?thesis using Pg_Page m by (auto simp: M'_def)
      qed (simp_all add: M'_def)
      then show "sp_next (M' r) = sp_next (M4 r)" "sp_prev (M' r) = sp_prev (M4 r)" by simp_all
    qed
    have nx: "sp_next (M4 r) = (if r = p then Pg_Page j else if r = Pg_Page j then x else sp_next (M r))" for r
      by (simp add: M4_def M3_def M2_def M1_def)
    have pr: "sp_prev (M4 r) = sp_prev (M r)" if "r \<noteq> x" "r \<noteq> Pg_Page j" "r \<noteq> Pg_Page e" for r
      using that by (simp add: Ms)
    have "linked M' 0 Pg_Free (us @ j # vs) Pg_Free"
    proof (rule replace_ring [OF lk(1,2) _ jn])
      have jp: "p \<noteq> Pg_Page j" "x \<noteq> Pg_Page j" using out [of p j] out [of x j] je by auto
      show "sp_next (M' (Pg_Page j)) = sp_next (M (Pg_Page b))" using M'4 [of "Pg_Page j"] nx jp by (simp add: x_def)
      show "sp_prev (M' (Pg_Page j)) = sp_prev (M (Pg_Page b))"
        using M'4 [of "Pg_Page j"] jp by (simp add: M4_def M3_def M2_def pv(1))
      show "sp_next (M' (lst Pg_Free us)) = Pg_Page j"
        using M'4 [of p] nx lst_in [of Pg_Free us] by (auto simp: p_def [symmetric])
      show "sp_prev (M' (Pg_Page y)) = (Pg_Page j, 0)" if "vs = y # zs" for y zs
        using M'4 [of "Pg_Page y"] that x by (simp add: M4_def)
      show "sp_next (M' r) = sp_next (M r)" if "r \<in> insert Pg_Free (Pg_Page ` set (us @ vs))" "r \<noteq> lst Pg_Free us" for r
        using M'4 [of r] nx [of r] that jn by (auto simp: p_def)
      show "sp_prev (M' (Pg_Page y)) = sp_prev (M (Pg_Page y))" if y: "y \<in> set (us @ tl vs)" for y
      proof -
        have s: "y \<in> set (us @ vs)" using y by (cases vs) auto
        then have "y \<noteq> e" "y \<noteq> j" using bspec [OF run(8), of y] je by auto
        moreover have "Pg_Page y \<noteq> x" using y x lk(2) by (cases vs) auto
        ultimately show ?thesis using M'4 [of "Pg_Page y"] pr [of "Pg_Page y"] s by simp
      qed
    qed auto
    then show ?thesis using tl free I(2) lk(2) jn m run(1) by (simp add: pages_inv_def)
  qed
  ultimately show ?thesis unfolding j_def by blast
qed

text \<open>The allocation of a run: the first one of the free list that is large enough is used or split.\<close>

definition changed :: "(page_ref \<Rightarrow> stl_slab_page) \<Rightarrow> (page_ref \<Rightarrow> stl_slab_page) \<Rightarrow> nat set \<Rightarrow> bool" where
  "changed M M' A \<longleftrightarrow> (\<forall>r. r \<noteq> Pg_Free \<longrightarrow> r \<notin> Pg_Page ` A \<longrightarrow> M' r = M r)"

lemma alloc_pages_ok:
  assumes inv: "pages_inv M l ts fl" "l \<le> length (sl_pages t)" "l < 2 ^ 63" and m: "0 < m" "m < 2 ^ 64"
  obtains (none) "stl_slab_alloc_pages (with_pg t M) (of_nat m) = Some (None, with_pg t M)"
      "\<And>n. Free_run n \<in> set ts \<Longrightarrow> n < m"
  | (some) M' fl' xs n ys where
      "stl_slab_alloc_pages (with_pg t M) (of_nat m) =
        Some (Some (tlens xs), with_pg (t\<lparr>sl_pfree := sl_pfree t - of_nat m\<rparr>) M')"
      "ts = xs @ Free_run n # ys" "m \<le> n"
      "pages_inv M' l (xs @ Used_run m # (if m < n then [Free_run (n - m)] else []) @ ys) fl'"
      "changed M M' (set fl \<union> {tlens xs..<tlens xs + n})"
proof -
  have I: "linked M 0 Pg_Free fl Pg_Free" using inv(1) by (simp add: pages_inv_def)
  have vl: "\<forall>b\<in>set fl. b < length (sl_pages t)"
  proof
    fix b assume "b \<in> set fl"
    then have "b < l" using free_less [OF inv(1)] by simp
    then show "b < length (sl_pages t)" using inv(2) by linarith
  qed
  define P where "P = (\<lambda>b. (of_nat m :: u64) \<le> sp_slab (M (Pg_Page b)))"
  have f: "find_run (with_pg t M) (of_nat m) (sp_next (M Pg_Free)) =
      Some (case find P fl of None \<Rightarrow> Pg_Null | Some b \<Rightarrow> Pg_Page b)"
    unfolding P_def by (rule find_run_ok [OF I vl])
  show thesis
  proof (cases "find P fl")
    case None
    show thesis
    proof (rule none)
      show "stl_slab_alloc_pages (with_pg t M) (of_nat m) = Some (None, with_pg t M)"
        using f None by (simp add: stl_slab_alloc_pages_def)
      fix n assume "Free_run n \<in> set ts"
      then obtain xs ys where t: "ts = xs @ Free_run n # ys" using split_list by fast
      then have "tlens xs \<in> set fl" "tile_ok M l (tlens xs) (Free_run n)" "n \<le> l"
        using inv(1) by (auto simp: pages_inv_def tiled_append free_starts_append)
      then show "n < m" using None m inv(3) by (auto simp: find_None_iff P_def of_nat_le_u64)
    qed
  next
    case (Some b)
    then have "b \<in> set fl" "P b" by (auto simp: find_Some_iff)
    from at_free_run [OF inv(1) this(1)] obtain xs n ys us vs where
      run: "ts = xs @ Free_run n # ys" "b = tlens xs" "fl = us @ b # vs" "0 < n" "b + n \<le> l"
      "tile_ok M l b (Free_run n)" "set (us @ vs) = set (free_starts 0 xs) \<union> set (free_starts (b + n) ys)"
      "\<forall>k\<in>set (us @ vs). k < b \<or> b + n \<le> k" "\<forall>k\<in>set fl. k < l" .
    have "n < 2 ^ 64" using run(5) inv(3) by simp
    then have mn: "m \<le> n" using \<open>P b\<close> run(6) m(2) by (simp add: P_def of_nat_le_u64)
    have al: "stl_slab_alloc_pages (with_pg t M) (of_nat m) =
        do { t \<leftarrow> take_run b (of_nat m) (with_pg t M); Some (Some b, t) }"
      using f Some by (simp add: stl_slab_alloc_pages_def)
    show thesis
    proof (cases "m < n")
      case True
      obtain M' where "take_run b (of_nat m) (with_pg t M) = Some (with_pg (t\<lparr>sl_pfree := sl_pfree t - of_nat m\<rparr>) M')"
        "pages_inv M' l (xs @ Used_run m # Free_run (n - m) # ys) (us @ (b + m) # vs)"
        "\<forall>r. r \<noteq> Pg_Free \<longrightarrow> r \<notin> Pg_Page ` set (us @ vs) \<longrightarrow> r \<notin> Pg_Page ` {b..<b + n} \<longrightarrow> M' r = M r"
        using take_part [OF inv run m(1) True] by blast
      with al True run mn show thesis by (intro some [of xs M' n ys]) (auto simp: changed_def)
    next
      case False
      then have "m = n" using mn by simp
      moreover obtain M' where "take_run b (of_nat n) (with_pg t M) = Some (with_pg (t\<lparr>sl_pfree := sl_pfree t - of_nat n\<rparr>) M')"
        "pages_inv M' l (xs @ Used_run n # ys) (us @ vs)"
        "\<forall>r. r \<noteq> Pg_Free \<longrightarrow> r \<notin> Pg_Page ` set (us @ vs) \<longrightarrow> r \<notin> Pg_Page ` {b..<b + n} \<longrightarrow> M' r = M r"
        using take_whole [OF inv run] by blast
      ultimately show thesis using al run mn by (intro some [of xs M' n ys]) (auto simp: changed_def)
    qed
  qed
qed

section \<open>Giving a run back\<close>

text \<open>A run on its way back: the pages \<open>b\<close> to \<open>b + n - 1\<close> are neither tiled nor listed.\<close>

definition loose :: "(page_ref \<Rightarrow> stl_slab_page) \<Rightarrow> nat \<Rightarrow> tile list \<Rightarrow> nat \<Rightarrow> nat \<Rightarrow> tile list \<Rightarrow> nat list \<Rightarrow> bool" where
  "loose N l xs b n ys fl \<longleftrightarrow> tlens xs = b \<and> b + n + tlens ys = l \<and> 0 < n \<and> tiled N l 0 xs \<and> tiled N l (b + n) ys \<and>
     distinct fl \<and> set fl = set (free_starts 0 xs) \<union> set (free_starts (b + n) ys) \<and> linked N 0 Pg_Free fl Pg_Free \<and>
     sp_slab (N (Pg_Page b)) = of_nat n \<and>
     (1 < n \<longrightarrow> sp_slab (N (Pg_Page (b + n - 1))) = 0 \<and> snd (sp_prev (N (Pg_Page (b + n - 1)))) = 0)"

lemma loose_outside:
  assumes "loose N l xs b n ys fl" "k \<in> set fl"
  shows "k < b \<or> b + n \<le> k" "k < l"
proof -
  from assms have "k \<in> set (free_starts 0 xs) \<or> k \<in> set (free_starts (b + n) ys)" by (auto simp: loose_def)
  then show "k < b \<or> b + n \<le> k" "k < l"
    using free_starts_range [of N l 0 xs k] free_starts_range [of N l "b + n" ys k] assms(1) by (auto simp: loose_def)
qed

text \<open>A free page of the ring is marked as such.\<close>

lemma linked_free:
  assumes "linked M ty h (us @ c # vs) h" "h \<noteq> Pg_Null"
  shows "snd (sp_prev (M (Pg_Page c))) = ty" "sp_next (M (Pg_Page c)) \<noteq> Pg_Null" "sp_prev (M (Pg_Page c)) = (lst h us, ty)"
  using assms linked_valid_next [of M ty "Pg_Page c" vs h] by (auto simp: linked_Cons)

lemma join_behind_ok:
  assumes L: "loose N l xs b n ys fl" and t: "sl_last t = l" "l \<le> length (sl_pages t)" "l < 2 ^ 63"
  shows "\<exists>N' m zs fl'. join_behind (Pg_Page b) (b + n) (of_nat (n - 1)) (with_pg t N) = Some (of_nat (n + m - 1), with_pg t N') \<and>
    loose N' l xs b (n + m) zs fl' \<and> (ys = Free_run m # zs \<or> m = 0 \<and> zs = ys \<and> (\<forall>q qs. ys \<noteq> Free_run q # qs)) \<and>
    changed N N' (set fl \<union> {b..<b + (n + m)}) \<and> set fl' \<subseteq> set fl"
proof -
  have keep: "\<exists>N' m zs fl'. join_behind (Pg_Page b) (b + n) (of_nat (n - 1)) (with_pg t N) = Some (of_nat (n + m - 1), with_pg t N') \<and>
    loose N' l xs b (n + m) zs fl' \<and> (ys = Free_run m # zs \<or> m = 0 \<and> zs = ys \<and> (\<forall>q qs. ys \<noteq> Free_run q # qs)) \<and>
    changed N N' (set fl \<union> {b..<b + (n + m)}) \<and> set fl' \<subseteq> set fl"
    if "join_behind (Pg_Page b) (b + n) (of_nat (n - 1)) (with_pg t N) = Some (of_nat (n - 1), with_pg t N)"
      "\<forall>q qs. ys \<noteq> Free_run q # qs"
    by (rule exI [of _ N], rule exI [of _ 0], rule exI [of _ ys], rule exI [of _ fl])
      (use that L in \<open>simp add: changed_def\<close>)
  show ?thesis
  proof (cases ys)
    case Nil
    then have "b + n = l" using L by (simp add: loose_def)
    then show ?thesis using Nil by (intro keep) (simp_all add: join_behind_def t)
  next
    case (Cons y zs)
    then have lt: "b + n < l" and ok: "tile_ok N l (b + n) y"
      using L tile_ok_pos [of N l "b + n" y] by (auto simp: loose_def)
    show ?thesis
    proof (cases "\<exists>m. y = Free_run m")
      case False
      then have "stl_slab_pageype (N (Pg_Page (b + n))) \<noteq> STL_SLAB_PAGE \<or> sp_next (N (Pg_Page (b + n))) = Pg_Null"
        using ok by (cases y) (auto simp: stl_slab_pageype_def STL_SLAB_PAGE_def run_page_def)
      then show ?thesis using lt t Cons False by (intro keep) (auto simp: join_behind_def)
    next
      case True
      then obtain m where y: "y = Free_run m" by blast
      define c where "c = b + n"
      have c: "c \<in> set fl" "0 < m" "c + m \<le> l" "b < c" using L Cons y ok lt by (auto simp: loose_def c_def)
      then obtain us vs where fl: "fl = us @ c # vs" using split_list by fast
      have lk: "linked N 0 Pg_Free (us @ c # vs) Pg_Free" "distinct (us @ c # vs)" using L fl by (auto simp: loose_def)
      define N1 where "N1 = N(Pg_Page b := (N (Pg_Page b))\<lparr>sp_slab := of_nat (n + m)\<rparr>)"
      have bf: "b \<notin> set fl" using loose_outside [OF L, of b] L by (auto simp: loose_def)
      have lk1: "linked N1 0 Pg_Free (us @ c # vs) Pg_Free"
        by (rule linked_cong [OF lk(1)]) (use bf fl in \<open>auto simp: N1_def\<close>)
      define N2 where "N2 = relink (lst Pg_Free us) (Pg_Page c) N1"
      have pv: "sp_prev (N1 (Pg_Page c)) = (lst Pg_Free us, 0)" "sp_next (N1 (Pg_Page c)) \<noteq> Pg_Null"
        using linked_free [OF lk1] by simp_all
      have N1c: "N1 (Pg_Page c) = N (Pg_Page c)" using c by (simp add: N1_def)
      have hd: "Pg_Free \<notin> range Pg_Page" by auto
      note U = unlink_ring [OF lk1 lk(2) hd, unfolded pv(1) fst_conv N2_def [symmetric]]
      define N' where "N' = N2(Pg_Page c := free_page)"
      have vl: "\<forall>k\<in>set fl. k < length (sl_pages t)" using loose_outside(2) [OF L] t(2) by fastforce
      have v: "valid t (lst Pg_Free us)" "lst Pg_Free us \<noteq> Pg_Page c" "valid t (sp_next (N1 (Pg_Page c)))"
      proof -
        show "valid t (lst Pg_Free us)" "lst Pg_Free us \<noteq> Pg_Page c"
          using lst_in [of Pg_Free us] vl fl lk(2) by auto
        have "linked N1 0 (Pg_Page c) vs Pg_Free" using lk1 by (simp add: linked_Cons)
        then show "valid t (sp_next (N1 (Pg_Page c)))" using linked_valid_next vl fl by fastforce
      qed
      have sl: "sp_slab (N (Pg_Page c)) = of_nat m" "sp_slab (N (Pg_Page b)) = of_nat n"
        using ok y L by (auto simp: c_def loose_def)
      have w: "(of_nat (n - 1) :: u64) + of_nat m = of_nat (n + m - 1)"
        using L by (simp add: loose_def of_nat_diff flip: of_nat_add)
      have b1: "page_upd (Pg_Page b) (\<lambda>x. x\<lparr>sp_slab := sp_slab x + of_nat m\<rparr>) (with_pg t N) = Some (with_pg t N1)"
        using c t(2) sl(2) by (simp add: N1_def)
      have b2: "slab_unlink (lst Pg_Free us) (Pg_Page c) (with_pg t N1) = Some (with_pg t N2)"
        using v vl fl by (simp add: slab_unlink_with N2_def)
      have b3: "page_upd (Pg_Page c) (\<lambda>_. free_page) (with_pg t N2) = Some (with_pg t N')"
        using vl fl by (simp add: N'_def)
      have "join_behind (Pg_Page b) c (of_nat (n - 1)) (with_pg t N) = Some (of_nat (n - 1) + of_nat m, with_pg t N')"
        using c t vl fl lt pv N1c sl(1)
        by (simp add: join_behind_def b1 b2 b3 stl_slab_pageype_def STL_SLAB_PAGE_def stl_slab_page_prev_def c_def [symmetric]
            del: page_upd_with)
      then have J: "join_behind (Pg_Page b) c (of_nat (n - 1)) (with_pg t N) = Some (of_nat (n + m - 1), with_pg t N')"
        unfolding w .
      have out: "N' (Pg_Page k) = N (Pg_Page k)" if "k \<noteq> b" "k \<notin> set fl" for k
        using that U(3) [of "Pg_Page k"] fl c by (auto simp: N'_def N1_def)
      have slab: "sp_slab (N' (Pg_Page k)) = sp_slab (N (Pg_Page k))" if "k \<noteq> b" "k \<noteq> c" for k
        using that U(4) [of "Pg_Page k"] by (simp add: N'_def N1_def)
      have parts: "tiled N l 0 xs" "tiled N l (c + m) zs" "tlens xs = b" "c + m + tlens zs = l"
        "set fl = set (free_starts 0 xs) \<union> {c} \<union> set (free_starts (c + m) zs)"
        using L Cons y by (auto simp: loose_def c_def add.assoc)
      have rx: "k < b" if "k \<in> set (free_starts 0 xs)" for k using free_starts_range [OF parts(1) that] parts(3) by simp
      have rz: "c + m \<le> k" if "k \<in> set (free_starts (c + m) zs)" for k using free_starts_range [OF parts(2) that] by simp
      have "loose N' l xs b (n + m) zs (us @ vs)"
      proof -
        have "tiled N' l 0 xs"
        proof (rule tiled_same' [OF parts(1)])
          fix k assume k: "k < 0 + tlens xs"
          then show "sp_slab (N' (Pg_Page k)) = sp_slab (N (Pg_Page k))" using slab [of k] parts(3) c(4) by simp
          assume "k \<notin> set (free_starts 0 xs)"
          then have "k \<notin> set fl" unfolding parts(5) using k rz [of k] parts(3) c(4) by auto
          then show "like N N' k" using out [of k] k parts(3) by simp
        qed
        moreover have "tiled N' l (c + m) zs"
        proof (rule tiled_same' [OF parts(2)])
          fix k assume k: "c + m \<le> k"
          then show "sp_slab (N' (Pg_Page k)) = sp_slab (N (Pg_Page k))" using slab [of k] c by simp
          assume "k \<notin> set (free_starts (c + m) zs)"
          then have "k \<notin> set fl" unfolding parts(5) using k rx [of k] c by auto
          then show "like N N' k" using out [of k] k c by simp
        qed
        moreover have "set (us @ vs) = set (free_starts 0 xs) \<union> set (free_starts (c + m) zs)"
        proof (rule insert_ident [THEN iffD1])
          show "insert c (set (us @ vs)) = insert c (set (free_starts 0 xs) \<union> set (free_starts (c + m) zs))"
            using parts(5) fl by auto
          show "c \<notin> set (us @ vs)" using lk(2) by auto
          show "c \<notin> set (free_starts 0 xs) \<union> set (free_starts (c + m) zs)" using rx [of c] rz [of c] c by auto
        qed
        moreover have "linked N' 0 Pg_Free (us @ vs) Pg_Free"
          by (rule linked_cong [OF U(1)]) (use lk(2) in \<open>auto simp: N'_def\<close>)
        moreover have "sp_slab (N' (Pg_Page b)) = of_nat (n + m)"
          using U(4) [of "Pg_Page b"] c by (simp add: N'_def N1_def)
        moreover have "sp_slab (N' (Pg_Page (c + m - 1))) = 0 \<and> snd (sp_prev (N' (Pg_Page (c + m - 1)))) = 0"
        proof (cases "m = 1")
          case True
          then show ?thesis by (simp add: N'_def free_page_def STL_SLAB_PAGE_FREE_def STL_SLAB_PAGE_def)
        next
          case False
          have "c + m - 1 \<notin> set fl" unfolding parts(5) using rx [of "c + m - 1"] rz [of "c + m - 1"] c False by auto
          then have "N' (Pg_Page (c + m - 1)) = N (Pg_Page (c + m - 1))" using out c by simp
          then show ?thesis using ok y False c by (simp add: c_def)
        qed
        ultimately show ?thesis using parts lk(2) c L by (simp add: loose_def c_def add.assoc)
      qed
      moreover have "changed N N' (set fl \<union> {b..<b + (n + m)})"
        unfolding changed_def
      proof (intro allI impI)
        fix r assume r: "r \<noteq> Pg_Free" "r \<notin> Pg_Page ` (set fl \<union> {b..<b + (n + m)})"
        then have "r \<noteq> Pg_Page b" "r \<noteq> Pg_Page c" "r \<notin> Pg_Page ` set (us @ vs)" using c fl by (auto simp: c_def)
        then show "N' r = N r" using U(3) [of r] r(1) by (simp add: N'_def N1_def)
      qed
      moreover have "set (us @ vs) \<subseteq> set fl" using fl by auto
      ultimately show ?thesis using J Cons y
        by (intro exI [of _ N'] exI [of _ m] exI [of _ zs] exI [of _ "us @ vs"]) (simp add: c_def)
    qed
  qed
qed

lemma join_before_ok:
  assumes L: "loose N l xs b n ys fl" and t: "sl_last t = l" "l \<le> length (sl_pages t)" "l < 2 ^ 63"
  shows "\<exists>N' k ws fl'. join_before b (of_nat (n - 1)) (with_pg t N) = Some (of_nat (n + k - 1), Pg_Page (b - k), with_pg t N') \<and>
    loose N' l ws (b - k) (n + k) ys fl' \<and> (xs = ws @ [Free_run k] \<or> k = 0 \<and> ws = xs \<and> (\<forall>q qs. xs \<noteq> qs @ [Free_run q])) \<and> k \<le> b \<and>
    changed N N' (set fl \<union> {b - k..<b + n}) \<and> set fl' \<subseteq> set fl"
proof -
  have keep: "\<exists>N' k ws fl'. join_before b (of_nat (n - 1)) (with_pg t N) = Some (of_nat (n + k - 1), Pg_Page (b - k), with_pg t N') \<and>
    loose N' l ws (b - k) (n + k) ys fl' \<and> (xs = ws @ [Free_run k] \<or> k = 0 \<and> ws = xs \<and> (\<forall>q qs. xs \<noteq> qs @ [Free_run q])) \<and> k \<le> b \<and>
    changed N N' (set fl \<union> {b - k..<b + n}) \<and> set fl' \<subseteq> set fl"
    if "join_before b (of_nat (n - 1)) (with_pg t N) = Some (of_nat (n - 1), Pg_Page b, with_pg t N)"
      "\<forall>q qs. xs \<noteq> qs @ [Free_run q]"
    by (rule exI [of _ N], rule exI [of _ 0], rule exI [of _ xs], rule exI [of _ fl])
      (use that L in \<open>simp add: changed_def\<close>)
  have len: "b < length (sl_pages t)" using L t(2) by (auto simp: loose_def)
  show ?thesis
  proof (cases xs rule: rev_cases)
    case Nil
    then have "b = 0" using L by (simp add: loose_def)
    then show ?thesis using Nil by (intro keep) (simp_all add: join_before_def)
  next
    case (snoc ws y)
    then have ok: "tile_ok N l (tlens ws) y" and bt: "tlens ws + tlen y = b" "0 < tlen y"
      using L tile_ok_pos [of N l "tlens ws" y] by (auto simp: loose_def tiled_append)
    show ?thesis
    proof (cases "\<exists>k. y = Free_run k")
      case False
      have "stl_slab_pageype (N (Pg_Page (b - 1))) \<noteq> STL_SLAB_PAGE \<or>
          sp_slab (N (Pg_Page (b - 1))) \<noteq> STL_SLAB_PAGE_FREE \<and> sp_next (N (Pg_Page (b - 1))) = Pg_Null"
      proof (cases y)
        case (Used_run k)
        show ?thesis
        proof (cases "k = 1")
          case True
          have "(1 :: u64) OR 0x8000000000000000 \<noteq> 0" by simp
          with True show ?thesis using ok Used_run bt
            by (auto simp: run_page_def STL_SLAB_PAGE_FREE_def STL_SLAB_PAGE_START_def)
        next
          case False
          then have "N (Pg_Page (b - 1)) = busy_page" using ok Used_run bt by auto
          then show ?thesis by (simp add: busy_page_def STL_SLAB_PAGE_FREE_def STL_SLAB_PAGE_BUSY_def)
        qed
      next
        case Cut
        then show ?thesis using ok bt by (auto simp: stl_slab_pageype_def STL_SLAB_PAGE_def)
      qed (use False in auto)
      then show ?thesis using len snoc False by (intro keep) (auto simp: join_before_def join_head_def)
    next
      case True
      then obtain k where y: "y = Free_run k" by blast
      define c where "c = tlens ws"
      have ck: "0 < k" "c + k = b" "c < b" using bt y by (auto simp: c_def)
      have c: "c \<in> set fl" using L snoc y by (simp add: loose_def c_def free_starts_append)
      then obtain us vs where fl: "fl = us @ c # vs" using split_list by fast
      have lk: "linked N 0 Pg_Free (us @ c # vs) Pg_Free" "distinct (us @ c # vs)" using L fl by (auto simp: loose_def)
      have vl: "\<forall>k\<in>set fl. k < length (sl_pages t)" using loose_outside(2) [OF L] t(2) by fastforce
      have bl: "b < l" using L by (auto simp: loose_def)
      have j: "join_head b (N (Pg_Page (b - Suc 0))) = Pg_Page c"
        and jt: "stl_slab_pageype (N (Pg_Page (b - 1))) = STL_SLAB_PAGE"
      proof -
        have "c + k - 1 = b - 1" using ck by simp
        then show "join_head b (N (Pg_Page (b - Suc 0))) = Pg_Page c" "stl_slab_pageype (N (Pg_Page (b - 1))) = STL_SLAB_PAGE"
          using ok y ck bl linked_free(1) [OF lk(1)]
          by (cases "k = 1"; auto simp: c_def [symmetric] join_head_def STL_SLAB_PAGE_FREE_def STL_SLAB_PAGE_def
              stl_slab_pageype_def stl_slab_page_prev_def)+
      qed
      define N1 where "N1 = N(Pg_Page c := (N (Pg_Page c))\<lparr>sp_slab := of_nat (n + k)\<rparr>)"
      have lk1: "linked N1 0 Pg_Free (us @ c # vs) Pg_Free"
        by (rule linked_cong [OF lk(1)]) (auto simp: N1_def)
      have pv: "sp_prev (N (Pg_Page c)) = (lst Pg_Free us, 0)" "sp_next (N (Pg_Page c)) \<noteq> Pg_Null"
        using linked_free [OF lk(1)] by simp_all
      have pv1: "sp_prev (N1 (Pg_Page c)) = (lst Pg_Free us, 0)" by (simp add: N1_def pv)
      define N2 where "N2 = relink (lst Pg_Free us) (Pg_Page c) N1"
      have hd: "Pg_Free \<notin> range Pg_Page" by auto
      note U = unlink_ring [OF lk1 lk(2) hd, unfolded pv1 fst_conv N2_def [symmetric]]
      define N' where "N' = N2(Pg_Page b := free_page)"
      have v: "valid t (lst Pg_Free us)" "lst Pg_Free us \<noteq> Pg_Page c" "valid t (sp_next (N1 (Pg_Page c)))"
      proof -
        show "valid t (lst Pg_Free us)" "lst Pg_Free us \<noteq> Pg_Page c"
          using lst_in [of Pg_Free us] vl fl lk(2) by auto
        have "linked N1 0 (Pg_Page c) vs Pg_Free" using lk1 by (simp add: linked_Cons)
        then show "valid t (sp_next (N1 (Pg_Page c)))" using linked_valid_next vl fl by fastforce
      qed
      have sl: "sp_slab (N (Pg_Page c)) = of_nat k" "sp_slab (N (Pg_Page b)) = of_nat n"
        using ok y L by (auto simp: c_def loose_def)
      have w: "(of_nat (n - 1) :: u64) + of_nat k = of_nat (n + k - 1)" "(of_nat k :: u64) + of_nat n = of_nat (n + k)"
        using L by (simp_all add: loose_def of_nat_diff add.commute flip: of_nat_add)
      have b1: "page_upd (Pg_Page c) (\<lambda>x. x\<lparr>sp_slab := sp_slab x + of_nat n\<rparr>) (with_pg t N) = Some (with_pg t N1)"
        using vl c sl w by (simp add: N1_def add.commute)
      have b2: "slab_unlink (lst Pg_Free us) (Pg_Page c) (with_pg t N1) = Some (with_pg t N2)"
        using v vl fl by (simp add: slab_unlink_with N2_def)
      have b3: "page_upd (Pg_Page b) (\<lambda>_. free_page) (with_pg t N2) = Some (with_pg t N')"
        using len by (simp add: N'_def)
      have "join_before b (of_nat (n - 1)) (with_pg t N) = Some (of_nat (n - 1) + of_nat k, Pg_Page c, with_pg t N')"
        using ck len vl c pv sl(1) jt
        by (simp add: join_before_def j b1 b2 b3 sl(2) stl_slab_page_prev_def del: page_upd_with)
      then have J: "join_before b (of_nat (n - 1)) (with_pg t N) = Some (of_nat (n + k - 1), Pg_Page (b - k), with_pg t N')"
        using ck unfolding w(1) by (metis add_diff_cancel_right')
      have bf: "b \<notin> set fl" using loose_outside [OF L, of b] L by (auto simp: loose_def)
      have out: "N' (Pg_Page q) = N (Pg_Page q)" if "q \<noteq> b" "q \<notin> set fl" for q
        using that U(3) [of "Pg_Page q"] fl c by (auto simp: N'_def N1_def)
      have slab: "sp_slab (N' (Pg_Page q)) = sp_slab (N (Pg_Page q))" if "q \<noteq> b" "q \<noteq> c" for q
        using that U(4) [of "Pg_Page q"] by (simp add: N'_def N1_def)
      have parts: "tiled N l 0 ws" "tiled N l (b + n) ys" "tlens ws = c" "b + n + tlens ys = l"
        "set fl = set (free_starts 0 ws) \<union> {c} \<union> set (free_starts (b + n) ys)" "0 < n"
        using L snoc y by (auto simp: loose_def c_def tiled_append free_starts_append)
      have rx: "q < c" if "q \<in> set (free_starts 0 ws)" for q using free_starts_range [OF parts(1) that] parts(3) by simp
      have rz: "b + n \<le> q" if "q \<in> set (free_starts (b + n) ys)" for q using free_starts_range [OF parts(2) that] by simp
      have "loose N' l ws c (n + k) ys (us @ vs)"
      proof -
        have "tiled N' l 0 ws"
        proof (rule tiled_same' [OF parts(1)])
          fix q assume q: "q < 0 + tlens ws"
          then show "sp_slab (N' (Pg_Page q)) = sp_slab (N (Pg_Page q))" using slab [of q] parts(3) ck by simp
          assume "q \<notin> set (free_starts 0 ws)"
          then have "q \<notin> set fl" unfolding parts(5) using q rz [of q] parts(3) ck by auto
          then show "like N N' q" using out [of q] q parts(3) ck by simp
        qed
        moreover have "tiled N' l (b + n) ys"
        proof (rule tiled_same' [OF parts(2)])
          fix q assume q: "b + n \<le> q"
          then show "sp_slab (N' (Pg_Page q)) = sp_slab (N (Pg_Page q))" using slab [of q] ck parts(6) by simp
          assume "q \<notin> set (free_starts (b + n) ys)"
          then have "q \<notin> set fl" unfolding parts(5) using q rx [of q] ck by auto
          then show "like N N' q" using out [of q] q parts(6) by simp
        qed
        moreover have "set (us @ vs) = set (free_starts 0 ws) \<union> set (free_starts (b + n) ys)"
        proof (rule insert_ident [THEN iffD1])
          show "insert c (set (us @ vs)) = insert c (set (free_starts 0 ws) \<union> set (free_starts (b + n) ys))"
            using parts(5) fl by auto
          show "c \<notin> set (us @ vs)" using lk(2) by auto
          show "c \<notin> set (free_starts 0 ws) \<union> set (free_starts (b + n) ys)" using rx [of c] rz [of c] ck by auto
        qed
        moreover have "linked N' 0 Pg_Free (us @ vs) Pg_Free"
          by (rule linked_cong [OF U(1)]) (use bf fl in \<open>auto simp: N'_def\<close>)
        moreover have "sp_slab (N' (Pg_Page c)) = of_nat (n + k)"
          using U(4) [of "Pg_Page c"] ck by (simp add: N'_def N1_def)
        moreover have "sp_slab (N' (Pg_Page (b + n - 1))) = 0 \<and> snd (sp_prev (N' (Pg_Page (b + n - 1)))) = 0"
        proof (cases "n = 1")
          case True
          then show ?thesis by (simp add: N'_def free_page_def STL_SLAB_PAGE_FREE_def STL_SLAB_PAGE_def)
        next
          case False
          have "b + n - 1 \<notin> set fl" unfolding parts(5) using rx [of "b + n - 1"] rz [of "b + n - 1"] ck parts(6) False by auto
          then have "N' (Pg_Page (b + n - 1)) = N (Pg_Page (b + n - 1))" using out parts(6) False by simp
          then show ?thesis using L parts(6) False by (simp add: loose_def)
        qed
        moreover have cn: "c + (n + k) = b + n" using ck by simp
        ultimately show ?thesis using parts lk(2) by (simp add: loose_def cn)
      qed
      moreover have "changed N N' (set fl \<union> {c..<b + n})"
        unfolding changed_def
      proof (intro allI impI)
        fix r assume r: "r \<noteq> Pg_Free" "r \<notin> Pg_Page ` (set fl \<union> {c..<b + n})"
        then have "r \<noteq> Pg_Page b" "r \<noteq> Pg_Page c" "r \<notin> Pg_Page ` set (us @ vs)" using ck fl parts(6) by auto
        then show "N' r = N r" using U(3) [of r] r(1) by (simp add: N'_def N1_def)
      qed
      moreover have "set (us @ vs) \<subseteq> set fl" "b - k = c" using fl ck by auto
      ultimately show ?thesis using J snoc y ck
        by (intro exI [of _ N'] exI [of _ k] exI [of _ ws] exI [of _ "us @ vs"]) simp
    qed
  qed
qed

text \<open>The end of the release: the joined run goes to the head of the free list.\<close>

definition put_run :: "nat \<Rightarrow> nat \<Rightarrow> (page_ref \<Rightarrow> stl_slab_page) \<Rightarrow> page_ref \<Rightarrow> stl_slab_page" where
  "put_run b n N = (let
     N1 = (if n = 1 then N else N(Pg_Page (b + n - 1) := (N (Pg_Page (b + n - 1)))\<lparr>sp_prev := (Pg_Page b, 0)\<rparr>));
     N2 = N1(Pg_Page b := (N1 (Pg_Page b))\<lparr>sp_prev := (Pg_Free, 0), sp_next := sp_next (N Pg_Free)\<rparr>);
     x = sp_next (N Pg_Free);
     N3 = N2(x := (N2 x)\<lparr>sp_prev := (Pg_Page b, 0)\<rparr>)
   in N3(Pg_Free := (N3 Pg_Free)\<lparr>sp_next := Pg_Page b\<rparr>))"

lemma put_run_ok:
  assumes L: "loose N l xs b n ys fl"
  shows "pages_inv (put_run b n N) l (xs @ Free_run n # ys) (b # fl)"
    and "changed N (put_run b n N) (set fl \<union> {b..<b + n})"
proof -
  define x where "x = sp_next (N Pg_Free)"
  define N1 where "N1 = (if n = 1 then N else N(Pg_Page (b + n - 1) := (N (Pg_Page (b + n - 1)))\<lparr>sp_prev := (Pg_Page b, 0)\<rparr>))"
  define N2 where "N2 = N1(Pg_Page b := (N1 (Pg_Page b))\<lparr>sp_prev := (Pg_Free, 0), sp_next := x\<rparr>)"
  define N3 where "N3 = N2(x := (N2 x)\<lparr>sp_prev := (Pg_Page b, 0)\<rparr>)"
  define M' where "M' = N3(Pg_Free := (N3 Pg_Free)\<lparr>sp_next := Pg_Page b\<rparr>)"
  have M': "put_run b n N = M'" by (simp add: put_run_def Let_def M'_def N3_def N2_def N1_def x_def)
  have parts: "tlens xs = b" "b + n + tlens ys = l" "0 < n" "tiled N l 0 xs" "tiled N l (b + n) ys" "distinct fl"
    "set fl = set (free_starts 0 xs) \<union> set (free_starts (b + n) ys)" "linked N 0 Pg_Free fl Pg_Free"
    "sp_slab (N (Pg_Page b)) = of_nat n"
    using L by (simp_all add: loose_def)
  have x: "x = (case fl of [] \<Rightarrow> Pg_Free | y # _ \<Rightarrow> Pg_Page y)" using parts(8) by (cases fl) (auto simp: x_def)
  have out: "q < b \<or> b + n \<le> q" if "q \<in> set fl" for q using loose_outside(1) [OF L that] .
  have xn: "x \<noteq> Pg_Page q" if "b \<le> q" "q < b + n" for q
    using x out [of q] that by (cases fl) auto
  have slab: "sp_slab (M' r) = sp_slab (N r)" for r by (simp add: M'_def N3_def N2_def N1_def)
  have same: "M' r = N r" if "r \<noteq> Pg_Free" "r \<notin> Pg_Page ` set fl" "r \<noteq> Pg_Page b" "r \<noteq> Pg_Page (b + n - 1)" for r
  proof -
    have "r \<noteq> x" using that x by (cases fl) auto
    then show ?thesis using that by (simp add: M'_def N3_def N2_def N1_def)
  qed
  have last: "sp_prev (M' (Pg_Page (b + n - 1))) = (Pg_Page b, 0)" if "1 < n"
    using that xn [of "b + n - 1"] by (auto simp: M'_def N3_def N2_def N1_def)
  have "tiled M' l 0 xs"
  proof (rule tiled_same' [OF parts(4)])
    fix q assume q: "q < 0 + tlens xs" "q \<notin> set (free_starts 0 xs)"
    then have "q \<notin> set fl" unfolding parts(7) using free_starts_range [OF parts(5), of q] parts(1) by auto
    then show "like N M' q" using q parts(1,3) by (intro like_eq same) auto
  qed (simp add: slab)
  moreover have "tiled M' l (b + n) ys"
  proof (rule tiled_same' [OF parts(5)])
    fix q assume q: "b + n \<le> q" "q \<notin> set (free_starts (b + n) ys)"
    then have "q \<notin> set fl" unfolding parts(7) using free_starts_range [OF parts(4), of q] parts(1) by auto
    then show "like N M' q" using q parts(3) by (intro like_eq same) auto
  qed (simp add: slab)
  moreover have "tile_ok M' l b (Free_run n)"
    using parts(3,9) last L by (auto simp: slab loose_def)
  moreover have "linked M' 0 Pg_Free (b # fl) Pg_Free"
  proof (rule push_ring [OF parts(8)])
    show "b \<notin> set fl" using out [of b] parts(3) by auto
    show "sp_next (M' (Pg_Page b)) = sp_next (N Pg_Free)" by (simp add: M'_def N3_def N2_def x_def)
    show "sp_prev (M' (Pg_Page b)) = (Pg_Free, 0)" using xn [of b] parts(3) by (auto simp: M'_def N3_def N2_def)
    show "sp_next (M' Pg_Free) = Pg_Page b" by (simp add: M'_def)
    show "sp_prev (M' (Pg_Page y)) = (Pg_Page b, 0)" if "fl = y # zs" for y zs
      using x that by (simp add: M'_def N3_def)
    show "sp_next (M' (Pg_Page y)) = sp_next (N (Pg_Page y))" if "y \<in> set fl" for y
      using out [OF that] parts(3) by (auto simp: M'_def N3_def N2_def N1_def)
    show "sp_prev (M' (Pg_Page y)) = sp_prev (N (Pg_Page y))" if "y \<in> set (tl fl)" for y
    proof -
      have "Pg_Page y \<noteq> x" using x that parts(6) by (cases fl) auto
      moreover have "y \<in> set fl" using that by (cases fl) auto
      ultimately show ?thesis using out [of y] parts(3) by (auto simp: M'_def N3_def N2_def N1_def)
    qed
  qed (use parts in auto)
  moreover have "b \<notin> set fl" using out [of b] parts(3) by auto
  ultimately show "pages_inv (put_run b n N) l (xs @ Free_run n # ys) (b # fl)"
    using parts by (simp add: M' pages_inv_def tiled_append free_starts_append)
  show "changed N (put_run b n N) (set fl \<union> {b..<b + n})"
    unfolding M' changed_def
  proof (intro allI impI)
    fix r assume r: "r \<noteq> Pg_Free" "r \<notin> Pg_Page ` (set fl \<union> {b..<b + n})"
    then have "r \<noteq> Pg_Page b" "r \<noteq> Pg_Page (b + n - 1)" using parts(3) by auto
    then show "M' r = N r" using same [of r] r by auto
  qed
qed

text \<open>A run in use, or a cut page that its slot list has given up, goes back: it is joined with the free runs
  beside it.\<close>

lemma changed_trans: "changed M N A \<Longrightarrow> changed N K B \<Longrightarrow> A \<subseteq> C \<Longrightarrow> B \<subseteq> C \<Longrightarrow> changed M K C"
  unfolding changed_def by (metis image_mono subsetD)

lemma free_tail_ok:
  assumes L: "loose N l xs b n ys fl" and t: "sl_last t = l" "l \<le> length (sl_pages t)" "l < 2 ^ 63"
  shows "\<exists>M' fl' ws zs k m. (do {
       (pages, t) \<leftarrow> join_behind (Pg_Page b) (b + n) (of_nat (n - 1)) (with_pg t N);
       (pages, page, t) \<leftarrow> join_before b pages t;
       list_run page pages t }) = Some (with_pg t M') \<and>
    pages_inv M' l (ws @ Free_run (k + n + m) # zs) fl' \<and>
    (xs = ws @ [Free_run k] \<or> k = 0 \<and> ws = xs \<and> (\<forall>q qs. xs \<noteq> qs @ [Free_run q])) \<and> (ys = Free_run m # zs \<or> m = 0 \<and> zs = ys \<and> (\<forall>q qs. ys \<noteq> Free_run q # qs)) \<and>
    changed N M' (set fl \<union> {b - k..<b + n + m}) \<and> k \<le> b"
proof -
  obtain N1 m zs fl1 where 1: "join_behind (Pg_Page b) (b + n) (of_nat (n - 1)) (with_pg t N) = Some (of_nat (n + m - 1), with_pg t N1)"
    "loose N1 l xs b (n + m) zs fl1" "ys = Free_run m # zs \<or> m = 0 \<and> zs = ys \<and> (\<forall>q qs. ys \<noteq> Free_run q # qs)"
    "changed N N1 (set fl \<union> {b..<b + (n + m)})" "set fl1 \<subseteq> set fl"
    using join_behind_ok [OF L t] by blast
  obtain N2 k ws fl2 where 2: "join_before b (of_nat (n + m - 1)) (with_pg t N1) =
      Some (of_nat (n + m + k - 1), Pg_Page (b - k), with_pg t N2)"
    "loose N2 l ws (b - k) (n + m + k) zs fl2" "xs = ws @ [Free_run k] \<or> k = 0 \<and> ws = xs \<and> (\<forall>q qs. xs \<noteq> qs @ [Free_run q])" "k \<le> b"
    "changed N1 N2 (set fl1 \<union> {b - k..<b + (n + m)})" "set fl2 \<subseteq> set fl1"
    using join_before_ok [OF 1(2) t] by blast
  define B P where "B = b - k" and "P = n + m + k"
  note L2 = 2(2) [folded B_def P_def]
  have P: "0 < P" "B + P \<le> l" using L2 by (auto simp: loose_def)
  have u: "unat (of_nat (P - 1) :: u64) = P - 1" "(of_nat (P - 1) :: u64) = 0 \<longleftrightarrow> P = 1"
  proof -
    show u: "unat (of_nat (P - 1) :: u64) = P - 1" using P t(3) by (intro unat_small) simp
    show "(of_nat (P - 1) :: u64) = 0 \<longleftrightarrow> P = 1" using P(1) unfolding unat_eq_zero [symmetric] u by auto
  qed
  have BP: "B + (P - 1) = B + P - 1" using P by simp
  have x: "valid t (sp_next (N2 Pg_Free))"
  proof -
    have "linked N2 0 Pg_Free fl2 Pg_Free" using L2 by (simp add: loose_def)
    then show ?thesis using linked_valid_next [of N2 0 Pg_Free fl2 Pg_Free] loose_outside(2) [OF L2] t(2) by fastforce
  qed
  have v: "B < length (sl_pages t)" "B + P - 1 < length (sl_pages t)" using P t(2) by linarith+
  define M' where "M' = put_run B P N2"
  have fin: "list_run (Pg_Page B) (of_nat (P - 1)) (with_pg t N2) = Some (with_pg t M')"
  proof (cases "P = 1")
    case True
    then show ?thesis using v x u by (simp add: list_run_def M'_def put_run_def Let_def)
  next
    case False
    then show ?thesis using v x P(1) unfolding u BP list_run_def by (simp add: u BP M'_def put_run_def Let_def)
  qed
  have "changed N M' (set fl \<union> {b - k..<b + n + m})"
  proof (rule changed_trans [OF changed_trans [OF 1(4) 2(5)] put_run_ok(2) [OF L2], folded M'_def])
    show "set fl \<union> {b..<b + (n + m)} \<subseteq> set fl \<union> {b - k..<b + n + m}" by auto
    show "set fl1 \<union> {b - k..<b + (n + m)} \<subseteq> set fl \<union> {b - k..<b + n + m}" using 1(5) by auto
    show "set fl2 \<union> {B..<B + P} \<subseteq> set fl \<union> {b - k..<b + n + m}" using 1(5) 2(4,6) by (auto simp: B_def P_def)
  qed simp
  moreover have "pages_inv M' l (ws @ Free_run (k + n + m) # zs) (B # fl2)"
    using put_run_ok(1) [OF L2] by (simp add: M'_def P_def ac_simps)
  ultimately show ?thesis using 1(1,3) 2(1,3,4) fin
    by (intro exI [of _ M'] exI [of _ "B # fl2"] exI [of _ ws] exI [of _ zs] exI [of _ k] exI [of _ m])
      (simp add: B_def P_def)
qed

lemma loosen:
  assumes inv: "pages_inv M l (xs @ T # ys) fl" and T: "\<And>n. T \<noteq> Free_run n" and n: "n = tlen T" "b = tlens xs"
    and slab: "sp_slab (N (Pg_Page b)) = of_nat n"
      "1 < n \<longrightarrow> sp_slab (N (Pg_Page (b + n - 1))) = 0 \<and> snd (sp_prev (N (Pg_Page (b + n - 1)))) = 0"
    and free: "\<And>k. k \<in> set fl \<Longrightarrow> N (Pg_Page k) = M (Pg_Page k)" "N Pg_Free = M Pg_Free"
    and rest: "\<And>k. k < b \<or> b + n \<le> k \<Longrightarrow> k \<notin> set fl \<Longrightarrow> like M N k"
  shows "loose N l xs b n ys fl"
proof -
  have I: "tiled M l 0 (xs @ T # ys)" "tlens (xs @ T # ys) = l" "distinct fl"
    "set fl = set (free_starts 0 (xs @ T # ys))" "linked M 0 Pg_Free fl Pg_Free"
    using inv by (auto simp: pages_inv_def)
  have f: "set fl = set (free_starts 0 xs) \<union> set (free_starts (b + n) ys)"
    using I(4) T n by (cases T) (auto simp: free_starts_append)
  have "tiled N l 0 xs" "tiled N l (b + n) ys"
    using tiled_around [OF I(1), of N] free rest f n by auto
  moreover have "linked N 0 Pg_Free fl Pg_Free" by (rule linked_cong [OF I(5)]) (use free in auto)
  ultimately show ?thesis using I f n slab tile_ok_pos [of M l b T] by (auto simp: loose_def tiled_append)
qed

lemma free_used_ok:
  assumes inv: "pages_inv M l (xs @ Used_run n # ys) fl" and b: "b = tlens xs"
    and t: "sl_last t = l" "l \<le> length (sl_pages t)" "l < 2 ^ 63"
  shows "\<exists>M' fl' ws zs k m. stl_slab_free_pages b (of_nat n) (with_pg t M) =
      Some (with_pg (t\<lparr>sl_pfree := sl_pfree t + of_nat n\<rparr>) M') \<and>
    pages_inv M' l (ws @ Free_run (k + n + m) # zs) fl' \<and>
    (xs = ws @ [Free_run k] \<or> k = 0 \<and> ws = xs \<and> (\<forall>q qs. xs \<noteq> qs @ [Free_run q])) \<and> (ys = Free_run m # zs \<or> m = 0 \<and> zs = ys \<and> (\<forall>q qs. ys \<noteq> Free_run q # qs)) \<and>
    changed M M' (set fl \<union> {b - k..<b + n + m}) \<and> k \<le> b"
proof -
  have I: "tile_ok M l b (Used_run n)" "b + n \<le> l" "0 < n" "set fl = set (free_starts 0 xs) \<union> set (free_starts (b + n) ys)"
    "tiled M l 0 xs" "tiled M l (b + n) ys"
    using inv b by (auto simp: pages_inv_def tiled_append free_starts_append)
  have out: "k < b \<or> b + n \<le> k" if "k \<in> set fl" for k
    using that I(4) free_starts_range [OF I(5)] free_starts_range [OF I(6)] b by auto
  define N where "N = fill (Suc b) (n - 1) zero_page (M(Pg_Page b := (M (Pg_Page b))\<lparr>sp_slab := of_nat n\<rparr>))"
  have L: "loose N l xs b n ys fl"
  proof (rule loosen [OF inv _ _ b])
    show "1 < n \<longrightarrow> sp_slab (N (Pg_Page (b + n - 1))) = 0 \<and> snd (sp_prev (N (Pg_Page (b + n - 1)))) = 0"
      by (auto simp: N_def zero_page_def)
    show "N (Pg_Page k) = M (Pg_Page k)" if "k \<in> set fl" for k using out [OF that] I(3) by (auto simp: N_def)
    show "like M N k" if "k < b \<or> b + n \<le> k" for k using that I(3) by (auto simp: N_def)
  qed (use I in \<open>simp_all add: N_def\<close>)
  let ?t = "t\<lparr>sl_pfree := sl_pfree t + of_nat n\<rparr>"
  have t': "sl_last ?t = l" "l \<le> length (sl_pages ?t)" using t by simp_all
  have u: "unat (of_nat n :: u64) = n" "unat (of_nat n - 1 :: u64) = n - 1" "(of_nat n - 1 :: u64) = of_nat (n - 1)"
    using I(2,3) t(3) by (simp_all add: unat_small unat_pred of_nat_diff)
  have bl: "b + n - Suc 0 < length (sl_pages t)" "b < length (sl_pages t)" using I(2,3) t(2) by linarith+
  have nx: "sp_next (N (Pg_Page b)) = Pg_Null" using I(1) by (simp add: N_def run_page_def)
  have fe: "for_each (\<lambda>k. page_upd (Pg_Page (b + k)) (\<lambda>_. zero_page)) [1..<Suc (n - 1)]
      (with_pg ?t (M(Pg_Page b := (M (Pg_Page b))\<lparr>sp_slab := of_nat n\<rparr>))) = Some (with_pg ?t N)"
    unfolding N_def using bl I(3) by (intro for_each_fill) simp
  obtain M' fl' ws zs k m where R: "(do {
       (pages, t) \<leftarrow> join_behind (Pg_Page b) (b + n) (of_nat (n - 1)) (with_pg ?t N);
       (pages, page, t) \<leftarrow> join_before b pages t;
       list_run page pages t }) = Some (with_pg ?t M')"
    "pages_inv M' l (ws @ Free_run (k + n + m) # zs) fl'" "xs = ws @ [Free_run k] \<or> k = 0 \<and> ws = xs \<and> (\<forall>q qs. xs \<noteq> qs @ [Free_run q])"
    "ys = Free_run m # zs \<or> m = 0 \<and> zs = ys \<and> (\<forall>q qs. ys \<noteq> Free_run q # qs)" "changed N M' (set fl \<union> {b - k..<b + n + m})" "k \<le> b"
    using free_tail_ok [OF L t' t(3)] by blast
  have a0: "(with_pg t M)\<lparr>sl_pfree := sl_pfree (with_pg t M) + of_nat n\<rparr> = with_pg ?t M" by simp
  have a1: "page_upd (Pg_Page b) (\<lambda>x. x\<lparr>sp_slab := of_nat n\<rparr>) (with_pg ?t M) =
      Some (with_pg ?t (M(Pg_Page b := (M (Pg_Page b))\<lparr>sp_slab := of_nat n\<rparr>)))" using bl by simp
  have a2: "page_at (with_pg ?t N) (Pg_Page b) = Some (N (Pg_Page b))" using bl by simp
  have "stl_slab_free_pages b (of_nat n) (with_pg t M) = Some (with_pg ?t M')"
    by (simp only: stl_slab_free_pages_def Let_def a0 a1 a2 Option.bind_lunit u(1,2) fe nx simp_thms if_False)
      (simp only: u(3) R(1))
  moreover have "changed M N {b..<b + n}"
    unfolding changed_def N_def using I(3) by (auto simp: fill_def split: page_ref.splits)
  then have "changed M M' (set fl \<union> {b - k..<b + n + m})" using R(5) by (rule changed_trans) auto
  ultimately show ?thesis using R by blast
qed

text \<open>A cut page first leaves the list of its slot.\<close>

lemma free_cut_ok:
  assumes inv: "pages_inv M l (xs @ Cut # ys) fl" and b: "b = tlens xs"
    and t: "sl_last t = l" "l \<le> length (sl_pages t)" "l < 2 ^ 63"
    and ring: "linked M ty (Pg_Slot s) (ps @ b # qs) (Pg_Slot s)" "distinct (ps @ b # qs)" "ty \<noteq> 0"
      "s < length (sl_slots t)" "\<forall>k\<in>set (ps @ qs). k < l"
  defines "N \<equiv> relink (fst (sp_prev (M (Pg_Page b)))) (Pg_Page b) (M(Pg_Page b := (M (Pg_Page b))\<lparr>sp_slab := 1\<rparr>))"
  shows "\<exists>M' fl' ws zs k m. stl_slab_free_pages b 1 (with_pg t M) = Some (with_pg (t\<lparr>sl_pfree := sl_pfree t + 1\<rparr>) M') \<and>
    pages_inv M' l (ws @ Free_run (k + 1 + m) # zs) fl' \<and>
    (xs = ws @ [Free_run k] \<or> k = 0 \<and> ws = xs \<and> (\<forall>q qs. xs \<noteq> qs @ [Free_run q])) \<and>
    (ys = Free_run m # zs \<or> m = 0 \<and> zs = ys \<and> (\<forall>q qs. ys \<noteq> Free_run q # qs)) \<and>
    changed N M' (set fl \<union> {b - k..<b + 1 + m}) \<and> k \<le> b \<and> linked N ty (Pg_Slot s) (ps @ qs) (Pg_Slot s)"
proof -
  have I: "b + 1 \<le> l" "tiled M l 0 xs" "tiled M l (b + 1) ys" "set fl = set (free_starts 0 xs) \<union> set (free_starts (b + 1) ys)"
    "linked M 0 Pg_Free fl Pg_Free"
    using inv b by (auto simp: pages_inv_def tiled_append free_starts_append)
  have out: "k < b \<or> b + 1 \<le> k" if "k \<in> set fl" for k
    using that I(4) free_starts_range [OF I(2)] free_starts_range [OF I(3)] b by auto
  have ftag: "snd (sp_prev (M (Pg_Page k))) = 0" if k: "k \<in> set fl" for k
  proof -
    obtain us vs where "fl = us @ k # vs" using split_list [OF k] by blast
    then show ?thesis using I(5) linked_free(1) [of M 0 Pg_Free us k vs] by simp
  qed
  have rtag: "snd (sp_prev (K (Pg_Page k))) = ty" if "linked K ty (Pg_Slot s) as (Pg_Slot s)" and k: "k \<in> set as" for K as k
  proof -
    obtain us vs where "as = us @ k # vs" using split_list [OF k] by blast
    then show ?thesis using that linked_free(1) [of K ty "Pg_Slot s" us k vs] by simp
  qed
  define N0 where "N0 = M(Pg_Page b := (M (Pg_Page b))\<lparr>sp_slab := 1\<rparr>)"
  have r0: "linked N0 ty (Pg_Slot s) (ps @ b # qs) (Pg_Slot s)"
    by (rule linked_cong [OF ring(1)]) (auto simp: N0_def)
  have N: "N = relink (fst (sp_prev (N0 (Pg_Page b)))) (Pg_Page b) N0" by (simp add: N_def N0_def)
  have hd: "Pg_Slot s \<notin> range Pg_Page" by auto
  note U = unlink_ring [OF r0 ring(2) hd, folded N]
  have pv: "sp_prev (N0 (Pg_Page b)) = (lst (Pg_Slot s) ps, ty)" "sp_next (N0 (Pg_Page b)) \<noteq> Pg_Null"
    using linked_free [OF r0] by simp_all
  have nf: "k \<notin> set fl" if "k \<in> set (ps @ qs)" for k
    using ftag [of k] rtag [OF ring(1), of k] that ring(3) by auto
  have L: "loose N l xs b 1 ys fl"
  proof (rule loosen [OF inv _ _ b])
    show "sp_slab (N (Pg_Page b)) = of_nat 1" using U(4) [of "Pg_Page b"] by (simp add: N0_def)
    show "N (Pg_Page k) = M (Pg_Page k)" if "k \<in> set fl" for k
    proof -
      have "N (Pg_Page k) = N0 (Pg_Page k)" using that nf by (intro U(3)) auto
      then show ?thesis using out [OF that] by (auto simp: N0_def)
    qed
    show "N Pg_Free = M Pg_Free" using U(3) [of Pg_Free] by (auto simp: N0_def)
    show "like M N k" if "k < b \<or> b + 1 \<le> k" for k
    proof (cases "k \<in> set (ps @ qs)")
      case True
      then show ?thesis using rtag [OF ring(1), of k] rtag [OF U(1), of k] ring(3) by (auto simp: like_def)
    next
      case False
      then have "N (Pg_Page k) = N0 (Pg_Page k)" by (intro U(3)) auto
      then show ?thesis using that by (auto simp: N0_def)
    qed
  qed simp_all
  let ?t = "t\<lparr>sl_pfree := sl_pfree t + 1\<rparr>"
  have t': "sl_last ?t = l" "l \<le> length (sl_pages ?t)" using t by simp_all
  have bl: "b < length (sl_pages t)" using I(1) t(2) by linarith
  obtain M' fl' ws zs k m where R: "(do {
       (pages, t) \<leftarrow> join_behind (Pg_Page b) (b + 1) (of_nat (1 - 1)) (with_pg ?t N);
       (pages, page, t) \<leftarrow> join_before b pages t;
       list_run page pages t }) = Some (with_pg ?t M')"
    "pages_inv M' l (ws @ Free_run (k + 1 + m) # zs) fl'" "xs = ws @ [Free_run k] \<or> k = 0 \<and> ws = xs \<and> (\<forall>q qs. xs \<noteq> qs @ [Free_run q])"
    "ys = Free_run m # zs \<or> m = 0 \<and> zs = ys \<and> (\<forall>q qs. ys \<noteq> Free_run q # qs)"
    "changed N M' (set fl \<union> {b - k..<b + 1 + m})" "k \<le> b"
    using free_tail_ok [OF L t' t(3)] by blast
  have v: "valid ?t (lst (Pg_Slot s) ps)" "lst (Pg_Slot s) ps \<noteq> Pg_Page b" "valid ?t (sp_next (N0 (Pg_Page b)))"
  proof -
    have vl: "\<forall>k\<in>set (ps @ qs). k < length (sl_pages t)" using ring(5) t(2) by fastforce
    show "valid ?t (lst (Pg_Slot s) ps)" "lst (Pg_Slot s) ps \<noteq> Pg_Page b"
      using lst_in [of "Pg_Slot s" ps] ring(2,4) vl by auto
    have "linked N0 ty (Pg_Page b) qs (Pg_Slot s)" using r0 by (simp add: linked_Cons)
    then show "valid ?t (sp_next (N0 (Pg_Page b)))" using linked_valid_next vl ring(4) by fastforce
  qed
  have a0: "(with_pg t M)\<lparr>sl_pfree := sl_pfree (with_pg t M) + 1\<rparr> = with_pg ?t M" by simp
  have a1: "page_upd (Pg_Page b) (\<lambda>x. x\<lparr>sp_slab := 1\<rparr>) (with_pg ?t M) = Some (with_pg ?t N0)"
    using bl by (simp add: N0_def)
  have a2: "page_at (with_pg ?t N0) (Pg_Page b) = Some (N0 (Pg_Page b))" using bl by simp
  have a3: "slab_unlink (stl_slab_page_prev (N0 (Pg_Page b))) (Pg_Page b) (with_pg ?t N0) = Some (with_pg ?t N)"
    using v bl pv by (simp add: stl_slab_page_prev_def slab_unlink_with N)
  have a4: "[1..<Suc (unat ((1::u64) - 1))] = []" "unat (1 :: u64) = 1" "(1 :: u64) - 1 = of_nat (1 - 1)" by simp_all
  have "stl_slab_free_pages b 1 (with_pg t M) = Some (with_pg ?t M')"
    by (simp only: stl_slab_free_pages_def Let_def a0 a1 a2 a3 a4(1,2) for_each.simps Option.bind_lunit pv simp_thms if_True)
      (simp only: a4(3) R(1))
  then show ?thesis using R U(1) by blast
qed

end
