(* ===== verification/Slab_Pool.thy ===== *)
theory Slab_Pool
  imports Slab_Pages
begin

text \<open>
  The pool of pages as a whole: what the state of the allocator says of the runs, and that a pool
  starts as one free run and stays a tiling by runs when runs are taken and given back.
\<close>

unbundle bit_operations_syntax

section \<open>The pool of runs\<close>

text \<open>The state of the allocator stands for a list of tiles; the counter of free pages is their total.\<close>

fun free_total :: "tile list \<Rightarrow> nat" where
  "free_total [] = 0"
| "free_total (Free_run n # ts) = n + free_total ts"
| "free_total (Used_run n # ts) = free_total ts"
| "free_total (Cut # ts) = free_total ts"

lemma free_total_append [simp]: "free_total (xs @ ys) = free_total xs + free_total ys"
  by (induction xs rule: free_total.induct) auto

lemma free_total_tlens: "free_total ts \<le> tlens ts"
  by (induction ts rule: free_total.induct) auto

definition slab_tiles :: "stl_slab \<Rightarrow> tile list \<Rightarrow> bool" where
  "slab_tiles t ts \<longleftrightarrow> (\<exists>fl. pages_inv (pg t) (sl_last t) ts fl) \<and> sl_last t \<le> length (sl_pages t) \<and> sl_last t < 2 ^ 63 \<and>
     sl_pfree t = of_nat (free_total ts)"

lemma pg_with [simp]: "pg (with_pg t M) Pg_Free = M Pg_Free"
  "k < length (sl_pages t) \<Longrightarrow> pg (with_pg t M) (Pg_Page k) = M (Pg_Page k)"
  "s < length (sl_slots t) \<Longrightarrow> pg (with_pg t M) (Pg_Slot s) = M (Pg_Slot s)"
  by (simp_all add: pg_def with_pg_def)

lemma pages_inv_pg:
  assumes "pages_inv M l ts fl" "l \<le> length (sl_pages t)"
  shows "pages_inv (pg (with_pg t M)) l ts fl"
proof -
  have k: "pg (with_pg t M) (Pg_Page k) = M (Pg_Page k)" if "k < l" for k using that assms(2) by simp
  have "tiled (pg (with_pg t M)) l 0 ts"
    by (rule tiled_same' [of M]) (use assms k in \<open>auto simp: pages_inv_def\<close>)
  moreover have "linked (pg (with_pg t M)) 0 Pg_Free fl Pg_Free"
  proof (rule linked_cong)
    show "linked M 0 Pg_Free fl Pg_Free" using assms(1) by (simp add: pages_inv_def)
    fix b assume "b \<in> set fl"
    then show "sp_next (pg (with_pg t M) (Pg_Page b)) = sp_next (M (Pg_Page b)) \<and>
        sp_prev (pg (with_pg t M) (Pg_Page b)) = sp_prev (M (Pg_Page b))"
      by (simp only: k [OF free_less [OF assms(1)]] simp_thms)
  qed simp
  ultimately show ?thesis using assms(1) by (simp add: pages_inv_def)
qed

lemma slab_tiles_with:
  assumes "pages_inv M (sl_last t) ts fl" "sl_last t \<le> length (sl_pages t)" "sl_last t < 2 ^ 63"
    "sl_pfree t = of_nat (free_total ts)"
  shows "slab_tiles (with_pg t M) ts"
  using assms pages_inv_pg [OF assms(1,2)] by (auto simp: slab_tiles_def)

text \<open>Neighbouring free runs are joined.\<close>

fun coalesced :: "tile list \<Rightarrow> bool" where
  "coalesced (Free_run m # Free_run n # ts) \<longleftrightarrow> False"
| "coalesced (t # ts) \<longleftrightarrow> coalesced ts"
| "coalesced [] \<longleftrightarrow> True"

lemma coalesced_Cons: "coalesced (t # ys) \<longleftrightarrow> coalesced ys \<and> \<not> (\<exists>m q qs. t = Free_run m \<and> ys = Free_run q # qs)"
  by (cases t; cases ys; cases "hd ys") auto

lemma coalesced_append: "coalesced (xs @ t # ys) \<longleftrightarrow> coalesced (xs @ [t]) \<and> coalesced (t # ys)"
proof (induction xs)
  case (Cons x xs)
  then show ?case by (cases xs) (auto simp: coalesced_Cons)
qed simp

lemma coalesced_snoc: "coalesced (xs @ [t]) \<longleftrightarrow> coalesced xs \<and> \<not> (\<exists>q qs m. xs = qs @ [Free_run q] \<and> t = Free_run m)"
proof (induction xs)
  case (Cons x xs)
  then show ?case by (cases xs) (auto simp: coalesced_Cons Cons_eq_append_conv)
qed simp

section \<open>A fresh pool\<close>

lemma unat_two_power: "k < 64 \<Longrightarrow> unat ((2::u64) ^ k) = 2 ^ k"
proof -
  assume "k < 64"
  then have "(2::nat) ^ k < 2 ^ 64" by (intro power_strict_increasing) simp_all
  from unat_small [OF this] show ?thesis by simp
qed

lemma unat_plus: "unat (x::u64) + unat y < 2 ^ 64 \<Longrightarrow> unat (x + y) = unat x + unat y"
  by (rule unat_add_lem [THEN iffD1]) simp

lemma unat_times: "unat (x::u64) * unat y < 2 ^ 64 \<Longrightarrow> unat (x * y) = unat x * unat y"
  by (rule unat_mult_lem [THEN iffD1]) simp

lemma unat_below: "unat (x::u64) < 18446744073709551616"
  using unsigned_less [of x] by simp

lemma and_not_mask: "unat ((x::u64) AND NOT (2 ^ k - 1)) = unat x div 2 ^ k * 2 ^ k"
proof -
  have "x AND NOT (2 ^ k - 1) = push_bit k (drop_bit k x)"
    by (rule bit_eqI) (auto simp: bit_simps mask_eq_exp_minus_1 [symmetric])
  then have "unat (x AND NOT (2 ^ k - 1)) = take_bit 64 (push_bit k (drop_bit k (unat x)))"
    by (simp add: unsigned_push_bit_eq unat_drop_bit_eq)
  also have "push_bit k (drop_bit k (unat x)) = unat x div 2 ^ k * 2 ^ k"
    by (simp add: push_bit_eq_mult drop_bit_eq_div)
  also have "take_bit 64 (unat x div 2 ^ k * 2 ^ k) = unat x div 2 ^ k * 2 ^ k"
  proof (rule take_bit_nat_eq_self)
    have "unat x div 2 ^ k * 2 ^ k \<le> unat x" by simp
    also have "unat x < 2 ^ 64" using unsigned_less [of x] by simp
    finally show "unat x div 2 ^ k * 2 ^ k < 2 ^ 64" .
  qed
  finally show ?thesis .
qed

lemma align_up:
  assumes "unat p + 2 ^ k \<le> 2 ^ 64" "k < 64"
  shows "unat p \<le> unat (stl_align_ptr p (2 ^ k)) \<and> unat (stl_align_ptr p (2 ^ k)) < unat p + 2 ^ k \<and>
    2 ^ k dvd unat (stl_align_ptr p (2 ^ k))"
proof -
  have u: "unat ((2::u64) ^ k - 1) = 2 ^ k - 1"
  proof -
    have "unat ((2::u64) ^ k) = 2 ^ k" using assms(2) by (rule unat_two_power)
    moreover from this have "(1::u64) \<le> 2 ^ k" by (simp add: word_le_nat_alt)
    ultimately show ?thesis by (simp add: unat_sub)
  qed
  have pos: "(1::nat) \<le> 2 ^ k" by simp
  have "unat (p + (2 ^ k - 1)) = unat p + (2 ^ k - 1)"
  proof -
    have "unat p + unat ((2::u64) ^ k - 1) < 2 ^ 64" unfolding u using assms(1) pos by linarith
    from unat_plus [OF this] show ?thesis by (simp only: u)
  qed
  then have e: "unat (stl_align_ptr p (2 ^ k)) = (unat p + (2 ^ k - 1)) div 2 ^ k * 2 ^ k"
    by (simp add: stl_align_ptr_def and_not_mask)
  have "unat p + (2 ^ k - 1) = (unat p + (2 ^ k - 1)) div 2 ^ k * 2 ^ k + (unat p + (2 ^ k - 1)) mod 2 ^ k"
    by (rule div_mult_mod_eq [symmetric])
  moreover have "(unat p + (2 ^ k - 1)) mod 2 ^ k < 2 ^ k" by simp
  ultimately show ?thesis unfolding e using pos by (intro conjI) (linarith+, simp)
qed


text \<open>The word arithmetic of the initialisation, as natural numbers.\<close>

lemma init_sizes:
  fixes addr sz n ps :: u64
  defines "room0 \<equiv> addr + sz - addr - n * (sizeof_page + sizeof_stat)"
  defines "pages \<equiv> room0 div (ps + sizeof_page)"
  defines "start \<equiv> stl_align_ptr (addr + n * sizeof_page + n * sizeof_stat + pages * sizeof_page) ps"
  defines "fit \<equiv> (addr + sz - start) div ps"
  assumes ps: "ps = 2 ^ k" "6 \<le> k" "k \<le> 32"
    and fits: "uint n * (uint sizeof_page + uint sizeof_stat) + uint sizeof_page \<le> uint (addr + sz - addr)"
    and nowrap: "unat addr + unat sz + 2 ^ k \<le> 2 ^ 64"
  shows "unat pages < 2 ^ 58" "unat fit < 2 ^ 58"
    and "0 < unat pages \<Longrightarrow> unat addr + unat n * 56 + 24 * unat pages \<le> unat start \<and> 2 ^ k dvd unat start \<and>
      unat start + unat fit * 2 ^ k \<le> unat addr + unat sz"
proof -
  have ups: "unat ps = 2 ^ k" using ps by (simp add: unat_two_power)
  have k6: "(2::nat) ^ 6 \<le> 2 ^ k" "(2::nat) ^ k \<le> 2 ^ 32" using ps by (simp_all only: power_increasing one_le_numeral)
  have u24: "unat (ps + sizeof_page) = 2 ^ k + 24"
  proof -
    have "unat ps + unat sizeof_page < 2 ^ 64" using k6(2) unfolding ups by (simp add: sizeof_page_def)
    from unat_plus [OF this] show ?thesis by (simp only: ups) (simp add: sizeof_page_def)
  qed
  have nsz: "unat n * 56 + 24 \<le> unat sz"
  proof -
    have "int (unat n * 56 + 24) \<le> int (unat sz)" using fits by (simp add: sizeof_page_def sizeof_stat_def)
    then show ?thesis by (simp only: of_nat_le_iff)
  qed
  have n56: "unat (n * 56) = unat n * 56" 
  proof -
    have "unat n * unat (56::u64) < 2 ^ 64" using nsz unat_below [of sz] by simp
    from unat_times [OF this] show ?thesis by simp
  qed
  have usz: "unat room0 = unat sz - unat n * 56"
  proof -
    have "room0 = sz - n * 56" by (simp add: room0_def sizeof_page_def sizeof_stat_def)
    moreover have "n * 56 \<le> sz" using nsz n56 by (simp add: word_le_nat_alt)
    ultimately show ?thesis using n56 by (simp add: unat_sub)
  qed
  have up: "unat pages = unat room0 div (2 ^ k + 24)" by (simp add: pages_def unat_div u24)
  have "unat room0 div (2 ^ k + 24) \<le> unat room0 div 2 ^ 6" using k6(1) by (intro div_le_mono2) simp_all
  also have "\<dots> < 2 ^ 58" using unat_below [of room0] by simp
  finally show "unat pages < 2 ^ 58" by (simp only: up)
  have uf: "unat fit = unat (addr + sz - start) div 2 ^ k" by (simp add: fit_def unat_div ups)
  have "unat (addr + sz - start) div 2 ^ k \<le> unat (addr + sz - start) div 2 ^ 6" using k6(1) by (intro div_le_mono2) simp_all
  also have "\<dots> < 2 ^ 58" using unat_below [of "addr + sz - start"] by simp
  finally show "unat fit < 2 ^ 58" by (simp only: uf)
  assume pos: "0 < unat pages"
  have pp: "unat pages * (2 ^ k + 24) \<le> unat room0" by (simp add: up)
  have "unat pages * 24 + 2 ^ k \<le> unat pages * 24 + unat pages * 2 ^ k" using pos by simp
  also have "\<dots> = unat pages * (2 ^ k + 24)" by (simp add: algebra_simps)
  also note pp
  finally have room: "unat pages * 24 + 2 ^ k \<le> unat room0" .
  have p24: "unat (pages * 24) = unat pages * 24" 
  proof -
    have "unat pages * unat (24::u64) < 2 ^ 64" using room unat_below [of room0] by simp
    from unat_times [OF this] show ?thesis by simp
  qed
  let ?q = "addr + n * sizeof_page + n * sizeof_stat + pages * sizeof_page"
  have q: "?q = addr + (n * 56 + pages * 24)" by (simp add: sizeof_page_def sizeof_stat_def algebra_simps)
  have x: "unat (n * 56 + pages * 24) = unat n * 56 + unat pages * 24"
  proof -
    have "unat (n * 56) + unat (pages * 24) < 2 ^ 64" using room usz nsz unat_below [of sz] by (simp add: n56 p24)
    from unat_plus [OF this] show ?thesis by (simp only: n56 p24)
  qed
  have uq: "unat ?q = unat addr + (unat n * 56 + unat pages * 24)"
  proof -
    have "unat addr + unat (n * 56 + pages * 24) < 2 ^ 64" unfolding x using room usz nsz nowrap k6(1) by simp
    from unat_plus [OF this] show ?thesis by (simp only: q x)
  qed
  have end': "unat ?q + 2 ^ k \<le> unat addr + unat sz" using uq room usz nsz by simp
  have st: "unat ?q \<le> unat start" "unat start < unat ?q + 2 ^ k" "2 ^ k dvd unat start"
    using align_up [of ?q k] end' nowrap ps unfolding start_def by (auto simp: ps)
  have ue: "unat (addr + sz) = unat addr + unat sz" 
    using nowrap k6(1) by (intro unat_plus) simp
  have "start \<le> addr + sz" using st end' ue by (simp add: word_le_nat_alt)
  then have "unat (addr + sz - start) = unat addr + unat sz - unat start" by (simp add: unat_sub ue)
  then have "unat fit * 2 ^ k \<le> unat addr + unat sz - unat start" by (simp add: uf)
  then show "unat addr + unat n * 56 + 24 * unat pages \<le> unat start \<and> 2 ^ k dvd unat start \<and>
      unat start + unat fit * 2 ^ k \<le> unat addr + unat sz"
    using st uq end' by simp
qed

lemma sint_diff_pos:
  assumes "unat (x::u64) < 2 ^ 58" "unat (y::u64) < 2 ^ 58"
  shows "0 < sint (x - y) \<longleftrightarrow> unat y < unat x"
proof -
  have "x - y = of_int (int (unat x) - int (unat y))" by simp
  then have "sint (x - y) = signed_take_bit 63 (int (unat x) - int (unat y))" by (simp only: sint_sbintrunc') simp
  also have "\<dots> = int (unat x) - int (unat y)"
  proof -
    have "signed_take_bit 63 (a - b) = a - b" if "0 \<le> a" "a < 2 ^ 58" "0 \<le> b" "b < 2 ^ 58" for a b :: int
      using that by (intro signed_take_bit_int_eq_self) simp_all
    moreover have "int (unat x) < 2 ^ 58" "int (unat y) < 2 ^ 58"
      using assms by (simp_all only: of_nat_less_iff [where 'a = int, symmetric]) simp_all
    ultimately show ?thesis by (simp only: of_nat_0_le_iff)
  qed
  finally show ?thesis by (simp only:) linarith
qed

lemma unat_shr: "unat (shr x n) = unat x div 2 ^ unat n"
  by (simp only: shr_def unat_drop_bit_eq) (rule drop_bit_eq_div)

lemma unat_shl:
  assumes "unat x * 2 ^ unat n < 2 ^ 64"
  shows "unat (shl x n) = unat x * 2 ^ unat n"
proof -
  have "unat (shl x n) = take_bit 64 (unat x * 2 ^ unat n)"
    by (simp only: shl_def unsigned_push_bit_eq push_bit_eq_mult [symmetric]) simp
  then show ?thesis using assms by (simp only: take_bit_nat_eq_self)
qed

lemma count_shift_log:
  "\<exists>d. count_shift n s = s + of_nat d \<and> unat n < 2 ^ (d + 1) \<and> (0 < unat n \<longrightarrow> 2 ^ d \<le> unat n)"
proof (induction n s rule: count_shift.induct)
  case (1 n s)
  have h: "unat (drop_bit 1 n) = unat n div 2" using unat_shr [of n 1] by (simp add: shr_def)
  show ?case
  proof (cases "drop_bit 1 n = 0")
    case True
    then have "unat n < 2" using h by simp
    moreover have "count_shift n s = s" by (subst count_shift.simps) (simp only: Let_def True simp_thms if_False)
    ultimately show ?thesis by (intro exI [of _ 0]) simp
  next
    case False
    obtain d where d: "count_shift (drop_bit 1 n) (s + 1) = s + 1 + of_nat d"
      "unat n div 2 < 2 ^ (d + 1)" "0 < unat n div 2 \<longrightarrow> 2 ^ d \<le> unat n div 2"
      using "1.IH" [OF refl False, unfolded h] by (elim exE conjE)
    have "0 < unat n div 2" using False h by (metis gr0I unat_eq_zero)
    with d(3) have "2 ^ Suc d \<le> unat n" by simp
    moreover have "unat n < 2 ^ (Suc d + 1)" using d(2) by simp
    moreover have "count_shift n s = count_shift (drop_bit 1 n) (s + 1)"
      using False by (subst count_shift.simps) (simp only: Let_def not_False_eq_True if_True)
    then have "count_shift n s = s + of_nat (Suc d)" by (simp only: d(1)) simp
    ultimately show ?thesis by blast
  qed
qed

text \<open>The shift of a page size, counted from zero, and the addresses of the pages.\<close>

lemma count_shift_two_power:
  assumes "k < 64"
  shows "count_shift (2 ^ k) 0 = of_nat k"
proof -
  obtain d where d: "count_shift (2 ^ k) 0 = 0 + of_nat d" "unat ((2::u64) ^ k) < 2 ^ (d + 1)"
    "0 < unat ((2::u64) ^ k) \<longrightarrow> 2 ^ d \<le> unat ((2::u64) ^ k)"
    using count_shift_log [of "2 ^ k" 0] by (elim exE conjE)
  have "(2::nat) ^ k < 2 ^ (d + 1)" "(2::nat) ^ d \<le> 2 ^ k" using d(2,3) by (simp_all add: unat_two_power [OF assms])
  then have "k < d + 1" "d \<le> k" by (simp_all only: power_strict_increasing_iff power_increasing_iff one_less_numeral_iff semiring_norm)
  then have "d = k" by simp
  then show ?thesis using d(1) by simp
qed

lemma page_addr_ok:
  assumes "stl_pagesize_shift g = of_nat k" "k < 64" "unat (sl_start t) + 2 ^ k * b < 2 ^ 64"
  shows "unat (stl_slab_page_addr g t b) = unat (sl_start t) + 2 ^ k * b"
proof -
  have "b \<le> 2 ^ k * b" by simp
  then have b: "unat (of_nat b :: u64) = b" using assms(3) by (intro unat_small) linarith
  have k: "unat (of_nat k :: u64) = k" using assms(2) by (intro unat_small) simp
  have s: "unat (shl (of_nat b) (of_nat k)) = 2 ^ k * b"
    using assms(3) unat_shl [of "of_nat b" "of_nat k"] unfolding b k by (simp add: mult.commute)
  have "unat (shl (of_nat b) (of_nat k)) + unat (sl_start t) < 2 ^ 64" using assms(3) unfolding s by linarith
  from unat_plus [OF this] show ?thesis by (simp add: stl_slab_page_addr_def assms(1) s)
qed

text \<open>C29: The first pool of a process (the page size is \<open>2 ^ k\<close> and the global page shift still 0; every
  further initialisation adds to it, see \<open>slab_second_init\<close>) is one free run. The memory that was given
  holds, in this order and without overlap, the \<open>k - 3\<close> slots and statistics, the structs of the pages,
  and the pages: these are aligned, one behind the other at the addresses \<open>stl_slab_page_addr\<close> computes,
  and end inside the memory. The memory must have room for a page and leave one to the end of the address
  space, and the page size be between 64 bytes and 4 gigabytes.\<close>

theorem slab_init_correct:
  assumes "stl_slab_init (2 ^ k) addr g (Some t0) sz = Some (0, g', Some t)" "stl_pagesize_shift g = 0"
    and "6 \<le> k" "k \<le> 32" "unat addr + unat sz + 2 ^ k \<le> 2 ^ 64" "0 < sl_last t"
  shows "slab_tiles t [Free_run (sl_last t)] \<and> length (sl_slots t) = k - 3 \<and> length (sl_stats t) = k - 3 \<and>
    unat addr + 24 * length (sl_slots t) + 32 * length (sl_stats t) + 24 * length (sl_pages t) \<le> unat (sl_start t) \<and>
    unat (sl_end t) = unat addr + unat sz \<and> unat (sl_start t) + sl_last t * 2 ^ k \<le> unat (sl_end t) \<and>
    2 ^ k dvd unat (sl_start t) \<and>
    (\<forall>b < sl_last t. unat (stl_slab_page_addr g' t b) = unat (sl_start t) + 2 ^ k * b)"
proof -
  define n where "n = count_shift (2 ^ k) (stl_pagesize_shift g) - 3"
  define pages where "pages = (sz - n * (sizeof_page + sizeof_stat)) div (2 ^ k + sizeof_page)"
  define start where "start = stl_align_ptr (addr + n * sizeof_page + n * sizeof_stat + pages * sizeof_page) (2 ^ k)"
  define fit where "fit = (addr + sz - start) div 2 ^ k"
  define last where "last = (if 0 < sint (pages - fit) then fit else pages)"
  have rep: "(replicate (max (Suc 0) m) zero_page)[0 := x] = x # replicate (m - 1) zero_page" for m x
    by (cases m) simp_all
  have fits: "uint n * (uint sizeof_page + uint sizeof_stat) + uint sizeof_page \<le> uint (addr + sz - addr)"
    using assms(1) by (auto simp: stl_slab_init_def stl_slab_sizes_init_def Let_def n_def c_assert_def split: if_splits bind_splits)
  have t: "sl_pages t = \<lparr>sp_slab = last, sp_next = Pg_Free, sp_prev = (Pg_Free, 0)\<rparr> # replicate (unat pages - 1) zero_page"
    "sl_free t = \<lparr>sp_slab = 0, sp_next = Pg_Page 0, sp_prev = (Pg_Null, 0)\<rparr>" "sl_last t = unat last" "sl_pfree t = last"
    "sl_start t = start" "sl_end t = addr + sz" "length (sl_slots t) = unat n" "length (sl_stats t) = unat n"
    "stl_pagesize_shift g' = count_shift (2 ^ k) (stl_pagesize_shift g)"
    using assms(1)
    by (auto simp: stl_slab_init_def stl_slab_sizes_init_def Let_def n_def [symmetric] pages_def [symmetric] start_def [symmetric] fit_def [symmetric] last_def zero_page_def [symmetric] rep page_upd_def mem_read_def mem_write_def split: if_splits bind_splits)
  have S: "unat pages < 2 ^ 58" "unat fit < 2 ^ 58" "0 < unat pages \<Longrightarrow> unat addr + unat n * 56 + 24 * unat pages \<le> unat start \<and>
      2 ^ k dvd unat start \<and> unat start + unat fit * 2 ^ k \<le> unat addr + unat sz"
    using init_sizes [of "2 ^ k" k n addr sz, OF refl assms(3,4) fits assms(5)]
    by (simp_all only: pages_def start_def fit_def add_diff_cancel_left')
  have l: "unat last = min (unat pages) (unat fit)" using sint_diff_pos [OF S(1,2)] by (auto simp: last_def)
  then have pos: "0 < unat pages" "unat last \<le> unat pages" "unat last < 2 ^ 58" using assms(6) t(3) S(1) by linarith+
  have room: "unat start + unat last * 2 ^ k \<le> unat addr + unat sz"
    using S(3) [OF pos(1)] l mult_le_mono1 [of "unat last" "unat fit" "2 ^ k"] by linarith
  have e: "unat (addr + sz) = unat addr + unat sz"
  proof (rule unat_plus)
    have "(0::nat) < 2 ^ k" by simp
    then show "unat addr + unat sz < 2 ^ 64" using assms(5) by linarith
  qed
  have "tile_ok (pg t) (unat last) 0 (Free_run (unat last))"
    using pos assms(6) t by (auto simp: pg_def zero_page_def nth_Cons')
  moreover have "linked (pg t) 0 Pg_Free [0] Pg_Free" using t by (simp add: pg_def)
  ultimately have "pages_inv (pg t) (sl_last t) [Free_run (sl_last t)] [0]" by (simp add: pages_inv_def t(3))
  then have "slab_tiles t [Free_run (sl_last t)]"
    using pos t by (auto simp: slab_tiles_def)
  moreover have sh: "stl_pagesize_shift g' = of_nat k" using t(9) assms(2,4) by (simp add: count_shift_two_power)
  have "n = of_nat (k - 3)" using assms(2-4) by (simp add: n_def count_shift_two_power of_nat_diff)
  then have un: "unat n = k - 3" using assms(4) by (simp only:) (rule unat_small, simp)
  have lp: "length (sl_pages t) = unat pages" using t(1) pos(1) by simp
  have "unat (stl_slab_page_addr g' t b) = unat (sl_start t) + 2 ^ k * b" if "b < sl_last t" for b
  proof (rule page_addr_ok [OF sh])
    have "2 ^ k * b \<le> unat last * 2 ^ k" using that t(3) by (simp add: mult.commute)
    then have "unat start + 2 ^ k * b \<le> unat addr + unat sz" using room by linarith
    moreover have "(0::nat) < 2 ^ k" by simp
    ultimately show "unat (sl_start t) + 2 ^ k * b < 2 ^ 64" using assms(5) unfolding t(5) by linarith
  qed (use assms(4) in simp)
  moreover have "unat addr + 24 * length (sl_slots t) + 32 * length (sl_stats t) + 24 * length (sl_pages t) \<le> unat (sl_start t)"
    using S(3) [OF pos(1)] unfolding t(5,7,8) lp by linarith
  ultimately show ?thesis using S(3) [OF pos(1)] room e un unfolding t(3,5-8) by simp
qed

section \<open>Taking and giving back\<close>

text \<open>C27: A request for \<open>m\<close> pages fails only when every free run is shorter; otherwise it takes the front of a free run
  that is long enough and leaves the rest free.\<close>

theorem slab_alloc_pages_correct:
  assumes "slab_tiles t ts" "0 < m" "m < 2 ^ 64"
  shows "stl_slab_alloc_pages t (of_nat m) = Some (None, t) \<and> (\<forall>n. Free_run n \<in> set ts \<longrightarrow> n < m) \<or>
    (\<exists>t' xs n ys. stl_slab_alloc_pages t (of_nat m) = Some (Some (tlens xs), t') \<and> ts = xs @ Free_run n # ys \<and> m \<le> n \<and>
      slab_tiles t' (xs @ Used_run m # (if m < n then [Free_run (n - m)] else []) @ ys))"
proof -
  obtain fl where inv: "pages_inv (pg t) (sl_last t) ts fl" "sl_last t \<le> length (sl_pages t)" "sl_last t < 2 ^ 63"
    and pf: "sl_pfree t = of_nat (free_total ts)" using assms(1) by (auto simp: slab_tiles_def)
  consider (none) "stl_slab_alloc_pages t (of_nat m) = Some (None, t)" "\<forall>n. Free_run n \<in> set ts \<longrightarrow> n < m"
    | (some) M' fl' xs n ys where
      "stl_slab_alloc_pages t (of_nat m) = Some (Some (tlens xs), with_pg (t\<lparr>sl_pfree := sl_pfree t - of_nat m\<rparr>) M')"
      "ts = xs @ Free_run n # ys" "m \<le> n"
      "pages_inv M' (sl_last t) (xs @ Used_run m # (if m < n then [Free_run (n - m)] else []) @ ys) fl'"
    by (rule alloc_pages_ok [OF inv assms(2,3), unfolded with_pg_pg]) blast+
  then show ?thesis
  proof cases
    case none
    then show ?thesis by blast
  next
    case (some M' fl' xs n ys)
    let ?ts = "xs @ Used_run m # (if m < n then [Free_run (n - m)] else []) @ ys"
    have "free_total ts = free_total ?ts + m" using some(2,3) by simp
    then have "sl_pfree t - of_nat m = of_nat (free_total ?ts)" by (simp only: pf) simp
    then have "slab_tiles (with_pg (t\<lparr>sl_pfree := sl_pfree t - of_nat m\<rparr>) M') ?ts"
      using some(4) inv by (intro slab_tiles_with [where fl = fl']) simp_all
    then show ?thesis using some(1,2,3) by blast
  qed
qed

text \<open>C28: Giving back a run in use frees it and joins it with the free runs on both sides, so that no two free runs
  ever stand side by side.\<close>

theorem slab_free_pages_correct:
  assumes "slab_tiles t (xs @ Used_run n # ys)" "coalesced (xs @ Used_run n # ys)"
  shows "\<exists>t' ws k zs m. stl_slab_free_pages (tlens xs) (of_nat n) t = Some t' \<and>
    slab_tiles t' (ws @ Free_run (k + n + m) # zs) \<and> coalesced (ws @ Free_run (k + n + m) # zs) \<and>
    xs = ws @ (if k = 0 then [] else [Free_run k]) \<and> ys = (if m = 0 then [] else [Free_run m]) @ zs"
proof -
  obtain fl where inv: "pages_inv (pg t) (sl_last t) (xs @ Used_run n # ys) fl" "sl_last t \<le> length (sl_pages t)"
    "sl_last t < 2 ^ 63" and pf: "sl_pfree t = of_nat (free_total (xs @ Used_run n # ys))"
    using assms(1) by (auto simp: slab_tiles_def)
  obtain M' fl' ws zs k m where R: "stl_slab_free_pages (tlens xs) (of_nat n) t =
      Some (with_pg (t\<lparr>sl_pfree := sl_pfree t + of_nat n\<rparr>) M')"
    "pages_inv M' (sl_last t) (ws @ Free_run (k + n + m) # zs) fl'"
    "xs = ws @ [Free_run k] \<or> k = 0 \<and> ws = xs \<and> (\<forall>q qs. xs \<noteq> qs @ [Free_run q])"
    "ys = Free_run m # zs \<or> m = 0 \<and> zs = ys \<and> (\<forall>q qs. ys \<noteq> Free_run q # qs)"
    using free_used_ok [OF inv(1) refl refl inv(2,3), unfolded with_pg_pg] by blast
  have pos: "0 < q" if "Free_run q \<in> set (xs @ ys)" for q
  proof -
    have "Free_run q \<in> set (xs @ Used_run n # ys)" using that by simp
    then obtain as bs where "xs @ Used_run n # ys = as @ Free_run q # bs" by (blast dest: split_list)
    then show ?thesis using inv(1) by (auto simp: pages_inv_def tiled_append)
  qed
  have ft: "free_total (ws @ Free_run (k + n + m) # zs) = free_total (xs @ Used_run n # ys) + n" using R(3,4) by auto
  have "slab_tiles (with_pg (t\<lparr>sl_pfree := sl_pfree t + of_nat n\<rparr>) M') (ws @ Free_run (k + n + m) # zs)"
    using R(2) inv pf by (intro slab_tiles_with [where fl = fl']) (simp_all only: ft, simp_all)
  moreover have "xs = ws @ (if k = 0 then [] else [Free_run k])" "ys = (if m = 0 then [] else [Free_run m]) @ zs"
    using R(3,4) pos [of k] pos [of m] by auto
  moreover have "coalesced (ws @ Free_run (k + n + m) # zs)"
    using assms(2) R(3,4) by (auto simp: coalesced_append [of _ _ "_ # _"] coalesced_append [of xs] coalesced_append [of ws] coalesced_snoc coalesced_Cons)
  ultimately show ?thesis using R(1) by blast
qed


section \<open>Concrete pools\<close>

definition small_pool :: stl_slab where
  "small_pool = raw_pool\<lparr>sl_last := 3, sl_pfree := 3, sl_free := zero_page\<lparr>sp_next := Pg_Page 0\<rparr>,
    sl_pages := [\<lparr>sp_slab = 3, sp_next = Pg_Free, sp_prev = (Pg_Free, 0)\<rparr>, zero_page, zero_page]\<rparr>"

lemma small_pool_tiles: "slab_tiles small_pool [Free_run 3]"
  unfolding slab_tiles_def
  by (intro conjI exI [of _ "[0]"]) (simp_all add: small_pool_def pages_inv_def pg_def zero_page_def)

theorem slab_alloc_pages_correct_witness:
  "\<exists>t. stl_slab_alloc_pages small_pool 2 = Some (Some 0, t) \<and> slab_tiles t [Used_run 2, Free_run 1]"
  using slab_alloc_pages_correct [OF small_pool_tiles, of 2] by (auto simp: Cons_eq_append_conv)

definition gap_pool :: stl_slab where
  "gap_pool = raw_pool\<lparr>sl_last := 3, sl_pfree := 2, sl_free := zero_page\<lparr>sp_next := Pg_Page 0\<rparr>,
    sl_pages := [\<lparr>sp_slab = 1, sp_next = Pg_Page 2, sp_prev = (Pg_Free, 0)\<rparr>, run_page 1,
      \<lparr>sp_slab = 1, sp_next = Pg_Free, sp_prev = (Pg_Page 0, 0)\<rparr>]\<rparr>"

lemma gap_pool_tiles: "slab_tiles gap_pool ([Free_run 1] @ Used_run 1 # [Free_run 1])"
  unfolding slab_tiles_def
  by (intro conjI exI [of _ "[0, 2]"]) (simp_all add: gap_pool_def pages_inv_def pg_def, simp add: numeral_2_eq_2)

theorem slab_free_pages_correct_witness:
  "\<exists>t. stl_slab_free_pages 1 1 gap_pool = Some t \<and> slab_tiles t [Free_run 3]"
  using slab_free_pages_correct [OF gap_pool_tiles] by (auto simp: Cons_eq_append_conv numeral_3_eq_3 split: if_splits)

theorem slab_init_correct_witness:
  "\<exists>g t. stl_slab_init 4096 0x10000 zero_sizes (Some raw_pool) 20000 = Some (0, g, Some t) \<and> slab_tiles t [Free_run 3] \<and>
     unat (stl_slab_page_addr g t 2) = unat (sl_start t) + 8192 \<and> 0x10000 + 9 * 24 + 9 * 32 + 3 * 24 \<le> unat (sl_start t)"
proof -
  have c: "count_shift 4096 0 = 12" "count_shift 64 0 = 6" by code_simp+
  obtain g t where r: "stl_slab_init 4096 0x10000 zero_sizes (Some raw_pool) 20000 = Some (0, g, Some t)" "sl_last t = 3"
    by (simp add: stl_slab_init_def stl_slab_sizes_init_def Let_def zero_sizes_def raw_pool_def c sizeof_page_def
      sizeof_stat_def stl_align_ptr_def page_upd_def mem_read_def mem_write_def)
  show ?thesis using slab_init_correct [of 12 "0x10000" zero_sizes raw_pool 20000 g t] r
    by (simp add: zero_sizes_def slab_tiles_def)
qed

end
