(* ===== verification/Spec2Isabelle.thy ===== *)
theory Spec2Isabelle
  imports Raft_Handlers Raft_Cluster Ring_Buffer Base64 Hash Jenkins Md5 Sha1 Rwlock Thread_Pool Radix_Tree
    Rbtree_Unlink Dict Ini_Roundtrip Stl_String Rand Slab_Pool
begin

text \<open>
  Verification of kirinfs.

  \<^bold>\<open>The program.\<close> kirinfs is the beginning of a distributed file system in C. Its own logic is in two
  libraries: \<open>module/raft\<close>, an implementation of the Raft consensus protocol that a management
  or metadata service embeds, and \<open>module/stl\<close>, the containers, checksums, encodings and locks the
  services are built from. The services themselves (\<open>mgmt\<close>, \<open>meta\<close>, \<open>client\<close>) are thin: sockets,
  a command line, calls of the WiredTiger and FUSE libraries.

  \<^bold>\<open>How the code is modelled.\<close> A struct is a record, a pointer to one of several aliased objects an
  address in a list of objects, an array a list whose accesses are checked (\<open>mem_read\<close>, \<open>mem_write\<close> of
  C_Prelude). A function returns \<open>None\<close> where the C program has no defined behaviour or aborts: a NULL or
  dangling pointer, an access out of bounds, a failed assertion. Its own error codes are part of the
  result, as in the code. Unsigned integers whose width matters are machine words; signed ones,
  whose overflow is undefined, are integers. Loops are recursive functions that terminate. Those that may
  not end are partial functions, whose termination is proved where the data is well formed:
  \<open>raft_apply_all\<close> under the server's invariant, and the descents and repairs of the red-black tree
  (\<open>insert_place\<close>, \<open>insert_fixup\<close>, \<open>delete_fixup\<close>, \<open>search_loop\<close>) on a well-formed tree.

  \<^bold>\<open>Raft.\<close>
  \<^item> Raft_Types: the enumerations, entries, messages and the callback table of \<open>include/raft.h\<close>. What
    the library hands to a callback is an event of the server's trace.
  \<^item> Raft_Log: \<open>src/raft_log.c\<close>, the log as a ring in a growing array. It behaves as a list under
    append, lookup, deletion of a suffix and polling, by the locale \<open>replicated_log\<close>; two
    theorems show where the code fails after a poll, one of them exactly when an append overruns the array.
  \<^item> Raft_Node: \<open>src/raft_node.c\<close>, a peer with its indices and flag word.
  \<^item> Raft_Server: \<open>src/raft_server.c\<close> and \<open>src/raft_server_properties.c\<close>, the server's state and every
    handler.
  \<^item> Raft_Election: an abstract election protocol of five moves, and the refinement of it by every
    handler. Raft_Cluster: a cluster of servers over a network that loses, duplicates, delays and
    reorders; election safety is proved on the abstract system and carried to the handlers by a
    simulation.
  \<^item> Raft_Invariant: the invariant of a server, kept by every call, and the permanence of committed
    entries. Raft_Handlers: what each handler computes, and where the handlers fail.

  \<^bold>\<open>The stl library.\<close>
  \<^item> Ring_Buffer: \<open>stl_ring_buffer.c\<close> is a bounded first-in first-out queue (locale \<open>bounded_queue\<close>): any sequence
    of operations returns what it returns on a list of at most one element less than the capacity.
  \<^item> Base64: \<open>stl_base64.c\<close>, the round trip and the length bounds.
  \<^item> Crc_Tables, Crc: \<open>stl_crc.c\<close> and the checksums of \<open>stl_hash.c\<close>; the table-driven loops are
    the shift registers of their polynomials and detect short bursts.
  \<^item> Hash, Jenkins: the other functions of \<open>stl_hash.c\<close>; they read only their key, and the three
    bodies of the Jenkins hash agree whatever the alignment.
  \<^item> Block_Stream, Md5, Sha1: \<open>stl_md5.c\<close> and \<open>stl_sha1.c\<close> compute RFC 1321 and FIPS 180-4 however the
    message is cut into pieces (locale \<open>digest\<close>).
  \<^item> Rwlock: \<open>stl_rwlock.c\<close> as interleaved accesses to the lock word. No file defines \<open>STL_SMP\<close>, so the
    compare-and-set and the add have no \<open>lock\<close> prefix; on several processors each is a read and a later write.
    Mutual exclusion holds exactly on one processor, where also the meaning of the word is proved and that a
    free lock is taken.
  \<^item> Task_Queue, Thread_Pool: \<open>stl_thread_pool.c\<close>. The queue is a list in a heap of tasks (locale
    \<open>fifo\<close>); workers and clients are interleaved. As long as no task has a NULL function or argument, which
    crashes a worker, every task runs exactly once and no wake-up of a worker is lost; a waiting client may
    miss the last signal. The read of a queue's length in \<open>stl_thread_pool_wait\<close> is a data race; its value is
    left open in every step of the model.
  \<^item> Radix_Tree: \<open>stl_radix_tree.c\<close>, a trie of 32-bit prefixes in a heap of nodes with a free list. On the
    map it stands for, insertion, deletion with pruning, and lookup as a longest prefix match are
    right for every allocator that meets the stated contract.
  \<^item> Rbtree: \<open>stl_rbtree.c\<close>, nodes in a heap with parent pointers and a sentinel. Rbtree_Shape relates a
    heap to a tree with a hole and proves the rotations; Rbtree_Insert and Rbtree_Delete follow the two
    repair loops through it; Rbtree_Map (insertion, height, search) and Rbtree_Unlink (deletion) state
    the result on the list of nodes in key order, for trees whose root the caller has set to the sentinel (the
    library creates them with a NULL root). \<open>stl_rbtree_min\<close> is called by the code and defined
    nowhere: it is a parameter, with the hypothesis that it finds the leftmost node.
  \<^item> Byte_Heap, Dict: \<open>stl_dict.c\<close>, chains of pairs of items. With integer keys that fit into the length of
    their items the table is a map (locale \<open>insert_map\<close>); other keys, deletion and release fail as the theorems there
    say.
  \<^item> Ini, Ini_Roundtrip: \<open>stl_ini.c\<close>. What the dump writes the parser reads back; what search, put and
    delete do.
  \<^item> Stl_String: \<open>stl_string.c\<close>, the union of eight characters and a pointer. Searching and changing
    the case are right; appending is right exactly up to the eight characters.
  \<^item> Slab: \<open>stl_slab.c\<close>, the pool with its page structs, slot lists and bitmaps; every operation is executable.
  \<^item> Slab_Pages, Slab_Pool: the array of page structs is tiled by runs that are free, in use or cut into chunks, and the
    free list links exactly the free ones; the first initialisation sets this up and lays out structs and pages, taking a run and giving one back keep it, and no
    two free runs ever stand side by side.
  \<^item> Rand: \<open>stl_rand.c\<close> is the generator \<open>drand48\<close> on limbs, and what its strings look like.

  \<^bold>\<open>Not modelled.\<close>
  \<^item> \<open>stl_log.c\<close>, \<open>stl_socket.c\<close>, \<open>stl_epoll.c\<close>, \<open>stl_mutex.c\<close>, \<open>stl_cond.c\<close>, \<open>stl_thread.c\<close>: output and calls
    of the system and of the pthread library, one after the other.
  \<^item> \<open>stl_array.c\<close> does not compile: \<open>stl_array_remove\<close> is defined twice and \<open>void\<close> pointers are indexed.
  \<^item> \<open>stl_hash_jump_consistent\<close> computes in floating point; \<open>stl_thread_pool_deinit\<close> reads the array of
    queue pointers as a queue and has no defined meaning.
  \<^item> \<open>meta\<close>, \<open>client\<close>: calls of WiredTiger and FUSE, which are not in the repository. \<open>mgmt\<close>: a dialogue
    over sockets, whose handler never reaches its body. The tests and the generator of topologies.
\<close>

end
